(* ===== verification/RT_Prelude.thy ===== *)
theory RT_Prelude
  imports Main "HOL-Library.Word" "HOL-Library.Monad_Syntax"
begin

text \<open>
  Shared vocabulary of the development: the machine integer types of
  \<^verbatim>\<open>Kernel/include/rtdef.h\<close>, the error codes, the alignment macros, and the
  generic lemmas on lists, options and words that the component theories use.

  Convention: a kernel function that can stop in the endless loop of
  \<^verbatim>\<open>rt_assert_handler\<close> (a failed \<^verbatim>\<open>RT_ASSERT\<close>), loop forever, or index an array
  outside its bounds has an option result, and \<^term>\<open>None\<close> means that the call does
  not return in a defined state.
\<close>

unbundle bit_operations_syntax

subsection \<open>Integer types\<close>

type_synonym u8 = "8 word"
type_synonym u16 = "16 word"
type_synonym u32 = "32 word"
type_synonym rt_err_t = int

text \<open>Addresses of statically or dynamically allocated structures.\<close>

type_synonym tid = nat
type_synonym oid = nat

subsection \<open>Constants\<close>

abbreviation (input) RT_TICK_MAX :: u32 where "RT_TICK_MAX \<equiv> 0xffffffff"
abbreviation (input) RT_THREAD_PRIORITY_MAX :: nat where "RT_THREAD_PRIORITY_MAX \<equiv> 32"
abbreviation (input) RT_NAME_MAX :: nat where "RT_NAME_MAX \<equiv> 8"

abbreviation (input) RT_EOK :: rt_err_t where "RT_EOK \<equiv> 0"
abbreviation (input) RT_ERROR :: rt_err_t where "RT_ERROR \<equiv> 1"
abbreviation (input) RT_ETIMEOUT :: rt_err_t where "RT_ETIMEOUT \<equiv> 2"
abbreviation (input) RT_EFULL :: rt_err_t where "RT_EFULL \<equiv> 3"
abbreviation (input) RT_EEMPTY :: rt_err_t where "RT_EEMPTY \<equiv> 4"
abbreviation (input) RT_ENOMEM :: rt_err_t where "RT_ENOMEM \<equiv> 5"
abbreviation (input) RT_ENOSYS :: rt_err_t where "RT_ENOSYS \<equiv> 6"
abbreviation (input) RT_EBUSY :: rt_err_t where "RT_EBUSY \<equiv> 7"
abbreviation (input) RT_EIO :: rt_err_t where "RT_EIO \<equiv> 8"

definition RT_ALIGN :: "u32 \<Rightarrow> u32 \<Rightarrow> u32" where
  "RT_ALIGN sz align = (sz + align - 1) AND NOT (align - 1)"

definition RT_ALIGN_DOWN :: "u32 \<Rightarrow> u32 \<Rightarrow> u32" where
  "RT_ALIGN_DOWN sz align = sz AND NOT (align - 1)"

subsection \<open>Assertions\<close>

text \<open>\<^verbatim>\<open>RT_ASSERT(EX)\<close> with no assertion hook installed.\<close>

definition rt_assert :: "bool \<Rightarrow> unit option" where
  "rt_assert ex = (if ex then Some () else None)"

lemma rt_assert_True [simp]: "rt_assert True = Some ()"
  by (simp add: rt_assert_def)

lemma rt_assert_Some_iff [simp]: "rt_assert b = Some x \<longleftrightarrow> b"
  by (simp add: rt_assert_def)

lemma rt_assert_bind_Some [simp]: "(rt_assert b \<bind> f = Some y) \<longleftrightarrow> (b \<and> f () = Some y)"
  by (simp add: rt_assert_def)

subsection \<open>Lists\<close>

lemma last_snoc_hd: "xs \<noteq> [] \<Longrightarrow> hd (xs @ ys) = hd xs"
  by (rule hd_append2)

lemma distinct_remove1_set [simp]: "distinct xs \<Longrightarrow> set (remove1 x xs) = set xs - {x}"
  by (rule set_remove1_eq)

lemma remove1_split: "x \<notin> set xs \<Longrightarrow> remove1 x (xs @ x # ys) = xs @ ys"
  by (simp add: remove1_append)

lemma hd_in_set_case: "(case xs of [] \<Rightarrow> None | x # _ \<Rightarrow> Some x) = Some y \<Longrightarrow> y \<in> set xs"
  by (cases xs) auto

lemma sorted_wrt_remove1: "sorted_wrt P xs \<Longrightarrow> sorted_wrt P (remove1 x xs)"
  by (induction xs) (auto dest: set_remove1_subset[THEN subsetD])

subsection \<open>Words\<close>

lemma bit_push_bit_one [simp]: "n < 32 \<Longrightarrow> bit (2 ^ n :: u32) i \<longleftrightarrow> i = n"
  by (auto simp: bit_exp_iff)

lemmas word_zero_iff [simp] = signed_eq_0_iff unsigned_eq_0_iff word_uint_eq_iff [symmetric]

lemma sint_small:
  assumes "unat (w :: 'a::len word) < 2 ^ (LENGTH('a) - 1)"
  shows "sint w = int (unat w)"
proof -
  have "int (unat w) < 2 ^ (LENGTH('a) - 1)" using assms by (metis of_nat_less_iff of_nat_numeral of_nat_power)
  moreover have "- (2 ^ (LENGTH('a) - 1)) \<le> int (unat w)"
    by (rule order_trans[of _ 0]) simp_all
  ultimately show ?thesis
    by (simp add: sint_uint signed_take_bit_int_eq_self del: int_nat_eq flip: uint_nat)
qed

lemma unat_u32_less: "unat (w :: u32) < 4294967296"
  using unsigned_less[of w] by simp

lemma unat_u16_less: "unat (w :: u16) < 65536"
  using unsigned_less[of w] by simp

lemma word_and_eq_self_iff: "(a AND b = (a::'a::len word)) \<longleftrightarrow> (\<forall>i. bit a i \<longrightarrow> bit b i)"
  by (auto simp: bit_eq_iff bit_and_iff dest: bit_imp_le_length)

end
