(* ===== verification/RT_List.thy ===== *)
theory RT_List
  imports RT_Prelude
begin

text \<open>
  The intrusive doubly linked lists of \<^verbatim>\<open>Kernel/include/rtservice.h\<close>.

  The first part is the pointer program: a store gives every node its \<^verbatim>\<open>next\<close> and
  \<^verbatim>\<open>prev\<close> pointer, and the operations are the assignments of the source in their
  order. A node is the head of a list (embedded in the scheduler, in an IPC object, ...)
  or the link embedded in a list member.

  The second part is the family of lists that the rest of the kernel is written over:
  every head owns a list of members. \<open>reps\<close> relates a store to a family, and the
  locale \<open>list_store\<close> states what the kernel relies on; it is interpreted on the
  pointer program.
\<close>

subsection \<open>The pointer program\<close>

datatype ('h, 'n) node = Head 'h | Node 'n

record ('h, 'n) links =
  nxt :: "('h, 'n) node \<Rightarrow> ('h, 'n) node"
  prv :: "('h, 'n) node \<Rightarrow> ('h, 'n) node"

definition rt_list_init :: "('h, 'n) node \<Rightarrow> ('h, 'n) links \<Rightarrow> ('h, 'n) links" where
  "rt_list_init l s = s\<lparr>nxt := (nxt s)(l := l), prv := (prv s)(l := l)\<rparr>"

definition rt_list_insert_after ::
    "('h, 'n) node \<Rightarrow> ('h, 'n) node \<Rightarrow> ('h, 'n) links \<Rightarrow> ('h, 'n) links" where
  "rt_list_insert_after l n s =
    (let s = s\<lparr>prv := (prv s)(nxt s l := n)\<rparr>;
         s = s\<lparr>nxt := (nxt s)(n := nxt s l)\<rparr>;
         s = s\<lparr>nxt := (nxt s)(l := n)\<rparr>;
         s = s\<lparr>prv := (prv s)(n := l)\<rparr>
     in s)"

definition rt_list_insert_before ::
    "('h, 'n) node \<Rightarrow> ('h, 'n) node \<Rightarrow> ('h, 'n) links \<Rightarrow> ('h, 'n) links" where
  "rt_list_insert_before l n s =
    (let s = s\<lparr>nxt := (nxt s)(prv s l := n)\<rparr>;
         s = s\<lparr>prv := (prv s)(n := prv s l)\<rparr>;
         s = s\<lparr>prv := (prv s)(l := n)\<rparr>;
         s = s\<lparr>nxt := (nxt s)(n := l)\<rparr>
     in s)"

definition rt_list_remove :: "('h, 'n) node \<Rightarrow> ('h, 'n) links \<Rightarrow> ('h, 'n) links" where
  "rt_list_remove n s =
    (let s = s\<lparr>prv := (prv s)(nxt s n := prv s n)\<rparr>;
         s = s\<lparr>nxt := (nxt s)(prv s n := nxt s n)\<rparr>;
         s = s\<lparr>prv := (prv s)(n := n)\<rparr>;
         s = s\<lparr>nxt := (nxt s)(n := n)\<rparr>
     in s)"

definition rt_list_isempty :: "('h, 'n) node \<Rightarrow> ('h, 'n) links \<Rightarrow> bool" where
  "rt_list_isempty l s \<longleftrightarrow> nxt s l = l"

subsection \<open>The family of lists\<close>

definition q_init :: "'h \<Rightarrow> ('h \<Rightarrow> 'n list) \<Rightarrow> ('h \<Rightarrow> 'n list)" where
  "q_init h Q = Q(h := [])"

definition q_insert_before :: "'h \<Rightarrow> 'n \<Rightarrow> ('h \<Rightarrow> 'n list) \<Rightarrow> ('h \<Rightarrow> 'n list)" where
  "q_insert_before h n Q = Q(h := Q h @ [n])"

definition q_insert_after :: "'h \<Rightarrow> 'n \<Rightarrow> ('h \<Rightarrow> 'n list) \<Rightarrow> ('h \<Rightarrow> 'n list)" where
  "q_insert_after h n Q = Q(h := n # Q h)"

text \<open>Insertion before a member \<open>m\<close>, in whichever list holds it.\<close>

fun ins_before :: "'n \<Rightarrow> 'n \<Rightarrow> 'n list \<Rightarrow> 'n list" where
  "ins_before m n [] = []"
| "ins_before m n (x # xs) = (if x = m then n # x # xs else x # ins_before m n xs)"

definition q_insert_before_node :: "'n \<Rightarrow> 'n \<Rightarrow> ('h \<Rightarrow> 'n list) \<Rightarrow> ('h \<Rightarrow> 'n list)" where
  "q_insert_before_node m n Q = (\<lambda>h. ins_before m n (Q h))"

definition q_remove :: "'n \<Rightarrow> ('h \<Rightarrow> 'n list) \<Rightarrow> ('h \<Rightarrow> 'n list)" where
  "q_remove n Q = (\<lambda>h. remove1 n (Q h))"

definition q_isempty :: "'h \<Rightarrow> ('h \<Rightarrow> 'n list) \<Rightarrow> bool" where
  "q_isempty h Q \<longleftrightarrow> Q h = []"

lemmas q_defs = q_init_def q_insert_before_def q_insert_after_def q_insert_before_node_def
  q_remove_def q_isempty_def

subsection \<open>Segments and rings of the store\<close>

fun dseg :: "('h, 'n) links \<Rightarrow> ('h, 'n) node \<Rightarrow> ('h, 'n) node list \<Rightarrow> ('h, 'n) node \<Rightarrow> bool" where
  "dseg s a [] b \<longleftrightarrow> nxt s a = b \<and> prv s b = a"
| "dseg s a (x # xs) b \<longleftrightarrow> nxt s a = x \<and> prv s x = a \<and> dseg s x xs b"

definition ring :: "('h, 'n) links \<Rightarrow> ('h, 'n) node \<Rightarrow> ('h, 'n) node list \<Rightarrow> bool" where
  "ring s l xs \<longleftrightarrow> distinct (l # xs) \<and> dseg s l xs l"

definition reps :: "('h, 'n) links \<Rightarrow> ('h \<Rightarrow> 'n list) \<Rightarrow> bool" where
  "reps s Q \<longleftrightarrow>
     (\<forall>h. ring s (Head h) (map Node (Q h))) \<and>
     (\<forall>h h' n. n \<in> set (Q h) \<longrightarrow> n \<in> set (Q h') \<longrightarrow> h = h') \<and>
     (\<forall>n. (\<forall>h. n \<notin> set (Q h)) \<longrightarrow> ring s (Node n) [])"

lemma dseg_append: "dseg s a (xs @ y # ys) b \<longleftrightarrow> dseg s a xs y \<and> dseg s y ys b"
  by (induction xs arbitrary: a) auto

lemma dseg_frame:
  "(\<And>y. y \<in> set (a # xs) \<Longrightarrow> nxt s' y = nxt s y) \<Longrightarrow>
   (\<And>y. y \<in> set (xs @ [b]) \<Longrightarrow> prv s' y = prv s y) \<Longrightarrow>
   dseg s' a xs b \<longleftrightarrow> dseg s a xs b"
  by (induction xs arbitrary: a) auto

lemma dseg_last: "dseg s a xs b \<Longrightarrow> prv s b = last (a # xs)"
  by (induction xs arbitrary: a) auto

lemma dseg_first: "dseg s a xs b \<Longrightarrow> nxt s a = hd (xs @ [b])"
  by (cases xs) auto

text \<open>The common effect of the two insertions: \<open>n\<close> goes between \<open>k\<close> and its successor \<open>m\<close>.\<close>

definition link_between ::
    "('h, 'n) node \<Rightarrow> ('h, 'n) node \<Rightarrow> ('h, 'n) node \<Rightarrow> ('h, 'n) links \<Rightarrow> ('h, 'n) links" where
  "link_between k n m s =
     s\<lparr>nxt := (nxt s)(n := m, k := n), prv := (prv s)(m := n, n := k)\<rparr>"

lemma insert_after_link:
  "n \<noteq> l \<Longrightarrow> rt_list_insert_after l n s = link_between l n (nxt s l) s"
  by (auto simp: rt_list_insert_after_def link_between_def)

lemma insert_before_link:
  "n \<noteq> l \<Longrightarrow> n \<noteq> prv s l \<Longrightarrow> rt_list_insert_before l n s = link_between (prv s l) n l s"
  by (auto simp: rt_list_insert_before_def link_between_def fun_eq_iff)

lemma ring_link_between:
  assumes ring: "ring s l (as @ bs)" and n: "n \<notin> set (l # as @ bs)"
    and k: "k = last (l # as)" and m: "m = hd (bs @ [l])"
  shows "ring (link_between k n m s) l (as @ n # bs)"
proof -
  let ?s = "link_between k n m s"
  from ring have d: "distinct (l # as @ bs)" and seg: "dseg s l (as @ bs) l"
    by (auto simp: ring_def)
  have left: "dseg ?s l as n"
  proof (cases as rule: rev_cases)
    case Nil
    with k show ?thesis by (simp add: link_between_def)
  next
    case (snoc as' a)
    with k have [simp]: "k = a" by simp
    from seg snoc have "dseg s l as' a" by (simp add: dseg_append)
    then have "dseg ?s l as' a"
      using d n snoc m by (subst dseg_frame[of _ _ _ s]) (cases bs; auto simp: link_between_def)+
    with snoc show ?thesis
      by (simp add: dseg_append) (simp add: link_between_def)
  qed
  have right: "dseg ?s n bs l"
  proof (cases bs)
    case Nil
    with m n k show ?thesis by (cases as rule: rev_cases) (auto simp: link_between_def)
  next
    case (Cons b bs')
    with m have [simp]: "m = b" by simp
    from seg Cons have "dseg s b bs' l" by (simp add: dseg_append)
    then have "dseg ?s b bs' l"
      using d n Cons k by (subst dseg_frame[of _ _ _ s]) (cases as rule: rev_cases; auto simp: link_between_def)+
    moreover have "nxt ?s n = b" "prv ?s b = n"
      using n Cons k by (auto simp: link_between_def)
    ultimately show ?thesis using Cons by simp
  qed
  from left right d n show ?thesis
    by (auto simp: ring_def dseg_append)
qed

lemma ring_frame:
  assumes "\<And>y. y \<in> set (l # xs) \<Longrightarrow> nxt s' y = nxt s y \<and> prv s' y = prv s y"
  shows "ring s' l xs \<longleftrightarrow> ring s l xs"
  unfolding ring_def using assms by (subst dseg_frame[of _ _ _ s]) auto

definition unlink ::
    "('h, 'n) node \<Rightarrow> ('h, 'n) node \<Rightarrow> ('h, 'n) node \<Rightarrow> ('h, 'n) links \<Rightarrow> ('h, 'n) links" where
  "unlink k n m s =
     s\<lparr>nxt := (nxt s)(k := m, n := n), prv := (prv s)(m := k, n := n)\<rparr>"

lemma remove_unlink:
  "n \<noteq> nxt s n \<Longrightarrow> n \<noteq> prv s n \<Longrightarrow> rt_list_remove n s = unlink (prv s n) n (nxt s n) s"
  by (auto simp: rt_list_remove_def unlink_def fun_eq_iff)

lemma remove_isolated: "ring s n [] \<Longrightarrow> rt_list_remove n s = s"
  by (cases s) (auto simp: rt_list_remove_def ring_def fun_eq_iff)

lemma ring_unlink:
  assumes ring: "ring s l (as @ n # bs)"
    and k: "k = last (l # as)" and m: "m = hd (bs @ [l])"
  shows "ring (unlink k n m s) l (as @ bs)"
proof -
  let ?s = "unlink k n m s"
  from ring have d: "distinct (l # as @ n # bs)" and seg: "dseg s l as n" "dseg s n bs l"
    by (auto simp: ring_def dseg_append)
  have left: "dseg ?s l as m"
  proof (cases as rule: rev_cases)
    case Nil
    with k m d show ?thesis by (cases bs) (auto simp: unlink_def)
  next
    case (snoc as' a)
    with k have [simp]: "k = a" by simp
    from seg snoc have "dseg s l as' a" by (simp add: dseg_append)
    then have "dseg ?s l as' a"
      using d snoc m by (subst dseg_frame[of _ _ _ s]) (cases bs; auto simp: unlink_def)+
    moreover have "nxt ?s a = m" "prv ?s m = a"
      using d snoc m by (cases bs; auto simp: unlink_def)+
    ultimately show ?thesis using snoc by (simp add: dseg_append)
  qed
  show ?thesis
  proof (cases bs)
    case Nil
    with left d m show ?thesis by (simp add: ring_def)
  next
    case (Cons b bs')
    with m have [simp]: "m = b" by simp
    from seg Cons have "dseg s b bs' l" by simp
    then have "dseg ?s b bs' l"
      using d Cons k by (subst dseg_frame[of _ _ _ s]) (cases as rule: rev_cases; auto simp: unlink_def)+
    with left d Cons show ?thesis by (simp add: ring_def dseg_append)
  qed
qed

lemma ring_pos:
  assumes "ring s l (as @ n # bs)"
  shows "prv s n = last (l # as)" "nxt s n = hd (bs @ [l])"
    "last (l # as) \<in> set (l # as)" "hd (bs @ [l]) \<in> set (l # bs)"
    "n \<noteq> prv s n" "n \<noteq> nxt s n"
proof -
  from assms have d: "distinct (l # as @ n # bs)" and seg: "dseg s l as n" "dseg s n bs l"
    by (auto simp: ring_def dseg_append)
  show p: "prv s n = last (l # as)" using dseg_last[OF seg(1)] .
  show q: "nxt s n = hd (bs @ [l])" using dseg_first[OF seg(2)] .
  show a: "last (l # as) \<in> set (l # as)" by simp
  show b: "hd (bs @ [l]) \<in> set (l # bs)" by (cases bs) auto
  show "n \<noteq> prv s n" using p a d by (auto split: if_splits)
  show "n \<noteq> nxt s n" using q b d by auto
qed

lemma ring_head:
  assumes "ring s l xs"
  shows "prv s l = last (l # xs)" "nxt s l = hd (xs @ [l])"
  using assms dseg_last[of s l xs l] dseg_first[of s l xs l] by (auto simp: ring_def)

subsection \<open>The operations on a represented family\<close>

lemma repsD:
  assumes "reps s Q"
  shows "ring s (Head h) (map Node (Q h))"
    and "n \<in> set (Q h) \<Longrightarrow> n \<in> set (Q h') \<Longrightarrow> h = h'"
    and "(\<And>h. n \<notin> set (Q h)) \<Longrightarrow> ring s (Node n) []"
    and "distinct (Q h)"
  using assms by (auto simp: reps_def ring_def distinct_map)

text \<open>
  Rebuilding \<open>reps\<close> after a local change: one list changes, its new ring is known, one
  node moves, and every other ring is untouched.
\<close>

lemma reps_change:
  assumes r: "reps s Q"
    and new: "ring s' (Head h) (map Node xs)"
    and members: "set xs - {n} = set (Q h) - {n}" "\<And>h'. h' \<noteq> h \<Longrightarrow> n \<notin> set (Q h')"
    and out: "n \<notin> set xs \<Longrightarrow> ring s' (Node n) []"
    and frame: "\<And>y. y \<noteq> Node n \<Longrightarrow> y \<noteq> Head h \<Longrightarrow> y \<notin> Node ` set (Q h) \<Longrightarrow>
                   nxt s' y = nxt s y \<and> prv s' y = prv s y"
  shows "reps s' (Q(h := xs))"
  unfolding reps_def
proof (intro conjI allI impI)
  fix h'
  show "ring s' (Head h') (map Node ((Q(h := xs)) h'))"
  proof (cases "h' = h")
    case True
    with new show ?thesis by simp
  next
    case False
    have "ring s' (Head h') (map Node (Q h')) = ring s (Head h') (map Node (Q h'))"
      using False members(2)[OF False] repsD(2)[OF r, of _ h h'] by (intro ring_frame frame) auto
    with False repsD(1)[OF r] show ?thesis by simp
  qed
next
  fix h1 h2 x
  assume "x \<in> set ((Q(h := xs)) h1)" "x \<in> set ((Q(h := xs)) h2)"
  then show "h1 = h2"
    using members repsD(2)[OF r, of x] by (auto split: if_splits)
next
  fix x
  assume *: "\<forall>h'. x \<notin> set ((Q(h := xs)) h')"
  show "ring s' (Node x) []"
  proof (cases "x = n")
    case True
    with * out show ?thesis by (auto dest: spec[of _ h])
  next
    case False
    then have nin: "\<And>h'. x \<notin> set (Q h')"
      using * members(1) by (metis Diff_iff fun_upd_apply insert_iff empty_iff)
    then have "ring s' (Node x) [] = ring s (Node x) []"
      using False by (intro ring_frame frame) auto
    with repsD(3)[OF r nin] show ?thesis by simp
  qed
qed

definition unlinked :: "'n \<Rightarrow> ('h \<Rightarrow> 'n list) \<Rightarrow> bool" where
  "unlinked n Q \<longleftrightarrow> (\<forall>h. n \<notin> set (Q h))"

lemma unlinkedD: "unlinked n Q \<Longrightarrow> n \<notin> set (Q h)"
  by (simp add: unlinked_def)

lemma reps_link:
  assumes r: "reps s Q" and q: "Q h = as @ bs" and n: "unlinked n Q"
    and k: "k = last (Head h # map Node as)" and m: "m = hd (map Node bs @ [Head h])"
  shows "reps (link_between k (Node n) m s) (Q(h := as @ n # bs))"
proof (rule reps_change[OF r, where n = n])
  from r have ring: "ring s (Head h) (map Node as @ map Node bs)"
    using repsD(1)[OF r, of h] q by simp
  show "ring (link_between k (Node n) m s) (Head h) (map Node (as @ n # bs))"
    using ring_link_between[OF ring _ k m, of "Node n"] unlinkedD[OF n, of h] q by auto
  have "k \<in> insert (Head h) (Node ` set (Q h))"
    using k q by (cases as rule: rev_cases) auto
  moreover have "m \<in> insert (Head h) (Node ` set (Q h))"
    using m q by (cases bs) auto
  ultimately show "nxt (link_between k (Node n) m s) y = nxt s y \<and> prv (link_between k (Node n) m s) y = prv s y"
    if "y \<noteq> Node n" "y \<noteq> Head h" "y \<notin> Node ` set (Q h)" for y
    using that by (auto simp: link_between_def)
qed (use n q in \<open>auto simp: unlinked_def\<close>)

lemma reps_insert_after_head:
  assumes "reps s Q" "unlinked n Q"
  shows "reps (rt_list_insert_after (Head h) (Node n) s) (q_insert_after h n Q)"
  using reps_link[OF assms(1) _ assms(2), of h "[]" "Q h"] ring_head(2)[OF repsD(1)[OF assms(1)], of h]
  by (simp add: insert_after_link q_insert_after_def)

lemma reps_insert_before_head:
  assumes "reps s Q" "unlinked n Q"
  shows "reps (rt_list_insert_before (Head h) (Node n) s) (q_insert_before h n Q)"
proof -
  note ring = repsD(1)[OF assms(1), of h]
  have "prv s (Head h) \<noteq> Node n"
    using ring_head(1)[OF ring] unlinkedD[OF assms(2), of h] by (cases "Q h" rule: rev_cases) auto
  then show ?thesis
    using reps_link[OF assms(1) _ assms(2), of h "Q h" "[]"] ring_head(1)[OF ring]
    by (simp add: insert_before_link q_insert_before_def)
qed

lemma ins_before_notin: "m \<notin> set xs \<Longrightarrow> ins_before m n xs = xs"
  by (induction xs) auto

lemma ins_before_split: "m \<notin> set as \<Longrightarrow> ins_before m n (as @ m # bs) = as @ n # m # bs"
  by (induction as) auto

lemma q_insert_before_node_upd:
  assumes "reps s Q" "Q h = as @ m # bs"
  shows "q_insert_before_node m n Q = Q(h := as @ n # m # bs)"
proof
  fix h'
  have d: "m \<notin> set as" using repsD(4)[OF assms(1), of h] assms(2) by simp
  show "q_insert_before_node m n Q h' = (Q(h := as @ n # m # bs)) h'"
  proof (cases "h' = h")
    case False
    then have "m \<notin> set (Q h')" using repsD(2)[OF assms(1), of m h h'] assms(2) by auto
    with False show ?thesis by (simp add: q_insert_before_node_def ins_before_notin)
  qed (use assms(2) d in \<open>simp add: q_insert_before_node_def ins_before_split\<close>)
qed

lemma reps_insert_before_node:
  assumes "reps s Q" "unlinked n Q" "m \<in> set (Q h)"
  shows "reps (rt_list_insert_before (Node m) (Node n) s) (q_insert_before_node m n Q)"
proof -
  obtain as bs where q: "Q h = as @ m # bs" using assms(3) by (auto simp: in_set_conv_decomp)
  have ring: "ring s (Head h) (map Node as @ Node m # map Node bs)"
    using repsD(1)[OF assms(1), of h] q by simp
  have "Node n \<noteq> prv s (Node m)" "n \<noteq> m"
    using ring_pos(1,3)[OF ring] unlinkedD[OF assms(2), of h] q by auto
  then show ?thesis
    using reps_link[OF assms(1) _ assms(2), of h as "m # bs"] q ring_pos(1)[OF ring]
    by (simp add: insert_before_link q_insert_before_node_upd[OF assms(1) q])
qed

lemma q_remove_upd:
  assumes "reps s Q" "Q h = as @ n # bs"
  shows "q_remove n Q = Q(h := as @ bs)"
proof
  fix h'
  have d: "n \<notin> set as" using repsD(4)[OF assms(1), of h] assms(2) by simp
  show "q_remove n Q h' = (Q(h := as @ bs)) h'"
  proof (cases "h' = h")
    case False
    then have "n \<notin> set (Q h')" using repsD(2)[OF assms(1), of n h h'] assms(2) by auto
    with False show ?thesis by (simp add: q_remove_def remove1_idem)
  qed (use assms(2) d in \<open>simp add: q_remove_def remove1_split\<close>)
qed

lemma q_remove_unlinked: "unlinked n Q \<Longrightarrow> q_remove n Q = Q"
  by (auto simp: q_remove_def unlinked_def remove1_idem)

lemma reps_remove:
  assumes r: "reps s Q"
  shows "reps (rt_list_remove (Node n) s) (q_remove n Q)"
proof (cases "unlinked n Q")
  case True
  with r show ?thesis
    by (simp add: q_remove_unlinked remove_isolated repsD(3) unlinked_def)
next
  case False
  then obtain h as bs where q: "Q h = as @ n # bs" by (auto simp: unlinked_def in_set_conv_decomp)
  have ring: "ring s (Head h) (map Node as @ Node n # map Node bs)"
    using repsD(1)[OF r, of h] q by simp
  note pos = ring_pos[OF ring]
  let ?s = "unlink (prv s (Node n)) (Node n) (nxt s (Node n)) s"
  have rem: "rt_list_remove (Node n) s = ?s" using pos by (intro remove_unlink) auto
  have nin: "n \<notin> set (as @ bs)" using repsD(4)[OF r, of h] q by simp
  have "reps ?s (Q(h := as @ bs))"
  proof (rule reps_change[OF r, where n = n])
    show "ring ?s (Head h) (map Node (as @ bs))"
      using ring_unlink[OF ring pos(1,2)] by simp
    show "set (as @ bs) - {n} = set (Q h) - {n}" using q by auto
    show "h' \<noteq> h \<Longrightarrow> n \<notin> set (Q h')" for h'
      using repsD(2)[OF r, of n h h'] q by auto
    show "ring ?s (Node n) []" by (simp add: ring_def unlink_def)
    show "nxt ?s y = nxt s y \<and> prv ?s y = prv s y"
      if "y \<noteq> Node n" "y \<noteq> Head h" "y \<notin> Node ` set (Q h)" for y
    proof -
      have "prv s (Node n) \<in> insert (Head h) (Node ` set (Q h))"
        "nxt s (Node n) \<in> insert (Head h) (Node ` set (Q h))"
        using pos(1-4) q by auto
      with that show ?thesis by (auto simp: unlink_def)
    qed
  qed
  then show ?thesis using q_remove_upd[OF r q] rem by simp
qed

lemma reps_isempty: "reps s Q \<Longrightarrow> rt_list_isempty (Head h) s \<longleftrightarrow> q_isempty h Q"
  using ring_head(2)[OF repsD(1), of s Q h]
  by (cases "Q h") (auto simp: rt_list_isempty_def q_isempty_def)

lemma reps_first: "reps s Q \<Longrightarrow> Q h = x # xs \<Longrightarrow> nxt s (Head h) = Node x"
  using ring_head(2)[OF repsD(1), of s Q h] by simp

text \<open>The test \<^verbatim>\<open>next != prev\<close> of a linked node: it is not alone on its list.\<close>

lemma reps_next_prev:
  assumes "reps s Q" "n \<in> set (Q h)"
  shows "nxt s (Node n) \<noteq> prv s (Node n) \<longleftrightarrow> Q h \<noteq> [n]"
proof -
  obtain as bs where q: "Q h = as @ n # bs" using assms(2) by (meson split_list)
  have r: "ring s (Head h) (map Node (Q h))" and d: "distinct (Q h)"
    using assms(1) repsD(4)[OF assms(1)] by (auto simp: reps_def)
  from r q have "dseg s (Head h) (map Node as) (Node n)" "dseg s (Node n) (map Node bs) (Head h)"
    by (simp_all add: ring_def dseg_append)
  then have "prv s (Node n) = last (Head h # map Node as)" "nxt s (Node n) = hd (map Node bs @ [Head h])"
    using dseg_last dseg_first by blast+
  then show ?thesis
    using q d by (cases as rule: rev_cases; cases bs) (auto simp: last_map)
qed

lemma reps_initial: "reps \<lparr>nxt = id, prv = id\<rparr> (\<lambda>_. [])"
  by (auto simp: reps_def ring_def)

subsection \<open>The interface the kernel relies on\<close>

text \<open>One call of a list operation, on heads and members.\<close>

datatype ('h, 'n) list_op =
    Insert_Before 'h 'n
  | Insert_After 'h 'n
  | Insert_Before_Node 'n 'n
  | Remove 'n

text \<open>A node may be inserted only while no list holds it; a position must be in a list.\<close>

fun op_ok :: "('h, 'n) list_op \<Rightarrow> ('h \<Rightarrow> 'n list) \<Rightarrow> bool" where
  "op_ok (Insert_Before h n) Q \<longleftrightarrow> unlinked n Q"
| "op_ok (Insert_After h n) Q \<longleftrightarrow> unlinked n Q"
| "op_ok (Insert_Before_Node m n) Q \<longleftrightarrow> unlinked n Q \<and> \<not> unlinked m Q"
| "op_ok (Remove n) Q \<longleftrightarrow> True"

fun q_op :: "('h, 'n) list_op \<Rightarrow> ('h \<Rightarrow> 'n list) \<Rightarrow> ('h \<Rightarrow> 'n list)" where
  "q_op (Insert_Before h n) = q_insert_before h n"
| "q_op (Insert_After h n) = q_insert_after h n"
| "q_op (Insert_Before_Node m n) = q_insert_before_node m n"
| "q_op (Remove n) = q_remove n"

fun ops_ok :: "('h, 'n) list_op list \<Rightarrow> ('h \<Rightarrow> 'n list) \<Rightarrow> bool" where
  "ops_ok [] Q \<longleftrightarrow> True"
| "ops_ok (x # xs) Q \<longleftrightarrow> op_ok x Q \<and> ops_ok xs (q_op x Q)"

fun p_op :: "('h, 'n) list_op \<Rightarrow> ('h, 'n) links \<Rightarrow> ('h, 'n) links" where
  "p_op (Insert_Before h n) = rt_list_insert_before (Head h) (Node n)"
| "p_op (Insert_After h n) = rt_list_insert_after (Head h) (Node n)"
| "p_op (Insert_Before_Node m n) = rt_list_insert_before (Node m) (Node n)"
| "p_op (Remove n) = rt_list_remove (Node n)"

locale list_store =
  fixes rep :: "'s \<Rightarrow> ('h \<Rightarrow> 'n list) \<Rightarrow> bool"
    and do_op :: "('h, 'n) list_op \<Rightarrow> 's \<Rightarrow> 's"
    and is_empty :: "'h \<Rightarrow> 's \<Rightarrow> bool"
    and first :: "'h \<Rightarrow> 's \<Rightarrow> 'n option"
  assumes rep_op: "rep s Q \<Longrightarrow> op_ok x Q \<Longrightarrow> rep (do_op x s) (q_op x Q)"
    and rep_empty: "rep s Q \<Longrightarrow> is_empty h s \<longleftrightarrow> Q h = []"
    and rep_first: "rep s Q \<Longrightarrow> first h s = (case Q h of [] \<Rightarrow> None | n # _ \<Rightarrow> Some n)"
    and rep_distinct: "rep s Q \<Longrightarrow> distinct (Q h)"
    and rep_disjoint: "rep s Q \<Longrightarrow> n \<in> set (Q h) \<Longrightarrow> n \<in> set (Q h') \<Longrightarrow> h = h'"
begin

lemma rep_run: "rep s Q \<Longrightarrow> ops_ok xs Q \<Longrightarrow> rep (fold do_op xs s) (fold q_op xs Q)"
  by (induction xs arbitrary: s Q) (auto intro: rep_op)

text \<open>Appending at the tail and taking from the head is first in, first out.\<close>

lemma enqueue_all:
  assumes "rep s Q" "distinct ns" "\<And>n. n \<in> set ns \<Longrightarrow> unlinked n Q"
  shows "rep (fold (\<lambda>n. do_op (Insert_Before h n)) ns s) (Q(h := Q h @ ns))"
  using assms
proof (induction ns arbitrary: s Q)
  case (Cons n ns)
  let ?Q = "Q(h := Q h @ [n])"
  have "rep (do_op (Insert_Before h n) s) ?Q"
    using rep_op[OF Cons.prems(1), of "Insert_Before h n"] Cons.prems(3)[of n]
    by (simp add: q_insert_before_def)
  moreover have "unlinked m ?Q" if "m \<in> set ns" for m
    using that Cons.prems(2,3) by (auto simp: unlinked_def)
  ultimately have "rep (fold (\<lambda>n. do_op (Insert_Before h n)) ns (do_op (Insert_Before h n) s))
      (?Q(h := ?Q h @ ns))"
    using Cons.prems(2) by (intro Cons.IH) (auto simp: fun_upd_def)
  then show ?case by (auto elim!: back_subst[of "rep _"] simp: fun_eq_iff)
qed (auto elim!: back_subst[of "rep _"] simp: fun_eq_iff)

lemma fifo_first:
  assumes "rep s Q" "Q h = []" "distinct (n # ns)" "\<And>m. m \<in> set (n # ns) \<Longrightarrow> unlinked m Q"
  shows "first h (fold (\<lambda>n. do_op (Insert_Before h n)) (n # ns) s) = Some n"
  using rep_first[OF enqueue_all[OF assms(1,3,4), of h], of h] assms(2) by simp

text \<open>A node that an operation does not name keeps its list.\<close>

lemma remove_frame:
  assumes "rep s Q" "rep (do_op (Remove n) s) Q'" "Q' = q_op (Remove n) Q"
  shows "set (Q' h) = set (Q h) - {n}"
  using assms rep_distinct[OF assms(1), of h] by (simp add: q_remove_def)

end

fun entry_of :: "('h, 'n) node \<Rightarrow> 'n option" where
  "entry_of (Node n) = Some n"
| "entry_of (Head h) = None"

interpretation dl: list_store reps p_op "\<lambda>h. rt_list_isempty (Head h)"
  "\<lambda>h s. entry_of (nxt s (Head h))"
proof
  show "reps s Q \<Longrightarrow> op_ok x Q \<Longrightarrow> reps (p_op x s) (q_op x Q)" for s Q and x :: "('a, 'b) list_op"
    by (cases x)
      (auto intro: reps_insert_before_head reps_insert_after_head reps_insert_before_node reps_remove
        simp: unlinked_def)
  show "reps s Q \<Longrightarrow> rt_list_isempty (Head h) s \<longleftrightarrow> Q h = []"
    for s :: "('a, 'b) links" and Q h
    using reps_isempty[of s Q h] by (simp add: q_isempty_def)
  show "reps s Q \<Longrightarrow> entry_of (nxt s (Head h)) = (case Q h of [] \<Rightarrow> None | n # _ \<Rightarrow> Some n)"
    for s :: "('a, 'b) links" and Q h
    using ring_head(2)[OF repsD(1), of s Q h] by (cases "Q h") auto
  show "reps s Q \<Longrightarrow> distinct (Q h)" for s :: "('a, 'b) links" and Q h
    by (rule repsD(4))
  show "reps s Q \<Longrightarrow> n \<in> set (Q h) \<Longrightarrow> n \<in> set (Q h') \<Longrightarrow> h = h'"
    for s :: "('a, 'b) links" and Q n h h'
    by (rule repsD(2))
qed

end
