(* ===== verification/RT_Kservice.thy ===== *)
theory RT_Kservice
  imports RT_Prelude
begin

text \<open>
  \<^verbatim>\<open>Kernel/kservice.c\<close>: the bit search the scheduler uses, the bounded string
  functions used for object names, and the memory routines with their word-wise
  fast paths.
\<close>

subsection \<open>Finding the lowest set bit\<close>

definition lowest_bit_bitmap :: "nat list" where
  "lowest_bit_bitmap =
    [
     0, 0, 1, 0, 2, 0, 1, 0, 3, 0, 1, 0, 2, 0, 1, 0,
     4, 0, 1, 0, 2, 0, 1, 0, 3, 0, 1, 0, 2, 0, 1, 0,
     5, 0, 1, 0, 2, 0, 1, 0, 3, 0, 1, 0, 2, 0, 1, 0,
     4, 0, 1, 0, 2, 0, 1, 0, 3, 0, 1, 0, 2, 0, 1, 0,
     6, 0, 1, 0, 2, 0, 1, 0, 3, 0, 1, 0, 2, 0, 1, 0,
     4, 0, 1, 0, 2, 0, 1, 0, 3, 0, 1, 0, 2, 0, 1, 0,
     5, 0, 1, 0, 2, 0, 1, 0, 3, 0, 1, 0, 2, 0, 1, 0,
     4, 0, 1, 0, 2, 0, 1, 0, 3, 0, 1, 0, 2, 0, 1, 0,
     7, 0, 1, 0, 2, 0, 1, 0, 3, 0, 1, 0, 2, 0, 1, 0,
     4, 0, 1, 0, 2, 0, 1, 0, 3, 0, 1, 0, 2, 0, 1, 0,
     5, 0, 1, 0, 2, 0, 1, 0, 3, 0, 1, 0, 2, 0, 1, 0,
     4, 0, 1, 0, 2, 0, 1, 0, 3, 0, 1, 0, 2, 0, 1, 0,
     6, 0, 1, 0, 2, 0, 1, 0, 3, 0, 1, 0, 2, 0, 1, 0,
     4, 0, 1, 0, 2, 0, 1, 0, 3, 0, 1, 0, 2, 0, 1, 0,
     5, 0, 1, 0, 2, 0, 1, 0, 3, 0, 1, 0, 2, 0, 1, 0,
     4, 0, 1, 0, 2, 0, 1, 0, 3, 0, 1, 0, 2, 0, 1, 0]"

definition rt_ffs :: "u32 \<Rightarrow> nat" where
  "rt_ffs v =
    (if v = 0 then 0
     else if v AND 0xff \<noteq> 0 then lowest_bit_bitmap ! unat (v AND 0xff) + 1
     else if v AND 0xff00 \<noteq> 0 then lowest_bit_bitmap ! unat (drop_bit 8 (v AND 0xff00)) + 9
     else if v AND 0xff0000 \<noteq> 0 then lowest_bit_bitmap ! unat (drop_bit 16 (v AND 0xff0000)) + 17
     else lowest_bit_bitmap ! unat (drop_bit 24 (v AND 0xff000000)) + 25)"

definition table_entry_ok :: "nat \<times> nat \<Rightarrow> bool" where
  "table_entry_ok = (\<lambda>(b, k). b = 0 \<or> k < 8 \<and> odd (b div 2 ^ k) \<and> b mod 2 ^ k = 0)"

lemma length_lowest_bit_bitmap: "length lowest_bit_bitmap = 256"
  by (simp add: lowest_bit_bitmap_def)

lemma table_ok: "list_all table_entry_ok (enumerate 0 lowest_bit_bitmap)"
  by (simp add: lowest_bit_bitmap_def table_entry_ok_def)

lemma lowest_bit_bitmap_bit:
  assumes "0 < b" "b < 256"
  shows "lowest_bit_bitmap ! b < 8" "bit b (lowest_bit_bitmap ! b)"
    "i < lowest_bit_bitmap ! b \<Longrightarrow> \<not> bit b i"
proof -
  have "table_entry_ok (enumerate 0 lowest_bit_bitmap ! b)"
    using table_ok assms(2) by (auto simp: list_all_length length_lowest_bit_bitmap)
  then have *: "lowest_bit_bitmap ! b < 8" "odd (b div 2 ^ (lowest_bit_bitmap ! b))"
    "2 ^ (lowest_bit_bitmap ! b) dvd b"
    using assms by (auto simp: table_entry_ok_def nth_enumerate_eq length_lowest_bit_bitmap)
  then show "lowest_bit_bitmap ! b < 8" "bit b (lowest_bit_bitmap ! b)"
    by (auto simp: bit_iff_odd)
  assume "i < lowest_bit_bitmap ! b"
  then have "2 ^ Suc i dvd b" using *(3) by (meson Suc_leI dvd_trans le_imp_power_dvd)
  then have "even (b div 2 ^ i)" by (auto elim!: dvdE)
  then show "\<not> bit b i" by (simp add: bit_iff_odd)
qed

lemma bit_255: "bit (255 :: int) i \<longleftrightarrow> i < 8"
  using bit_mask_iff[of 8 i, where 'a = int] by (auto simp: mask_eq_exp_minus_1)

text \<open>The byte of \<open>v\<close> at bit position \<open>k\<close>, as the table index the code computes.\<close>

lemma byte_index:
  fixes v :: u32
  assumes k: "k \<in> {0, 8, 16, 24}"
  shows "unat (drop_bit k (v AND push_bit k 255)) < 256"
    "bit (unat (drop_bit k (v AND push_bit k 255))) i \<longleftrightarrow> i < 8 \<and> bit v (k + i)"
proof -
  let ?w = "drop_bit k (v AND push_bit k 255)"
  have bu: "bit (unat ?w) i \<longleftrightarrow> i < 8 \<and> bit v (k + i)" for i
    using k by (auto simp: bit_unsigned_iff bit_drop_bit_eq bit_and_iff bit_push_bit_iff bit_255)
  then show "bit (unat ?w) i \<longleftrightarrow> i < 8 \<and> bit v (k + i)" .
  have "take_bit 8 (unat ?w) = unat ?w"
    by (rule bit_eqI) (auto simp only: bit_take_bit_iff bu)
  then show "unat ?w < 256"
    using take_bit_nat_less_exp[of 8 "unat ?w"] by simp
qed

lemma and_byte_zero:
  fixes v :: u32
  assumes k: "k \<in> {0, 8, 16, 24}"
  shows "v AND push_bit k 255 = 0 \<longleftrightarrow> (\<forall>i < 8. \<not> bit v (k + i))"
proof -
  have "v AND push_bit k 255 = 0 \<longleftrightarrow> (\<forall>j. \<not> bit (v AND push_bit k 255) j)"
    by (metis bit_0_eq bot_apply bot_bool_def bit_eqI)
  also have "\<dots> \<longleftrightarrow> (\<forall>j. \<not> (bit v j \<and> k \<le> j \<and> j - k < 8))"
    by (auto simp: bit_and_iff bit_push_bit_iff bit_255) (use bit_imp_le_length[of v] in fastforce)
  also have "\<dots> \<longleftrightarrow> (\<forall>i < 8. \<not> bit v (k + i))"
    by (metis add_diff_cancel_left' le_add1 le_add_diff_inverse)
  finally show ?thesis .
qed

definition lowest_set_bit :: "u32 \<Rightarrow> nat \<Rightarrow> bool" where
  "lowest_set_bit v k \<longleftrightarrow> k < 32 \<and> bit v k \<and> (\<forall>i < k. \<not> bit v i)"

lemma byte_lowest:
  fixes v :: u32
  assumes k: "k \<in> {0, 8, 16, 24}" and low: "\<forall>i < k. \<not> bit v i"
    and nz: "v AND push_bit k 255 \<noteq> 0"
  shows "lowest_set_bit v (k + lowest_bit_bitmap ! unat (drop_bit k (v AND push_bit k 255)))"
proof -
  let ?b = "unat (drop_bit k (v AND push_bit k 255))"
  from nz and_byte_zero[OF k] obtain i where "i < 8" "bit v (k + i)" by blast
  then have "bit ?b i" using byte_index(2)[OF k] by blast
  then have pos: "0 < ?b" by (metis bit_0_eq bot_apply bot_bool_def not_gr_zero)
  note T = lowest_bit_bitmap_bit[OF pos byte_index(1)[OF k]]
  have "bit v (k + lowest_bit_bitmap ! ?b)" using T(2) byte_index(2)[OF k] by blast
  moreover have "\<not> bit v j" if "j < k + lowest_bit_bitmap ! ?b" for j
  proof (cases "j < k")
    case True then show ?thesis using low by blast
  next
    case False
    then have "j - k < lowest_bit_bitmap ! ?b" using that by simp
    then have "\<not> bit ?b (j - k)" "j - k < 8" using T(1,3) by auto
    then show ?thesis using byte_index(2)[OF k, of v "j - k"] False by simp
  qed
  moreover have "k + lowest_bit_bitmap ! ?b < 32" using k T(1) by auto
  ultimately show ?thesis by (simp add: lowest_set_bit_def)
qed

lemma low_bits_zero:
  fixes v :: u32
  shows "v AND 0xff = 0 \<Longrightarrow> \<forall>i < 8. \<not> bit v i"
    "v AND 0xff = 0 \<Longrightarrow> v AND 0xff00 = 0 \<Longrightarrow> \<forall>i < 16. \<not> bit v i"
    "v AND 0xff = 0 \<Longrightarrow> v AND 0xff00 = 0 \<Longrightarrow> v AND 0xff0000 = 0 \<Longrightarrow> \<forall>i < 24. \<not> bit v i"
proof -
  have c: "\<not> bit v i" if "k \<in> {0, 8, 16, 24}" "v AND push_bit k 255 = 0" "k \<le> i" "i < k + 8" for k i
    using that and_byte_zero[OF that(1), of v] by (metis le_add_diff_inverse nat_add_left_cancel_less)
  show a: "v AND 0xff = 0 \<Longrightarrow> \<forall>i < 8. \<not> bit v i" using c[of 0] by simp
  show b: "v AND 0xff = 0 \<Longrightarrow> v AND 0xff00 = 0 \<Longrightarrow> \<forall>i < 16. \<not> bit v i"
    using a c[of 8] by (auto simp: not_less) (metis not_less)
  show "v AND 0xff = 0 \<Longrightarrow> v AND 0xff00 = 0 \<Longrightarrow> v AND 0xff0000 = 0 \<Longrightarrow> \<forall>i < 24. \<not> bit v i"
    using b c[of 16] by (auto simp: not_less) (metis not_less)
qed

lemma rt_ffs_zero: "rt_ffs v = 0 \<longleftrightarrow> v = 0"
  by (simp add: rt_ffs_def)

lemma rt_ffs_lowest:
  assumes "v \<noteq> 0"
  shows "lowest_set_bit v (rt_ffs v - 1)"
proof -
  have nz: "v AND 0xff000000 \<noteq> 0" if z: "v AND 0xff = 0" "v AND 0xff00 = 0" "v AND 0xff0000 = 0"
  proof
    assume zero: "v AND 0xff000000 = 0"
    obtain i where i: "bit v i" using assms by (metis bit_0_eq bot_apply bot_bool_def bit_eqI)
    then have "i < 32" using bit_imp_le_length[of v i] by simp
    moreover have "\<not> i < 24" using low_bits_zero(3)[OF z] i by blast
    ultimately have "i - 24 < 8" "24 + (i - 24) = i" by auto
    then show False using zero and_byte_zero[of 24 v] i by auto
  qed
  show ?thesis
    using assms byte_lowest[of 0 v] byte_lowest[of 8 v, OF _ low_bits_zero(1)]
      byte_lowest[of 16 v, OF _ low_bits_zero(2)] byte_lowest[of 24 v, OF _ low_bits_zero(3)] nz
    by (auto simp: rt_ffs_def add.commute)
qed

subsection \<open>Bounded strings\<close>

text \<open>
  A \<^verbatim>\<open>char *\<close> argument is the list of the bytes from that address to the end of its
  array. Reading behind the end of the list is \<^term>\<open>None\<close>. \<open>rt_strncpy src n\<close> gives the
  \<open>n\<close> bytes the call stores at its destination.
\<close>

fun rt_strncpy :: "u8 list \<Rightarrow> nat \<Rightarrow> u8 list option" where
  "rt_strncpy src 0 = Some []"
| "rt_strncpy [] (Suc n) = None"
| "rt_strncpy (c # src) (Suc n) =
     (if c = 0 then Some (0 # replicate n 0) else map_option ((#) c) (rt_strncpy src n))"

text \<open>The difference is kept in a \<^verbatim>\<open>signed char\<close>.\<close>

fun rt_strncmp :: "u8 list \<Rightarrow> u8 list \<Rightarrow> nat \<Rightarrow> int option" where
  "rt_strncmp cs ct 0 = Some 0"
| "rt_strncmp (c # cs) (d # ct) (Suc n) =
     (if c - d \<noteq> 0 \<or> c = 0 then Some (sint (c - d)) else rt_strncmp cs ct n)"
| "rt_strncmp _ _ (Suc n) = None"

fun rt_strlen :: "u8 list \<Rightarrow> nat option" where
  "rt_strlen [] = None"
| "rt_strlen (c # s) = (if c \<noteq> 0 then map_option Suc (rt_strlen s) else Some 0)"

fun rt_strcmp :: "u8 list \<Rightarrow> u8 list \<Rightarrow> int option" where
  "rt_strcmp (c # cs) (d # ct) =
     (if c \<noteq> 0 \<and> c = d then rt_strcmp cs ct else Some (uint c - uint d))"
| "rt_strcmp _ _ = None"

fun rt_memcmp :: "u8 list \<Rightarrow> u8 list \<Rightarrow> nat \<Rightarrow> int option" where
  "rt_memcmp cs ct 0 = Some 0"
| "rt_memcmp (c # cs) (d # ct) (Suc n) =
     (if uint c - uint d \<noteq> 0 then Some (uint c - uint d) else rt_memcmp cs ct n)"
| "rt_memcmp _ _ (Suc n) = None"

text \<open>The characters of a string of at most \<open>n\<close> characters.\<close>

definition cstr :: "nat \<Rightarrow> u8 list \<Rightarrow> u8 list" where
  "cstr n xs = takeWhile (\<lambda>c. c \<noteq> 0) (take n xs)"

definition terminated :: "u8 list \<Rightarrow> bool" where
  "terminated xs \<longleftrightarrow> 0 \<in> set xs"

lemma rt_strncpy_Some:
  "terminated src \<Longrightarrow> \<exists>d. rt_strncpy src n = Some d \<and> length d = n \<and> cstr n d = cstr n src"
proof (induction src n rule: rt_strncpy.induct)
  case (3 c src n)
  show ?case
  proof (cases "c = 0")
    case False
    then have "terminated src" using 3(2) by (simp add: terminated_def)
    then obtain d where "rt_strncpy src n = Some d" "length d = n" "cstr n d = cstr n src"
      using 3(1)[OF False] by blast
    with False show ?thesis by (simp add: cstr_def)
  qed (simp add: cstr_def)
qed (auto simp: cstr_def terminated_def)

lemma rt_strncmp_zero_iff:
  assumes "length cs \<ge> n \<or> terminated cs" "length ct \<ge> n \<or> terminated ct"
  shows "rt_strncmp cs ct n = Some 0 \<longleftrightarrow> cstr n cs = cstr n ct"
  using assms
proof (induction cs ct n rule: rt_strncmp.induct)
  case (2 c cs d ct n)
  show ?case
  proof (cases "c - d \<noteq> 0 \<or> c = 0")
    case True
    then show ?thesis by (auto simp: cstr_def)
  next
    case False
    then have "d = c" "c \<noteq> 0" by auto
    then show ?thesis using 2 False by (auto simp: cstr_def terminated_def)
  qed
qed (auto simp: cstr_def terminated_def)

lemma rt_strncmp_defined:
  "length cs \<ge> n \<or> terminated cs \<Longrightarrow> length ct \<ge> n \<or> terminated ct \<Longrightarrow>
   \<exists>r. rt_strncmp cs ct n = Some r"
proof (induction cs ct n rule: rt_strncmp.induct)
  case (2 c cs d ct n)
  then show ?case by (auto simp: terminated_def)
qed (auto simp: terminated_def)

lemma rt_strlen_cstr: "terminated s \<Longrightarrow> rt_strlen s = Some (length (takeWhile (\<lambda>c. c \<noteq> 0) s))"
  by (induction s) (auto simp: terminated_def)

lemma rt_strcmp_zero_iff:
  "terminated cs \<Longrightarrow> terminated ct \<Longrightarrow>
   \<exists>r. rt_strcmp cs ct = Some r \<and>
     (r = 0 \<longleftrightarrow> takeWhile (\<lambda>c. c \<noteq> 0) cs = takeWhile (\<lambda>c. c \<noteq> 0) ct)"
  by (induction cs ct rule: rt_strcmp.induct) (auto simp: terminated_def)

lemma rt_memcmp_zero_iff:
  "n \<le> length cs \<Longrightarrow> n \<le> length ct \<Longrightarrow>
   \<exists>r. rt_memcmp cs ct n = Some r \<and> (r = 0 \<longleftrightarrow> take n cs = take n ct)"
  by (induction cs ct n rule: rt_memcmp.induct) auto

end
