(* ===== verification/RT_Memory.thy ===== *)
theory RT_Memory
  imports RT_Prelude
begin

text \<open>
  The memory routines of \<^verbatim>\<open>Kernel/kservice.c\<close> (\<^verbatim>\<open>rt_memset\<close>, \<^verbatim>\<open>rt_memcpy\<close>, \<^verbatim>\<open>rt_memmove\<close>) over
  a byte-addressed little-endian memory. Each word-wise fast path is proved equal to the
  byte loop it replaces, and the byte loops are given their effect on every address.
  Pointer arithmetic is modulo \<open>2^32\<close>.
\<close>

type_synonym mem = "u32 \<Rightarrow> u8"

definition load32 :: "mem \<Rightarrow> u32 \<Rightarrow> u32" where
  "load32 m p = ucast (m p) OR push_bit 8 (ucast (m (p + 1))) OR
     push_bit 16 (ucast (m (p + 2))) OR push_bit 24 (ucast (m (p + 3)))"

definition store32 :: "u32 \<Rightarrow> u32 \<Rightarrow> mem \<Rightarrow> mem" where
  "store32 p w m = m(p := ucast w, p + 1 := ucast (drop_bit 8 w),
     p + 2 := ucast (drop_bit 16 w), p + 3 := ucast (drop_bit 24 w))"

subsection \<open>Setting memory\<close>

text \<open>The byte loop \<^verbatim>\<open>while (count--) *m++ = d\<close>.\<close>

fun set_bytes :: "u32 \<Rightarrow> u8 \<Rightarrow> nat \<Rightarrow> mem \<Rightarrow> mem" where
  "set_bytes p d 0 m = m"
| "set_bytes p d (Suc n) m = set_bytes (p + 1) d n (m(p := d))"

fun memset_big :: "u32 \<Rightarrow> u32 \<Rightarrow> nat \<Rightarrow> mem \<Rightarrow> u32 \<times> nat \<times> mem" where
  "memset_big buffer p count m =
    (if count \<ge> 16 then
       memset_big buffer (p + 16) (count - 16)
         (store32 (p + 12) buffer (store32 (p + 8) buffer (store32 (p + 4) buffer (store32 p buffer m))))
     else (p, count, m))"

fun memset_word :: "u32 \<Rightarrow> u32 \<Rightarrow> nat \<Rightarrow> mem \<Rightarrow> u32 \<times> nat \<times> mem" where
  "memset_word buffer p count m =
    (if count \<ge> 4 then memset_word buffer (p + 4) (count - 4) (store32 p buffer m)
     else (p, count, m))"

declare memset_big.simps [simp del] memset_word.simps [simp del]

definition rt_memset :: "u32 \<Rightarrow> u32 \<Rightarrow> u32 \<Rightarrow> mem \<Rightarrow> mem" where
  "rt_memset s c count m =
    (let d = c AND 0xff in
     if \<not> unat count < 4 \<and> s AND 3 = 0 then
       let buffer = push_bit 8 d OR d;
           buffer = buffer OR push_bit 16 buffer;
           (p, n, m) = memset_big buffer s (unat count) m;
           (p, n, m) = memset_word buffer p n m
       in set_bytes p (ucast d) n m
     else set_bytes s (ucast d) (unat count) m)"

lemma set_bytes_add: "set_bytes p d (a + b) m = set_bytes (p + of_nat a) d b (set_bytes p d a m)"
  by (induction a arbitrary: p m) (auto simp: algebra_simps)

lemma memset_buffer_bytes:
  fixes d :: u32
  assumes "buffer = (push_bit 8 (d AND 0xff) OR d AND 0xff) OR push_bit 16 (push_bit 8 (d AND 0xff) OR d AND 0xff)"
  shows "store32 p buffer m = set_bytes p (ucast (d AND 0xff)) 4 m"
proof -
  have m: "(0xff :: u32) = mask 8" by (simp add: mask_eq_exp_minus_1)
  have "ucast (drop_bit (8 * k) buffer) = (ucast (d AND 0xff) :: u8)" if "k < 4" for k
  proof (rule bit_word_eqI)
    fix n assume n: "n < LENGTH(8)"
    from that consider "k = 0" | "k = 1" | "k = 2" | "k = 3" by linarith
    then show "bit (ucast (drop_bit (8 * k) buffer) :: u8) n = bit (ucast (d AND 0xff) :: u8) n"
      using n by cases (auto simp: assms m bit_simps)
  qed
  from this[of 0] this[of 1] this[of 2] this[of 3] show ?thesis
    by (simp add: store32_def numeral_eq_Suc) (simp add: fun_upd_def fun_eq_iff add.assoc)
qed

lemma memset_big_eq:
  assumes st: "\<And>p m. store32 p buffer m = set_bytes p d 4 m"
  shows "memset_big buffer p n m = (p', n', m') \<Longrightarrow> set_bytes p' d n' m' = set_bytes p d n m"
proof (induction n arbitrary: p m rule: less_induct)
  case (less n)
  show ?case
  proof (cases "n \<ge> 16")
    case True
    then have n: "n = 4 + (4 + (4 + (4 + (n - 16))))" by simp
    from True less.prems have "memset_big buffer (p + 16) (n - 16)
        (set_bytes (p + 12) d 4 (set_bytes (p + 8) d 4 (set_bytes (p + 4) d 4 (set_bytes p d 4 m)))) = (p', n', m')"
      by (simp add: memset_big.simps[of buffer p n m] st)
    from less.IH[OF _ this] True show ?thesis
      by (subst n) (simp only: set_bytes_add, simp add: add.assoc)
  qed (use less.prems in \<open>simp add: memset_big.simps[of buffer p n m]\<close>)
qed

lemma memset_word_eq:
  assumes st: "\<And>p m. store32 p buffer m = set_bytes p d 4 m"
  shows "memset_word buffer p n m = (p', n', m') \<Longrightarrow> set_bytes p' d n' m' = set_bytes p d n m"
proof (induction n arbitrary: p m rule: less_induct)
  case (less n)
  show ?case
  proof (cases "n \<ge> 4")
    case True
    then have n: "n = 4 + (n - 4)" by simp
    from True less.prems have "memset_word buffer (p + 4) (n - 4) (set_bytes p d 4 m) = (p', n', m')"
      by (simp add: memset_word.simps[of buffer p n m] st)
    from less.IH[OF _ this] True show ?thesis
      by (subst n) (simp only: set_bytes_add, simp)
  qed (use less.prems in \<open>simp add: memset_word.simps[of buffer p n m]\<close>)
qed

text \<open>The word-wise loops write what the byte loop writes.\<close>

lemma rt_memset_bytes: "rt_memset s c count m = set_bytes s (ucast (c AND 0xff)) (unat count) m"
proof -
  let ?b = "(push_bit 8 (c AND 0xff) OR c AND 0xff) OR push_bit 16 (push_bit 8 (c AND 0xff) OR c AND 0xff)"
  obtain p1 n1 m1 where 1: "memset_big ?b s (unat count) m = (p1, n1, m1)"
    by (cases "memset_big ?b s (unat count) m")
  obtain p2 n2 m2 where 2: "memset_word ?b p1 n1 m1 = (p2, n2, m2)"
    by (cases "memset_word ?b p1 n1 m1")
  have "set_bytes p2 (ucast (c AND 0xff)) n2 m2 = set_bytes s (ucast (c AND 0xff)) (unat count) m"
    using memset_big_eq[OF memset_buffer_bytes[OF refl] 1] memset_word_eq[OF memset_buffer_bytes[OF refl] 2]
    by simp
  then show ?thesis
    by (simp only: rt_memset_def Let_def 1 2 prod.case) simp
qed

text \<open>Distances between addresses are taken modulo \<open>2^32\<close>, as the pointers are.\<close>

lemma unat_dist_Suc:
  "(a :: u32) \<noteq> p \<Longrightarrow> unat (a - p) = Suc (unat (a - (p + 1)))"
  using unat_minus_one[of "a - p"] unat_gt_0[of "a - p"] by (simp add: algebra_simps)

lemma set_bytes_at:
  "n \<le> 2 ^ 32 \<Longrightarrow> set_bytes p d n m a = (if unat (a - p) < n then d else m a)"
proof (induction n arbitrary: p m)
  case (Suc n)
  show ?case
  proof (cases "a = p")
    case False
    then show ?thesis using Suc by (simp add: unat_dist_Suc)
  qed (use Suc in simp)
qed simp

subsection \<open>Copying memory\<close>

text \<open>The byte loop \<^verbatim>\<open>while (len--) *dst++ = *src++\<close>.\<close>

fun copy_bytes :: "u32 \<Rightarrow> u32 \<Rightarrow> nat \<Rightarrow> mem \<Rightarrow> mem" where
  "copy_bytes d s 0 m = m"
| "copy_bytes d s (Suc n) m = copy_bytes (d + 1) (s + 1) n (m(d := m s))"

text \<open>The byte loop \<^verbatim>\<open>while (n--) *(--tmp) = *(--s)\<close>.\<close>

fun copy_bytes_down :: "u32 \<Rightarrow> u32 \<Rightarrow> nat \<Rightarrow> mem \<Rightarrow> mem" where
  "copy_bytes_down d s 0 m = m"
| "copy_bytes_down d s (Suc n) m = copy_bytes_down (d - 1) (s - 1) n (m(d - 1 := m (s - 1)))"

definition copy_word :: "u32 \<Rightarrow> u32 \<Rightarrow> mem \<Rightarrow> mem" where
  "copy_word d s m = store32 d (load32 m s) m"

fun memcpy_big :: "u32 \<Rightarrow> u32 \<Rightarrow> nat \<Rightarrow> mem \<Rightarrow> u32 \<times> u32 \<times> nat \<times> mem" where
  "memcpy_big d s len m =
    (if len \<ge> 16 then
       memcpy_big (d + 16) (s + 16) (len - 16)
         (copy_word (d + 12) (s + 12) (copy_word (d + 8) (s + 8) (copy_word (d + 4) (s + 4) (copy_word d s m))))
     else (d, s, len, m))"

fun memcpy_word :: "u32 \<Rightarrow> u32 \<Rightarrow> nat \<Rightarrow> mem \<Rightarrow> u32 \<times> u32 \<times> nat \<times> mem" where
  "memcpy_word d s len m =
    (if len \<ge> 4 then memcpy_word (d + 4) (s + 4) (len - 4) (copy_word d s m)
     else (d, s, len, m))"

declare memcpy_big.simps [simp del] memcpy_word.simps [simp del]

definition rt_memcpy :: "u32 \<Rightarrow> u32 \<Rightarrow> u32 \<Rightarrow> mem \<Rightarrow> mem" where
  "rt_memcpy dst src count m =
    (if \<not> unat count < 16 \<and> (src AND 3) OR (dst AND 3) = 0 then
       let (d, s, len, m) = memcpy_big dst src (unat count) m;
           (d, s, len, m) = memcpy_word d s len m
       in copy_bytes d s len m
     else copy_bytes dst src (unat count) m)"

definition rt_memmove :: "u32 \<Rightarrow> u32 \<Rightarrow> u32 \<Rightarrow> mem \<Rightarrow> mem" where
  "rt_memmove dest src n m =
    (if src < dest \<and> dest < src + n then copy_bytes_down (dest + n) (src + n) (unat n) m
     else copy_bytes dest src (unat n) m)"

lemma copy_bytes_add:
  "copy_bytes d s (a + b) m = copy_bytes (d + of_nat a) (s + of_nat a) b (copy_bytes d s a m)"
  by (induction a arbitrary: d s m) (auto simp: algebra_simps)

lemma store_load32:
  "store32 d (load32 m s) m = m(d := m s, d + 1 := m (s + 1), d + 2 := m (s + 2), d + 3 := m (s + 3))"
proof -
  have "ucast (load32 m s) = m s" "ucast (drop_bit 8 (load32 m s)) = m (s + 1)"
    "ucast (drop_bit 16 (load32 m s)) = m (s + 2)" "ucast (drop_bit 24 (load32 m s)) = m (s + 3)"
    by (rule bit_word_eqI, auto simp: load32_def bit_simps dest: bit_imp_le_length)+
  then show ?thesis by (simp add: store32_def)
qed

text \<open>Two aligned words do not overlap in part, so a word can be copied bytewise.\<close>

lemma take_bit2_add: "take_bit 2 (take_bit 2 a + take_bit 2 b) = take_bit 2 (a + b :: u32)"
  by (simp add: word_unat_eq_iff unsigned_take_bit_eq unat_word_ariths take_bit_eq_mod mod_mod_cancel mod_simps)

lemma aligned_apart:
  fixes d s :: u32
  assumes "d AND 3 = 0" "s AND 3 = 0" "i < 4" "j < 4" "d + i = s + j"
  shows "i = j"
proof -
  have m: "(3 :: u32) = mask 2" by (simp add: mask_eq_exp_minus_1)
  have z: "take_bit 2 d = 0" "take_bit 2 s = 0" using assms(1,2) by (simp_all add: m take_bit_eq_mask)
  have small: "take_bit 2 w = w" if "w < 4" for w :: u32
    using that by (simp add: word_unat_eq_iff unsigned_take_bit_eq take_bit_nat_eq_self_iff word_less_nat_alt)
  have "take_bit 2 (d + i) = i" "take_bit 2 (s + j) = j"
    using take_bit2_add[of d i] take_bit2_add[of s j] small[OF assms(3)] small[OF assms(4)] z by simp_all
  with assms(5) show ?thesis by simp
qed

lemma copy_word_bytes:
  assumes "d AND 3 = 0" "s AND 3 = 0"
  shows "copy_word d s m = copy_bytes d s 4 m"
proof -
  have ne: "d + i = s + j \<Longrightarrow> i = j" if "i < 4" "j < 4" for i j
    using aligned_apart[OF assms that] .
  have "s + 1 \<noteq> d" "s + 2 \<noteq> d" "s + 3 \<noteq> d" "s + 2 \<noteq> d + 1" "s + 3 \<noteq> d + 1" "s + 3 \<noteq> d + 2"
    using ne[of 0 1] ne[of 0 2] ne[of 0 3] ne[of 1 2] ne[of 1 3] ne[of 2 3] by auto
  then show ?thesis
    by (simp add: copy_word_def store_load32 numeral_eq_Suc add.assoc)
qed

lemma aligned_step: "(d :: u32) AND 3 = 0 \<Longrightarrow> k AND 3 = 0 \<Longrightarrow> (d + k) AND 3 = 0"
proof -
  have m: "(3 :: u32) = mask 2" by (simp add: mask_eq_exp_minus_1)
  assume "d AND 3 = 0" "k AND 3 = 0"
  then show ?thesis using take_bit2_add[of d k] by (simp add: m flip: take_bit_eq_mask)
qed

lemma memcpy_big_eq:
  assumes "memcpy_big d s n m = (d', s', n', m')" "d AND 3 = 0" "s AND 3 = 0"
  shows "copy_bytes d' s' n' m' = copy_bytes d s n m \<and> d' AND 3 = 0 \<and> s' AND 3 = 0"
  using assms
proof (induction n arbitrary: d s m rule: less_induct)
  case (less n)
  show ?case
  proof (cases "n \<ge> 16")
    case True
    then have n: "n = 4 + (4 + (4 + (4 + (n - 16))))" by simp
    have al: "(d + k) AND 3 = 0" "(s + k) AND 3 = 0" if "k AND 3 = 0" for k
      using less.prems(2,3) that by (simp_all add: aligned_step)
    from True less.prems have "memcpy_big (d + 16) (s + 16) (n - 16)
        (copy_bytes (d + 12) (s + 12) 4 (copy_bytes (d + 8) (s + 8) 4
          (copy_bytes (d + 4) (s + 4) 4 (copy_bytes d s 4 m)))) = (d', s', n', m')"
      by (simp add: memcpy_big.simps[of d s n m] copy_word_bytes al)
    from less.IH[OF _ this] True show ?thesis
      by (subst n) (simp only: copy_bytes_add, simp add: al add.assoc)
  qed (use less.prems in \<open>simp add: memcpy_big.simps[of d s n m]\<close>)
qed

lemma memcpy_word_eq:
  assumes "memcpy_word d s n m = (d', s', n', m')" "d AND 3 = 0" "s AND 3 = 0"
  shows "copy_bytes d' s' n' m' = copy_bytes d s n m"
  using assms
proof (induction n arbitrary: d s m rule: less_induct)
  case (less n)
  show ?case
  proof (cases "n \<ge> 4")
    case True
    then have n: "n = 4 + (n - 4)" by simp
    from True less.prems have "memcpy_word (d + 4) (s + 4) (n - 4) (copy_bytes d s 4 m) = (d', s', n', m')"
      by (simp add: memcpy_word.simps[of d s n m] copy_word_bytes)
    from less.IH[OF _ this] True less.prems(2,3) show ?thesis
      by (subst n) (simp only: copy_bytes_add, simp add: aligned_step)
  qed (use less.prems in \<open>simp add: memcpy_word.simps[of d s n m]\<close>)
qed

text \<open>For every alignment and any overlap, the copy is the forward byte copy.\<close>

lemma rt_memcpy_bytes: "rt_memcpy dst src count m = copy_bytes dst src (unat count) m"
proof (cases "\<not> unat count < 16 \<and> (src AND 3) OR (dst AND 3) = 0")
  case True
  then have al: "dst AND 3 = 0" "src AND 3 = 0" by (simp_all add: or_eq_0_iff)
  obtain d1 s1 n1 m1 where 1: "memcpy_big dst src (unat count) m = (d1, s1, n1, m1)"
    by (cases "memcpy_big dst src (unat count) m")
  obtain d2 s2 n2 m2 where 2: "memcpy_word d1 s1 n1 m1 = (d2, s2, n2, m2)"
    by (cases "memcpy_word d1 s1 n1 m1")
  show ?thesis
    using True memcpy_big_eq[OF 1 al] memcpy_word_eq[OF 2] by (simp add: rt_memcpy_def 1 2)
qed (auto simp: rt_memcpy_def)

lemma copy_bytes_at:
  assumes "n \<le> 2 ^ 32" "d = s \<or> n \<le> unat (d - s)"
  shows "copy_bytes d s n m a = (if unat (a - d) < n then m (s + (a - d)) else m a)"
  using assms
proof (induction n arbitrary: d s m)
  case (Suc n)
  have step: "copy_bytes d s (Suc n) m a =
      (if unat (a - (d + 1)) < n then (m(d := m s)) (s + 1 + (a - (d + 1))) else (m(d := m s)) a)"
    unfolding copy_bytes.simps using Suc.prems by (intro Suc.IH) auto
  show ?case
  proof (cases "a = d")
    case True
    have "unat (- 1 :: u32) = 2 ^ 32 - 1" by (simp add: unsigned_minus_1_eq_mask mask_eq_exp_minus_1)
    with Suc.prems show ?thesis unfolding step by (simp add: True)
  next
    case False
    have "s + (a - d) \<noteq> d \<or> s = d" if "unat (a - d) < Suc n"
    proof (rule ccontr)
      assume "\<not> (s + (a - d) \<noteq> d \<or> s = d)"
      then have "a - d = d - s" "s \<noteq> d" by (auto simp: algebra_simps)
      with that Suc.prems(2) show False by simp
    qed
    with False show ?thesis by (auto simp: step unat_dist_Suc algebra_simps simp del: copy_bytes.simps)
  qed
qed simp

lemma copy_bytes_down_at:
  assumes "n < 2 ^ 32" "d = s \<or> n \<le> unat (s - d)"
  shows "copy_bytes_down (d + of_nat n) (s + of_nat n) n m a =
    (if unat (a - d) < n then m (s + (a - d)) else m a)"
  using assms
proof (induction n arbitrary: m)
  case (Suc n)
  let ?m = "m(d + of_nat n := m (s + of_nat n))"
  have n: "unat (of_nat n :: u32) = n" using Suc.prems(1) by (simp add: unat_of_nat)
  have step: "copy_bytes_down (d + of_nat (Suc n)) (s + of_nat (Suc n)) (Suc n) m a =
      (if unat (a - d) < n then ?m (s + (a - d)) else ?m a)"
    using Suc.IH[of ?m] Suc.prems by (auto simp: algebra_simps simp del: fun_upd_apply)
  have at: "a = d + of_nat n \<longleftrightarrow> unat (a - d) = n"
    by (metis n add_diff_cancel_left' diff_add_cancel add.commute word_unat_eq_iff)
  have "?m (s + (a - d)) = m (s + (a - d))" if lt: "unat (a - d) < n"
  proof (cases "s + (a - d) = d + of_nat n \<and> s \<noteq> d")
    case True
    then have eq: "s - d = of_nat n - (a - d)" by (simp add: algebra_simps)
    have "a - d \<le> of_nat n" using lt n by (simp add: word_le_nat_alt)
    from unat_sub[OF this] have "unat (s - d) = n - unat (a - d)" by (simp only: eq n)
    then have False using True Suc.prems(2) by auto
    then show ?thesis ..
  next
    case False
    then show ?thesis by (auto simp: algebra_simps)
  qed
  then have "(if unat (a - d) < n then ?m (s + (a - d)) else ?m a) =
      (if unat (a - d) < Suc n then m (s + (a - d)) else m a)"
    using at n by (cases "a = d + of_nat n") (simp_all add: less_Suc_eq)
  then show ?case by (simp only: step)
qed simp

text \<open>
  \<^verbatim>\<open>rt_memmove\<close> moves the bytes whatever the overlap, for areas that do not run past the end
  of the address space.
\<close>

lemma rt_memmove_at:
  assumes s: "unat src + unat n < 2 ^ 32" and d: "unat dest + unat n < 2 ^ 32"
  shows "rt_memmove dest src n m a = (if unat (a - dest) < unat n then m (src + (a - dest)) else m a)"
proof -
  have sn: "unat (src + n) = unat src + unat n" using s by (intro unat_add_lem[THEN iffD1]) simp
  have nb: "unat n < 2 ^ 32" using unsigned_less[of n] by simp
  show ?thesis
  proof (cases "src < dest \<and> dest < src + n")
    case True
    then have "unat (src - dest) = 2 ^ 32 - (unat dest - unat src)"
      by (simp add: unat_sub_if' word_less_nat_alt)
    moreover have "unat dest - unat src \<le> 2 ^ 32 - unat n" using d by simp
    ultimately have "unat n \<le> unat (src - dest)" using nb True by (simp add: word_less_nat_alt)
    with True copy_bytes_down_at[OF nb, of dest src m a] show ?thesis by (simp add: rt_memmove_def)
  next
    case False
    have "dest = src \<or> unat n \<le> unat (dest - src)"
    proof (cases "unat src \<le> unat dest")
      case True
      then have "unat (dest - src) = unat dest - unat src" by (simp add: unat_sub_if')
      moreover have "unat src = unat dest \<or> unat src + unat n \<le> unat dest"
        using False True sn unfolding word_less_nat_alt by linarith
      ultimately show ?thesis by (metis add_le_imp_le_diff add.commute word_unat_eq_iff)
    next
      case lt: False
      then have "unat (dest - src) = unat dest + 2 ^ 32 - unat src" by (simp add: unat_sub_if')
      then show ?thesis using s by linarith
    qed
    with False copy_bytes_at[of "unat n" dest src m a] nb show ?thesis by (auto simp: rt_memmove_def)
  qed
qed

end
