(* ===== verification/RT_State.thy ===== *)
theory RT_State
  imports RT_List RT_Kservice RT_Memory
begin

text \<open>
  The state of the kernel: the structures of \<^verbatim>\<open>Kernel/include/rtdef.h\<close> and the global
  variables of \<^verbatim>\<open>scheduler.c\<close>, \<^verbatim>\<open>timer.c\<close>, \<^verbatim>\<open>clock.c\<close>, \<^verbatim>\<open>irq.c\<close>, \<^verbatim>\<open>object.c\<close> and
  \<^verbatim>\<open>kservice.c\<close>.

  A structure lives at an address (a \<^typ>\<open>nat\<close>); the state maps addresses to their
  contents. The link fields \<^verbatim>\<open>tlist\<close>, \<^verbatim>\<open>row\<close> and \<^verbatim>\<open>list\<close> are not fields of the records:
  the lists they form are kept as families of lists, the view that \<^verbatim>\<open>RT_List\<close> proves the
  pointer operations implement. No hook function is installed.
\<close>

subsection \<open>Kernel objects\<close>

text \<open>Which structure an embedded \<^verbatim>\<open>struct rt_object\<close> belongs to.\<close>

datatype timer_id = Thread_Timer tid | User_Timer oid

datatype objid = Obj_Thread tid | Obj_Timer timer_id | Obj oid

record rt_object =
  obj_name :: "u8 list"
  obj_type :: u8
  obj_flag :: u8

text \<open>\<^verbatim>\<open>enum rt_object_class_type\<close> as configured (no memory heap, no module objects).\<close>

abbreviation (input) RT_Object_Class_Thread :: u8 where "RT_Object_Class_Thread \<equiv> 0"
abbreviation (input) RT_Object_Class_Semaphore :: u8 where "RT_Object_Class_Semaphore \<equiv> 1"
abbreviation (input) RT_Object_Class_Mutex :: u8 where "RT_Object_Class_Mutex \<equiv> 2"
abbreviation (input) RT_Object_Class_Event :: u8 where "RT_Object_Class_Event \<equiv> 3"
abbreviation (input) RT_Object_Class_MailBox :: u8 where "RT_Object_Class_MailBox \<equiv> 4"
abbreviation (input) RT_Object_Class_MessageQueue :: u8 where "RT_Object_Class_MessageQueue \<equiv> 5"
abbreviation (input) RT_Object_Class_MemPool :: u8 where "RT_Object_Class_MemPool \<equiv> 6"
abbreviation (input) RT_Object_Class_Device :: u8 where "RT_Object_Class_Device \<equiv> 7"
abbreviation (input) RT_Object_Class_Timer :: u8 where "RT_Object_Class_Timer \<equiv> 8"
abbreviation (input) RT_Object_Class_Unknown :: u8 where "RT_Object_Class_Unknown \<equiv> 9"
abbreviation (input) RT_Object_Class_Static :: u8 where "RT_Object_Class_Static \<equiv> 0x80"

subsection \<open>Timers\<close>

abbreviation (input) RT_TIMER_FLAG_ACTIVATED :: u8 where "RT_TIMER_FLAG_ACTIVATED \<equiv> 1"
abbreviation (input) RT_TIMER_FLAG_ONE_SHOT :: u8 where "RT_TIMER_FLAG_ONE_SHOT \<equiv> 0"
abbreviation (input) RT_TIMER_FLAG_PERIODIC :: u8 where "RT_TIMER_FLAG_PERIODIC \<equiv> 2"

datatype timer_cmd = RT_TIMER_CTRL_SET_TIME u32 | RT_TIMER_CTRL_GET_TIME
  | RT_TIMER_CTRL_SET_ONESHOT | RT_TIMER_CTRL_SET_PERIODIC

text \<open>A timeout function: the kernel's own \<^verbatim>\<open>rt_thread_timeout\<close> or one of the application.\<close>

datatype timeout_fn = Rt_Thread_Timeout tid | User_Timeout nat

record rt_timer =
  timeout_func :: timeout_fn
  tm_init_tick :: u32
  timeout_tick :: u32

subsection \<open>Threads\<close>

abbreviation (input) RT_THREAD_INIT :: u8 where "RT_THREAD_INIT \<equiv> 0"
abbreviation (input) RT_THREAD_READY :: u8 where "RT_THREAD_READY \<equiv> 1"
abbreviation (input) RT_THREAD_SUSPEND :: u8 where "RT_THREAD_SUSPEND \<equiv> 2"
abbreviation (input) RT_THREAD_RUNNING :: u8 where "RT_THREAD_RUNNING \<equiv> 3"
abbreviation (input) RT_THREAD_CLOSE :: u8 where "RT_THREAD_CLOSE \<equiv> 4"

record rt_thread =
  sp :: u32
  entry_fn :: u32
  parameter :: u32
  stack_addr :: u32
  stack_size :: u16
  error :: rt_err_t
  stat :: u8
  current_priority :: u8
  init_priority :: u8
  number_mask :: u32
  event_set :: u32
  event_info :: u8
  init_tick :: u32
  remaining_tick :: u32
  cleanup :: "nat option"
  user_data :: u32

text \<open>
  The heads of the lists that link threads through \<^verbatim>\<open>tlist\<close>: the ready list of a
  priority, the defunct list, the list of threads waiting on an object, and the second
  list of objects that have two (mailbox senders, data queue producers).
\<close>

datatype qid = Ready nat | Defunct | Wait oid | Wait_Sender oid

fun is_wait :: "qid \<Rightarrow> bool" where
  "is_wait (Wait _) = True"
| "is_wait (Wait_Sender _) = True"
| "is_wait _ = False"

subsection \<open>IPC objects\<close>

abbreviation (input) RT_IPC_FLAG_FIFO :: u8 where "RT_IPC_FLAG_FIFO \<equiv> 0"
abbreviation (input) RT_IPC_FLAG_PRIO :: u8 where "RT_IPC_FLAG_PRIO \<equiv> 1"

record rt_semaphore =
  sem_value :: u16

record rt_mutex =
  mutex_value :: u16
  original_priority :: u8
  hold :: u8
  owner :: "tid option"

record rt_event =
  ev_set :: u32

text \<open>A mailbox; the message pool is the array of its 4-byte messages.\<close>

record rt_mailbox =
  mb_pool :: "u32 list"
  mb_size :: u16
  mb_entry :: u16
  in_offset :: u16
  out_offset :: u16

text \<open>
  A message queue. A block of the pool is named by its index; \<open>mq_next\<close> is the link in the
  header of a block and \<open>mq_data\<close> the bytes behind it.
\<close>

record rt_messagequeue =
  mq_next :: "nat \<Rightarrow> nat option"
  mq_data :: "nat \<Rightarrow> u8 list"
  msg_size :: u16
  max_msgs :: u16
  mq_entry :: u16
  msg_queue_head :: "nat option"
  msg_queue_tail :: "nat option"
  msg_queue_free :: "nat option"

text \<open>
  A memory pool. A block is named by its index in the pool; its header is a link of the
  free list while the block is free, and points to the pool while it is allocated.
\<close>

datatype mp_header = Next_Free "nat option" | Owner_Pool oid

record rt_mempool =
  mp_size :: u32
  mp_block_size :: u32
  mp_header_of :: "nat \<Rightarrow> mp_header"
  block_list :: "nat option"
  block_total_count :: u32
  block_free_count :: u32
  suspend_thread_count :: u32

subsection \<open>The kernel state\<close>

record kstate =
  threads :: "tid \<Rightarrow> rt_thread"
  tlists :: "qid \<Rightarrow> tid list"
  timers :: "timer_id \<Rightarrow> rt_timer"
  rt_timer_list :: "timer_id list"
  random_nr :: u32
  objects :: "objid \<Rightarrow> rt_object"
  rt_object_container :: "u8 \<Rightarrow> objid list"
  rt_thread_ready_priority_group :: u32
  rt_current_thread :: "tid option"
  rt_current_priority :: u8
  rt_scheduler_lock_nest :: u16
  rt_interrupt_nest :: u8
  rt_tick :: u32
  rt_errno :: rt_err_t
  memory :: mem
  sems :: "oid \<Rightarrow> rt_semaphore"
  mutexes :: "oid \<Rightarrow> rt_mutex"
  events :: "oid \<Rightarrow> rt_event"
  mailboxes :: "oid \<Rightarrow> rt_mailbox"
  mqs :: "oid \<Rightarrow> rt_messagequeue"
  mempools :: "oid \<Rightarrow> rt_mempool"

definition upd_thread :: "tid \<Rightarrow> (rt_thread \<Rightarrow> rt_thread) \<Rightarrow> kstate \<Rightarrow> kstate" where
  "upd_thread t f s = s\<lparr>threads := (threads s)(t := f (threads s t))\<rparr>"

definition upd_timer :: "timer_id \<Rightarrow> (rt_timer \<Rightarrow> rt_timer) \<Rightarrow> kstate \<Rightarrow> kstate" where
  "upd_timer t f s = s\<lparr>timers := (timers s)(t := f (timers s t))\<rparr>"

definition upd_object :: "objid \<Rightarrow> (rt_object \<Rightarrow> rt_object) \<Rightarrow> kstate \<Rightarrow> kstate" where
  "upd_object x f s = s\<lparr>objects := (objects s)(x := f (objects s x))\<rparr>"

lemmas upd_defs [simp] = upd_thread_def upd_timer_def upd_object_def

subsection \<open>Interrupt nesting, tick, error number\<close>

definition rt_interrupt_enter :: "kstate \<Rightarrow> kstate" where
  "rt_interrupt_enter s = s\<lparr>rt_interrupt_nest := rt_interrupt_nest s + 1\<rparr>"

definition rt_interrupt_leave :: "kstate \<Rightarrow> kstate" where
  "rt_interrupt_leave s = s\<lparr>rt_interrupt_nest := rt_interrupt_nest s - 1\<rparr>"

definition rt_interrupt_get_nest :: "kstate \<Rightarrow> u8" where
  "rt_interrupt_get_nest s = rt_interrupt_nest s"

definition rt_tick_get :: "kstate \<Rightarrow> u32" where
  "rt_tick_get s = rt_tick s"

definition rt_tick_set :: "u32 \<Rightarrow> kstate \<Rightarrow> kstate" where
  "rt_tick_set tick s = s\<lparr>rt_tick := tick\<rparr>"

text \<open>\<^verbatim>\<open>(RT_TICK_PER_SECOND * ms + 999) / 1000\<close> with 100 ticks per second, in 32 bits.\<close>

definition rt_tick_from_millisecond :: "u32 \<Rightarrow> u32" where
  "rt_tick_from_millisecond ms = (100 * ms + 999) div 1000"

definition rt_thread_self :: "kstate \<Rightarrow> tid option" where
  "rt_thread_self s = rt_current_thread s"

definition rt_get_errno :: "kstate \<Rightarrow> rt_err_t" where
  "rt_get_errno s =
    (if rt_interrupt_get_nest s \<noteq> 0 then rt_errno s
     else case rt_thread_self s of None \<Rightarrow> rt_errno s | Some t \<Rightarrow> error (threads s t))"

definition rt_set_errno :: "rt_err_t \<Rightarrow> kstate \<Rightarrow> kstate" where
  "rt_set_errno e s =
    (if rt_interrupt_get_nest s \<noteq> 0 then s\<lparr>rt_errno := e\<rparr>
     else case rt_thread_self s of
       None \<Rightarrow> s\<lparr>rt_errno := e\<rparr>
     | Some t \<Rightarrow> upd_thread t (\<lambda>th. th\<lparr>error := e\<rparr>) s)"

text \<open>The context checks of \<^verbatim>\<open>rtdebug.h\<close>.\<close>

definition RT_DEBUG_NOT_IN_INTERRUPT :: "kstate \<Rightarrow> unit option" where
  "RT_DEBUG_NOT_IN_INTERRUPT s = rt_assert (rt_interrupt_get_nest s = 0)"

definition RT_DEBUG_IN_THREAD_CONTEXT :: "kstate \<Rightarrow> unit option" where
  "RT_DEBUG_IN_THREAD_CONTEXT s = do {
     rt_assert (rt_thread_self s \<noteq> None);
     RT_DEBUG_NOT_IN_INTERRUPT s
   }"

lemma rt_errno_roundtrip: "rt_get_errno (rt_set_errno e s) = e"
  by (auto simp: rt_get_errno_def rt_set_errno_def rt_interrupt_get_nest_def rt_thread_self_def
      split: option.splits)

end
