(* ===== verification/RT_Scheduler.thy ===== *)
theory RT_Scheduler
  imports RT_State
begin

text \<open>
  \<^verbatim>\<open>Kernel/scheduler.c\<close>: the ready lists with their priority bitmap, the choice of the
  next thread, and the scheduler lock. The invariant \<open>kinvx\<close> relates the lists, the
  bitmap and the thread states; its set argument holds threads that an operation has
  taken off every list and not yet put back.
\<close>

subsection \<open>Operations\<close>

text \<open>
  The stack check of the configured overflow detection. It is \<^term>\<open>None\<close> where the code
  reports the overflow and spins with interrupts disabled.
\<close>

definition rt_scheduler_stack_check :: "rt_thread \<Rightarrow> unit option" where
  "rt_scheduler_stack_check th =
    (if sp th \<le> stack_addr th \<or> sp th > stack_addr th + ucast (stack_size th) then None
     else Some ())"

definition rt_system_scheduler_init :: "kstate \<Rightarrow> kstate" where
  "rt_system_scheduler_init s =
    (let s = s\<lparr>rt_scheduler_lock_nest := 0\<rparr>;
         s = s\<lparr>tlists := fold (\<lambda>offset. q_init (Ready offset)) [0..<RT_THREAD_PRIORITY_MAX] (tlists s)\<rparr>;
         s = s\<lparr>rt_current_priority := of_nat (RT_THREAD_PRIORITY_MAX - 1)\<rparr>;
         s = s\<lparr>rt_current_thread := None\<rparr>;
         s = s\<lparr>rt_thread_ready_priority_group := 0\<rparr>
     in s\<lparr>tlists := q_init Defunct (tlists s)\<rparr>)"

text \<open>
  The first thread of a ready list, as \<^verbatim>\<open>rt_list_entry(table[p].next, ...)\<close>: \<^term>\<open>None\<close> for a
  priority outside the table and for an empty list, whose \<^verbatim>\<open>next\<close> is no thread.
\<close>

definition ready_first :: "nat \<Rightarrow> kstate \<Rightarrow> tid option" where
  "ready_first p s =
    (if p < RT_THREAD_PRIORITY_MAX then case tlists s (Ready p) of [] \<Rightarrow> None | t # _ \<Rightarrow> Some t
     else None)"

text \<open>\<^verbatim>\<open>__rt_ffs(group) - 1\<close>; it is \<^verbatim>\<open>-1\<close>, no index, when no bit is set.\<close>

definition highest_ready_priority :: "kstate \<Rightarrow> nat option" where
  "highest_ready_priority s =
    (case rt_ffs (rt_thread_ready_priority_group s) of 0 \<Rightarrow> None | Suc p \<Rightarrow> Some p)"

definition rt_system_scheduler_start :: "kstate \<Rightarrow> kstate option" where
  "rt_system_scheduler_start s = do {
     p \<leftarrow> highest_ready_priority s;
     to_thread \<leftarrow> ready_first p s;
     Some (s\<lparr>rt_current_thread := Some to_thread\<rparr>)
   }"

definition rt_schedule :: "kstate \<Rightarrow> kstate option" where
  "rt_schedule s =
    (if rt_scheduler_lock_nest s = 0 then do {
       p \<leftarrow> highest_ready_priority s;
       to_thread \<leftarrow> ready_first p s;
       if Some to_thread \<noteq> rt_current_thread s then do {
         let s = s\<lparr>rt_current_priority := of_nat p, rt_current_thread := Some to_thread\<rparr>;
         rt_scheduler_stack_check (threads s to_thread);
         Some s
       } else Some s
     } else Some s)"

definition rt_schedule_insert_thread :: "tid \<Rightarrow> kstate \<Rightarrow> kstate option" where
  "rt_schedule_insert_thread t s = do {
     let s = upd_thread t (\<lambda>th. th\<lparr>stat := RT_THREAD_READY\<rparr>) s;
     rt_assert (unat (current_priority (threads s t)) < RT_THREAD_PRIORITY_MAX);
     let s = s\<lparr>tlists := q_insert_before (Ready (unat (current_priority (threads s t)))) t (tlists s)\<rparr>;
     Some (s\<lparr>rt_thread_ready_priority_group :=
               rt_thread_ready_priority_group s OR number_mask (threads s t)\<rparr>)
   }"

definition rt_schedule_remove_thread :: "tid \<Rightarrow> kstate \<Rightarrow> kstate option" where
  "rt_schedule_remove_thread t s = do {
     let s = s\<lparr>tlists := q_remove t (tlists s)\<rparr>;
     rt_assert (unat (current_priority (threads s t)) < RT_THREAD_PRIORITY_MAX);
     if q_isempty (Ready (unat (current_priority (threads s t)))) (tlists s)
     then Some (s\<lparr>rt_thread_ready_priority_group :=
                    rt_thread_ready_priority_group s AND NOT (number_mask (threads s t))\<rparr>)
     else Some s
   }"

definition rt_enter_critical :: "kstate \<Rightarrow> kstate" where
  "rt_enter_critical s = s\<lparr>rt_scheduler_lock_nest := rt_scheduler_lock_nest s + 1\<rparr>"

definition rt_exit_critical :: "kstate \<Rightarrow> kstate option" where
  "rt_exit_critical s =
    (let s = s\<lparr>rt_scheduler_lock_nest := rt_scheduler_lock_nest s - 1\<rparr> in
     if sint (rt_scheduler_lock_nest s) \<le> 0 then rt_schedule (s\<lparr>rt_scheduler_lock_nest := 0\<rparr>)
     else Some s)"

definition rt_critical_level :: "kstate \<Rightarrow> u16" where
  "rt_critical_level s = rt_scheduler_lock_nest s"

subsection \<open>The scheduler invariant\<close>

definition runnable_fields :: "rt_thread \<Rightarrow> bool" where
  "runnable_fields th \<longleftrightarrow>
     unat (current_priority th) < 32 \<and> number_mask th = push_bit (unat (current_priority th)) 1 \<and>
     rt_scheduler_stack_check th = Some ()"

definition lists_inv :: "tid set \<Rightarrow> kstate \<Rightarrow> bool" where
  "lists_inv X s \<longleftrightarrow>
     (\<forall>q. distinct (tlists s q)) \<and>
     (\<forall>q q' t. t \<in> set (tlists s q) \<longrightarrow> t \<in> set (tlists s q') \<longrightarrow> q = q') \<and>
     (\<forall>t \<in> X. \<forall>q. t \<notin> set (tlists s q))"

definition group_inv :: "kstate \<Rightarrow> bool" where
  "group_inv s \<longleftrightarrow> (\<forall>p. bit (rt_thread_ready_priority_group s) p \<longleftrightarrow> tlists s (Ready p) \<noteq> [])"

definition stat_inv :: "tid set \<Rightarrow> kstate \<Rightarrow> bool" where
  "stat_inv X s \<longleftrightarrow>
     (\<forall>t p. t \<in> set (tlists s (Ready p)) \<longrightarrow>
        stat (threads s t) = RT_THREAD_READY \<and> unat (current_priority (threads s t)) = p) \<and>
     (\<forall>t. t \<notin> X \<longrightarrow> stat (threads s t) = RT_THREAD_READY \<longrightarrow>
        t \<in> set (tlists s (Ready (unat (current_priority (threads s t)))))) \<and>
     (\<forall>t q. t \<in> set (tlists s q) \<longrightarrow> is_wait q \<longrightarrow> stat (threads s t) = RT_THREAD_SUSPEND) \<and>
     (\<forall>t. t \<in> set (tlists s Defunct) \<longrightarrow> stat (threads s t) = RT_THREAD_CLOSE) \<and>
     (\<forall>t. t \<notin> X \<longrightarrow> stat (threads s t) \<in> {RT_THREAD_READY, RT_THREAD_SUSPEND} \<longrightarrow>
        runnable_fields (threads s t))"

definition kinvx :: "tid set \<Rightarrow> kstate \<Rightarrow> bool" where
  "kinvx X s \<longleftrightarrow> lists_inv X s \<and> group_inv s \<and> stat_inv X s"

abbreviation kinv :: "kstate \<Rightarrow> bool" where
  "kinv s \<equiv> kinvx {} s"

lemmas kinvx_defs = kinvx_def lists_inv_def group_inv_def stat_inv_def

subsection \<open>How updates act on the invariant\<close>

lemma kinvx_cong:
  "threads s' = threads s \<Longrightarrow> tlists s' = tlists s \<Longrightarrow>
   rt_thread_ready_priority_group s' = rt_thread_ready_priority_group s \<Longrightarrow>
   kinvx X s' \<longleftrightarrow> kinvx X s"
  by (simp add: kinvx_defs)

lemma kinvx_eqI:
  "kinvx X s \<Longrightarrow> threads s' = threads s \<Longrightarrow> tlists s' = tlists s \<Longrightarrow>
   rt_thread_ready_priority_group s' = rt_thread_ready_priority_group s \<Longrightarrow> kinvx X s'"
  by (simp add: kinvx_defs)

text \<open>The order within the lists does not matter.\<close>

lemma kinvx_perm:
  assumes k: "kinvx X s" and p: "\<And>q. distinct (tlists s' q) \<and> set (tlists s' q) = set (tlists s q)"
    and "threads s' = threads s" "rt_thread_ready_priority_group s' = rt_thread_ready_priority_group s"
  shows "kinvx X s'"
proof -
  have "tlists s' q = [] \<longleftrightarrow> tlists s q = []" for q using p[of q] by (metis set_empty)
  then show ?thesis using k p assms(3,4) by (simp add: kinvx_defs)
qed

text \<open>Writing fields the scheduler does not look at.\<close>

definition sched_same :: "rt_thread \<Rightarrow> rt_thread \<Rightarrow> bool" where
  "sched_same a b \<longleftrightarrow> stat a = stat b \<and> current_priority a = current_priority b \<and>
     number_mask a = number_mask b \<and> sp a = sp b \<and> stack_addr a = stack_addr b \<and>
     stack_size a = stack_size b"

lemma runnable_fields_same: "sched_same a b \<Longrightarrow> runnable_fields a \<longleftrightarrow> runnable_fields b"
  by (simp add: sched_same_def runnable_fields_def rt_scheduler_stack_check_def)

lemma runnable_fields_upd [simp]: "runnable_fields (th\<lparr>stat := x\<rparr>) = runnable_fields th"
  by (simp add: runnable_fields_def rt_scheduler_stack_check_def)

lemma stat_invI:
  assumes "\<And>t p. t \<in> set (tlists s (Ready p)) \<Longrightarrow>
        stat (threads s t) = RT_THREAD_READY \<and> unat (current_priority (threads s t)) = p"
    and "\<And>t. t \<notin> X \<Longrightarrow> stat (threads s t) = RT_THREAD_READY \<Longrightarrow>
        t \<in> set (tlists s (Ready (unat (current_priority (threads s t)))))"
    and "\<And>t q. t \<in> set (tlists s q) \<Longrightarrow> is_wait q \<Longrightarrow> stat (threads s t) = RT_THREAD_SUSPEND"
    and "\<And>t. t \<in> set (tlists s Defunct) \<Longrightarrow> stat (threads s t) = RT_THREAD_CLOSE"
    and "\<And>t. t \<notin> X \<Longrightarrow> stat (threads s t) = RT_THREAD_READY \<or> stat (threads s t) = RT_THREAD_SUSPEND \<Longrightarrow>
        runnable_fields (threads s t)"
  shows "stat_inv X s"
  using assms by (simp add: stat_inv_def)

lemma kinvx_same:
  assumes "\<And>t. sched_same (threads s' t) (threads s t)" "tlists s' = tlists s"
    "rt_thread_ready_priority_group s' = rt_thread_ready_priority_group s"
  shows "kinvx X s' \<longleftrightarrow> kinvx X s"
proof -
  have "stat (threads s' t) = stat (threads s t)"
    "current_priority (threads s' t) = current_priority (threads s t)"
    "runnable_fields (threads s' t) = runnable_fields (threads s t)" for t
    using assms(1)[of t] runnable_fields_same[of "threads s' t" "threads s t"] by (auto simp: sched_same_def)
  then show ?thesis using assms(2,3) by (simp add: kinvx_defs)
qed

lemma kinvx_upd_same:
  "(\<And>th. sched_same (f th) th) \<Longrightarrow> kinvx X (upd_thread t f s) \<longleftrightarrow> kinvx X s"
  by (rule kinvx_same) (auto simp: sched_same_def)

lemma kinvx_upd_out: "kinvx X s \<Longrightarrow> t \<in> X \<Longrightarrow> kinvx X (upd_thread t f s)"
  unfolding kinvx_defs by simp

lemma kinvx_Diff:
  assumes "kinvx X s" "t \<in> X" "stat (threads s t) \<noteq> RT_THREAD_READY"
    "stat (threads s t) = RT_THREAD_SUSPEND \<Longrightarrow> runnable_fields (threads s t)"
  shows "kinvx (X - {t}) s"
  using assms unfolding kinvx_defs by auto

lemma kinvxD:
  assumes "kinvx X s"
  shows "distinct (tlists s q)"
    and "t \<in> set (tlists s q) \<Longrightarrow> t \<in> set (tlists s q') \<Longrightarrow> q = q'"
    and "t \<in> X \<Longrightarrow> t \<notin> set (tlists s q)"
    and "bit (rt_thread_ready_priority_group s) p \<longleftrightarrow> tlists s (Ready p) \<noteq> []"
    and "t \<in> set (tlists s (Ready p)) \<Longrightarrow>
           stat (threads s t) = RT_THREAD_READY \<and> unat (current_priority (threads s t)) = p"
    and "t \<notin> X \<Longrightarrow> stat (threads s t) = RT_THREAD_READY \<Longrightarrow>
           t \<in> set (tlists s (Ready (unat (current_priority (threads s t)))))"
    and "t \<in> set (tlists s q) \<Longrightarrow> is_wait q \<Longrightarrow> stat (threads s t) = RT_THREAD_SUSPEND"
    and "t \<in> set (tlists s Defunct) \<Longrightarrow> stat (threads s t) = RT_THREAD_CLOSE"
    and "t \<notin> X \<Longrightarrow> stat (threads s t) = RT_THREAD_READY \<or> stat (threads s t) = RT_THREAD_SUSPEND \<Longrightarrow>
           runnable_fields (threads s t)"
  using assms unfolding kinvx_defs by (blast, blast, blast, blast, blast, blast, blast, blast, blast)

lemma q_remove_lists_inv: "lists_inv X s \<Longrightarrow> lists_inv (insert t X) (s\<lparr>tlists := q_remove t (tlists s)\<rparr>)"
  by (auto simp: lists_inv_def q_remove_def)

lemma q_remove_stat_inv:
  "lists_inv X s \<Longrightarrow> stat_inv X s \<Longrightarrow> stat_inv (insert t X) (s\<lparr>tlists := q_remove t (tlists s)\<rparr>)"
  by (auto simp: stat_inv_def lists_inv_def q_remove_def)

text \<open>Taking a thread off a wait list does not touch the ready lists.\<close>

lemma kinvx_remove_waiting:
  assumes k: "kinvx X s" and t: "stat (threads s t) \<noteq> RT_THREAD_READY"
  shows "kinvx (insert t X) (s\<lparr>tlists := q_remove t (tlists s)\<rparr>)"
proof -
  have "t \<notin> set (tlists s (Ready p))" for p using kinvxD(5)[OF k] t by blast
  then have "q_remove t (tlists s) (Ready p) = tlists s (Ready p)" for p
    by (simp add: q_remove_def remove1_idem)
  then have "group_inv (s\<lparr>tlists := q_remove t (tlists s)\<rparr>)"
    using k by (simp add: kinvx_def group_inv_def)
  with k show ?thesis by (simp add: kinvx_def q_remove_lists_inv q_remove_stat_inv)
qed

lemma remove_thread_kinvx:
  assumes k: "kinvx X s" and r: "runnable_fields (threads s t)"
  shows "\<exists>g. rt_schedule_remove_thread t s =
       Some (s\<lparr>tlists := q_remove t (tlists s), rt_thread_ready_priority_group := g\<rparr>) \<and>
     kinvx (insert t X) (s\<lparr>tlists := q_remove t (tlists s), rt_thread_ready_priority_group := g\<rparr>)"
proof -
  let ?p = "unat (current_priority (threads s t))" and ?Q = "q_remove t (tlists s)"
  let ?g = "if ?Q (Ready ?p) = [] then rt_thread_ready_priority_group s AND NOT (number_mask (threads s t))
            else rt_thread_ready_priority_group s"
  from r have p: "?p < 32" and m: "number_mask (threads s t) = 2 ^ ?p"
    by (simp_all add: runnable_fields_def)
  have eq: "rt_schedule_remove_thread t s =
      Some (s\<lparr>tlists := ?Q, rt_thread_ready_priority_group := ?g\<rparr>)"
    using p by (simp add: rt_schedule_remove_thread_def q_isempty_def)
  have other: "?Q (Ready q) = tlists s (Ready q)" if "q \<noteq> ?p" for q
    using kinvxD(5)[OF k, of t q] that by (auto simp: q_remove_def intro: remove1_idem)
  have "bit ?g q \<longleftrightarrow> ?Q (Ready q) \<noteq> []" for q
  proof (cases "q = ?p")
    case True
    have "tlists s (Ready ?p) \<noteq> []" if "?Q (Ready ?p) \<noteq> []" using that by (auto simp: q_remove_def)
    with True show ?thesis using kinvxD(4)[OF k, of ?p] p by (simp add: m bit_and_iff bit_not_iff)
  next
    case False
    then show ?thesis using kinvxD(4)[OF k, of q] p other[OF False]
      by (auto simp: m bit_and_iff bit_not_iff dest: bit_imp_le_length)
  qed
  then have "group_inv (s\<lparr>tlists := ?Q, rt_thread_ready_priority_group := ?g\<rparr>)"
    by (simp add: group_inv_def)
  moreover have "lists_inv (insert t X) (s\<lparr>tlists := ?Q, rt_thread_ready_priority_group := ?g\<rparr>)"
    using q_remove_lists_inv[of X s t] k by (simp add: kinvx_def lists_inv_def)
  moreover have "stat_inv (insert t X) (s\<lparr>tlists := ?Q, rt_thread_ready_priority_group := ?g\<rparr>)"
    using q_remove_stat_inv[of X s t] k by (simp add: kinvx_def stat_inv_def)
  ultimately have "kinvx (insert t X) (s\<lparr>tlists := ?Q, rt_thread_ready_priority_group := ?g\<rparr>)"
    by (simp only: kinvx_def)
  with eq show ?thesis by blast
qed

text \<open>The state after \<^term>\<open>rt_schedule_insert_thread t s\<close>.\<close>

definition inserted :: "tid \<Rightarrow> kstate \<Rightarrow> kstate" where
  "inserted t s = s\<lparr>threads := (threads s)(t := (threads s t)\<lparr>stat := RT_THREAD_READY\<rparr>),
     tlists := q_insert_before (Ready (unat (current_priority (threads s t)))) t (tlists s),
     rt_thread_ready_priority_group :=
       rt_thread_ready_priority_group s OR number_mask (threads s t)\<rparr>"

lemma insert_thread_eq:
  "unat (current_priority (threads s t)) < 32 \<Longrightarrow> rt_schedule_insert_thread t s = Some (inserted t s)"
  by (simp add: rt_schedule_insert_thread_def inserted_def)

lemma inserted_kinvx:
  assumes k: "kinvx X s" and t: "t \<in> X" and r: "runnable_fields (threads s t)"
  shows "kinvx (X - {t}) (inserted t s)"
proof -
  let ?p = "unat (current_priority (threads s t))"
  from r have p: "?p < 32" and m: "number_mask (threads s t) = 2 ^ ?p"
    by (simp_all add: runnable_fields_def)
  have out: "t \<notin> set (tlists s q)" for q using kinvxD(3)[OF k t] .
  have "group_inv (inserted t s)"
    using kinvxD(4)[OF k] p by (auto simp: group_inv_def inserted_def q_insert_before_def m bit_or_iff)
  moreover have "lists_inv (X - {t}) (inserted t s)"
    using k out unfolding kinvx_def lists_inv_def inserted_def q_insert_before_def by auto
  moreover have "stat_inv (X - {t}) (inserted t s)"
  proof (rule stat_invI)
    fix u q
    show "u \<in> set (tlists (inserted t s) (Ready q)) \<Longrightarrow>
        stat (threads (inserted t s) u) = RT_THREAD_READY \<and>
        unat (current_priority (threads (inserted t s) u)) = q"
      using kinvxD(5)[OF k, of u q] by (auto simp: inserted_def q_insert_before_def split: if_splits)
  next
    fix u
    show "u \<notin> X - {t} \<Longrightarrow> stat (threads (inserted t s) u) = RT_THREAD_READY \<Longrightarrow>
        u \<in> set (tlists (inserted t s) (Ready (unat (current_priority (threads (inserted t s) u)))))"
      using kinvxD(6)[OF k, of u] by (auto simp: inserted_def q_insert_before_def split: if_splits)
    show "u \<in> set (tlists (inserted t s) q) \<Longrightarrow> is_wait q \<Longrightarrow>
        stat (threads (inserted t s) u) = RT_THREAD_SUSPEND" for q
      using kinvxD(7)[OF k, of u q] out[of q] by (auto simp: inserted_def q_insert_before_def split: if_splits)
    show "u \<in> set (tlists (inserted t s) Defunct) \<Longrightarrow> stat (threads (inserted t s) u) = RT_THREAD_CLOSE"
      using kinvxD(8)[OF k, of u] out[of Defunct] by (auto simp: inserted_def q_insert_before_def)
    show "u \<notin> X - {t} \<Longrightarrow>
        stat (threads (inserted t s) u) = RT_THREAD_READY \<or> stat (threads (inserted t s) u) = RT_THREAD_SUSPEND \<Longrightarrow>
        runnable_fields (threads (inserted t s) u)"
      using kinvxD(9)[OF k, of u] r by (auto simp: inserted_def split: if_splits)
  qed
  ultimately show ?thesis by (simp add: kinvx_def)
qed

text \<open>Linking a suspended, unlinked thread into a wait list at any position.\<close>

lemma kinvx_wait_link:
  assumes k: "kinvx X s" and t: "t \<in> X" "stat (threads s t) = RT_THREAD_SUSPEND"
    "runnable_fields (threads s t)" and q: "is_wait q" "tlists s q = as @ bs"
  shows "kinvx (X - {t}) (s\<lparr>tlists := (tlists s)(q := as @ t # bs)\<rparr>)"
proof -
  have out: "t \<notin> set (tlists s q')" for q' using kinvxD(3)[OF k t(1)] .
  have nr: "q \<noteq> Ready p" "q \<noteq> Defunct" for p using q(1) by auto
  have "group_inv (s\<lparr>tlists := (tlists s)(q := as @ t # bs)\<rparr>)"
    using k nr by (auto simp: kinvx_def group_inv_def)
  moreover have "lists_inv (X - {t}) (s\<lparr>tlists := (tlists s)(q := as @ t # bs)\<rparr>)"
  proof -
    have "set (as @ t # bs) = insert t (set (tlists s q))" "distinct (as @ t # bs)"
      using q(2) out[of q] kinvxD(1)[OF k, of q] by auto
    then show ?thesis
      using k out unfolding kinvx_def lists_inv_def by (simp del: set_append distinct_append) blast
  qed
  moreover have "stat_inv (X - {t}) (s\<lparr>tlists := (tlists s)(q := as @ t # bs)\<rparr>)"
  proof -
    have "set (as @ t # bs) = insert t (set (tlists s q))" using q(2) by auto
    then show ?thesis
      using k t nr q(1) unfolding kinvx_def stat_inv_def by (auto simp del: set_append)
  qed
  ultimately show ?thesis by (simp add: kinvx_def)
qed

lemma kinvx_defunct_link:
  assumes k: "kinvx X s" and t: "t \<in> X" "stat (threads s t) = RT_THREAD_CLOSE"
  shows "kinvx (X - {t}) (s\<lparr>tlists := q_insert_after Defunct t (tlists s)\<rparr>)"
  using k t kinvxD(3)[OF k t(1)] unfolding kinvx_defs q_insert_after_def by auto

subsection \<open>The thread the scheduler chooses\<close>

definition some_ready :: "kstate \<Rightarrow> bool" where
  "some_ready s \<longleftrightarrow> (\<exists>p. tlists s (Ready p) \<noteq> [])"

text \<open>
  The specification of the choice: the first thread of the first non-empty ready list,
  priority 0 being the highest.
\<close>

definition top_thread :: "kstate \<Rightarrow> tid option" where
  "top_thread s =
    (case filter (\<lambda>p. tlists s (Ready p) \<noteq> []) [0..<RT_THREAD_PRIORITY_MAX] of
       [] \<Rightarrow> None | p # _ \<Rightarrow> Some (hd (tlists s (Ready p))))"

lemma top_thread_cong: "tlists s' = tlists s \<Longrightarrow> top_thread s' = top_thread s"
  by (simp add: top_thread_def cong: list.case_cong)

lemma top_thread_run: "top_thread (s\<lparr>rt_current_priority := x, rt_current_thread := y\<rparr>) = top_thread s"
  by (rule top_thread_cong) simp

lemma ready_bound: "kinvx X s \<Longrightarrow> tlists s (Ready p) \<noteq> [] \<Longrightarrow> p < 32"
  using kinvxD(4)[of X s p] bit_imp_le_length[of "rt_thread_ready_priority_group s" p] by simp

lemma filter_upt_first:
  assumes "p < n" "P p" "\<And>q. q < p \<Longrightarrow> \<not> P q"
  shows "\<exists>ps. filter P [0..<n] = p # ps"
proof -
  have "[0..<n] = [0..<p] @ p # [Suc p..<n]"
    using upt_add_eq_append[of 0 p "n - p"] assms(1) by (simp add: upt_conv_Cons)
  moreover have "filter P [0..<p] = []" using assms(3) by (auto simp: filter_empty_conv)
  ultimately show ?thesis using assms(2) by simp
qed

lemma highest_ready_priority_eq:
  assumes k: "kinvx X s" and r: "some_ready s"
  obtains p t where "highest_ready_priority s = Some p" "p < 32" "t \<in> set (tlists s (Ready p))"
    "\<And>q. q < p \<Longrightarrow> tlists s (Ready q) = []"
    "ready_first p s = Some t" "top_thread s = Some t"
proof -
  let ?g = "rt_thread_ready_priority_group s"
  from r obtain p0 where "bit ?g p0" using kinvxD(4)[OF k] by (auto simp: some_ready_def)
  then have nz: "?g \<noteq> 0" by auto
  let ?p = "rt_ffs ?g - 1"
  have low: "lowest_set_bit ?g ?p" by (rule rt_ffs_lowest[OF nz])
  then have ne: "tlists s (Ready ?p) \<noteq> []" and p: "?p < 32"
    and lower: "\<And>q. q < ?p \<Longrightarrow> tlists s (Ready q) = []"
    using kinvxD(4)[OF k] by (auto simp: lowest_set_bit_def)
  from ne obtain t ts where t: "tlists s (Ready ?p) = t # ts" by (cases "tlists s (Ready ?p)") auto
  show thesis
  proof
    show "highest_ready_priority s = Some ?p"
      using nz rt_ffs_zero[of ?g] by (auto simp: highest_ready_priority_def split: nat.splits)
    show "?p < 32" by (rule p)
    show "t \<in> set (tlists s (Ready ?p))" using t by simp
    show "\<And>q. q < ?p \<Longrightarrow> tlists s (Ready q) = []" by (rule lower)
    show "ready_first ?p s = Some t" using p t by (simp add: ready_first_def)
    show "top_thread s = Some t"
      using filter_upt_first[OF p, where P = "\<lambda>p. tlists s (Ready p) \<noteq> []"] ne lower t
      by (auto simp: top_thread_def)
  qed
qed

text \<open>Everything \<^term>\<open>rt_schedule\<close> does: it runs the chosen thread, unless it is locked.\<close>

lemma rt_schedule_spec:
  assumes k: "kinvx X s" and r: "some_ready s" and X: "\<And>t. t \<in> X \<Longrightarrow> stat (threads s t) \<noteq> RT_THREAD_READY"
  shows "\<exists>x. rt_schedule s = Some (s\<lparr>rt_current_priority := x,
           rt_current_thread := (if rt_scheduler_lock_nest s = 0 then top_thread s else rt_current_thread s)\<rparr>)"
proof -
  obtain p t where *: "highest_ready_priority s = Some p" "t \<in> set (tlists s (Ready p))"
    "ready_first p s = Some t" "top_thread s = Some t"
    using highest_ready_priority_eq[OF k r] by metis
  have st: "stat (threads s t) = RT_THREAD_READY" using kinvxD(5)[OF k *(2)] by simp
  then have "t \<notin> X" using X by blast
  then have "rt_scheduler_stack_check (threads s t) = Some ()"
    using kinvxD(9)[OF k, of t] st by (simp add: runnable_fields_def)
  then show ?thesis
    using * by (cases s) (auto simp: rt_schedule_def Let_def)
qed

lemma kinvx_schedule_upd [simp]:
  "kinvx X (s\<lparr>rt_current_priority := x, rt_current_thread := y\<rparr>) = kinvx X s"
  by (rule kinvx_cong) simp_all

lemma rt_schedule_frame:
  "rt_schedule s = Some s' \<Longrightarrow> \<exists>x y. s' = s\<lparr>rt_current_priority := x, rt_current_thread := y\<rparr>"
proof -
  assume run: "rt_schedule s = Some s'"
  have id: "\<exists>x y. s = s\<lparr>rt_current_priority := x, rt_current_thread := y\<rparr>"
    by (intro exI[of _ "rt_current_priority s"] exI[of _ "rt_current_thread s"]) simp
  show ?thesis
  proof (cases "s' = s")
    case False
    with run show ?thesis by (auto simp: rt_schedule_def Let_def split: if_splits bind_splits)
  qed (use id in simp)
qed

lemma rt_schedule_kinvx: "kinvx X s \<Longrightarrow> rt_schedule s = Some s' \<Longrightarrow> kinvx X s'"
  using rt_schedule_frame[of s s'] by auto

end
