(* ===== verification/RT_Object.thy ===== *)
theory RT_Object
  imports RT_Scheduler
begin

text \<open>
  \<^verbatim>\<open>Kernel/object.c\<close>: the containers of named kernel objects. Each class has a list of the
  objects attached to it, newest first; objects are found by the first eight characters
  of their name.
\<close>

subsection \<open>Operations\<close>

definition rt_object_init :: "objid \<Rightarrow> u8 \<Rightarrow> u8 list \<Rightarrow> kstate \<Rightarrow> kstate option" where
  "rt_object_init x ty nm s = do {
     let s = upd_object x (\<lambda>ob. ob\<lparr>obj_type := ty OR RT_Object_Class_Static\<rparr>) s;
     nm8 \<leftarrow> rt_strncpy nm RT_NAME_MAX;
     let s = upd_object x (\<lambda>ob. ob\<lparr>obj_name := nm8\<rparr>) s;
     Some (s\<lparr>rt_object_container := q_insert_after ty x (rt_object_container s)\<rparr>)
   }"

definition rt_object_detach :: "objid \<Rightarrow> kstate \<Rightarrow> kstate" where
  "rt_object_detach x s = s\<lparr>rt_object_container := q_remove x (rt_object_container s)\<rparr>"

definition rt_object_is_systemobject :: "objid \<Rightarrow> kstate \<Rightarrow> bool" where
  "rt_object_is_systemobject x s \<longleftrightarrow> obj_type (objects s x) AND RT_Object_Class_Static \<noteq> 0"

text \<open>The search loop shared by the three find functions of the kernel.\<close>

fun find_by_name :: "(objid \<Rightarrow> u8 list) \<Rightarrow> u8 list \<Rightarrow> objid list \<Rightarrow> objid option option" where
  "find_by_name nm_of nm [] = Some None"
| "find_by_name nm_of nm (x # xs) = do {
     r \<leftarrow> rt_strncmp (nm_of x) nm RT_NAME_MAX;
     if r = 0 then Some (Some x) else find_by_name nm_of nm xs
   }"

text \<open>
  The container array has \<^verbatim>\<open>RT_Object_Class_Unknown\<close> entries; the parameter check lets that
  value itself pass, and the access is then outside the array.
\<close>

definition rt_object_find :: "u8 list option \<Rightarrow> u8 \<Rightarrow> kstate \<Rightarrow> (objid option \<times> kstate) option" where
  "rt_object_find nm ty s =
    (case nm of
       None \<Rightarrow> Some (None, s)
     | Some nm \<Rightarrow>
         if ty > RT_Object_Class_Unknown then Some (None, s)
         else do {
           RT_DEBUG_NOT_IN_INTERRUPT s;
           let s = rt_enter_critical s;
           rt_assert (ty < RT_Object_Class_Unknown);
           r \<leftarrow> find_by_name (\<lambda>x. obj_name (objects s x)) nm (rt_object_container s ty);
           s \<leftarrow> rt_exit_critical s;
           Some (r, s)
         })"

subsection \<open>Well-formed containers\<close>

definition obj_inv :: "kstate \<Rightarrow> bool" where
  "obj_inv s \<longleftrightarrow>
     (\<forall>c. distinct (rt_object_container s c)) \<and>
     (\<forall>c c' x. x \<in> set (rt_object_container s c) \<longrightarrow> x \<in> set (rt_object_container s c') \<longrightarrow> c = c') \<and>
     (\<forall>c x. x \<in> set (rt_object_container s c) \<longrightarrow>
        length (obj_name (objects s x)) = RT_NAME_MAX)"

definition attached :: "objid \<Rightarrow> kstate \<Rightarrow> bool" where
  "attached x s \<longleftrightarrow> (\<exists>c. x \<in> set (rt_object_container s c))"

text \<open>The name as the kernel compares it.\<close>

abbreviation name_of :: "kstate \<Rightarrow> objid \<Rightarrow> u8 list" where
  "name_of s x \<equiv> cstr RT_NAME_MAX (obj_name (objects s x))"

subsection \<open>Lemmas\<close>

lemma find_by_name_spec:
  assumes "\<And>x. x \<in> set xs \<Longrightarrow> length (nm_of x) = 8" "terminated nm"
  shows "find_by_name nm_of nm xs = Some (find (\<lambda>x. cstr 8 (nm_of x) = cstr 8 nm) xs)"
  using assms(1)
proof (induction xs)
  case (Cons x xs)
  have len: "length (nm_of x) \<ge> 8 \<or> terminated (nm_of x)" using Cons.prems[of x] by simp
  obtain r where r: "rt_strncmp (nm_of x) nm 8 = Some r"
    using rt_strncmp_defined[OF len, of nm] assms(2) by blast
  have "r = 0 \<longleftrightarrow> cstr 8 (nm_of x) = cstr 8 nm"
    using rt_strncmp_zero_iff[OF len, of nm] assms(2) r by simp
  with r Cons show ?case by simp
qed simp

lemma rt_object_init_spec:
  assumes "terminated nm"
  shows "\<exists>nm8. rt_object_init x ty nm s = Some (s\<lparr>
       objects := (objects s)(x := (objects s x)\<lparr>obj_type := ty OR RT_Object_Class_Static, obj_name := nm8\<rparr>),
       rt_object_container := q_insert_after ty x (rt_object_container s)\<rparr>) \<and>
     length nm8 = RT_NAME_MAX \<and> cstr RT_NAME_MAX nm8 = cstr RT_NAME_MAX nm"
proof -
  obtain d where d: "rt_strncpy nm 8 = Some d" "length d = 8" "cstr 8 d = cstr 8 nm"
    using rt_strncpy_Some[OF assms, of 8] by blast
  then show ?thesis by (intro exI[of _ d]) (simp add: rt_object_init_def Let_def)
qed

lemma rt_object_init_obj_inv:
  assumes "obj_inv s" "\<not> attached x s" "terminated nm" "rt_object_init x ty nm s = Some s'"
  shows "obj_inv s'"
proof -
  obtain nm8 where "s' = s\<lparr>
       objects := (objects s)(x := (objects s x)\<lparr>obj_type := ty OR RT_Object_Class_Static, obj_name := nm8\<rparr>),
       rt_object_container := q_insert_after ty x (rt_object_container s)\<rparr>" "length nm8 = 8"
    using rt_object_init_spec[OF assms(3), of x ty s] assms(4) by auto
  then show ?thesis
    using assms(1,2) by (auto simp: obj_inv_def attached_def q_insert_after_def)
qed

lemma rt_object_detach_obj_inv: "obj_inv s \<Longrightarrow> obj_inv (rt_object_detach x s)"
  by (auto simp: obj_inv_def rt_object_detach_def q_remove_def)

lemma rt_object_detach_attached: "obj_inv s \<Longrightarrow> attached y (rt_object_detach x s) \<longleftrightarrow> attached y s \<and> y \<noteq> x"
  by (auto simp: obj_inv_def attached_def rt_object_detach_def q_remove_def)

text \<open>The critical section around the search leaves the scheduler as it was.\<close>

lemma critical_bracket:
  assumes "kinv s" "some_ready s" "rt_scheduler_lock_nest s < 0x7fff"
  shows "\<exists>x y. rt_exit_critical (rt_enter_critical s) =
     Some (s\<lparr>rt_current_priority := x, rt_current_thread := y\<rparr>) \<and>
     (y = rt_current_thread s \<or> rt_scheduler_lock_nest s = 0 \<and> y = top_thread s)"
proof (cases "rt_scheduler_lock_nest s = 0")
  case True
  then have "rt_exit_critical (rt_enter_critical s) = rt_schedule s"
    by (cases s) (simp add: rt_exit_critical_def rt_enter_critical_def)
  with rt_schedule_spec[OF assms(1,2)] True show ?thesis by auto
next
  case False
  have "unat (rt_scheduler_lock_nest s) < 0x7fff" using assms(3) by (simp add: word_less_nat_alt)
  then have "sint (rt_scheduler_lock_nest s) = int (unat (rt_scheduler_lock_nest s))"
    by (intro sint_small) simp
  with False have "\<not> sint (rt_scheduler_lock_nest s) \<le> 0" by simp
  then have "rt_exit_critical (rt_enter_critical s) = Some s"
    by (simp add: rt_exit_critical_def rt_enter_critical_def)
  then show ?thesis
    by (intro exI[of _ "rt_current_priority s"] exI[of _ "rt_current_thread s"]) simp
qed

end
