(* ===== verification/RT_Timer.thy ===== *)
theory RT_Timer
  imports RT_Object
begin

text \<open>
  \<^verbatim>\<open>Kernel/timer.c\<close> with one skip list level, the configured value: the sorted list of
  active hard timers. The expiry loop \<^verbatim>\<open>rt_timer_check\<close> calls back into the thread
  component and is in \<^verbatim>\<open>RT_Clock\<close>.
\<close>

subsection \<open>Operations\<close>

definition rt_timer_init_common ::
    "timer_id \<Rightarrow> timeout_fn \<Rightarrow> u32 \<Rightarrow> u8 \<Rightarrow> kstate \<Rightarrow> kstate" where
  "rt_timer_init_common tm timeout time flag s =
    (let s = upd_object (Obj_Timer tm) (\<lambda>ob. ob\<lparr>obj_flag := flag\<rparr>) s;
         s = upd_object (Obj_Timer tm) (\<lambda>ob. ob\<lparr>obj_flag := obj_flag ob AND NOT RT_TIMER_FLAG_ACTIVATED\<rparr>) s
     in upd_timer tm (\<lambda>_. \<lparr>timeout_func = timeout, tm_init_tick = time, timeout_tick = 0\<rparr>) s)"

definition rt_timer_init ::
    "timer_id \<Rightarrow> u8 list \<Rightarrow> timeout_fn \<Rightarrow> u32 \<Rightarrow> u8 \<Rightarrow> kstate \<Rightarrow> kstate option" where
  "rt_timer_init tm nm timeout time flag s = do {
     s \<leftarrow> rt_object_init (Obj_Timer tm) RT_Object_Class_Timer nm s;
     Some (rt_timer_init_common tm timeout time flag s)
   }"

definition rt_timer_list_next_timeout :: "timer_id list \<Rightarrow> kstate \<Rightarrow> u32" where
  "rt_timer_list_next_timeout l s =
    (case l of [] \<Rightarrow> RT_TICK_MAX | tm # _ \<Rightarrow> timeout_tick (timers s tm))"

definition rt_timer_next_timeout_tick :: "kstate \<Rightarrow> u32" where
  "rt_timer_next_timeout_tick s = rt_timer_list_next_timeout (rt_timer_list s) s"

definition rt_timer_remove :: "timer_id \<Rightarrow> kstate \<Rightarrow> kstate" where
  "rt_timer_remove tm s = s\<lparr>rt_timer_list := remove1 tm (rt_timer_list s)\<rparr>"

definition rt_timer_detach :: "timer_id \<Rightarrow> kstate \<Rightarrow> rt_err_t \<times> kstate" where
  "rt_timer_detach tm s = (- RT_EOK, rt_object_detach (Obj_Timer tm) (rt_timer_remove tm s))"

definition timer_active :: "timer_id \<Rightarrow> kstate \<Rightarrow> bool" where
  "timer_active tm s \<longleftrightarrow> obj_flag (objects s (Obj_Timer tm)) AND RT_TIMER_FLAG_ACTIVATED \<noteq> 0"

definition timer_set_active :: "bool \<Rightarrow> timer_id \<Rightarrow> kstate \<Rightarrow> kstate" where
  "timer_set_active b tm s =
     upd_object (Obj_Timer tm)
       (\<lambda>ob. ob\<lparr>obj_flag := (if b then obj_flag ob OR RT_TIMER_FLAG_ACTIVATED
                            else obj_flag ob AND NOT RT_TIMER_FLAG_ACTIVATED)\<rparr>) s"

text \<open>
  The search of \<^verbatim>\<open>rt_timer_start\<close>: walk over timers that expire no later than the new one
  and link it before the first that expires later, in the modular order of ticks.
\<close>

fun timer_link :: "(timer_id \<Rightarrow> u32) \<Rightarrow> timer_id \<Rightarrow> timer_id list \<Rightarrow> timer_id list" where
  "timer_link tt tm [] = [tm]"
| "timer_link tt tm (t # ts) =
     (if tt t - tt tm = 0 then t # timer_link tt tm ts
      else if tt t - tt tm < RT_TICK_MAX div 2 then tm # t # ts
      else t # timer_link tt tm ts)"

definition rt_timer_start :: "timer_id \<Rightarrow> kstate \<Rightarrow> (rt_err_t \<times> kstate) option" where
  "rt_timer_start tm s = do {
     let s = timer_set_active False tm (rt_timer_remove tm s);
     rt_assert (tm_init_tick (timers s tm) < RT_TICK_MAX div 2);
     let s = upd_timer tm (\<lambda>t. t\<lparr>timeout_tick := rt_tick_get s + tm_init_tick t\<rparr>) s;
     let s = s\<lparr>random_nr := random_nr s + 1,
               rt_timer_list := timer_link (\<lambda>t. timeout_tick (timers s t)) tm (rt_timer_list s)\<rparr>;
     Some (- RT_EOK, timer_set_active True tm s)
   }"

definition rt_timer_stop :: "timer_id \<Rightarrow> kstate \<Rightarrow> rt_err_t \<times> kstate" where
  "rt_timer_stop tm s =
    (if \<not> timer_active tm s then (- RT_ERROR, s)
     else (RT_EOK, timer_set_active False tm (rt_timer_remove tm s)))"

text \<open>The second result is the value stored through \<^verbatim>\<open>arg\<close> by the get command.\<close>

definition rt_timer_control :: "timer_id \<Rightarrow> timer_cmd \<Rightarrow> kstate \<Rightarrow> rt_err_t \<times> u32 option \<times> kstate" where
  "rt_timer_control tm cmd s =
    (case cmd of
       RT_TIMER_CTRL_GET_TIME \<Rightarrow> (RT_EOK, Some (tm_init_tick (timers s tm)), s)
     | RT_TIMER_CTRL_SET_TIME time \<Rightarrow> (RT_EOK, None, upd_timer tm (\<lambda>t. t\<lparr>tm_init_tick := time\<rparr>) s)
     | RT_TIMER_CTRL_SET_ONESHOT \<Rightarrow> (RT_EOK, None,
         upd_object (Obj_Timer tm) (\<lambda>ob. ob\<lparr>obj_flag := obj_flag ob AND NOT RT_TIMER_FLAG_PERIODIC\<rparr>) s)
     | RT_TIMER_CTRL_SET_PERIODIC \<Rightarrow> (RT_EOK, None,
         upd_object (Obj_Timer tm) (\<lambda>ob. ob\<lparr>obj_flag := obj_flag ob OR RT_TIMER_FLAG_PERIODIC\<rparr>) s))"

definition rt_system_timer_init :: "kstate \<Rightarrow> kstate" where
  "rt_system_timer_init s = s\<lparr>rt_timer_list := []\<rparr>"

text \<open>
  The pair of calls every waiting function makes: set the period of the thread timer and
  start it.
\<close>

definition start_thread_timer :: "tid \<Rightarrow> u32 \<Rightarrow> kstate \<Rightarrow> kstate option" where
  "start_thread_timer t time s = do {
     let s = snd (snd (rt_timer_control (Thread_Timer t) (RT_TIMER_CTRL_SET_TIME time) s));
     (_, s) \<leftarrow> rt_timer_start (Thread_Timer t) s;
     Some s
   }"

subsection \<open>Flags\<close>

lemma flag_bits [simp]:
  "(f OR 1) AND (1 :: u8) = 1" "(f AND - 2) AND (1 :: u8) = 0"
  "(f AND - 3) AND (1 :: u8) = f AND 1" "(f OR 2) AND (1 :: u8) = f AND 1"
  "(f AND - 2) AND (2 :: u8) = f AND 2" "(f OR 1) AND (2 :: u8) = f AND 2"
  "(f OR 2) AND (2 :: u8) = 2" "(f AND - 3) AND (2 :: u8) = 0"
proof -
  have m: "(-2 :: u8) = NOT 1" "(-3 :: u8) = NOT 2" by simp_all
  show "(f OR 1) AND (1 :: u8) = 1" "(f AND - 2) AND (1 :: u8) = 0"
    "(f AND - 3) AND (1 :: u8) = f AND 1" "(f OR 2) AND (1 :: u8) = f AND 1"
    "(f AND - 2) AND (2 :: u8) = f AND 2" "(f OR 1) AND (2 :: u8) = f AND 2"
    "(f OR 2) AND (2 :: u8) = 2" "(f AND - 3) AND (2 :: u8) = 0"
    unfolding m by (auto simp: bit_eq_iff bit_simps bit_2_iff)
qed

lemma timer_active_set [simp]:
  "timer_active t (timer_set_active b tm s) \<longleftrightarrow> (if t = tm then b else timer_active t s)"
  by (auto simp: timer_active_def timer_set_active_def)

subsection \<open>The modular order of ticks\<close>

lemma tick_half [simp]: "(0xffffffff :: u32) div 2 = 0x7fffffff"
  by simp

text \<open>
  The subtraction the kernel compares with \<^verbatim>\<open>RT_TICK_MAX / 2\<close> orders two deadlines, given
  relative to now, as signed numbers as long as neither is further away than that.
\<close>

lemma tick_order:
  fixes x y :: u32
  assumes "- 1 \<le> sint x" "sint x < 0x7fffffff" "0 \<le> sint y" "sint y < 0x7fffffff"
  shows "x - y = 0 \<longleftrightarrow> sint x = sint y"
    and "x - y \<noteq> 0 \<Longrightarrow> x - y < 0x7fffffff \<longleftrightarrow> sint y < sint x"
proof -
  show "x - y = 0 \<longleftrightarrow> sint x = sint y" by (auto intro: signed_word_eqI)
  have "uint (x - y) = (sint x - sint y) mod 2 ^ 32"
  proof -
    have u: "uint w = sint w mod 2 ^ 32" for w :: u32
      by (simp add: uint_sint take_bit_eq_mod)
    show ?thesis by (subst uint_word_ariths(2)) (simp add: u mod_simps)
  qed
  then have u: "uint (x - y) = (if sint y \<le> sint x then sint x - sint y else sint x - sint y + 4294967296)"
    using assms mod_add_self2[of "sint x - sint y" 4294967296]
      mod_pos_pos_trivial[of "sint x - sint y + 4294967296" 4294967296] by (simp del: mod_add_self2)
  show "x - y < 0x7fffffff \<longleftrightarrow> sint y < sint x" if "x - y \<noteq> 0"
  proof -
    have "sint x \<noteq> sint y" using that by (auto intro: signed_word_eqI)
    then show ?thesis using assms u by (simp add: word_less_def)
  qed
qed

subsection \<open>The timer invariant\<close>

text \<open>Ticks left until a timer expires; negative once it is overdue.\<close>

definition remaining :: "kstate \<Rightarrow> timer_id \<Rightarrow> int" where
  "remaining s tm = sint (timeout_tick (timers s tm) - rt_tick s)"

text \<open>
  The list holds each timer once, in the order in which they expire, and every timer on it
  is marked active. A timer expires less than half the tick range ahead, and is overdue by
  at most \<open>d\<close> ticks: 0 between interrupts, 1 while \<^verbatim>\<open>rt_timer_check\<close> runs.
\<close>

definition timer_inv :: "int \<Rightarrow> kstate \<Rightarrow> bool" where
  "timer_inv d s \<longleftrightarrow>
     distinct (rt_timer_list s) \<and>
     sorted_wrt (\<lambda>a b. remaining s a \<le> remaining s b) (rt_timer_list s) \<and>
     (\<forall>tm \<in> set (rt_timer_list s). timer_active tm s \<and> - d \<le> remaining s tm \<and> remaining s tm < 0x7fffffff)"

lemma timer_inv_cong:
  assumes "timers s' = timers s" "rt_timer_list s' = rt_timer_list s" "rt_tick s' = rt_tick s"
    "\<And>tm. timer_active tm s' = timer_active tm s"
  shows "timer_inv d s' = timer_inv d s"
proof -
  have "remaining s' = remaining s" using assms by (simp add: remaining_def fun_eq_iff)
  then show ?thesis using assms by (simp add: timer_inv_def)
qed

lemma set_timer_link [simp]: "set (timer_link tt tm ts) = insert tm (set ts)"
  by (induction ts) auto

lemma distinct_timer_link [simp]: "distinct (timer_link tt tm ts) \<longleftrightarrow> distinct ts \<and> tm \<notin> set ts"
  by (induction ts) auto

lemma sorted_timer_link:
  assumes "\<And>t. t \<in> set ts \<Longrightarrow> - 1 \<le> sint (tt t - now) \<and> sint (tt t - now) < 0x7fffffff"
    and "0 \<le> sint (tt tm - now)" "sint (tt tm - now) < 0x7fffffff"
    and "sorted_wrt (\<lambda>a b. sint (tt a - now) \<le> sint (tt b - now)) ts"
  shows "sorted_wrt (\<lambda>a b. sint (tt a - now) \<le> sint (tt b - now)) (timer_link tt tm ts)"
  using assms(1,4)
proof (induction ts)
  case (Cons t ts)
  have *: "- 1 \<le> sint (tt t - now)" "sint (tt t - now) < 0x7fffffff" using Cons.prems(1)[of t] by auto
  have d: "tt t - tt tm = (tt t - now) - (tt tm - now)" by simp
  have z: "tt t = tt tm \<longleftrightarrow> sint (tt t - now) = sint (tt tm - now)"
    using tick_order(1)[OF * assms(2,3)] by simp
  have l: "tt t \<noteq> tt tm \<Longrightarrow> tt t - tt tm < 0x7fffffff \<longleftrightarrow> sint (tt tm - now) < sint (tt t - now)"
    using tick_order(2)[OF * assms(2,3)] unfolding d[symmetric] by simp
  have IH: "sorted_wrt (\<lambda>a b. sint (tt a - now) \<le> sint (tt b - now)) (timer_link tt tm ts)"
    using Cons.IH Cons.prems by simp
  show ?case
  proof (cases "tt t \<noteq> tt tm \<and> tt t - tt tm < 0x7fffffff")
    case True
    then have "sint (tt tm - now) < sint (tt t - now)" using l by simp
    with True Cons.prems(2) show ?thesis by fastforce
  next
    case False
    then have "sint (tt t - now) \<le> sint (tt tm - now)" using l z by (cases "tt t = tt tm") auto
    with False IH Cons.prems(2) show ?thesis by auto
  qed
qed simp

text \<open>The state after \<^term>\<open>rt_timer_start tm s\<close> succeeds.\<close>

definition timer_started :: "timer_id \<Rightarrow> kstate \<Rightarrow> kstate" where
  "timer_started tm s =
     (let tms = (timers s)(tm := (timers s tm)\<lparr>timeout_tick := rt_tick s + tm_init_tick (timers s tm)\<rparr>)
      in timer_set_active True tm (timer_set_active False tm
        (s\<lparr>timers := tms, random_nr := random_nr s + 1,
           rt_timer_list := timer_link (\<lambda>t. timeout_tick (tms t)) tm (remove1 tm (rt_timer_list s))\<rparr>)))"

lemma rt_timer_start_eq:
  "rt_timer_start tm s =
     (if tm_init_tick (timers s tm) < 0x7fffffff then Some (0, timer_started tm s) else None)"
  by (simp add: rt_timer_start_def timer_started_def rt_timer_remove_def timer_set_active_def
      rt_tick_get_def Let_def rt_assert_def cong: if_cong)

lemma timer_started_sel [simp]:
  "threads (timer_started tm s) = threads s" "tlists (timer_started tm s) = tlists s"
  "rt_thread_ready_priority_group (timer_started tm s) = rt_thread_ready_priority_group s"
  "rt_current_thread (timer_started tm s) = rt_current_thread s"
  "rt_scheduler_lock_nest (timer_started tm s) = rt_scheduler_lock_nest s"
  "rt_interrupt_nest (timer_started tm s) = rt_interrupt_nest s"
  "rt_tick (timer_started tm s) = rt_tick s"
  "rt_object_container (timer_started tm s) = rt_object_container s"
  "timer_active t (timer_started tm s) \<longleftrightarrow> t = tm \<or> timer_active t s"
  "timeout_func (timers (timer_started tm s) t) = timeout_func (timers s t)"
  "set (rt_timer_list (timer_started tm s)) = insert tm (set (remove1 tm (rt_timer_list s)))"
  "obj_flag (objects (timer_started tm s) x) AND 2 = obj_flag (objects s x) AND 2"
  by (auto simp: timer_started_def timer_set_active_def timer_active_def Let_def)

lemma sint_of_tick: "tm_init_tick t < 0x7fffffff \<Longrightarrow> 0 \<le> sint (tm_init_tick t) \<and> sint (tm_init_tick t) < 0x7fffffff"
proof -
  assume "tm_init_tick t < 0x7fffffff"
  then have "unat (tm_init_tick t) < 2147483647" by (simp add: word_less_nat_alt)
  moreover from this have "sint (tm_init_tick t) = int (unat (tm_init_tick t))"
    by (intro sint_small) simp
  ultimately show ?thesis by linarith
qed

lemma timer_started_inv:
  assumes k: "timer_inv d s" and d: "d \<le> 1" and d0: "0 \<le> d" and t: "tm_init_tick (timers s tm) < 0x7fffffff"
  shows "timer_inv d (timer_started tm s)"
proof -
  let ?s = "timer_started tm s"
  have new: "remaining ?s tm = sint (tm_init_tick (timers s tm))"
    by (simp add: remaining_def timer_started_def timer_set_active_def Let_def)
  have old: "remaining ?s x = remaining s x" if "x \<noteq> tm" for x
    using that by (simp add: remaining_def timer_started_def timer_set_active_def Let_def)
  let ?l = "remove1 tm (rt_timer_list s)" and ?tt = "\<lambda>t. timeout_tick (timers ?s t)"
  have lst: "rt_timer_list ?s = timer_link ?tt tm ?l"
    by (simp add: timer_started_def timer_set_active_def Let_def)
  have dist: "distinct (rt_timer_list s)" using k by (simp add: timer_inv_def)
  have bnd: "timer_active x s \<and> - d \<le> remaining ?s x \<and> - 1 \<le> remaining ?s x \<and> remaining ?s x < 0x7fffffff" if "x \<in> set ?l" for x
    using that k d old[of x] dist by (force simp: timer_inv_def)
  have "sorted_wrt (\<lambda>a b. remaining s a \<le> remaining s b) ?l"
    using k sorted_wrt_remove1 by (auto simp: timer_inv_def)
  then have "sorted_wrt (\<lambda>a b. remaining ?s a \<le> remaining ?s b) ?l"
    by (rule sorted_wrt_mono_rel[rotated]) (use dist old in auto)
  then have "sorted_wrt (\<lambda>a b. remaining ?s a \<le> remaining ?s b) (timer_link ?tt tm ?l)"
    unfolding remaining_def
    by (intro sorted_timer_link) (use bnd d sint_of_tick[OF t] new in \<open>auto simp: remaining_def\<close>)
  moreover have "\<forall>x \<in> insert tm (set ?l). - d \<le> remaining ?s x \<and> remaining ?s x < 0x7fffffff"
    using bnd sint_of_tick[OF t] new d0 by auto
  ultimately show ?thesis using bnd dist
    unfolding timer_inv_def lst by auto
qed

lemma rt_timer_stop_sel [simp]:
  "threads (snd (rt_timer_stop tm s)) = threads s" "tlists (snd (rt_timer_stop tm s)) = tlists s"
  "rt_thread_ready_priority_group (snd (rt_timer_stop tm s)) = rt_thread_ready_priority_group s"
  "rt_current_thread (snd (rt_timer_stop tm s)) = rt_current_thread s"
  "rt_scheduler_lock_nest (snd (rt_timer_stop tm s)) = rt_scheduler_lock_nest s"
  "rt_interrupt_nest (snd (rt_timer_stop tm s)) = rt_interrupt_nest s"
  "rt_tick (snd (rt_timer_stop tm s)) = rt_tick s"
  "rt_object_container (snd (rt_timer_stop tm s)) = rt_object_container s"
  "timers (snd (rt_timer_stop tm s)) = timers s"
  "timer_active t (snd (rt_timer_stop tm s)) \<longleftrightarrow> t \<noteq> tm \<and> timer_active t s"
  "obj_flag (objects (snd (rt_timer_stop tm s)) x) AND 2 = obj_flag (objects s x) AND 2"
  by (auto simp: rt_timer_stop_def timer_set_active_def rt_timer_remove_def timer_active_def)

text \<open>Stopping takes the timer off the list, because every timer on the list is active.\<close>

lemma rt_timer_stop_list:
  "timer_inv d s \<Longrightarrow> rt_timer_list (snd (rt_timer_stop tm s)) = remove1 tm (rt_timer_list s)"
  by (auto simp: timer_inv_def rt_timer_stop_def timer_set_active_def rt_timer_remove_def
      intro: remove1_idem[symmetric])

lemma timer_inv_remove:
  assumes "timer_inv d s" "timers s' = timers s" "rt_tick s' = rt_tick s"
    "rt_timer_list s' = remove1 tm (rt_timer_list s)"
    "\<And>t. t \<noteq> tm \<Longrightarrow> timer_active t s \<Longrightarrow> timer_active t s'"
  shows "timer_inv d s'"
proof -
  have "remaining s' = remaining s" using assms by (simp add: remaining_def fun_eq_iff)
  then show ?thesis using assms sorted_wrt_remove1[of _ "rt_timer_list s"] by (auto simp: timer_inv_def)
qed

lemma rt_timer_stop_inv: "timer_inv d s \<Longrightarrow> timer_inv d (snd (rt_timer_stop tm s))"
  by (rule timer_inv_remove) (auto simp: rt_timer_stop_list)

end
