(* ===== verification/RT_Thread.thy ===== *)
theory RT_Thread
  imports RT_Timer
begin

text \<open>
  \<^verbatim>\<open>Kernel/thread.c\<close> and \<^verbatim>\<open>rt_hw_stack_init\<close> of \<^verbatim>\<open>CORTEX-M3/cpuport.c\<close>. A function that gives
  up the processor in the middle (\<^verbatim>\<open>rt_thread_sleep\<close>) is cut there: the first part ends with
  the call of \<^verbatim>\<open>rt_schedule\<close>, the part that runs when the thread is resumed has the suffix
  \<open>_resume\<close>. \<^verbatim>\<open>rt_thread_create\<close> needs the heap and is not part of this theory.
\<close>

subsection \<open>The initial stack\<close>

text \<open>
  \<^verbatim>\<open>sizeof(struct stack_frame)\<close> is 64: r4 to r11, then the exception frame r0, r1, r2, r3,
  r12, lr, pc, psr.
\<close>

definition rt_hw_stack_init :: "u32 \<Rightarrow> u32 \<Rightarrow> u32 \<Rightarrow> u32 \<Rightarrow> mem \<Rightarrow> u32 \<times> mem" where
  "rt_hw_stack_init tentry param stackaddr texit m =
    (let stk = stackaddr + 4;
         stk = RT_ALIGN_DOWN stk 8;
         stk = stk - 64;
         m = fold (\<lambda>i. store32 (stk + 4 * of_nat i) 0xdeadbeef) [0..<16] m;
         m = store32 (stk + 32) param m;
         m = store32 (stk + 36) 0 m;
         m = store32 (stk + 40) 0 m;
         m = store32 (stk + 44) 0 m;
         m = store32 (stk + 48) 0 m;
         m = store32 (stk + 52) texit m;
         m = store32 (stk + 56) tentry m;
         m = store32 (stk + 60) 0x01000000 m
     in (stk, m))"

subsection \<open>Operations\<close>

text \<open>
  \<^verbatim>\<open>_rt_thread_init\<close>; \<open>exit_fn\<close> is the address of \<^verbatim>\<open>rt_thread_exit\<close>. The field \<^verbatim>\<open>number_mask\<close> is
  left as it is. Initialising \<^verbatim>\<open>tlist\<close> makes the node a list of its own, so the thread is on
  no list.
\<close>

definition rt_thread_init_common ::
    "u32 \<Rightarrow> tid \<Rightarrow> u32 \<Rightarrow> u32 \<Rightarrow> u32 \<Rightarrow> u32 \<Rightarrow> u8 \<Rightarrow> u32 \<Rightarrow> kstate \<Rightarrow> (rt_err_t \<times> kstate) option" where
  "rt_thread_init_common exit_fn t entry param stack_start stksize priority tick s = do {
     let s = upd_thread t (\<lambda>th. th\<lparr>entry_fn := entry, parameter := param\<rparr>) s;
     let s = upd_thread t (\<lambda>th. th\<lparr>stack_addr := stack_start, stack_size := ucast stksize\<rparr>) s;
     let th = threads s t;
     let s = s\<lparr>memory := rt_memset (stack_addr th) 0x23 (ucast (stack_size th)) (memory s)\<rparr>;
     let (stk, m) = rt_hw_stack_init (entry_fn th) (parameter th)
                      (stack_addr th + ucast (stack_size th) - 4) exit_fn (memory s);
     let s = upd_thread t (\<lambda>th. th\<lparr>sp := stk\<rparr>) (s\<lparr>memory := m\<rparr>);
     rt_assert (unat priority < RT_THREAD_PRIORITY_MAX);
     let s = upd_thread t (\<lambda>th. th\<lparr>init_priority := priority, current_priority := priority\<rparr>) s;
     let s = upd_thread t (\<lambda>th. th\<lparr>init_tick := tick, remaining_tick := tick\<rparr>) s;
     let s = upd_thread t (\<lambda>th. th\<lparr>error := RT_EOK, stat := RT_THREAD_INIT\<rparr>) s;
     let s = upd_thread t (\<lambda>th. th\<lparr>cleanup := None, user_data := 0\<rparr>) s;
     s \<leftarrow> rt_timer_init (Thread_Timer t) (obj_name (objects s (Obj_Thread t)))
           (Rt_Thread_Timeout t) 0 RT_TIMER_FLAG_ONE_SHOT s;
     Some (RT_EOK, s)
   }"

definition rt_thread_init ::
    "u32 \<Rightarrow> tid \<Rightarrow> u8 list \<Rightarrow> u32 \<Rightarrow> u32 \<Rightarrow> u32 \<Rightarrow> u32 \<Rightarrow> u8 \<Rightarrow> u32 \<Rightarrow> kstate \<Rightarrow>
     (rt_err_t \<times> kstate) option" where
  "rt_thread_init exit_fn t nm entry param stack_start stksize priority tick s = do {
     rt_assert (stack_start \<noteq> 0);
     s \<leftarrow> rt_object_init (Obj_Thread t) RT_Object_Class_Thread nm s;
     rt_thread_init_common exit_fn t entry param stack_start stksize priority tick s
   }"

definition rt_thread_suspend :: "tid \<Rightarrow> kstate \<Rightarrow> (rt_err_t \<times> kstate) option" where
  "rt_thread_suspend t s =
    (if stat (threads s t) \<noteq> RT_THREAD_READY then Some (- RT_ERROR, s)
     else do {
       let s = upd_thread t (\<lambda>th. th\<lparr>stat := RT_THREAD_SUSPEND\<rparr>) s;
       s \<leftarrow> rt_schedule_remove_thread t s;
       let s = snd (rt_timer_stop (Thread_Timer t) s);
       Some (RT_EOK, s)
     })"

definition rt_thread_resume :: "tid \<Rightarrow> kstate \<Rightarrow> (rt_err_t \<times> kstate) option" where
  "rt_thread_resume t s =
    (if stat (threads s t) \<noteq> RT_THREAD_SUSPEND then Some (- RT_ERROR, s)
     else do {
       let s = s\<lparr>tlists := q_remove t (tlists s)\<rparr>;
       let s = snd (rt_timer_stop (Thread_Timer t) s);
       s \<leftarrow> rt_schedule_insert_thread t s;
       Some (RT_EOK, s)
     })"

definition rt_thread_startup :: "tid \<Rightarrow> kstate \<Rightarrow> (rt_err_t \<times> kstate) option" where
  "rt_thread_startup t s = do {
     rt_assert (stat (threads s t) = RT_THREAD_INIT);
     let s = upd_thread t (\<lambda>th. th\<lparr>current_priority := init_priority th\<rparr>) s;
     let s = upd_thread t (\<lambda>th. th\<lparr>number_mask := push_bit (unat (current_priority th)) 1\<rparr>) s;
     let s = upd_thread t (\<lambda>th. th\<lparr>stat := RT_THREAD_SUSPEND\<rparr>) s;
     (_, s) \<leftarrow> rt_thread_resume t s;
     s \<leftarrow> (if rt_thread_self s \<noteq> None then rt_schedule s else Some s);
     Some (RT_EOK, s)
   }"

definition rt_thread_exit :: "kstate \<Rightarrow> kstate option" where
  "rt_thread_exit s = do {
     t \<leftarrow> rt_current_thread s;
     s \<leftarrow> rt_schedule_remove_thread t s;
     let s = upd_thread t (\<lambda>th. th\<lparr>stat := RT_THREAD_CLOSE\<rparr>) s;
     let s = snd (rt_timer_detach (Thread_Timer t) s);
     let s = (if rt_object_is_systemobject (Obj_Thread t) s \<and> cleanup (threads s t) = None
              then rt_object_detach (Obj_Thread t) s
              else s\<lparr>tlists := q_insert_after Defunct t (tlists s)\<rparr>);
     rt_schedule s
   }"

definition rt_thread_detach :: "tid \<Rightarrow> kstate \<Rightarrow> (rt_err_t \<times> kstate) option" where
  "rt_thread_detach t s = do {
     s \<leftarrow> rt_schedule_remove_thread t s;
     let s = snd (rt_timer_detach (Thread_Timer t) s);
     let s = upd_thread t (\<lambda>th. th\<lparr>stat := RT_THREAD_CLOSE\<rparr>) s;
     let s = rt_object_detach (Obj_Thread t) s;
     let s = (if cleanup (threads s t) \<noteq> None
              then s\<lparr>tlists := q_insert_after Defunct t (tlists s)\<rparr> else s);
     Some (RT_EOK, s)
   }"

definition rt_thread_delete :: "tid \<Rightarrow> kstate \<Rightarrow> (rt_err_t \<times> kstate) option" where
  "rt_thread_delete t s = do {
     s \<leftarrow> rt_schedule_remove_thread t s;
     let s = snd (rt_timer_detach (Thread_Timer t) s);
     let s = upd_thread t (\<lambda>th. th\<lparr>stat := RT_THREAD_CLOSE\<rparr>) s;
     let s = s\<lparr>tlists := q_insert_after Defunct t (tlists s)\<rparr>;
     Some (RT_EOK, s)
   }"

text \<open>
  The test \<^verbatim>\<open>tlist.next != tlist.prev\<close> holds when the thread is not alone on its list (lemma
  \<open>reps_next_prev\<close> of \<^verbatim>\<open>RT_List\<close>); a thread in the ready state is on the list of its priority.
\<close>

definition rt_thread_yield :: "kstate \<Rightarrow> (rt_err_t \<times> kstate) option" where
  "rt_thread_yield s = do {
     t \<leftarrow> rt_current_thread s;
     let q = Ready (unat (current_priority (threads s t)));
     if stat (threads s t) = RT_THREAD_READY \<and> t \<in> set (tlists s q) \<and> 2 \<le> length (tlists s q)
     then do {
       let s = s\<lparr>tlists := q_remove t (tlists s)\<rparr>;
       let s = s\<lparr>tlists := q_insert_before q t (tlists s)\<rparr>;
       s \<leftarrow> rt_schedule s;
       Some (RT_EOK, s)
     } else Some (RT_EOK, s)
   }"

definition rt_thread_sleep :: "u32 \<Rightarrow> kstate \<Rightarrow> kstate option" where
  "rt_thread_sleep tick s = do {
     t \<leftarrow> rt_current_thread s;
     (_, s) \<leftarrow> rt_thread_suspend t s;
     s \<leftarrow> start_thread_timer t tick s;
     rt_schedule s
   }"

definition rt_thread_sleep_resume :: "tid \<Rightarrow> kstate \<Rightarrow> rt_err_t \<times> kstate" where
  "rt_thread_sleep_resume t s =
    (RT_EOK, if error (threads s t) = - RT_ETIMEOUT
             then upd_thread t (\<lambda>th. th\<lparr>error := RT_EOK\<rparr>) s else s)"

definition rt_thread_delay :: "u32 \<Rightarrow> kstate \<Rightarrow> kstate option" where
  "rt_thread_delay tick s = rt_thread_sleep tick s"

datatype thread_cmd = RT_THREAD_CTRL_STARTUP | RT_THREAD_CTRL_CLOSE
  | RT_THREAD_CTRL_CHANGE_PRIORITY u8 | RT_THREAD_CTRL_OTHER

definition set_priority :: "u8 \<Rightarrow> rt_thread \<Rightarrow> rt_thread" where
  "set_priority p th = th\<lparr>current_priority := p, number_mask := push_bit (unat p) 1\<rparr>"

definition rt_thread_control :: "tid \<Rightarrow> thread_cmd \<Rightarrow> kstate \<Rightarrow> (rt_err_t \<times> kstate) option" where
  "rt_thread_control t cmd s =
    (case cmd of
       RT_THREAD_CTRL_CHANGE_PRIORITY p \<Rightarrow>
         if stat (threads s t) = RT_THREAD_READY then do {
           s \<leftarrow> rt_schedule_remove_thread t s;
           let s = upd_thread t (set_priority p) s;
           s \<leftarrow> rt_schedule_insert_thread t s;
           Some (RT_EOK, s)
         } else Some (RT_EOK, upd_thread t (set_priority p) s)
     | RT_THREAD_CTRL_STARTUP \<Rightarrow> rt_thread_startup t s
     | RT_THREAD_CTRL_CLOSE \<Rightarrow> rt_thread_delete t s
     | RT_THREAD_CTRL_OTHER \<Rightarrow> Some (RT_EOK, s))"

definition rt_thread_timeout :: "tid \<Rightarrow> kstate \<Rightarrow> kstate option" where
  "rt_thread_timeout t s = do {
     rt_assert (stat (threads s t) = RT_THREAD_SUSPEND);
     let s = upd_thread t (\<lambda>th. th\<lparr>error := - RT_ETIMEOUT\<rparr>) s;
     let s = s\<lparr>tlists := q_remove t (tlists s)\<rparr>;
     s \<leftarrow> rt_schedule_insert_thread t s;
     rt_schedule s
   }"

definition rt_thread_find :: "u8 list \<Rightarrow> kstate \<Rightarrow> (objid option \<times> kstate) option" where
  "rt_thread_find nm s = do {
     let s = (if rt_thread_self s \<noteq> None then rt_enter_critical s else s);
     r \<leftarrow> find_by_name (\<lambda>x. obj_name (objects s x)) nm (rt_object_container s RT_Object_Class_Thread);
     s \<leftarrow> (if rt_thread_self s \<noteq> None then rt_exit_critical s else Some s);
     Some (r, s)
   }"

subsection \<open>The system invariant\<close>

text \<open>
  A thread timer runs \<^verbatim>\<open>rt_thread_timeout\<close> on its thread and is a one-shot timer; other timers
  run functions of the application.
\<close>

fun fn_matches :: "timer_id \<Rightarrow> timeout_fn \<Rightarrow> bool" where
  "fn_matches (Thread_Timer t) f \<longleftrightarrow> f = Rt_Thread_Timeout t"
| "fn_matches (User_Timer _) f \<longleftrightarrow> (\<exists>n. f = User_Timeout n)"

definition timers_ok :: "kstate \<Rightarrow> bool" where
  "timers_ok s \<longleftrightarrow> (\<forall>tm. fn_matches tm (timeout_func (timers s tm))) \<and>
     (\<forall>t. obj_flag (objects s (Obj_Timer (Thread_Timer t))) AND RT_TIMER_FLAG_PERIODIC = 0)"

text \<open>The timer of a thread is only running while the thread is suspended.\<close>

definition sleepers_ok :: "tid set \<Rightarrow> kstate \<Rightarrow> bool" where
  "sleepers_ok X s \<longleftrightarrow> (\<forall>t. Thread_Timer t \<in> set (rt_timer_list s) \<longrightarrow>
     t \<notin> X \<and> stat (threads s t) = RT_THREAD_SUSPEND)"

definition sys :: "int \<Rightarrow> tid set \<Rightarrow> kstate \<Rightarrow> bool" where
  "sys d X s \<longleftrightarrow> kinvx X s \<and> timer_inv d s \<and> sleepers_ok X s \<and> timers_ok s \<and> 0 \<le> d \<and> d \<le> 1"

lemma sysD:
  assumes "sys d X s"
  shows "kinvx X s" "timer_inv d s" "sleepers_ok X s" "timers_ok s" "0 \<le> d" "d \<le> 1"
  using assms by (simp_all add: sys_def)

text \<open>The tables and control variables that most operations leave alone.\<close>

definition same_ipc :: "kstate \<Rightarrow> kstate \<Rightarrow> bool" where
  "same_ipc s s' \<longleftrightarrow> sems s' = sems s \<and> mutexes s' = mutexes s \<and> events s' = events s \<and>
     mailboxes s' = mailboxes s \<and> mqs s' = mqs s \<and> mempools s' = mempools s \<and> memory s' = memory s \<and>
     (\<forall>x. objects s' (Obj x) = objects s (Obj x)) \<and>
     (\<forall>u. timers s' (User_Timer u) = timers s (User_Timer u) \<and>
        objects s' (Obj_Timer (User_Timer u)) = objects s (Obj_Timer (User_Timer u)) \<and>
        (User_Timer u \<in> set (rt_timer_list s') \<longleftrightarrow> User_Timer u \<in> set (rt_timer_list s)))"

definition same_ctl :: "kstate \<Rightarrow> kstate \<Rightarrow> bool" where
  "same_ctl s s' \<longleftrightarrow> rt_current_thread s' = rt_current_thread s \<and>
     rt_current_priority s' = rt_current_priority s \<and>
     rt_scheduler_lock_nest s' = rt_scheduler_lock_nest s \<and>
     rt_interrupt_nest s' = rt_interrupt_nest s \<and> rt_tick s' = rt_tick s \<and> same_ipc s s'"

lemma sys_schedule_upd [simp]:
  "sys d X (s\<lparr>rt_current_priority := x, rt_current_thread := y\<rparr>) = sys d X s"
proof -
  let ?s = "s\<lparr>rt_current_priority := x, rt_current_thread := y\<rparr>"
  have "timer_inv d ?s = timer_inv d s" by (rule timer_inv_cong) (simp_all add: timer_active_def)
  then show ?thesis by (simp add: sys_def sleepers_ok_def timers_ok_def)
qed

lemma sys_eqI:
  assumes "sys d X s" "threads s' = threads s" "tlists s' = tlists s"
    "rt_thread_ready_priority_group s' = rt_thread_ready_priority_group s" "timers s' = timers s"
    "rt_timer_list s' = rt_timer_list s" "rt_tick s' = rt_tick s"
    "\<And>tm. obj_flag (objects s' (Obj_Timer tm)) = obj_flag (objects s (Obj_Timer tm))"
  shows "sys d X s'"
proof -
  have "timer_inv d s' = timer_inv d s" using assms by (intro timer_inv_cong) (simp_all add: timer_active_def)
  then show ?thesis
    using assms kinvx_cong[of s' s X] by (simp add: sys_def sleepers_ok_def timers_ok_def)
qed

lemma rt_schedule_sys: "sys d X s \<Longrightarrow> rt_schedule s = Some s' \<Longrightarrow> sys d X s'"
  using rt_schedule_frame[of s s'] by auto

lemma sys_restore:
  assumes "sys d X s" "t \<in> X" "stat (threads s t) = RT_THREAD_SUSPEND" "runnable_fields (threads s t)"
  shows "sys d (X - {t}) s"
proof -
  have "kinvx (X - {t}) s" by (rule kinvx_Diff) (use sysD(1)[OF assms(1)] assms in auto)
  then show ?thesis using assms by (auto simp: sys_def sleepers_ok_def)
qed

text \<open>Writing fields of a thread that neither the scheduler nor the timers look at.\<close>

lemma sys_upd_same:
  assumes "\<And>th. sched_same (f th) th"
  shows "sys d X (upd_thread t f s) \<longleftrightarrow> sys d X s"
proof -
  have 1: "kinvx X (upd_thread t f s) \<longleftrightarrow> kinvx X s" by (rule kinvx_upd_same[OF assms])
  have 2: "timer_inv d (upd_thread t f s) = timer_inv d s"
    by (rule timer_inv_cong) (simp_all add: timer_active_def)
  have "stat (f th) = stat th" for th using assms[of th] by (simp add: sched_same_def)
  then have "sleepers_ok X (upd_thread t f s) = sleepers_ok X s" by (auto simp: sleepers_ok_def)
  then show ?thesis unfolding sys_def 1 2 by (simp add: timers_ok_def)
qed

text \<open>Suspending a ready thread: it leaves the ready list and its timer is off.\<close>

lemma rt_thread_suspend_ready:
  assumes s: "sys d X s" and t: "t \<notin> X" "stat (threads s t) = RT_THREAD_READY"
  shows "\<exists>s'. rt_thread_suspend t s = Some (RT_EOK, s') \<and> sys d (insert t X) s' \<and>
    threads s' = (threads s)(t := (threads s t)\<lparr>stat := RT_THREAD_SUSPEND\<rparr>) \<and>
    tlists s' = q_remove t (tlists s) \<and> same_ctl s s' \<and>
    rt_timer_list s' = rt_timer_list s \<and> Thread_Timer t \<notin> set (rt_timer_list s)"
proof -
  let ?s0 = "s\<lparr>threads := (threads s)(t := (threads s t)\<lparr>stat := RT_THREAD_SUSPEND\<rparr>)\<rparr>"
  let ?s1 = "\<lambda>g. s\<lparr>threads := (threads s)(t := (threads s t)\<lparr>stat := RT_THREAD_SUSPEND\<rparr>),
      tlists := q_remove t (tlists s), rt_thread_ready_priority_group := g\<rparr>"
  have r: "runnable_fields (threads s t)" using kinvxD(9)[OF sysD(1)[OF s]] t by blast
  from remove_thread_kinvx[OF sysD(1)[OF s] r] obtain g where
    g: "rt_schedule_remove_thread t s = Some (s\<lparr>tlists := q_remove t (tlists s), rt_thread_ready_priority_group := g\<rparr>)"
    and k: "kinvx (insert t X) (s\<lparr>tlists := q_remove t (tlists s), rt_thread_ready_priority_group := g\<rparr>)" by blast
  have rm: "rt_schedule_remove_thread t ?s0 = Some (?s1 g)"
    using g r by (cases s) (auto simp: rt_schedule_remove_thread_def runnable_fields_def Let_def split: if_splits)
  have k1: "kinvx (insert t X) (?s1 g)"
    by (rule kinvx_eqI[OF kinvx_upd_out[OF k, of t "\<lambda>th. th\<lparr>stat := RT_THREAD_SUSPEND\<rparr>"]]) simp_all
  have off: "Thread_Timer t \<notin> set (rt_timer_list s)"
    using sysD(3)[OF s] t by (auto simp: sleepers_ok_def)
  let ?s2 = "snd (rt_timer_stop (Thread_Timer t) (?s1 g))"
  have ti: "timer_inv d (?s1 g)"
    using sysD(2)[OF s] timer_inv_cong[of "?s1 g" s d] by (simp add: timer_active_def)
  have l2: "rt_timer_list ?s2 = rt_timer_list s"
    using off by (simp add: rt_timer_stop_list[OF ti] remove1_idem)
  have "sys d (insert t X) ?s2"
    using rt_timer_stop_inv[OF ti] k1 kinvx_cong[of ?s2 "?s1 g"] sysD(3-6)[OF s] off l2
    by (auto simp: sys_def sleepers_ok_def timers_ok_def)
  moreover have "rt_thread_suspend t s = Some (RT_EOK, ?s2)"
    using t rm by (simp add: rt_thread_suspend_def)
  moreover have "same_ctl s ?s2" by (simp add: same_ctl_def same_ipc_def rt_timer_stop_def rt_timer_remove_def timer_set_active_def)
  ultimately show ?thesis using l2 off by (intro exI[of _ ?s2]) simp
qed

lemma stop_timer_sys:
  assumes s: "sys d X s" and t: "Thread_Timer t \<in> set (rt_timer_list s) \<Longrightarrow> t \<notin> X"
  shows "sys d X (snd (rt_timer_stop (Thread_Timer t) s))"
proof -
  let ?s = "snd (rt_timer_stop (Thread_Timer t) s)"
  have l: "rt_timer_list ?s = remove1 (Thread_Timer t) (rt_timer_list s)"
    by (rule rt_timer_stop_list[OF sysD(2)[OF s]])
  have "kinvx X ?s" using sysD(1)[OF s] kinvx_cong[of ?s s X] by simp
  then show ?thesis
    using rt_timer_stop_inv[OF sysD(2)[OF s]] sysD(3-6)[OF s] l
    by (auto simp: sys_def sleepers_ok_def timers_ok_def dest: set_remove1_subset[THEN subsetD])
qed

text \<open>Taking a suspended thread off the list it waits on, and back onto the ready list.\<close>

lemma unlink_waiting_sys:
  assumes s: "sys d X s" and t: "stat (threads s t) = RT_THREAD_SUSPEND" "Thread_Timer t \<notin> set (rt_timer_list s)"
  shows "sys d (insert t X) (s\<lparr>tlists := q_remove t (tlists s)\<rparr>)"
proof -
  have "timer_inv d (s\<lparr>tlists := q_remove t (tlists s)\<rparr>)"
    using sysD(2)[OF s] timer_inv_cong[of "s\<lparr>tlists := q_remove t (tlists s)\<rparr>" s d] by (simp add: timer_active_def)
  moreover have "kinvx (insert t X) (s\<lparr>tlists := q_remove t (tlists s)\<rparr>)"
    using kinvx_remove_waiting[OF sysD(1)[OF s], of t] t(1) by simp
  ultimately show ?thesis using sysD(3-6)[OF s] t(2) by (auto simp: sys_def sleepers_ok_def timers_ok_def)
qed

lemma insert_ready_sys:
  assumes s: "sys d X s" and t: "t \<in> X" "runnable_fields (threads s t)"
  shows "rt_schedule_insert_thread t s = Some (inserted t s) \<and> sys d (X - {t}) (inserted t s)"
proof -
  have "rt_schedule_insert_thread t s = Some (inserted t s)"
    by (rule insert_thread_eq) (use t in \<open>simp add: runnable_fields_def\<close>)
  moreover have "timer_inv d (inserted t s)"
    using sysD(2)[OF s] timer_inv_cong[of "inserted t s" s d] by (simp add: timer_active_def inserted_def)
  ultimately show ?thesis
    using inserted_kinvx[OF sysD(1)[OF s] t] sysD(3-6)[OF s] t(1)
    by (auto simp: sys_def sleepers_ok_def timers_ok_def inserted_def)
qed

definition made_ready :: "tid \<Rightarrow> kstate \<Rightarrow> kstate \<Rightarrow> bool" where
  "made_ready t s s' \<longleftrightarrow>
     threads s' = (threads s)(t := (threads s t)\<lparr>stat := RT_THREAD_READY\<rparr>) \<and>
     tlists s' = q_insert_before (Ready (unat (current_priority (threads s t)))) t (q_remove t (tlists s)) \<and>
     same_ctl s s'"

lemma rt_thread_resume_suspended:
  assumes s: "sys d X s" and t: "t \<notin> X" "stat (threads s t) = RT_THREAD_SUSPEND"
  shows "\<exists>s'. rt_thread_resume t s = Some (RT_EOK, s') \<and> sys d X s' \<and> made_ready t s s' \<and>
    rt_timer_list s' = remove1 (Thread_Timer t) (rt_timer_list s)"
proof -
  have r: "runnable_fields (threads s t)" using kinvxD(9)[OF sysD(1)[OF s]] t by blast
  let ?s1 = "snd (rt_timer_stop (Thread_Timer t) s)"
  let ?s2 = "?s1\<lparr>tlists := q_remove t (tlists s)\<rparr>"
  have s1: "sys d X ?s1" by (rule stop_timer_sys[OF s]) (use t in simp)
  have l1: "rt_timer_list ?s1 = remove1 (Thread_Timer t) (rt_timer_list s)"
    by (rule rt_timer_stop_list[OF sysD(2)[OF s]])
  have comm: "snd (rt_timer_stop (Thread_Timer t) (s\<lparr>tlists := q_remove t (tlists s)\<rparr>)) = ?s2"
    by (simp add: rt_timer_stop_def timer_active_def timer_set_active_def rt_timer_remove_def)
  have "distinct (rt_timer_list s)" using sysD(2)[OF s] by (simp add: timer_inv_def)
  then have off: "Thread_Timer t \<notin> set (rt_timer_list ?s1)" by (simp add: l1)
  have s2: "sys d (insert t X) ?s2" using unlink_waiting_sys[OF s1 _ off] t by simp
  have ins: "rt_schedule_insert_thread t ?s2 = Some (inserted t ?s2)" "sys d X (inserted t ?s2)"
    using insert_ready_sys[OF s2, of t] r t by simp_all
  moreover have "rt_thread_resume t s = Some (RT_EOK, inserted t ?s2)"
    using t ins comm by (simp add: rt_thread_resume_def)
  moreover have "made_ready t s (inserted t ?s2)"
    by (simp add: made_ready_def inserted_def same_ctl_def same_ipc_def rt_timer_stop_def rt_timer_remove_def timer_set_active_def)
  ultimately show ?thesis using l1 by (intro exI[of _ "inserted t ?s2"]) (simp add: inserted_def)
qed

lemma made_ready_some_ready: "made_ready t s s' \<Longrightarrow> some_ready s'"
  by (auto simp: made_ready_def some_ready_def q_insert_before_def)

text \<open>Where scheduling is possible, it succeeds and keeps the invariant.\<close>

lemma rt_schedule_ok:
  assumes "sys d X s" "some_ready s" "\<And>t. t \<in> X \<Longrightarrow> stat (threads s t) \<noteq> RT_THREAD_READY"
  shows "\<exists>x. rt_schedule s = Some (s\<lparr>rt_current_priority := x,
           rt_current_thread := (if rt_scheduler_lock_nest s = 0 then top_thread s else rt_current_thread s)\<rparr>)"
  using rt_schedule_spec[OF sysD(1)[OF assms(1)] assms(2,3)] by blast

text \<open>
  Yielding moves the running thread behind the other ready threads of its priority.
\<close>

lemma rt_thread_yield_ok:
  assumes s: "sys d {} s" and t: "rt_current_thread s = Some t" "stat (threads s t) = RT_THREAD_READY"
  shows "\<exists>s'. rt_thread_yield s = Some (RT_EOK, s') \<and> sys d {} s' \<and> rt_tick s' = rt_tick s \<and>
    timers s' = timers s \<and> objects s' = objects s \<and> threads s' = threads s \<and> rt_timer_list s' = rt_timer_list s \<and>
    tlists s' = (tlists s)(Ready (unat (current_priority (threads s t))) :=
      remove1 t (tlists s (Ready (unat (current_priority (threads s t))))) @ [t]) \<and>
    (rt_scheduler_lock_nest s = 0 \<longrightarrow> rt_current_thread s = top_thread s \<longrightarrow> rt_current_thread s' = top_thread s') \<and>
    rt_interrupt_nest s' = rt_interrupt_nest s \<and> rt_scheduler_lock_nest s' = rt_scheduler_lock_nest s \<and> same_ipc s s'"
proof -
  let ?q = "Ready (unat (current_priority (threads s t)))"
  let ?s = "s\<lparr>tlists := q_insert_before ?q t (q_remove t (tlists s))\<rparr>"
  note k = sysD(1)[OF s]
  have on: "t \<in> set (tlists s ?q)" using kinvxD(6)[OF k] t by simp
  have other: "t \<notin> set (tlists s q)" if "q \<noteq> ?q" for q using kinvxD(2)[OF k on, of q] that by blast
  have rot: "tlists ?s = (tlists s)(?q := remove1 t (tlists s ?q) @ [t])"
    using other by (auto simp: q_insert_before_def q_remove_def fun_eq_iff remove1_idem)
  show ?thesis
  proof (cases "2 \<le> length (tlists s ?q)")
    case False
    then obtain a where "tlists s ?q = [a]" using on by (cases "tlists s ?q" rule: remdups_adj.cases) auto
    then have "tlists s = tlists ?s" unfolding rot using on by (auto simp: fun_eq_iff)
    then show ?thesis using False t on s rot by (simp add: rt_thread_yield_def same_ipc_def)
  next
    case True
    have "kinvx {} ?s"
      by (rule kinvx_perm[OF k]) (unfold rot, use kinvxD(1)[OF k] on in auto)
    moreover have "timer_inv d ?s"
      using sysD(2)[OF s] timer_inv_cong[of ?s s d] by (simp add: timer_active_def)
    ultimately have s1: "sys d {} ?s" using sysD(3-6)[OF s] by (simp add: sys_def sleepers_ok_def timers_ok_def)
    have "some_ready ?s" unfolding some_ready_def rot by (metis fun_upd_same snoc_eq_iff_butlast)
    then obtain s' where run: "rt_schedule ?s = Some s'"
      "rt_scheduler_lock_nest s = 0 \<Longrightarrow> rt_current_thread s' = top_thread s'"
      using rt_schedule_ok[OF s1] by (auto simp: top_thread_run)
    have "rt_thread_yield s = Some (RT_EOK, s')"
      using True t on run(1) by (simp add: rt_thread_yield_def Let_def)
    then show ?thesis
      using rt_schedule_sys[OF s1 run(1)] rt_schedule_frame[OF run(1)] rot run(2) by (auto simp: same_ipc_def)
  qed
qed

text \<open>
  Changing the priority keeps the invariant: a ready thread moves to the list of the new
  priority, the place of a waiting thread in its list stays.
\<close>

lemma runnable_set_priority:
  "runnable_fields th \<Longrightarrow> unat p < 32 \<Longrightarrow> runnable_fields (set_priority p th)"
  by (simp add: runnable_fields_def set_priority_def rt_scheduler_stack_check_def)

lemma set_priority_not_ready:
  assumes s: "sys d {} s" and t: "stat (threads s t) \<noteq> RT_THREAD_READY" and p: "unat p < 32"
  shows "sys d {} (upd_thread t (set_priority p) s)"
proof -
  let ?s = "upd_thread t (set_priority p) s"
  note k = sysD(1)[OF s]
  have st: "stat (threads ?s u) = stat (threads s u)" for u by (simp add: set_priority_def)
  have other: "u \<noteq> t \<Longrightarrow> threads ?s u = threads s u" for u by simp
  have "stat_inv {} ?s"
  proof (rule stat_invI)
    fix u q assume "u \<in> set (tlists ?s (Ready q))"
    then have u: "u \<in> set (tlists s (Ready q))" by simp
    from kinvxD(5)[OF k u] t have "u \<noteq> t" by auto
    with kinvxD(5)[OF k u] show "stat (threads ?s u) = RT_THREAD_READY \<and> unat (current_priority (threads ?s u)) = q"
      by simp
  next
    fix u assume "stat (threads ?s u) = RT_THREAD_READY"
    with st t have "u \<noteq> t" "stat (threads s u) = RT_THREAD_READY" by auto
    then show "u \<in> set (tlists ?s (Ready (unat (current_priority (threads ?s u)))))"
      using kinvxD(6)[OF k, of u] by simp
  next
    fix u assume "stat (threads ?s u) = RT_THREAD_READY \<or> stat (threads ?s u) = RT_THREAD_SUSPEND"
    then have "runnable_fields (threads s u)" using kinvxD(9)[OF k, of u] unfolding st by blast
    then show "runnable_fields (threads ?s u)" using runnable_set_priority[OF _ p] by (cases "u = t") auto
  qed (use kinvxD(7)[OF k] kinvxD(8)[OF k] st in auto)
  then have "kinvx {} ?s" using k by (simp add: kinvx_def lists_inv_def group_inv_def)
  moreover have "timer_inv d ?s"
    using sysD(2)[OF s] timer_inv_cong[of ?s s d] by (simp add: timer_active_def)
  moreover have "sleepers_ok {} ?s" using sysD(3)[OF s] st by (auto simp: sleepers_ok_def)
  ultimately show ?thesis using sysD(4-6)[OF s] by (simp add: sys_def timers_ok_def)
qed

lemma unlink_ready_sys:
  assumes s: "sys d X s" and t: "t \<notin> X" "stat (threads s t) = RT_THREAD_READY"
  shows "\<exists>g. rt_schedule_remove_thread t s =
       Some (s\<lparr>tlists := q_remove t (tlists s), rt_thread_ready_priority_group := g\<rparr>) \<and>
     sys d (insert t X) (s\<lparr>tlists := q_remove t (tlists s), rt_thread_ready_priority_group := g\<rparr>)"
proof -
  have r: "runnable_fields (threads s t)" using kinvxD(9)[OF sysD(1)[OF s]] t by blast
  let ?s = "\<lambda>g. s\<lparr>tlists := q_remove t (tlists s), rt_thread_ready_priority_group := g\<rparr>"
  from remove_thread_kinvx[OF sysD(1)[OF s] r] obtain g where
    g: "rt_schedule_remove_thread t s = Some (?s g)" and k: "kinvx (insert t X) (?s g)" by blast
  have "timer_inv d (?s g)" using sysD(2)[OF s] timer_inv_cong[of "?s g" s d] by (simp add: timer_active_def)
  then have "sys d (insert t X) (?s g)"
    using k sysD(3-6)[OF s] t by (auto simp: sys_def sleepers_ok_def timers_ok_def)
  with g show ?thesis by blast
qed

lemma sys_upd_out:
  assumes s: "sys d X s" and t: "t \<in> X"
  shows "sys d X (upd_thread t f s)"
proof -
  have "timer_inv d (upd_thread t f s)"
    using sysD(2)[OF s] timer_inv_cong[of "upd_thread t f s" s d] by (simp add: timer_active_def)
  then show ?thesis
    using kinvx_upd_out[OF sysD(1)[OF s] t, of f] sysD(3-6)[OF s] t
    by (auto simp: sys_def sleepers_ok_def timers_ok_def)
qed

lemma change_priority_ok:
  assumes s: "sys d {} s" and p: "unat p < 32"
  shows "\<exists>s'. rt_thread_control t (RT_THREAD_CTRL_CHANGE_PRIORITY p) s = Some (RT_EOK, s') \<and> sys d {} s' \<and>
    threads s' = (threads s)(t := set_priority p (threads s t)) \<and> same_ctl s s' \<and>
    timers s' = timers s \<and> rt_timer_list s' = rt_timer_list s \<and> objects s' = objects s \<and>
    tlists s' = (if stat (threads s t) = RT_THREAD_READY
                 then q_insert_before (Ready (unat p)) t (q_remove t (tlists s)) else tlists s)"
proof (cases "stat (threads s t) = RT_THREAD_READY")
  case False
  then show ?thesis
    using set_priority_not_ready[OF s False p]
    by (simp add: rt_thread_control_def same_ctl_def same_ipc_def)
next
  case True
  obtain g where g: "rt_schedule_remove_thread t s =
      Some (s\<lparr>tlists := q_remove t (tlists s), rt_thread_ready_priority_group := g\<rparr>)"
    and s1: "sys d {t} (s\<lparr>tlists := q_remove t (tlists s), rt_thread_ready_priority_group := g\<rparr>)"
    using unlink_ready_sys[OF s _ True] by auto
  let ?s1 = "s\<lparr>tlists := q_remove t (tlists s), rt_thread_ready_priority_group := g\<rparr>"
  let ?s2 = "upd_thread t (set_priority p) ?s1"
  have s2: "sys d {t} ?s2" by (rule sys_upd_out[OF s1]) simp
  have "runnable_fields (threads s t)" using kinvxD(9)[OF sysD(1)[OF s], of t] True by simp
  then have "runnable_fields (threads ?s2 t)" using runnable_set_priority[OF _ p] by simp
  from insert_ready_sys[OF s2 _ this] have
    ins: "rt_schedule_insert_thread t ?s2 = Some (inserted t ?s2)" "sys d {} (inserted t ?s2)" by auto
  have "rt_thread_control t (RT_THREAD_CTRL_CHANGE_PRIORITY p) s = Some (RT_EOK, inserted t ?s2)"
    using True g ins(1) by (simp add: rt_thread_control_def)
  moreover have "(set_priority p (threads s t))\<lparr>stat := RT_THREAD_READY\<rparr> = set_priority p (threads s t)"
    using True by (cases "threads s t") (simp add: set_priority_def)
  then have "threads (inserted t ?s2) = (threads s)(t := set_priority p (threads s t))"
    by (simp add: inserted_def)
  moreover have "current_priority (set_priority p (threads s t)) = p" by (simp add: set_priority_def)
  ultimately show ?thesis
    using ins(2) True by (intro exI[of _ "inserted t ?s2"]) (simp add: inserted_def same_ctl_def same_ipc_def)
qed

end
