(* ===== verification/RT_Clock.thy ===== *)
theory RT_Clock
  imports RT_Thread
begin

text \<open>
  The tick interrupt: \<^verbatim>\<open>rt_timer_check\<close> of \<^verbatim>\<open>Kernel/timer.c\<close> and \<^verbatim>\<open>rt_tick_increase\<close> of
  \<^verbatim>\<open>Kernel/clock.c\<close>. The timeout functions of the application are the parameter \<open>cb\<close>; what
  they must respect is the predicate \<open>callbacks_ok\<close>.
\<close>

subsection \<open>Operations\<close>

type_synonym callbacks = "nat \<Rightarrow> kstate \<Rightarrow> kstate option"

fun call_timeout :: "callbacks \<Rightarrow> timeout_fn \<Rightarrow> kstate \<Rightarrow> kstate option" where
  "call_timeout cb (Rt_Thread_Timeout t) s = rt_thread_timeout t s"
| "call_timeout cb (User_Timeout n) s = cb n s"

text \<open>What happens to the first timer of the list when it is due.\<close>

definition timer_expire :: "callbacks \<Rightarrow> timer_id \<Rightarrow> kstate \<Rightarrow> kstate option" where
  "timer_expire cb tm s = do {
     let s = rt_timer_remove tm s;
     s \<leftarrow> call_timeout cb (timeout_func (timers s tm)) s;
     let flag = obj_flag (objects s (Obj_Timer tm));
     if flag AND RT_TIMER_FLAG_PERIODIC \<noteq> 0 \<and> flag AND RT_TIMER_FLAG_ACTIVATED \<noteq> 0
     then do {
       (_, s) \<leftarrow> rt_timer_start tm (timer_set_active False tm s);
       Some s
     } else Some (timer_set_active False tm s)
   }"

partial_function (option) timer_check_loop :: "callbacks \<Rightarrow> u32 \<Rightarrow> kstate \<Rightarrow> kstate option" where
  "timer_check_loop cb current_tick s =
    (case rt_timer_list s of
       [] \<Rightarrow> Some s
     | tm # _ \<Rightarrow>
         if current_tick - timeout_tick (timers s tm) < RT_TICK_MAX div 2
         then Option.bind (timer_expire cb tm s) (\<lambda>s. timer_check_loop cb (rt_tick_get s) s)
         else Some s)"

definition rt_timer_check :: "callbacks \<Rightarrow> kstate \<Rightarrow> kstate option" where
  "rt_timer_check cb s = timer_check_loop cb (rt_tick_get s) s"

definition rt_tick_increase :: "callbacks \<Rightarrow> kstate \<Rightarrow> kstate option" where
  "rt_tick_increase cb s = do {
     let s = s\<lparr>rt_tick := rt_tick s + 1\<rparr>;
     t \<leftarrow> rt_thread_self s;
     let s = upd_thread t (\<lambda>th. th\<lparr>remaining_tick := remaining_tick th - 1\<rparr>) s;
     s \<leftarrow> (if remaining_tick (threads s t) = 0 then do {
            let s = upd_thread t (\<lambda>th. th\<lparr>remaining_tick := init_tick th\<rparr>) s;
            (_, s) \<leftarrow> rt_thread_yield s;
            Some s
          } else Some s);
     rt_timer_check cb s
   }"

subsection \<open>Which timers are due\<close>

definition due :: "kstate \<Rightarrow> timer_id set" where
  "due s = {tm \<in> set (rt_timer_list s). remaining s tm \<le> 0}"

lemma finite_due [simp]: "finite (due s)"
  by (simp add: due_def)

lemma due_test:
  fixes now tt :: u32
  assumes "- 1 \<le> sint (tt - now)" "sint (tt - now) < 0x7fffffff"
  shows "now - tt < 0x7fffffff \<longleftrightarrow> sint (tt - now) \<le> 0"
proof (cases "sint (tt - now) = - 1")
  case True
  then have "tt - now = - 1" by (metis sint_n1 signed_word_eqI)
  then have "now - tt = 1" by (metis minus_diff_eq minus_minus)
  with True show ?thesis by simp
next
  case False
  then have 0: "0 \<le> sint (tt - now)" using assms(1) by linarith
  have "(0 :: u32) - (tt - now) = now - tt" by simp
  then show ?thesis
    using tick_order[of 0 "tt - now", OF _ _ 0 assms(2)] by (cases "now = tt") auto
qed

subsection \<open>Processing a due timer\<close>

definition periods_ok :: "kstate \<Rightarrow> bool" where
  "periods_ok s \<longleftrightarrow> (\<forall>tm. obj_flag (objects s (Obj_Timer tm)) AND RT_TIMER_FLAG_PERIODIC \<noteq> 0 \<longrightarrow>
     0 < tm_init_tick (timers s tm) \<and> tm_init_tick (timers s tm) < 0x7fffffff)"

text \<open>
  A timeout function of the application returns, keeps the invariant, does not change the
  tick, makes no timer due at once, and does not restart its own one-shot timer.
\<close>

definition callbacks_ok :: "callbacks \<Rightarrow> bool" where
  "callbacks_ok cb \<longleftrightarrow> (\<forall>n s. sys 1 {} s \<and> periods_ok s \<longrightarrow>
     (\<exists>s'. cb n s = Some s' \<and> sys 1 {} s' \<and> periods_ok s' \<and> rt_tick s' = rt_tick s \<and> due s' \<subseteq> due s \<and>
        (\<forall>tm. timeout_func (timers s tm) = User_Timeout n \<and> tm \<notin> set (rt_timer_list s) \<and>
           obj_flag (objects s' (Obj_Timer tm)) AND RT_TIMER_FLAG_PERIODIC = 0 \<longrightarrow>
           tm \<notin> set (rt_timer_list s'))))"

lemma remove_timer_sys:
  assumes "sys d X s"
  shows "sys d X (rt_timer_remove tm s)"
proof -
  have "timer_inv d (rt_timer_remove tm s)"
    by (rule timer_inv_remove[OF sysD(2)[OF assms], where tm = tm]) (simp_all add: rt_timer_remove_def timer_active_def)
  then show ?thesis
    using sysD[OF assms] kinvx_cong[of "rt_timer_remove tm s" s X]
    by (auto simp: sys_def sleepers_ok_def timers_ok_def rt_timer_remove_def dest: set_remove1_subset[THEN subsetD])
qed

lemma clear_active_sys:
  assumes s: "sys d X s" and tm: "tm \<notin> set (rt_timer_list s)"
  shows "sys d X (timer_set_active False tm s)"
proof -
  let ?s = "timer_set_active False tm s"
  have "timer_inv d ?s"
    by (rule timer_inv_remove[OF sysD(2)[OF s], where tm = tm])
      (use tm in \<open>simp_all add: remove1_idem timer_set_active_def timer_active_def\<close>)
  then show ?thesis
    using sysD[OF s] kinvx_cong[of ?s s X]
    by (auto simp: sys_def sleepers_ok_def timers_ok_def timer_set_active_def)
qed

lemma start_user_timer_sys:
  assumes s: "sys d X s" and tm: "\<And>t. tm = Thread_Timer t \<Longrightarrow> t \<notin> X \<and> stat (threads s t) = RT_THREAD_SUSPEND"
    and i: "tm_init_tick (timers s tm) < 0x7fffffff"
  shows "sys d X (timer_started tm s)"
proof -
  have "distinct (rt_timer_list s)" using sysD(2)[OF s] by (simp add: timer_inv_def)
  then show ?thesis
    using timer_started_inv[OF sysD(2)[OF s] sysD(6)[OF s] sysD(5)[OF s] i] sysD[OF s] tm
      kinvx_cong[of "timer_started tm s" s X]
    by (auto simp: sys_def sleepers_ok_def timers_ok_def)
qed

lemma timer_started_clear: "timer_started tm (timer_set_active False tm s) = timer_started tm s"
  by (simp add: timer_started_def timer_set_active_def Let_def and.assoc)

text \<open>The assertion of \<^verbatim>\<open>rt_thread_timeout\<close> holds and the thread becomes ready.\<close>

lemma rt_thread_timeout_ok:
  assumes s: "sys d {} s" and t: "stat (threads s t) = RT_THREAD_SUSPEND" "Thread_Timer t \<notin> set (rt_timer_list s)"
  shows "\<exists>s'. rt_thread_timeout t s = Some s' \<and> sys d {} s' \<and>
    threads s' = (threads s)(t := (threads s t)\<lparr>error := - RT_ETIMEOUT, stat := RT_THREAD_READY\<rparr>) \<and>
    timers s' = timers s \<and> rt_timer_list s' = rt_timer_list s \<and> rt_tick s' = rt_tick s \<and> objects s' = objects s \<and> same_ipc s s' \<and>
    tlists s' = q_insert_before (Ready (unat (current_priority (threads s t)))) t (q_remove t (tlists s)) \<and>
    (rt_scheduler_lock_nest s = 0 \<longrightarrow> rt_current_thread s' = top_thread s') \<and>
    rt_interrupt_nest s' = rt_interrupt_nest s \<and> rt_scheduler_lock_nest s' = rt_scheduler_lock_nest s"
proof -
  let ?s1 = "upd_thread t (\<lambda>th. th\<lparr>error := - RT_ETIMEOUT\<rparr>) s"
  let ?s2 = "?s1\<lparr>tlists := q_remove t (tlists ?s1)\<rparr>"
  have s1: "sys d {} ?s1" using s by (subst sys_upd_same) (simp_all add: sched_same_def)
  have r: "runnable_fields (threads ?s1 t)" using kinvxD(9)[OF sysD(1)[OF s1], of t] t by simp
  have s2: "sys d {t} ?s2" using unlink_waiting_sys[OF s1, of t] t by simp
  have ins: "rt_schedule_insert_thread t ?s2 = Some (inserted t ?s2)" "sys d {} (inserted t ?s2)"
    using insert_ready_sys[OF s2, of t] r by simp_all
  have sr: "some_ready (inserted t ?s2)" by (auto simp: inserted_def some_ready_def q_insert_before_def)
  obtain s' where run: "rt_schedule (inserted t ?s2) = Some s'"
    and top: "rt_scheduler_lock_nest s = 0 \<longrightarrow> rt_current_thread s' = top_thread s'"
    using rt_schedule_ok[OF ins(2) sr] by (auto simp: top_thread_run inserted_def)
  have fr: "\<exists>x y. s' = inserted t ?s2\<lparr>rt_current_priority := x, rt_current_thread := y\<rparr>"
    by (rule rt_schedule_frame[OF run])
  have "rt_thread_timeout t s = Some s'"
    using t(1) ins(1) run by (simp add: rt_thread_timeout_def)
  then show ?thesis using rt_schedule_sys[OF ins(2) run] fr top by (auto simp: inserted_def same_ipc_def)
qed

lemma timer_finish_ok:
  assumes s: "sys 1 {} s" and p: "periods_ok s"
    and tm: "obj_flag (objects s (Obj_Timer tm)) AND 2 = 0 \<Longrightarrow> tm \<notin> set (rt_timer_list s)"
  shows "\<exists>s'. (if obj_flag (objects s (Obj_Timer tm)) AND 2 \<noteq> 0 \<and> obj_flag (objects s (Obj_Timer tm)) AND 1 \<noteq> 0
      then do { (_, s) \<leftarrow> rt_timer_start tm (timer_set_active False tm s); Some s }
      else Some (timer_set_active False tm s)) = Some s' \<and>
    sys 1 {} s' \<and> periods_ok s' \<and> rt_tick s' = rt_tick s \<and> due s' \<subseteq> due s - {tm} \<and> threads s' = threads s"
proof (cases "obj_flag (objects s (Obj_Timer tm)) AND 2 \<noteq> 0 \<and> obj_flag (objects s (Obj_Timer tm)) AND 1 \<noteq> 0")
  case True
  from True p have i: "0 < tm_init_tick (timers s tm)" "tm_init_tick (timers s tm) < 0x7fffffff"
    by (auto simp: periods_ok_def)
  have nt: "\<And>t. tm \<noteq> Thread_Timer t" using True sysD(4)[OF s] by (auto simp: timers_ok_def)
  have run: "rt_timer_start tm (timer_set_active False tm s) = Some (0, timer_started tm s)"
    using i(2) by (simp add: rt_timer_start_eq timer_started_clear) (simp add: timer_set_active_def)
  have rem: "remaining (timer_started tm s) x = (if x = tm then sint (tm_init_tick (timers s tm)) else remaining s x)" for x
    by (simp add: remaining_def timer_started_def timer_set_active_def Let_def)
  have "0 < sint (tm_init_tick (timers s tm))"
    using sint_of_tick[OF i(2)] i(1) by (metis order_le_less signed_eq_0_iff word_gt_0)
  then have "due (timer_started tm s) \<subseteq> due s - {tm}"
    by (auto simp: due_def rem dest: set_remove1_subset[THEN subsetD])
  moreover have "periods_ok (timer_started tm s)"
    using p by (auto simp: periods_ok_def timer_started_def timer_set_active_def Let_def)
  ultimately show ?thesis
    using True run start_user_timer_sys[OF s _ i(2)] nt by simp
next
  case False
  have "tm \<notin> set (rt_timer_list s)"
    using False tm sysD(2)[OF s] by (auto simp: timer_inv_def timer_active_def)
  then have "sys 1 {} (timer_set_active False tm s)" "due (timer_set_active False tm s) \<subseteq> due s - {tm}"
    using clear_active_sys[OF s] by (auto simp: due_def timer_set_active_def remaining_def)
  moreover have "periods_ok (timer_set_active False tm s)"
    using p by (auto simp: periods_ok_def timer_set_active_def)
  ultimately show ?thesis using False by (auto simp: timer_set_active_def)
qed

lemma periods_ok_remove [simp]: "periods_ok (rt_timer_remove tm s) = periods_ok s"
  by (simp add: periods_ok_def rt_timer_remove_def)

lemma due_remove: "distinct (rt_timer_list s) \<Longrightarrow> due (rt_timer_remove tm s) = due s - {tm}"
  by (auto simp: due_def rt_timer_remove_def remaining_def)

lemma timer_expire_ok:
  assumes cb: "callbacks_ok cb" and s: "sys 1 {} s" and p: "periods_ok s" and tm: "tm \<in> due s"
  shows "\<exists>s'. timer_expire cb tm s = Some s' \<and> sys 1 {} s' \<and> periods_ok s' \<and> rt_tick s' = rt_tick s \<and>
    due s' \<subset> due s"
proof -
  let ?s = "rt_timer_remove tm s"
  have s1: "sys 1 {} ?s" by (rule remove_timer_sys[OF s])
  have dist: "distinct (rt_timer_list s)" using sysD(2)[OF s] by (simp add: timer_inv_def)
  have off: "tm \<notin> set (rt_timer_list ?s)" using dist by (simp add: rt_timer_remove_def)
  have "\<exists>s2. call_timeout cb (timeout_func (timers ?s tm)) ?s = Some s2 \<and> sys 1 {} s2 \<and> periods_ok s2 \<and>
      rt_tick s2 = rt_tick s \<and> due s2 \<subseteq> due ?s \<and>
      (obj_flag (objects s2 (Obj_Timer tm)) AND 2 = 0 \<longrightarrow> tm \<notin> set (rt_timer_list s2))"
  proof (cases tm)
    case (Thread_Timer t)
    have "stat (threads ?s t) = RT_THREAD_SUSPEND"
      using sysD(3)[OF s] tm Thread_Timer by (auto simp: sleepers_ok_def due_def rt_timer_remove_def)
    then obtain s2 where s2: "rt_thread_timeout t ?s = Some s2" "sys 1 {} s2" "timers s2 = timers ?s"
      "rt_timer_list s2 = rt_timer_list ?s" "rt_tick s2 = rt_tick ?s" "objects s2 = objects ?s"
      using rt_thread_timeout_ok[OF s1, of t] off Thread_Timer by blast
    moreover have "timeout_func (timers ?s tm) = Rt_Thread_Timeout t"
      using sysD(4)[OF s1] Thread_Timer by (metis fn_matches.simps(1) timers_ok_def)
    moreover have "due s2 = due ?s" using s2 by (simp add: due_def remaining_def)
    moreover have "periods_ok s2" using p s2 by (simp add: periods_ok_def rt_timer_remove_def)
    ultimately show ?thesis using off by (auto simp: rt_timer_remove_def)
  next
    case (User_Timer u)
    then obtain n where n: "timeout_func (timers ?s tm) = User_Timeout n"
      using sysD(4)[OF s1] by (metis fn_matches.simps(2) timers_ok_def)
    have tk: "rt_tick ?s = rt_tick s" by (simp add: rt_timer_remove_def)
    from cb[unfolded callbacks_ok_def, rule_format, of ?s n] obtain s2 where
      "cb n ?s = Some s2" "sys 1 {} s2" "periods_ok s2" "rt_tick s2 = rt_tick s" "due s2 \<subseteq> due ?s"
      "obj_flag (objects s2 (Obj_Timer tm)) AND 2 = 0 \<longrightarrow> tm \<notin> set (rt_timer_list s2)"
      using s1 p n off tk by auto
    then show ?thesis using n by auto
  qed
  then obtain s2 where s2: "call_timeout cb (timeout_func (timers ?s tm)) ?s = Some s2" "sys 1 {} s2" "periods_ok s2"
    "rt_tick s2 = rt_tick s" "due s2 \<subseteq> due ?s"
    "obj_flag (objects s2 (Obj_Timer tm)) AND 2 = 0 \<Longrightarrow> tm \<notin> set (rt_timer_list s2)" by blast
  obtain s3 where s3: "timer_expire cb tm s = Some s3" "sys 1 {} s3" "periods_ok s3" "rt_tick s3 = rt_tick s2"
    "due s3 \<subseteq> due s2 - {tm}"
    using timer_finish_ok[OF s2(2,3,6)] s2(1) by (auto simp: timer_expire_def Let_def)
  have "due s3 \<subset> due s" using s3(5) s2(5) due_remove[OF dist, of tm] tm by blast
  then show ?thesis using s3 s2(4) by (intro exI[of _ s3]) simp
qed

subsection \<open>The expiry loop\<close>

lemma sorted_head_due:
  assumes "sys 1 {} s" "rt_timer_list s = tm # ts" "tm \<notin> due s"
  shows "due s = {}" and "sys 0 {} s"
proof -
  have 0: "0 < remaining s x" if "x \<in> set (rt_timer_list s)" for x
    using assms sysD(2)[OF assms(1)] that by (force simp: due_def timer_inv_def)
  then show "due s = {}" by (force simp: due_def)
  show "sys 0 {} s" using assms(1) 0 by (force simp: sys_def timer_inv_def)
qed

theorem timer_check_loop_ok:
  assumes "callbacks_ok cb" "sys 1 {} s" "periods_ok s"
  shows "\<exists>s'. timer_check_loop cb (rt_tick_get s) s = Some s' \<and> sys 0 {} s' \<and> periods_ok s' \<and>
    rt_tick s' = rt_tick s \<and> due s' = {}"
  using assms(2,3)
proof (induction "card (due s)" arbitrary: s rule: less_induct)
  case less
  show ?case
  proof (cases "rt_timer_list s")
    case Nil
    then have "sys 0 {} s" "due s = {}" using less.prems(1) by (auto simp: sys_def timer_inv_def due_def)
    then show ?thesis using Nil less.prems by (simp add: timer_check_loop.simps)
  next
    case (Cons tm ts)
    have "- 1 \<le> remaining s tm" "remaining s tm < 0x7fffffff"
      using sysD(2)[OF less.prems(1)] Cons by (auto simp: timer_inv_def)
    then have test: "rt_tick_get s - timeout_tick (timers s tm) < 0x7fffffff \<longleftrightarrow> tm \<in> due s"
      using due_test[of "timeout_tick (timers s tm)" "rt_tick s"] Cons
      by (simp add: due_def remaining_def rt_tick_get_def)
    show ?thesis
    proof (cases "tm \<in> due s")
      case True
      from timer_expire_ok[OF assms(1) less.prems True] obtain s1 where
        s1: "timer_expire cb tm s = Some s1" "sys 1 {} s1" "periods_ok s1" "rt_tick s1 = rt_tick s" "due s1 \<subset> due s"
        by blast
      from less.hyps[OF psubset_card_mono[OF finite_due s1(5)] s1(2,3)]
      show ?thesis using Cons True test s1 by (simp add: timer_check_loop.simps[of cb _ s])
    next
      case False
      then show ?thesis using Cons test sorted_head_due[OF less.prems(1) Cons] less.prems
        by (simp add: timer_check_loop.simps[of cb _ s])
    qed
  qed
qed

subsection \<open>The tick interrupt\<close>

lemma sint_pred: "0 \<le> sint (x :: u32) \<Longrightarrow> sint (x - 1) = sint x - 1"
  using sint_range_size[of x] by (subst sint_word_ariths(2)) (simp add: signed_take_bit_int_eq_self word_size)

text \<open>When the tick advances, every deadline comes one tick nearer.\<close>

lemma advance_sys:
  assumes "sys 0 X s"
  shows "sys 1 X (s\<lparr>rt_tick := rt_tick s + 1\<rparr>)"
proof -
  let ?s = "s\<lparr>rt_tick := rt_tick s + 1\<rparr>"
  have rem: "remaining ?s tm = remaining s tm - 1" if "0 \<le> remaining s tm" for tm
    using sint_pred[of "timeout_tick (timers s tm) - rt_tick s"] that by (simp add: remaining_def algebra_simps)
  have pos: "0 \<le> remaining s tm" if "tm \<in> set (rt_timer_list s)" for tm
    using sysD(2)[OF assms] that by (auto simp: timer_inv_def)
  have "sorted_wrt (\<lambda>a b. remaining ?s a \<le> remaining ?s b) (rt_timer_list s)"
    using sysD(2)[OF assms] by (auto simp: timer_inv_def rem pos intro: sorted_wrt_mono_rel[rotated])
  moreover have "timer_active tm ?s \<and> - 1 \<le> remaining ?s tm \<and> remaining ?s tm < 0x7fffffff"
    if "tm \<in> set (rt_timer_list s)" for tm
    using sysD(2)[OF assms] rem[OF pos[OF that]] pos[OF that] that by (auto simp: timer_inv_def timer_active_def)
  ultimately have "timer_inv 1 ?s" using sysD(2)[OF assms] by (simp add: timer_inv_def)
  then show ?thesis
    using sysD[OF assms] kinvx_cong[of ?s s X] by (simp add: sys_def sleepers_ok_def timers_ok_def)
qed

theorem tick_ok:
  assumes cb: "callbacks_ok cb" and s: "sys 0 {} s" and p: "periods_ok s"
    and t: "rt_current_thread s = Some t" "stat (threads s t) = RT_THREAD_READY"
  shows "\<exists>s'. rt_tick_increase cb s = Some s' \<and> sys 0 {} s' \<and> periods_ok s' \<and>
    rt_tick s' = rt_tick s + 1 \<and> due s' = {}"
proof -
  let ?s1 = "s\<lparr>rt_tick := rt_tick s + 1\<rparr>"
  let ?s2 = "upd_thread t (\<lambda>th. th\<lparr>remaining_tick := remaining_tick th - 1\<rparr>) ?s1"
  let ?s3 = "upd_thread t (\<lambda>th. th\<lparr>remaining_tick := init_tick th\<rparr>) ?s2"
  have s2: "sys 1 {} ?s2" by (subst sys_upd_same) (simp_all add: sched_same_def advance_sys[OF s])
  then have s3: "sys 1 {} ?s3" by (subst sys_upd_same) (simp_all add: sched_same_def)
  have same: "periods_ok ?s2" "periods_ok ?s3" using p by (simp_all add: periods_ok_def)
  obtain s4 where y: "rt_thread_yield ?s3 = Some (RT_EOK, s4)" "sys 1 {} s4" "rt_tick s4 = rt_tick ?s3"
    "timers s4 = timers ?s3" "objects s4 = objects ?s3"
    using rt_thread_yield_ok[OF s3, of t] t by auto
  have "periods_ok s4" using same(2) y(4,5) by (simp add: periods_ok_def)
  let ?c = "remaining_tick (threads ?s2 t) = 0"
  let ?s5 = "if ?c then s4 else ?s2"
  have "sys 1 {} ?s5" "periods_ok ?s5" "rt_tick ?s5 = rt_tick s + 1"
    using y s2 same \<open>periods_ok s4\<close> by simp_all
  from timer_check_loop_ok[OF cb this(1,2)] this(3)
  obtain s' where s': "rt_timer_check cb ?s5 = Some s'" "sys 0 {} s'" "periods_ok s'"
    "rt_tick s' = rt_tick s + 1" "due s' = {}"
    unfolding rt_timer_check_def by metis
  have "rt_tick_increase cb s = rt_timer_check cb ?s5"
    using t y(1) unfolding rt_tick_increase_def by (simp add: rt_thread_self_def Let_def)
  with s' show ?thesis by metis
qed

end
