(* ===== verification/RT_Ipc.thy ===== *)
theory RT_Ipc
  imports RT_Clock "HOL-Library.Multiset"
begin

text \<open>
  The wait lists of \<^verbatim>\<open>Kernel/ipc.c\<close>: \<^verbatim>\<open>rt_ipc_list_suspend\<close>, \<^verbatim>\<open>rt_ipc_list_resume\<close> and
  \<^verbatim>\<open>rt_ipc_list_resume_all\<close>, and the sequence by which every IPC call blocks its caller.
\<close>

subsection \<open>Operations\<close>

definition rt_ipc_object_init :: "qid \<Rightarrow> kstate \<Rightarrow> kstate" where
  "rt_ipc_object_init q s = s\<lparr>tlists := q_init q (tlists s)\<rparr>"

text \<open>The search for the position of a thread in a list ordered by priority.\<close>

fun prio_insert :: "(tid \<Rightarrow> u8) \<Rightarrow> tid \<Rightarrow> tid list \<Rightarrow> tid list" where
  "prio_insert prio t [] = [t]"
| "prio_insert prio t (x # xs) = (if prio t < prio x then t # x # xs else x # prio_insert prio t xs)"

definition wait_insert :: "u8 \<Rightarrow> kstate \<Rightarrow> tid \<Rightarrow> tid list \<Rightarrow> tid list" where
  "wait_insert flag s t l =
    (if flag = RT_IPC_FLAG_FIFO then l @ [t]
     else if flag = RT_IPC_FLAG_PRIO then prio_insert (\<lambda>u. current_priority (threads s u)) t l
     else l)"

definition rt_ipc_list_suspend :: "qid \<Rightarrow> tid \<Rightarrow> u8 \<Rightarrow> kstate \<Rightarrow> kstate option" where
  "rt_ipc_list_suspend q t flag s = do {
     (_, s) \<leftarrow> rt_thread_suspend t s;
     Some (s\<lparr>tlists := (tlists s)(q := wait_insert flag s t (tlists s q))\<rparr>)
   }"

definition rt_ipc_list_resume :: "qid \<Rightarrow> kstate \<Rightarrow> kstate option" where
  "rt_ipc_list_resume q s =
    (case tlists s q of
       [] \<Rightarrow> None
     | t # _ \<Rightarrow> map_option snd (rt_thread_resume t s))"

partial_function (option) rt_ipc_list_resume_all :: "qid \<Rightarrow> kstate \<Rightarrow> kstate option" where
  "rt_ipc_list_resume_all q s =
    (case tlists s q of
       [] \<Rightarrow> Some s
     | t # _ \<Rightarrow>
         Option.bind (rt_thread_resume t (upd_thread t (\<lambda>th. th\<lparr>error := - RT_ERROR\<rparr>) s))
           (\<lambda>(_, s). rt_ipc_list_resume_all q s))"

text \<open>
  The sequence shared by the blocking calls: suspend the thread on the list, start its timer
  if there is a time limit (\<^verbatim>\<open>time > 0\<close> as a signed number), and give up the processor.
\<close>

definition wait_on :: "qid \<Rightarrow> u8 \<Rightarrow> tid \<Rightarrow> u32 \<Rightarrow> kstate \<Rightarrow> kstate option" where
  "wait_on q flag t time s = do {
     s \<leftarrow> rt_ipc_list_suspend q t flag s;
     s \<leftarrow> (if sint time > 0 then start_thread_timer t time s else Some s);
     rt_schedule s
   }"

subsection \<open>Order of the waiting threads\<close>

lemma set_prio_insert [simp]: "set (prio_insert prio t l) = insert t (set l)"
  by (induction l) auto

lemma prio_insert_split: "\<exists>as bs. l = as @ bs \<and> prio_insert prio t l = as @ t # bs"
proof (induction l)
  case (Cons x xs)
  then obtain as bs where "xs = as @ bs" "prio_insert prio t xs = as @ t # bs" by blast
  then show ?case
    by (cases "prio t < prio x") (auto intro: exI[of _ "[]"] exI[of _ "x # as"])
qed simp

text \<open>A list ordered by priority stays so, and equal priorities keep their order of arrival.\<close>

lemma sorted_prio_insert:
  "sorted_wrt (\<lambda>a b. prio a \<le> prio b) l \<Longrightarrow> sorted_wrt (\<lambda>a b. prio a \<le> prio b) (prio_insert prio t l)"
  by (induction l) (auto simp: not_less)

lemma prio_insert_stable:
  "sorted_wrt (\<lambda>a b. prio a \<le> prio b) l \<Longrightarrow>
   filter (\<lambda>u. prio u = prio t) (prio_insert prio t l) = filter (\<lambda>u. prio u = prio t) l @ [t]"
proof (induction l)
  case (Cons x xs)
  show ?case
  proof (cases "prio t < prio x")
    case True
    then have "\<forall>u \<in> set (x # xs). prio u \<noteq> prio t" using Cons.prems by auto
    then show ?thesis using True by (auto simp: filter_empty_conv)
  qed (use Cons in auto)
qed simp

lemma wait_insert_split:
  assumes "flag = RT_IPC_FLAG_FIFO \<or> flag = RT_IPC_FLAG_PRIO"
  shows "\<exists>as bs. l = as @ bs \<and> wait_insert flag s t l = as @ t # bs"
  using assms prio_insert_split[of l] by (auto simp: wait_insert_def)

lemma wait_insert_cong:
  "(\<And>u. current_priority (threads s' u) = current_priority (threads s u)) \<Longrightarrow>
   wait_insert flag s' t l = wait_insert flag s t l"
  by (simp add: wait_insert_def)

text \<open>
  Threads that arrive one after the other stand in the order of a stable sort of their arrivals by
  priority.
\<close>

lemma prio_insert_other:
  "prio u \<noteq> prio t \<Longrightarrow> filter (\<lambda>v. prio u = prio v) (prio_insert prio t l) = filter (\<lambda>v. prio u = prio v) l"
  by (induction l) auto

lemma mset_prio_insert [simp]: "mset (prio_insert prio t l) = add_mset t (mset l)"
  by (induction l) auto

lemma prio_insert_sorts:
  "foldl (\<lambda>l t. prio_insert prio t l) [] ts = sort_key prio ts"
proof -
  let ?l = "foldl (\<lambda>l t. prio_insert prio t l) []"
  have srt: "sorted_wrt (\<lambda>a b. prio a \<le> prio b) (?l ts)" for ts
    by (induction ts rule: rev_induct) (simp_all add: sorted_prio_insert)
  have m: "mset (?l ts) = mset ts" by (induction ts rule: rev_induct) simp_all
  have st: "filter (\<lambda>v. prio k = prio v) (?l ts) = filter (\<lambda>v. prio k = prio v) ts" for k
  proof (induction ts rule: rev_induct)
    case (snoc t ts)
    show ?case
    proof (cases "prio k = prio t")
      case True
      then show ?thesis using snoc prio_insert_stable[OF srt[of ts], of t] by (simp add: eq_commute)
    qed (use snoc prio_insert_other[of prio k t] in simp)
  qed simp
  have "sort_key prio ts = ?l ts"
    by (rule properties_for_sort_key) (use m st srt[of ts] in \<open>auto simp: sorted_map\<close>)
  then show ?thesis by simp
qed

subsection \<open>Blocking\<close>

definition other_ready :: "tid \<Rightarrow> kstate \<Rightarrow> bool" where
  "other_ready t s \<longleftrightarrow> (\<exists>u. u \<noteq> t \<and> stat (threads s u) = RT_THREAD_READY)"

text \<open>Suspending the running thread and linking it anywhere into a wait list.\<close>

lemma suspend_link_ok:
  assumes s: "sys d {} s" and t: "stat (threads s t) = RT_THREAD_READY" and q: "is_wait q" "tlists s q = as @ bs"
  shows "\<exists>s1. rt_thread_suspend t s = Some (RT_EOK, s1) \<and> tlists s1 = q_remove t (tlists s) \<and> tlists s1 q = as @ bs \<and>
    threads s1 = (threads s)(t := (threads s t)\<lparr>stat := RT_THREAD_SUSPEND\<rparr>) \<and>
    sys d {} (s1\<lparr>tlists := (tlists s1)(q := as @ t # bs)\<rparr>) \<and> same_ctl s s1 \<and>
    rt_timer_list s1 = rt_timer_list s \<and> Thread_Timer t \<notin> set (rt_timer_list s)"
proof -
  obtain s1 where s1: "rt_thread_suspend t s = Some (RT_EOK, s1)" "sys d {t} s1"
    "threads s1 = (threads s)(t := (threads s t)\<lparr>stat := RT_THREAD_SUSPEND\<rparr>)"
    "tlists s1 = q_remove t (tlists s)" "same_ctl s s1" "rt_timer_list s1 = rt_timer_list s"
    "Thread_Timer t \<notin> set (rt_timer_list s)"
    using rt_thread_suspend_ready[OF s _ t] by auto
  have "t \<notin> set (tlists s q)" using kinvxD(7)[OF sysD(1)[OF s], of t q] t q(1) by auto
  then have tl: "tlists s1 q = as @ bs" using q(2) by (simp add: s1(4) q_remove_def remove1_idem)
  let ?s = "s1\<lparr>tlists := (tlists s1)(q := as @ t # bs)\<rparr>"
  have r: "runnable_fields (threads s1 t)"
    using kinvxD(9)[OF sysD(1)[OF s], of t] t s1(3) by simp
  have "kinvx ({t} - {t}) ?s"
    by (rule kinvx_wait_link[OF sysD(1)[OF s1(2)]]) (use s1(3) r q tl in auto)
  moreover have "timer_inv d ?s"
    using sysD(2)[OF s1(2)] timer_inv_cong[of ?s s1 d] by (simp add: timer_active_def)
  ultimately have "sys d {} ?s"
    using sysD(3-6)[OF s1(2)] by (auto simp: sys_def sleepers_ok_def timers_ok_def)
  then show ?thesis using s1 tl by blast
qed

lemma rt_ipc_list_suspend_ok:
  assumes s: "sys d {} s" and t: "stat (threads s t) = RT_THREAD_READY"
    and q: "is_wait q" "flag = RT_IPC_FLAG_FIFO \<or> flag = RT_IPC_FLAG_PRIO"
  shows "\<exists>s'. rt_ipc_list_suspend q t flag s = Some s' \<and> sys d {} s' \<and> same_ctl s s' \<and>
    threads s' = (threads s)(t := (threads s t)\<lparr>stat := RT_THREAD_SUSPEND\<rparr>) \<and>
    tlists s' = (q_remove t (tlists s))(q := wait_insert flag s t (tlists s q)) \<and>
    rt_timer_list s' = rt_timer_list s \<and> Thread_Timer t \<notin> set (rt_timer_list s)"
proof -
  obtain as bs where ab: "tlists s q = as @ bs" "wait_insert flag s t (tlists s q) = as @ t # bs"
    using wait_insert_split[OF q(2), of "tlists s q" s t] by auto
  obtain s1 where s1: "rt_thread_suspend t s = Some (RT_EOK, s1)" "tlists s1 = q_remove t (tlists s)" "tlists s1 q = as @ bs"
    "threads s1 = (threads s)(t := (threads s t)\<lparr>stat := RT_THREAD_SUSPEND\<rparr>)"
    "sys d {} (s1\<lparr>tlists := (tlists s1)(q := as @ t # bs)\<rparr>)" "same_ctl s s1"
    "rt_timer_list s1 = rt_timer_list s" "Thread_Timer t \<notin> set (rt_timer_list s)"
    using suspend_link_ok[OF s t q(1) ab(1)] by blast
  let ?s = "s1\<lparr>tlists := (tlists s1)(q := as @ t # bs)\<rparr>"
  have wi: "wait_insert flag s1 t l = wait_insert flag s t l" for l
    by (rule wait_insert_cong) (simp add: s1(4))
  have "rt_ipc_list_suspend q t flag s = Some ?s"
    using s1(1,3) ab by (simp add: rt_ipc_list_suspend_def wi)
  then show ?thesis
    using s1 ab by (intro exI[of _ ?s]) (simp add: same_ctl_def same_ipc_def)
qed

lemma start_thread_timer_eq:
  "start_thread_timer t time s =
     (if time < 0x7fffffff
      then Some (timer_started (Thread_Timer t) (upd_timer (Thread_Timer t) (\<lambda>tm. tm\<lparr>tm_init_tick := time\<rparr>) s))
      else None)"
  by (simp add: start_thread_timer_def rt_timer_control_def rt_timer_start_eq)

lemma set_time_sys: "sys d X s \<Longrightarrow> sys d X (upd_timer tm (\<lambda>t. t\<lparr>tm_init_tick := time\<rparr>) s)"
proof -
  assume s: "sys d X s"
  let ?s = "upd_timer tm (\<lambda>t. t\<lparr>tm_init_tick := time\<rparr>) s"
  have "remaining ?s = remaining s" "timer_active t ?s = timer_active t s" for t
    by (auto simp: remaining_def fun_eq_iff timer_active_def)
  then have "timer_inv d ?s" using sysD(2)[OF s] by (simp add: timer_inv_def)
  then show ?thesis using sysD[OF s] kinvx_cong[of ?s s X] by (auto simp: sys_def sleepers_ok_def timers_ok_def)
qed

lemma same_ctl_started: "same_ctl s (timer_started (Thread_Timer t) (upd_timer (Thread_Timer t) f s))"
  by (simp add: same_ctl_def same_ipc_def timer_started_def timer_set_active_def Let_def)

lemma start_thread_timer_ok:
  assumes s: "sys d {} s" and t: "stat (threads s t) = RT_THREAD_SUSPEND" and time: "time < 0x7fffffff"
  shows "\<exists>s'. start_thread_timer t time s = Some s' \<and> sys d {} s' \<and> same_ctl s s' \<and>
    threads s' = threads s \<and> tlists s' = tlists s \<and> Thread_Timer t \<in> set (rt_timer_list s') \<and>
    timeout_tick (timers s' (Thread_Timer t)) = rt_tick s + time"
proof -
  let ?s1 = "upd_timer (Thread_Timer t) (\<lambda>tm. tm\<lparr>tm_init_tick := time\<rparr>) s"
  have "sys d {} (timer_started (Thread_Timer t) ?s1)"
    by (rule start_user_timer_sys[OF set_time_sys[OF s]]) (use t time in auto)
  then show ?thesis
    using time same_ctl_started[of s t]
    by (simp add: start_thread_timer_eq) (simp add: timer_started_def timer_set_active_def Let_def)
qed

lemma other_ready_some_ready:
  assumes s: "sys d {} s'" and o: "other_ready t s" and th: "\<And>u. u \<noteq> t \<Longrightarrow> threads s' u = threads s u"
  shows "some_ready s'"
proof -
  from o obtain u where u: "u \<noteq> t" "stat (threads s' u) = RT_THREAD_READY"
    using th by (auto simp: other_ready_def)
  from kinvxD(6)[OF sysD(1)[OF s] _ u(2)] show ?thesis
    unfolding some_ready_def by (metis empty_iff empty_set)
qed

text \<open>
  The effect of blocking: the thread is suspended at its place in the list, its timer runs
  exactly when there is a time limit, and another thread runs.
\<close>

definition blocked_on :: "qid \<Rightarrow> u8 \<Rightarrow> tid \<Rightarrow> u32 \<Rightarrow> kstate \<Rightarrow> kstate \<Rightarrow> bool" where
  "blocked_on q flag t time s s' \<longleftrightarrow>
     threads s' = (threads s)(t := (threads s t)\<lparr>stat := RT_THREAD_SUSPEND\<rparr>) \<and>
     tlists s' = (q_remove t (tlists s))(q := wait_insert flag s t (tlists s q)) \<and>
     (Thread_Timer t \<in> set (rt_timer_list s') \<longleftrightarrow> sint time > 0) \<and>
     (sint time > 0 \<longrightarrow> timeout_tick (timers s' (Thread_Timer t)) = rt_tick s + time) \<and>
     (rt_scheduler_lock_nest s = 0 \<longrightarrow>
        (\<exists>u. rt_current_thread s' = Some u \<and> u \<noteq> t \<and> stat (threads s' u) = RT_THREAD_READY)) \<and>
     (rt_scheduler_lock_nest s = 0 \<longrightarrow> rt_current_thread s' = top_thread s') \<and>
     rt_tick s' = rt_tick s \<and> rt_interrupt_nest s' = rt_interrupt_nest s \<and>
     rt_scheduler_lock_nest s' = rt_scheduler_lock_nest s \<and> same_ipc s s'"

lemma blocked_onD:
  assumes "blocked_on q flag t time s s'"
  shows "stat (threads s' t) = RT_THREAD_SUSPEND" "Thread_Timer t \<in> set (rt_timer_list s') \<longleftrightarrow> sint time > 0"
    and "same_ipc s s'" "flag = RT_IPC_FLAG_FIFO \<or> flag = RT_IPC_FLAG_PRIO \<Longrightarrow> t \<in> set (tlists s' q)"
    and "rt_scheduler_lock_nest s = 0 \<Longrightarrow>
      \<exists>u. rt_current_thread s' = Some u \<and> u \<noteq> t \<and> stat (threads s' u) = RT_THREAD_READY"
proof -
  note b = assms[unfolded blocked_on_def]
  show "stat (threads s' t) = RT_THREAD_SUSPEND" using b by simp
  show "Thread_Timer t \<in> set (rt_timer_list s') \<longleftrightarrow> sint time > 0" using b by simp
  show "same_ipc s s'" using b by simp
  have "tlists s' q = wait_insert flag s t (tlists s q)" using b by simp
  then show "flag = RT_IPC_FLAG_FIFO \<or> flag = RT_IPC_FLAG_PRIO \<Longrightarrow> t \<in> set (tlists s' q)"
    by (auto simp: wait_insert_def)
  have "rt_scheduler_lock_nest s = 0 \<longrightarrow>
      (\<exists>u. rt_current_thread s' = Some u \<and> u \<noteq> t \<and> stat (threads s' u) = RT_THREAD_READY)" using b by (elim conjE)
  then show "rt_scheduler_lock_nest s = 0 \<Longrightarrow>
      \<exists>u. rt_current_thread s' = Some u \<and> u \<noteq> t \<and> stat (threads s' u) = RT_THREAD_READY" by (rule mp)
qed

lemma top_thread_ready:
  assumes "sys d {} s" "some_ready s"
  obtains u where "top_thread s = Some u" "stat (threads s u) = RT_THREAD_READY"
  using highest_ready_priority_eq[OF sysD(1)[OF assms(1)] assms(2)] kinvxD(5)[OF sysD(1)[OF assms(1)]]
  by metis

lemma top_thread_urgent:
  assumes s: "sys d {} s" and r: "some_ready s"
  obtains t where "top_thread s = Some t" "stat (threads s t) = RT_THREAD_READY"
    "\<And>u. stat (threads s u) = RT_THREAD_READY \<Longrightarrow> current_priority (threads s t) \<le> current_priority (threads s u)"
    "hd (tlists s (Ready (unat (current_priority (threads s t))))) = t"
proof -
  note k = sysD(1)[OF s]
  obtain p t where p: "t \<in> set (tlists s (Ready p))" "\<And>q. q < p \<Longrightarrow> tlists s (Ready q) = []"
    "ready_first p s = Some t" "top_thread s = Some t" "p < 32"
    using highest_ready_priority_eq[OF k r] by metis
  have t: "stat (threads s t) = RT_THREAD_READY" "unat (current_priority (threads s t)) = p"
    using kinvxD(5)[OF k p(1)] by auto
  have "current_priority (threads s t) \<le> current_priority (threads s u)"
    if "stat (threads s u) = RT_THREAD_READY" for u
    using kinvxD(6)[OF k, of u] that p(2)[of "unat (current_priority (threads s u))"] t(2)
    by (force simp: word_le_nat_alt not_less[symmetric])
  moreover have "hd (tlists s (Ready p)) = t"
    using p(3,5) by (auto simp: ready_first_def split: list.splits)
  ultimately show thesis using that[of t] p(4) t by simp
qed

text \<open>The end of every blocking call: the timer of a suspended thread is set and the next thread runs.\<close>

lemma sleep_schedule_ok:
  assumes s: "sys d {} s" and t: "stat (threads s t) = RT_THREAD_SUSPEND" "Thread_Timer t \<notin> set (rt_timer_list s)"
    and o: "other_ready t s" and time: "sint time > 0 \<Longrightarrow> time < 0x7fffffff"
  shows "\<exists>s1 s'. (if sint time > 0 then start_thread_timer t time s else Some s) = Some s1 \<and> rt_schedule s1 = Some s' \<and>
    sys d {} s' \<and> threads s' = threads s \<and> tlists s' = tlists s \<and>
    (Thread_Timer t \<in> set (rt_timer_list s') \<longleftrightarrow> sint time > 0) \<and>
    (sint time > 0 \<longrightarrow> timeout_tick (timers s' (Thread_Timer t)) = rt_tick s + time) \<and>
    (rt_scheduler_lock_nest s = 0 \<longrightarrow>
       (\<exists>u. rt_current_thread s' = Some u \<and> u \<noteq> t \<and> stat (threads s' u) = RT_THREAD_READY)) \<and>
    (rt_scheduler_lock_nest s = 0 \<longrightarrow> rt_current_thread s' = top_thread s') \<and>
    rt_tick s' = rt_tick s \<and> rt_interrupt_nest s' = rt_interrupt_nest s \<and>
    rt_scheduler_lock_nest s' = rt_scheduler_lock_nest s \<and> same_ipc s s'"
proof -
  obtain s2 where s2: "(if sint time > 0 then start_thread_timer t time s else Some s) = Some s2"
    "sys d {} s2" "same_ctl s s2" "threads s2 = threads s" "tlists s2 = tlists s"
    "Thread_Timer t \<in> set (rt_timer_list s2) \<longleftrightarrow> sint time > 0"
    "sint time > 0 \<Longrightarrow> timeout_tick (timers s2 (Thread_Timer t)) = rt_tick s + time"
  proof (cases "sint time > 0")
    case True
    with start_thread_timer_ok[OF s t(1) time[OF True]] show thesis by (auto intro: that)
  next
    case False
    with s t(2) show thesis by (intro that[of s]) (auto simp: same_ctl_def same_ipc_def)
  qed
  have sr: "some_ready s2" by (rule other_ready_some_ready[OF s2(2) o]) (simp add: s2(4))
  obtain x where run: "rt_schedule s2 = Some (s2\<lparr>rt_current_priority := x,
      rt_current_thread := (if rt_scheduler_lock_nest s2 = 0 then top_thread s2 else rt_current_thread s2)\<rparr>)"
    using rt_schedule_ok[OF s2(2) sr] by auto
  obtain u where u: "top_thread s2 = Some u" "stat (threads s2 u) = RT_THREAD_READY"
    using top_thread_ready[OF s2(2) sr] .
  have "u \<noteq> t" using u(2) s2(4) t(1) by auto
  then show ?thesis
    using s2 run u by (auto simp: same_ctl_def same_ipc_def top_thread_run)
qed

lemma wait_on_ok:
  assumes s: "sys d {} s" and t: "stat (threads s t) = RT_THREAD_READY" and o: "other_ready t s"
    and q: "is_wait q" "flag = RT_IPC_FLAG_FIFO \<or> flag = RT_IPC_FLAG_PRIO"
    and time: "sint time > 0 \<Longrightarrow> time < 0x7fffffff"
  shows "\<exists>s'. wait_on q flag t time s = Some s' \<and> sys d {} s' \<and> blocked_on q flag t time s s'"
proof -
  obtain s1 where s1: "rt_ipc_list_suspend q t flag s = Some s1" "sys d {} s1" "same_ctl s s1"
    "threads s1 = (threads s)(t := (threads s t)\<lparr>stat := RT_THREAD_SUSPEND\<rparr>)"
    "tlists s1 = (q_remove t (tlists s))(q := wait_insert flag s t (tlists s q))"
    "Thread_Timer t \<notin> set (rt_timer_list s1)"
    using rt_ipc_list_suspend_ok[OF s t q] by auto
  have "stat (threads s1 t) = RT_THREAD_SUSPEND" "other_ready t s1"
    using o by (auto simp: s1(4) other_ready_def)
  from sleep_schedule_ok[OF s1(2) this(1) s1(6) this(2) time] obtain s2 s' where
    "(if sint time > 0 then start_thread_timer t time s1 else Some s1) = Some s2" "rt_schedule s2 = Some s'"
    "sys d {} s'" "threads s' = threads s1" "tlists s' = tlists s1"
    "Thread_Timer t \<in> set (rt_timer_list s') \<longleftrightarrow> sint time > 0"
    "sint time > 0 \<longrightarrow> timeout_tick (timers s' (Thread_Timer t)) = rt_tick s1 + time"
    "rt_scheduler_lock_nest s1 = 0 \<longrightarrow>
       (\<exists>u. rt_current_thread s' = Some u \<and> u \<noteq> t \<and> stat (threads s' u) = RT_THREAD_READY)"
    "rt_scheduler_lock_nest s1 = 0 \<longrightarrow> rt_current_thread s' = top_thread s'"
    "rt_tick s' = rt_tick s1" "rt_interrupt_nest s' = rt_interrupt_nest s1"
    "rt_scheduler_lock_nest s' = rt_scheduler_lock_nest s1" "same_ipc s1 s'" by blast
  with s1 show ?thesis by (auto simp: wait_on_def blocked_on_def same_ctl_def same_ipc_def)
qed
subsection \<open>Waking up\<close>

lemma waiting_suspended:
  "sys d {} s \<Longrightarrow> is_wait q \<Longrightarrow> t \<in> set (tlists s q) \<Longrightarrow> stat (threads s t) = RT_THREAD_SUSPEND"
  using kinvxD(7)[OF sysD(1)] by blast

lemma rt_ipc_list_resume_ok:
  assumes s: "sys d {} s" and q: "is_wait q" "tlists s q = t # ts"
  shows "\<exists>s'. rt_ipc_list_resume q s = Some s' \<and> sys d {} s' \<and> made_ready t s s' \<and> tlists s' q = ts \<and>
    Thread_Timer t \<notin> set (rt_timer_list s')"
proof -
  have t: "stat (threads s t) = RT_THREAD_SUSPEND" using waiting_suspended[OF s q(1)] q(2) by simp
  obtain s' where s': "rt_thread_resume t s = Some (RT_EOK, s')" "sys d {} s'" "made_ready t s s'"
    "rt_timer_list s' = remove1 (Thread_Timer t) (rt_timer_list s)"
    using rt_thread_resume_suspended[OF s _ t] by auto
  have "distinct (rt_timer_list s)" using sysD(2)[OF s] by (simp add: timer_inv_def)
  moreover have "tlists s' q = ts"
    using s'(3) q by (cases q) (auto simp: made_ready_def q_insert_before_def q_remove_def)
  ultimately show ?thesis using s' q(2) by (simp add: rt_ipc_list_resume_def)
qed

text \<open>
  Waking all: every waiting thread becomes ready with the error code set, and no thread is
  left on the list. The loop ends because each round takes one thread off the list.
\<close>

definition woken :: "tid set \<Rightarrow> kstate \<Rightarrow> kstate \<Rightarrow> bool" where
  "woken W s s' \<longleftrightarrow>
     (\<forall>t \<in> W. stat (threads s' t) = RT_THREAD_READY \<and> error (threads s' t) = - RT_ERROR) \<and>
     (\<forall>t. t \<notin> W \<longrightarrow> threads s' t = threads s t)"

lemma rt_ipc_list_resume_all_ok:
  assumes "sys d {} s" "is_wait q"
  shows "\<exists>s'. rt_ipc_list_resume_all q s = Some s' \<and> sys d {} s' \<and> tlists s' q = [] \<and>
    (\<forall>q'. is_wait q' \<longrightarrow> q' \<noteq> q \<longrightarrow> tlists s' q' = tlists s q') \<and>
    woken (set (tlists s q)) s s' \<and> same_ctl s s'"
  using assms(1)
proof (induction "tlists s q" arbitrary: s)
  case Nil
  then show ?case
    by (intro exI[of _ s])
      (simp add: rt_ipc_list_resume_all.simps[of q s] woken_def same_ctl_def same_ipc_def)
next
  case (Cons t ts)
  let ?s1 = "upd_thread t (\<lambda>th. th\<lparr>error := - RT_ERROR\<rparr>) s"
  have s1: "sys d {} ?s1" using Cons.prems by (subst sys_upd_same) (simp_all add: sched_same_def)
  have l: "tlists ?s1 q = t # ts" using Cons.hyps(2) by simp
  obtain s2 where s2: "rt_ipc_list_resume q ?s1 = Some s2" "sys d {} s2" "made_ready t ?s1 s2" "tlists s2 q = ts"
    using rt_ipc_list_resume_ok[OF s1 assms(2) l] by auto
  obtain s3 where s3: "rt_ipc_list_resume_all q s2 = Some s3" "sys d {} s3" "tlists s3 q = []"
    "\<forall>q'. is_wait q' \<longrightarrow> q' \<noteq> q \<longrightarrow> tlists s3 q' = tlists s2 q'" "woken (set ts) s2 s3" "same_ctl s2 s3"
    using Cons.hyps(1)[of s2] s2(2,4) by auto
  have t: "t \<notin> set ts" using kinvxD(1)[OF sysD(1)[OF Cons.prems], of q] Cons.hyps(2)[symmetric] by simp
  have run: "rt_ipc_list_resume_all q s = Some s3"
    using s2(1) s3(1) l by (auto simp: rt_ipc_list_resume_all.simps[of q s] rt_ipc_list_resume_def)
  have w: "woken (set (tlists s q)) s s3"
    using s3(5) s2(3) t Cons.hyps(2)[symmetric] by (auto simp: woken_def made_ready_def)
  have "tlists s2 q' = tlists s q'" if "is_wait q'" "q' \<noteq> q" for q'
  proof -
    have "t \<notin> set (tlists s q')"
      using kinvxD(2)[OF sysD(1)[OF Cons.prems], of t q q'] Cons.hyps(2)[symmetric] that by auto
    then show ?thesis
      using s2(3) that by (cases q') (auto simp: made_ready_def q_insert_before_def q_remove_def remove1_idem)
  qed
  then show ?case
    using run s3 s2(3) w by (intro exI[of _ s3]) (auto simp: same_ctl_def same_ipc_def made_ready_def)
qed

text \<open>
  The effect of waking the first waiting thread and scheduling: it is ready behind the
  threads of its priority, and the processor goes to the most urgent ready thread.
\<close>

definition woke_first :: "qid \<Rightarrow> tid \<Rightarrow> kstate \<Rightarrow> kstate \<Rightarrow> bool" where
  "woke_first q t s s' \<longleftrightarrow>
     threads s' = (threads s)(t := (threads s t)\<lparr>stat := RT_THREAD_READY\<rparr>) \<and>
     tlists s' = q_insert_before (Ready (unat (current_priority (threads s t)))) t (q_remove t (tlists s)) \<and>
     tlists s' q = tl (tlists s q) \<and> Thread_Timer t \<notin> set (rt_timer_list s') \<and>
     (rt_scheduler_lock_nest s = 0 \<longrightarrow> rt_current_thread s' = top_thread s') \<and>
     rt_tick s' = rt_tick s \<and> rt_interrupt_nest s' = rt_interrupt_nest s \<and>
     rt_scheduler_lock_nest s' = rt_scheduler_lock_nest s \<and> same_ipc s s'"

lemma resume_schedule_ok:
  assumes s: "sys d {} s" and q: "is_wait q" "tlists s q = t # ts"
  shows "\<exists>s1 s'. rt_ipc_list_resume q s = Some s1 \<and> rt_schedule s1 = Some s' \<and> sys d {} s' \<and> woke_first q t s s'"
proof -
  obtain s1 where s1: "rt_ipc_list_resume q s = Some s1" "sys d {} s1" "made_ready t s s1" "tlists s1 q = ts"
    "Thread_Timer t \<notin> set (rt_timer_list s1)"
    using rt_ipc_list_resume_ok[OF s q] by auto
  obtain x where run: "rt_schedule s1 = Some (s1\<lparr>rt_current_priority := x,
      rt_current_thread := (if rt_scheduler_lock_nest s1 = 0 then top_thread s1 else rt_current_thread s1)\<rparr>)"
    using rt_schedule_ok[OF s1(2) made_ready_some_ready[OF s1(3)]] by auto
  show ?thesis
    using s1 run q(2) by (auto simp: top_thread_run woke_first_def made_ready_def same_ctl_def same_ipc_def)
qed

lemma woke_first_waits:
  assumes "woke_first q t s s'" "sys d {} s" "t \<in> set (tlists s q)" "is_wait q'" "q' \<noteq> q"
  shows "tlists s' q' = tlists s q'"
proof -
  have "t \<notin> set (tlists s q')" using kinvxD(2)[OF sysD(1)[OF assms(2)] assms(3)] assms(5) by auto
  then show ?thesis
    using assms by (cases q') (auto simp: woke_first_def q_insert_before_def q_remove_def remove1_idem)
qed

end
