(* ===== verification/RT_Sem.thy ===== *)
theory RT_Sem
  imports RT_Ipc
begin

text \<open>
  Semaphores of \<^verbatim>\<open>Kernel/ipc.c\<close>. The threads that wait on semaphore \<open>o\<close> are the list
  \<open>Wait o\<close>. A blocking call returns \<^term>\<open>None\<close> in place of its error code when it gave up the
  processor; its \<open>_resume\<close> part is what runs when the thread continues.
\<close>

subsection \<open>Operations\<close>

type_synonym blocking = "(rt_err_t option \<times> kstate) option"

definition upd_sem :: "oid \<Rightarrow> (rt_semaphore \<Rightarrow> rt_semaphore) \<Rightarrow> kstate \<Rightarrow> kstate" where
  "upd_sem x f s = s\<lparr>sems := (sems s)(x := f (sems s x))\<rparr>"

definition rt_sem_init :: "oid \<Rightarrow> u8 list \<Rightarrow> u32 \<Rightarrow> u8 \<Rightarrow> kstate \<Rightarrow> (rt_err_t \<times> kstate) option" where
  "rt_sem_init x nm v flag s = do {
     s \<leftarrow> rt_object_init (Obj x) RT_Object_Class_Semaphore nm s;
     let s = rt_ipc_object_init (Wait x) s;
     let s = upd_sem x (\<lambda>sm. sm\<lparr>sem_value := ucast v\<rparr>) s;
     let s = upd_object (Obj x) (\<lambda>ob. ob\<lparr>obj_flag := flag\<rparr>) s;
     Some (RT_EOK, s)
   }"

definition rt_sem_detach :: "oid \<Rightarrow> kstate \<Rightarrow> (rt_err_t \<times> kstate) option" where
  "rt_sem_detach x s = do {
     s \<leftarrow> rt_ipc_list_resume_all (Wait x) s;
     Some (RT_EOK, rt_object_detach (Obj x) s)
   }"

definition rt_sem_take :: "oid \<Rightarrow> u32 \<Rightarrow> kstate \<Rightarrow> blocking" where
  "rt_sem_take x time s =
    (if sem_value (sems s x) > 0
     then Some (Some RT_EOK, upd_sem x (\<lambda>sm. sm\<lparr>sem_value := sem_value sm - 1\<rparr>) s)
     else if time = 0 then Some (Some (- RT_ETIMEOUT), s)
     else do {
       RT_DEBUG_IN_THREAD_CONTEXT s;
       t \<leftarrow> rt_thread_self s;
       let s = upd_thread t (\<lambda>th. th\<lparr>error := RT_EOK\<rparr>) s;
       s \<leftarrow> wait_on (Wait x) (obj_flag (objects s (Obj x))) t time s;
       Some (None, s)
     })"

definition rt_sem_take_resume :: "tid \<Rightarrow> kstate \<Rightarrow> rt_err_t" where
  "rt_sem_take_resume t s = (if error (threads s t) \<noteq> RT_EOK then error (threads s t) else RT_EOK)"

definition rt_sem_trytake :: "oid \<Rightarrow> kstate \<Rightarrow> blocking" where
  "rt_sem_trytake x s = rt_sem_take x 0 s"

definition rt_sem_release :: "oid \<Rightarrow> kstate \<Rightarrow> (rt_err_t \<times> kstate) option" where
  "rt_sem_release x s =
    (if \<not> q_isempty (Wait x) (tlists s) then do {
       s \<leftarrow> rt_ipc_list_resume (Wait x) s;
       s \<leftarrow> rt_schedule s;
       Some (RT_EOK, s)
     } else Some (RT_EOK, upd_sem x (\<lambda>sm. sm\<lparr>sem_value := sem_value sm + 1\<rparr>) s))"

text \<open>The command of the IPC control functions: reset with an argument, or another number.\<close>

datatype ipc_cmd = RT_IPC_CMD_RESET u32 | RT_IPC_CMD_OTHER

definition rt_sem_control :: "oid \<Rightarrow> ipc_cmd \<Rightarrow> kstate \<Rightarrow> (rt_err_t \<times> kstate) option" where
  "rt_sem_control x cmd s =
    (case cmd of
       RT_IPC_CMD_RESET v \<Rightarrow> do {
         s \<leftarrow> rt_ipc_list_resume_all (Wait x) s;
         let s = upd_sem x (\<lambda>sm. sm\<lparr>sem_value := ucast v\<rparr>) s;
         s \<leftarrow> rt_schedule s;
         Some (RT_EOK, s)
       }
     | RT_IPC_CMD_OTHER \<Rightarrow> Some (- RT_ERROR, s))"

subsection \<open>Invariant and behaviour\<close>

text \<open>No thread waits on a semaphore that is available.\<close>

definition sem_inv :: "kstate \<Rightarrow> bool" where
  "sem_inv s \<longleftrightarrow> (\<forall>x. sem_value (sems s x) > 0 \<longrightarrow> tlists s (Wait x) = [])"

lemma upd_sem_sel [simp]:
  "threads (upd_sem x f s) = threads s" "tlists (upd_sem x f s) = tlists s"
  "sems (upd_sem x f s) = (sems s)(x := f (sems s x))"
  by (simp_all add: upd_sem_def)

lemma upd_sem_sys [simp]: "sys d X (upd_sem x f s) = sys d X s"
proof -
  have "sys d X s \<Longrightarrow> sys d X (upd_sem x f s)" for s
    by (erule sys_eqI) (simp_all add: upd_sem_def)
  moreover have "sys d X (upd_sem x f s) \<Longrightarrow> sys d X s"
    by (erule sys_eqI) (simp_all add: upd_sem_def)
  ultimately show ?thesis by blast
qed

definition valid_flag :: "kstate \<Rightarrow> oid \<Rightarrow> bool" where
  "valid_flag s x \<longleftrightarrow> obj_flag (objects s (Obj x)) = RT_IPC_FLAG_FIFO \<or> obj_flag (objects s (Obj x)) = RT_IPC_FLAG_PRIO"

text \<open>A thread that may block: it runs, in thread context, and another thread is ready.\<close>

definition may_block :: "tid \<Rightarrow> u32 \<Rightarrow> kstate \<Rightarrow> bool" where
  "may_block t time s \<longleftrightarrow> rt_current_thread s = Some t \<and> rt_interrupt_nest s = 0 \<and>
     stat (threads s t) = RT_THREAD_READY \<and> other_ready t s \<and> (sint time > 0 \<longrightarrow> time < 0x7fffffff)"

lemma may_block_context: "may_block t time s \<Longrightarrow> RT_DEBUG_IN_THREAD_CONTEXT s = Some ()"
  by (simp add: may_block_def RT_DEBUG_IN_THREAD_CONTEXT_def RT_DEBUG_NOT_IN_INTERRUPT_def
      rt_thread_self_def rt_interrupt_get_nest_def)

text \<open>Blocking after writing fields of the calling thread that the scheduler ignores.\<close>

lemma block_self_ok:
  assumes s: "sys d {} s" and b: "may_block t time s" and q: "is_wait q"
    and f: "flag = RT_IPC_FLAG_FIFO \<or> flag = RT_IPC_FLAG_PRIO" and g: "\<And>th. sched_same (g th) th"
  shows "\<exists>s'. wait_on q flag t time (upd_thread t g s) = Some s' \<and> sys d {} s' \<and>
    blocked_on q flag t time (upd_thread t g s) s'"
proof -
  have st: "stat (g th) = stat th" for th using g[of th] by (simp add: sched_same_def)
  show ?thesis
    using b by (intro wait_on_ok) (auto simp: sys_upd_same[OF g, unfolded upd_defs] s q f may_block_def other_ready_def st)
qed

lemma blocked_on_waits:
  "blocked_on q flag t time s s' \<Longrightarrow> sys d {} s \<Longrightarrow> stat (threads s t) = RT_THREAD_READY \<Longrightarrow> is_wait q' \<Longrightarrow>
   q' \<noteq> q \<Longrightarrow> tlists s' q' = tlists s q'"
proof -
  assume *: "blocked_on q flag t time s s'" "sys d {} s" "stat (threads s t) = RT_THREAD_READY" "is_wait q'" "q' \<noteq> q"
  then have "t \<notin> set (tlists s q')" using kinvxD(7)[OF sysD(1), of d "{}" s t q'] by auto
  then show ?thesis using * by (simp add: blocked_on_def q_remove_def remove1_idem)
qed

lemma sem_invI:
  assumes "\<And>y. sem_value (sems s y) > 0 \<Longrightarrow> tlists s (Wait y) = []"
  shows "sem_inv s"
  using assms by (simp add: sem_inv_def)

lemma rt_sem_take_available:
  "sem_value (sems s x) > 0 \<Longrightarrow>
   rt_sem_take x time s = Some (Some RT_EOK, upd_sem x (\<lambda>sm. sm\<lparr>sem_value := sem_value sm - 1\<rparr>) s)"
  by (simp add: rt_sem_take_def)

lemma rt_sem_take_blocks:
  assumes s: "sys d {} s" and inv: "sem_inv s" and b: "may_block t time s" and v: "valid_flag s x"
    and z: "sem_value (sems s x) = 0" "time \<noteq> 0"
  shows "\<exists>s'. rt_sem_take x time s = Some (None, s') \<and> sys d {} s' \<and> sem_inv s' \<and>
    blocked_on (Wait x) (obj_flag (objects s (Obj x))) t time (upd_thread t (\<lambda>th. th\<lparr>error := RT_EOK\<rparr>) s) s'"
proof -
  let ?g = "\<lambda>th :: rt_thread. th\<lparr>error := RT_EOK\<rparr>" and ?f = "obj_flag (objects s (Obj x))"
  obtain s' where s': "wait_on (Wait x) ?f t time (upd_thread t ?g s) = Some s'" "sys d {} s'"
    "blocked_on (Wait x) ?f t time (upd_thread t ?g s) s'"
    using block_self_ok[OF s b, of "Wait x" ?f ?g] v by (auto simp: valid_flag_def sched_same_def)
  have "sem_inv s'"
  proof (rule sem_invI)
    fix y assume y: "sem_value (sems s' y) > 0"
    have eq: "sems s' = sems s" using s'(3) by (simp add: blocked_on_def same_ipc_def)
    with y z(1) have "y \<noteq> x" by auto
    moreover have "sys d {} (upd_thread t ?g s)" using s by (subst sys_upd_same) (simp_all add: sched_same_def)
    ultimately have "tlists s' (Wait y) = tlists s (Wait y)"
      using blocked_on_waits[OF s'(3), of d "Wait y"] b by (auto simp: may_block_def)
    then show "tlists s' (Wait y) = []" using inv y eq by (simp add: sem_inv_def)
  qed
  moreover have "rt_sem_take x time s = Some (None, s')"
    using z may_block_context[OF b] b s'(1) by (simp add: rt_sem_take_def rt_thread_self_def may_block_def)
  ultimately show ?thesis using s' by blast
qed

lemma rt_sem_release_waiting:
  assumes s: "sys d {} s" and inv: "sem_inv s" and w: "tlists s (Wait x) = t # ts"
  shows "\<exists>s'. rt_sem_release x s = Some (RT_EOK, s') \<and> sys d {} s' \<and> sem_inv s' \<and> woke_first (Wait x) t s s'"
proof -
  obtain s1 s' where s': "rt_ipc_list_resume (Wait x) s = Some s1" "rt_schedule s1 = Some s'" "sys d {} s'"
    "woke_first (Wait x) t s s'"
    using resume_schedule_ok[OF s _ w] by auto
  have "sem_inv s'"
  proof (rule sem_invI)
    fix y assume "sem_value (sems s' y) > 0"
    then have "sem_value (sems s y) > 0" using s'(4) by (simp add: woke_first_def same_ipc_def)
    then have "tlists s (Wait y) = []" using inv by (simp add: sem_inv_def)
    then show "tlists s' (Wait y) = []"
      using woke_first_waits[OF s'(4) s, of "Wait y"] s'(4) w by (cases "y = x") auto
  qed
  then show ?thesis using s' w by (simp add: rt_sem_release_def q_isempty_def)
qed

lemma rt_sem_release_free:
  "tlists s (Wait x) = [] \<Longrightarrow>
   rt_sem_release x s = Some (RT_EOK, upd_sem x (\<lambda>sm. sm\<lparr>sem_value := sem_value sm + 1\<rparr>) s)"
  by (simp add: rt_sem_release_def q_isempty_def)

end
