(* ===== verification/RT_Mutex.thy ===== *)
theory RT_Mutex
  imports RT_Sem
begin

text \<open>
  Mutexes of \<^verbatim>\<open>Kernel/ipc.c\<close>: recursive locks with an owner, priority inheritance when a
  more urgent thread has to wait, and hand-over of the ownership on release.
\<close>

subsection \<open>Operations\<close>

definition upd_mutex :: "oid \<Rightarrow> (rt_mutex \<Rightarrow> rt_mutex) \<Rightarrow> kstate \<Rightarrow> kstate" where
  "upd_mutex x f s = s\<lparr>mutexes := (mutexes s)(x := f (mutexes s x))\<rparr>"

definition rt_mutex_init :: "oid \<Rightarrow> u8 list \<Rightarrow> u8 \<Rightarrow> kstate \<Rightarrow> (rt_err_t \<times> kstate) option" where
  "rt_mutex_init x nm flag s = do {
     s \<leftarrow> rt_object_init (Obj x) RT_Object_Class_Mutex nm s;
     let s = rt_ipc_object_init (Wait x) s;
     let s = upd_mutex x (\<lambda>_. \<lparr>mutex_value = 1, original_priority = 0xff, hold = 0, owner = None\<rparr>) s;
     let s = upd_object (Obj x) (\<lambda>ob. ob\<lparr>obj_flag := flag\<rparr>) s;
     Some (RT_EOK, s)
   }"

definition rt_mutex_detach :: "oid \<Rightarrow> kstate \<Rightarrow> (rt_err_t \<times> kstate) option" where
  "rt_mutex_detach x s = do {
     s \<leftarrow> rt_ipc_list_resume_all (Wait x) s;
     Some (RT_EOK, rt_object_detach (Obj x) s)
   }"

definition rt_mutex_take :: "oid \<Rightarrow> u32 \<Rightarrow> kstate \<Rightarrow> blocking" where
  "rt_mutex_take x time s = do {
     RT_DEBUG_IN_THREAD_CONTEXT s;
     t \<leftarrow> rt_thread_self s;
     let s = upd_thread t (\<lambda>th. th\<lparr>error := RT_EOK\<rparr>) s;
     if owner (mutexes s x) = Some t
     then Some (Some RT_EOK, upd_mutex x (\<lambda>m. m\<lparr>hold := hold m + 1\<rparr>) s)
     else if mutex_value (mutexes s x) > 0
     then Some (Some RT_EOK,
            upd_mutex x (\<lambda>m. m\<lparr>mutex_value := mutex_value m - 1, owner := Some t,
              original_priority := current_priority (threads s t), hold := hold m + 1\<rparr>) s)
     else if time = 0
     then Some (Some (- RT_ETIMEOUT), upd_thread t (\<lambda>th. th\<lparr>error := - RT_ETIMEOUT\<rparr>) s)
     else do {
       ow \<leftarrow> owner (mutexes s x);
       s \<leftarrow> (if current_priority (threads s t) < current_priority (threads s ow)
             then map_option snd (rt_thread_control ow
                    (RT_THREAD_CTRL_CHANGE_PRIORITY (current_priority (threads s t))) s)
             else Some s);
       s \<leftarrow> wait_on (Wait x) (obj_flag (objects s (Obj x))) t time s;
       Some (None, s)
     }
   }"

definition rt_mutex_take_resume :: "tid \<Rightarrow> kstate \<Rightarrow> rt_err_t" where
  "rt_mutex_take_resume t s = (if error (threads s t) \<noteq> RT_EOK then error (threads s t) else RT_EOK)"

definition rt_mutex_release :: "oid \<Rightarrow> kstate \<Rightarrow> (rt_err_t \<times> kstate) option" where
  "rt_mutex_release x s = do {
     RT_DEBUG_IN_THREAD_CONTEXT s;
     t \<leftarrow> rt_thread_self s;
     if owner (mutexes s x) \<noteq> Some t
     then Some (- RT_ERROR, upd_thread t (\<lambda>th. th\<lparr>error := - RT_ERROR\<rparr>) s)
     else do {
       let s = upd_mutex x (\<lambda>m. m\<lparr>hold := hold m - 1\<rparr>) s;
       if hold (mutexes s x) = 0 then do {
         s \<leftarrow> (if original_priority (mutexes s x) \<noteq> current_priority (threads s t)
               then map_option snd (rt_thread_control t
                      (RT_THREAD_CTRL_CHANGE_PRIORITY (original_priority (mutexes s x))) s)
               else Some s);
         case tlists s (Wait x) of
           u # _ \<Rightarrow> do {
             let s = upd_mutex x (\<lambda>m. m\<lparr>owner := Some u,
                       original_priority := current_priority (threads s u), hold := hold m + 1\<rparr>) s;
             s \<leftarrow> rt_ipc_list_resume (Wait x) s;
             s \<leftarrow> rt_schedule s;
             Some (RT_EOK, s)
           }
         | [] \<Rightarrow> Some (RT_EOK, upd_mutex x (\<lambda>m. m\<lparr>mutex_value := mutex_value m + 1,
                   owner := None, original_priority := 0xff\<rparr>) s)
       } else Some (RT_EOK, s)
     }
   }"

definition rt_mutex_control :: "oid \<Rightarrow> ipc_cmd \<Rightarrow> kstate \<Rightarrow> rt_err_t \<times> kstate" where
  "rt_mutex_control x cmd s = (- RT_ERROR, s)"

subsection \<open>Invariant\<close>

text \<open>
  A mutex is free, with nobody waiting, or held by an owner. The priority to restore is one
  of the scheduler's.
\<close>

definition mutex_ok :: "rt_mutex \<Rightarrow> tid list \<Rightarrow> bool" where
  "mutex_ok m waiters \<longleftrightarrow>
     (case owner m of
        None \<Rightarrow> mutex_value m = 1 \<and> hold m = 0 \<and> waiters = []
      | Some t \<Rightarrow> mutex_value m = 0 \<and> hold m > 0 \<and> unat (original_priority m) < 32 \<and> t \<notin> set waiters)"

definition mutex_inv :: "oid set \<Rightarrow> kstate \<Rightarrow> bool" where
  "mutex_inv M s \<longleftrightarrow> (\<forall>x \<in> M. mutex_ok (mutexes s x) (tlists s (Wait x)))"

lemma upd_mutex_sel [simp]:
  "threads (upd_mutex x f s) = threads s" "tlists (upd_mutex x f s) = tlists s"
  "objects (upd_mutex x f s) = objects s" "rt_current_thread (upd_mutex x f s) = rt_current_thread s"
  "rt_interrupt_nest (upd_mutex x f s) = rt_interrupt_nest s"
  "rt_scheduler_lock_nest (upd_mutex x f s) = rt_scheduler_lock_nest s"
  "mutexes (upd_mutex x f s) = (mutexes s)(x := f (mutexes s x))"
  by (simp_all add: upd_mutex_def)

lemma upd_mutex_sys [simp]: "sys d X (upd_mutex x f s) = sys d X s"
proof -
  have "sys d X s \<Longrightarrow> sys d X (upd_mutex x f s)" by (erule sys_eqI) (simp_all add: upd_mutex_def)
  moreover have "sys d X (upd_mutex x f s) \<Longrightarrow> sys d X s" by (erule sys_eqI) (simp_all add: upd_mutex_def)
  ultimately show ?thesis by blast
qed

lemma mutex_invI:
  assumes "mutex_inv M s" "x \<in> M \<Longrightarrow> mutex_ok (mutexes s' x) (tlists s' (Wait x))"
    "\<And>y. y \<noteq> x \<Longrightarrow> mutexes s' y = mutexes s y" "\<And>y. y \<noteq> x \<Longrightarrow> tlists s' (Wait y) = tlists s (Wait y)"
  shows "mutex_inv M s'"
  unfolding mutex_inv_def
proof
  fix y assume "y \<in> M"
  with assms show "mutex_ok (mutexes s' y) (tlists s' (Wait y))"
    by (cases "y = x") (simp_all add: mutex_inv_def)
qed

lemma mutex_inv_cong:
  "mutexes s' = mutexes s \<Longrightarrow> (\<And>y. tlists s' (Wait y) = tlists s (Wait y)) \<Longrightarrow> mutex_inv M s' = mutex_inv M s"
  by (simp add: mutex_inv_def)

lemma mutex_inv_upd_thread: "mutex_inv M (upd_thread t f s) = mutex_inv M s"
  by (rule mutex_inv_cong) simp_all

subsection \<open>Taking\<close>

text \<open>The state in which the thread has cleared its error number.\<close>

abbreviation cleared :: "tid \<Rightarrow> kstate \<Rightarrow> kstate" where
  "cleared t s \<equiv> upd_thread t (\<lambda>th. th\<lparr>error := RT_EOK\<rparr>) s"

lemma cleared_sys: "sys d X (upd_thread t (\<lambda>th. th\<lparr>error := e\<rparr>) s) = sys d X s"
  by (rule sys_upd_same) (simp add: sched_same_def)

lemma take_self_eq:
  assumes "may_block t time s"
  shows "rt_mutex_take x time s =
    (let s = cleared t s in
     if owner (mutexes s x) = Some t
     then Some (Some RT_EOK, upd_mutex x (\<lambda>m. m\<lparr>hold := hold m + 1\<rparr>) s)
     else if mutex_value (mutexes s x) > 0
     then Some (Some RT_EOK,
            upd_mutex x (\<lambda>m. m\<lparr>mutex_value := mutex_value m - 1, owner := Some t,
              original_priority := current_priority (threads s t), hold := hold m + 1\<rparr>) s)
     else if time = 0
     then Some (Some (- RT_ETIMEOUT), upd_thread t (\<lambda>th. th\<lparr>error := - RT_ETIMEOUT\<rparr>) s)
     else do {
       ow \<leftarrow> owner (mutexes s x);
       s \<leftarrow> (if current_priority (threads s t) < current_priority (threads s ow)
             then map_option snd (rt_thread_control ow
                    (RT_THREAD_CTRL_CHANGE_PRIORITY (current_priority (threads s t))) s)
             else Some s);
       s \<leftarrow> wait_on (Wait x) (obj_flag (objects s (Obj x))) t time s;
       Some (None, s)
     })"
  using assms may_block_context[OF assms] by (simp add: rt_mutex_take_def rt_thread_self_def may_block_def)

lemma take_free:
  assumes s: "sys d {} s" "mutex_inv M s" "x \<in> M" and b: "may_block t time s" and o: "owner (mutexes s x) = None"
  shows "\<exists>s'. rt_mutex_take x time s = Some (Some RT_EOK, s') \<and> sys d {} s' \<and> mutex_inv M s' \<and>
    mutexes s' x = \<lparr>mutex_value = 0, original_priority = current_priority (threads s t), hold = 1, owner = Some t\<rparr>"
proof -
  have m: "mutex_value (mutexes s x) = 1" "hold (mutexes s x) = 0" "tlists s (Wait x) = []"
    using s o by (auto simp: mutex_inv_def mutex_ok_def)
  have "stat (threads s t) = RT_THREAD_READY" using b by (simp add: may_block_def)
  then have p: "unat (current_priority (threads s t)) < 32"
    using kinvxD(9)[OF sysD(1)[OF s(1)], of t] by (simp add: runnable_fields_def)
  let ?m = "\<lambda>m. m\<lparr>mutex_value := mutex_value m - 1, owner := Some t,
      original_priority := current_priority (threads (cleared t s) t), hold := hold m + 1\<rparr>"
  have eq: "rt_mutex_take x time s = Some (Some RT_EOK, upd_mutex x ?m (cleared t s))"
    by (simp add: take_self_eq[OF b] o m(1) Let_def)
  have mx: "?m (mutexes s x) = \<lparr>mutex_value = 0, original_priority = current_priority (threads s t), hold = 1, owner = Some t\<rparr>"
    using m by (cases "mutexes s x") simp
  have "mutex_inv M (upd_mutex x ?m (cleared t s))"
    by (rule mutex_invI[OF s(2), of x]) (use mx m p in \<open>auto simp: mutex_ok_def\<close>)
  then show ?thesis using eq mx s(1) by (simp add: cleared_sys[unfolded upd_defs])
qed

lemma take_again:
  assumes s: "sys d {} s" "mutex_inv M s" "x \<in> M" and b: "may_block t time s" and o: "owner (mutexes s x) = Some t"
    and h: "hold (mutexes s x) < 255"
  shows "\<exists>s'. rt_mutex_take x time s = Some (Some RT_EOK, s') \<and> sys d {} s' \<and> mutex_inv M s' \<and>
    mutexes s' x = (mutexes s x)\<lparr>hold := hold (mutexes s x) + 1\<rparr>"
proof -
  have "hold (mutexes s x) + 1 \<noteq> 0"
  proof
    assume "hold (mutexes s x) + 1 = 0"
    then have "hold (mutexes s x) = - 1" by (simp add: eq_neg_iff_add_eq_0)
    with h show False by simp
  qed
  then have h1: "hold (mutexes s x) + 1 > 0" by (simp add: word_gt_0)
  have eq: "rt_mutex_take x time s = Some (Some RT_EOK, upd_mutex x (\<lambda>m. m\<lparr>hold := hold m + 1\<rparr>) (cleared t s))"
    by (simp add: take_self_eq[OF b] o Let_def)
  have "mutex_inv M (upd_mutex x (\<lambda>m. m\<lparr>hold := hold m + 1\<rparr>) (cleared t s))"
    by (rule mutex_invI[OF s(2), of x]) (use s(2,3) o h1 in \<open>auto simp: mutex_ok_def mutex_inv_def\<close>)
  then show ?thesis using eq s(1) by (simp add: cleared_sys[unfolded upd_defs])
qed

lemma take_no_wait:
  assumes s: "sys d {} s" "mutex_inv M s" "x \<in> M" and b: "may_block t 0 s"
    and o: "owner (mutexes s x) = Some ow" "ow \<noteq> t"
  shows "\<exists>s'. rt_mutex_take x 0 s = Some (Some (- RT_ETIMEOUT), s') \<and> sys d {} s' \<and> mutex_inv M s' \<and>
    mutexes s' = mutexes s"
proof -
  let ?s = "upd_thread t (\<lambda>th. th\<lparr>error := - RT_ETIMEOUT\<rparr>) (cleared t s)"
  have "mutex_value (mutexes s x) = 0" using s(2,3) o by (auto simp: mutex_inv_def mutex_ok_def)
  then have "rt_mutex_take x 0 s = Some (Some (- RT_ETIMEOUT), ?s)" using o by (simp add: take_self_eq[OF b] Let_def)
  moreover have "sys d {} ?s" "mutex_inv M ?s"
    using s(1,2) by (simp_all only: cleared_sys mutex_inv_upd_thread)
  ultimately show ?thesis by (intro exI[of _ ?s]) simp
qed

text \<open>
  Waiting: the owner is lent the priority of the waiting thread if that is more urgent.
\<close>

definition inherited :: "tid \<Rightarrow> tid \<Rightarrow> kstate \<Rightarrow> rt_thread" where
  "inherited ow t s =
    (if current_priority (threads s t) < current_priority (threads s ow)
     then set_priority (current_priority (threads s t)) (threads s ow) else threads s ow)"

lemma inherit_ok:
  assumes s: "sys d {} s" and t: "stat (threads s t) = RT_THREAD_READY" and ow: "ow \<noteq> t"
  shows "\<exists>s'. (if current_priority (threads s t) < current_priority (threads s ow)
             then map_option snd (rt_thread_control ow
                    (RT_THREAD_CTRL_CHANGE_PRIORITY (current_priority (threads s t))) s)
             else Some s) = Some s' \<and> sys d {} s' \<and>
    threads s' = (threads s)(ow := inherited ow t s) \<and> same_ctl s s' \<and> objects s' = objects s \<and>
    (\<forall>q. is_wait q \<longrightarrow> tlists s' q = tlists s q)"
proof (cases "current_priority (threads s t) < current_priority (threads s ow)")
  case True
  have "unat (current_priority (threads s t)) < 32"
    using kinvxD(9)[OF sysD(1)[OF s], of t] t by (simp add: runnable_fields_def)
  from change_priority_ok[OF s this, of ow] obtain s' where
    s': "rt_thread_control ow (RT_THREAD_CTRL_CHANGE_PRIORITY (current_priority (threads s t))) s = Some (RT_EOK, s')"
    "sys d {} s'" "threads s' = (threads s)(ow := set_priority (current_priority (threads s t)) (threads s ow))"
    "same_ctl s s'" "objects s' = objects s"
    "tlists s' = (if stat (threads s ow) = RT_THREAD_READY
       then q_insert_before (Ready (unat (current_priority (threads s t)))) ow (q_remove ow (tlists s)) else tlists s)"
    by blast
  have "tlists s' q = tlists s q" if "is_wait q" for q
  proof (cases "stat (threads s ow) = RT_THREAD_READY")
    case True
    then have "ow \<notin> set (tlists s q)" using waiting_suspended[OF s that, of ow] by auto
    then show ?thesis using s'(6) that by (cases q) (auto simp: q_insert_before_def q_remove_def remove1_idem)
  qed (simp add: s'(6))
  with True s' show ?thesis by (auto simp: inherited_def)
qed (use s in \<open>auto simp: inherited_def same_ctl_def same_ipc_def intro: exI[of _ s]\<close>)

lemma take_waits:
  assumes s: "sys d {} s" "mutex_inv M s" "x \<in> M" and b: "may_block t time s" and v: "valid_flag s x"
    and o: "owner (mutexes s x) = Some ow" "ow \<noteq> t" and time: "time \<noteq> 0"
  shows "\<exists>s1 s'. rt_mutex_take x time s = Some (None, s') \<and> sys d {} s' \<and> mutex_inv M s' \<and> mutexes s' = mutexes s \<and>
    threads s1 = (threads s)(t := (threads s t)\<lparr>error := RT_EOK\<rparr>, ow := inherited ow t s) \<and>
    blocked_on (Wait x) (obj_flag (objects s (Obj x))) t time s1 s'"
proof -
  let ?s0 = "cleared t s" and ?f = "obj_flag (objects s (Obj x))"
  have v0: "mutex_value (mutexes s x) = 0" using s(2,3) o by (auto simp: mutex_inv_def mutex_ok_def)
  have s0: "sys d {} ?s0" and t: "stat (threads ?s0 t) = RT_THREAD_READY"
    using s(1) b by (simp_all add: cleared_sys[unfolded upd_defs] may_block_def)
  obtain s1 where s1: "(if current_priority (threads ?s0 t) < current_priority (threads ?s0 ow)
             then map_option snd (rt_thread_control ow
                    (RT_THREAD_CTRL_CHANGE_PRIORITY (current_priority (threads ?s0 t))) ?s0)
             else Some ?s0) = Some s1" "sys d {} s1"
    "threads s1 = (threads ?s0)(ow := inherited ow t ?s0)" "same_ctl ?s0 s1" "objects s1 = objects ?s0"
    "\<forall>q. is_wait q \<longrightarrow> tlists s1 q = tlists ?s0 q"
    using inherit_ok[OF s0 t o(2)] by blast
  have inh: "inherited ow t ?s0 = inherited ow t s" using o(2) by (simp add: inherited_def)
  have t1: "stat (threads s1 t) = RT_THREAD_READY" using t o(2) by (simp add: s1(3))
  have "stat (threads s1 u) = stat (threads s u)" for u
    using s1(3) o(2) by (simp add: inh) (simp add: inherited_def set_priority_def)
  then have "other_ready t s1" using b by (simp add: may_block_def other_ready_def)
  then obtain s' where s': "wait_on (Wait x) ?f t time s1 = Some s'" "sys d {} s'" "blocked_on (Wait x) ?f t time s1 s'"
    using wait_on_ok[OF s1(2) t1, of "Wait x" ?f time] v b by (auto simp: valid_flag_def may_block_def)
  have mx: "mutexes s' = mutexes s"
    using s'(3) s1(4) by (simp add: blocked_on_def same_ctl_def same_ipc_def)
  have w: "tlists s' (Wait y) = tlists s (Wait y)" if "y \<noteq> x" for y
    using blocked_on_waits[OF s'(3) s1(2) t1, of "Wait y"] s1(6) that by simp
  have "set (tlists s' (Wait x)) \<subseteq> insert t (set (tlists s (Wait x)))"
    using s'(3) s1(6) by (auto simp: blocked_on_def wait_insert_def)
  moreover have "mutex_ok (mutexes s x) (tlists s (Wait x))" using s(2,3) by (simp add: mutex_inv_def)
  ultimately have "mutex_ok (mutexes s' x) (tlists s' (Wait x))"
    using o mx by (auto simp: mutex_ok_def)
  then have "mutex_inv M s'" using mutex_invI[OF s(2), of x s'] w mx by simp
  moreover have "rt_mutex_take x time s = Some (None, s')"
    using o v0 time s1(1,5) s'(1)
    by (cases "current_priority (threads s t) < current_priority (threads s ow)") (auto simp: take_self_eq[OF b] Let_def)
  ultimately show ?thesis using s' mx s1(3) inh by (intro exI[of _ s1] exI[of _ s']) simp
qed

subsection \<open>Releasing\<close>

lemma release_not_owner:
  assumes "RT_DEBUG_IN_THREAD_CONTEXT s = Some ()" "rt_current_thread s = Some t" "owner (mutexes s x) \<noteq> Some t"
  shows "rt_mutex_release x s = Some (- RT_ERROR, upd_thread t (\<lambda>th. th\<lparr>error := - RT_ERROR\<rparr>) s)"
  using assms by (simp add: rt_mutex_release_def rt_thread_self_def)

lemma release_not_owner_ok:
  assumes "RT_DEBUG_IN_THREAD_CONTEXT s = Some ()" "rt_current_thread s = Some t" "owner (mutexes s x) \<noteq> Some t"
    and s: "sys d {} s" "mutex_inv M s"
  shows "\<exists>s'. rt_mutex_release x s = Some (- RT_ERROR, s') \<and> sys d {} s' \<and> mutex_inv M s' \<and> mutexes s' = mutexes s"
proof -
  let ?s = "upd_thread t (\<lambda>th. th\<lparr>error := - RT_ERROR\<rparr>) s"
  have "sys d {} ?s" "mutex_inv M ?s" using s by (simp_all only: cleared_sys mutex_inv_upd_thread)
  then show ?thesis using release_not_owner[OF assms(1-3)] by (intro exI[of _ ?s]) simp
qed

lemma release_nested:
  assumes c: "RT_DEBUG_IN_THREAD_CONTEXT s = Some ()" "rt_current_thread s = Some t"
    and o: "owner (mutexes s x) = Some t" and h: "hold (mutexes s x) > 1"
    and s: "sys d {} s" "mutex_inv M s" "x \<in> M"
  shows "\<exists>s'. rt_mutex_release x s = Some (RT_EOK, s') \<and> sys d {} s' \<and> mutex_inv M s' \<and>
    s' = upd_mutex x (\<lambda>m. m\<lparr>hold := hold m - 1\<rparr>) s"
proof -
  let ?s = "upd_mutex x (\<lambda>m. m\<lparr>hold := hold m - 1\<rparr>) s"
  have h1: "hold (mutexes s x) - 1 \<noteq> 0" using h by auto
  then have h2: "hold (mutexes s x) - 1 > 0" by (metis word_gt_0)
  have "mutex_inv M ?s"
    by (rule mutex_invI[OF s(2), of x]) (use s(2,3) o h2 in \<open>auto simp: mutex_ok_def mutex_inv_def\<close>)
  moreover have "rt_mutex_release x s = Some (RT_EOK, ?s)"
    using c o h1 by (simp add: rt_mutex_release_def rt_thread_self_def Let_def)
  ultimately show ?thesis using s(1) by simp
qed

text \<open>The last release restores the priority of the owner before the mutex changes hands.\<close>

lemma restore_ok:
  assumes s: "sys d {} s" and p: "unat p < 32" and t: "stat (threads s t) = RT_THREAD_READY"
  shows "\<exists>s'. (if p \<noteq> current_priority (threads s t)
             then map_option snd (rt_thread_control t (RT_THREAD_CTRL_CHANGE_PRIORITY p) s)
             else Some s) = Some s' \<and> sys d {} s' \<and>
    (\<forall>u. u \<noteq> t \<longrightarrow> threads s' u = threads s u) \<and> current_priority (threads s' t) = p \<and>
    stat (threads s' t) = RT_THREAD_READY \<and> same_ctl s s' \<and> (\<forall>q. is_wait q \<longrightarrow> tlists s' q = tlists s q)"
proof (cases "p = current_priority (threads s t)")
  case True
  then show ?thesis using s t by (auto simp: same_ctl_def same_ipc_def)
next
  case False
  obtain s' where s': "rt_thread_control t (RT_THREAD_CTRL_CHANGE_PRIORITY p) s = Some (RT_EOK, s')" "sys d {} s'"
    "threads s' = (threads s)(t := set_priority p (threads s t))" "same_ctl s s'"
    "tlists s' = q_insert_before (Ready (unat p)) t (q_remove t (tlists s))"
    using change_priority_ok[OF s p, of t] t by auto
  have "tlists s' q = tlists s q" if "is_wait q" for q
  proof -
    have "t \<notin> set (tlists s q)" using waiting_suspended[OF s that, of t] t by auto
    then show ?thesis using s'(5) that by (cases q) (auto simp: q_insert_before_def q_remove_def remove1_idem)
  qed
  with False s' t show ?thesis by (auto simp: set_priority_def)
qed

lemma release_last:
  assumes c: "RT_DEBUG_IN_THREAD_CONTEXT s = Some ()" "rt_current_thread s = Some t" "stat (threads s t) = RT_THREAD_READY"
    and o: "owner (mutexes s x) = Some t" and h: "hold (mutexes s x) = 1"
    and s: "sys d {} s" "mutex_inv M s" "x \<in> M"
  shows "\<exists>s'. rt_mutex_release x s = Some (RT_EOK, s') \<and> sys d {} s' \<and> mutex_inv M s' \<and>
    current_priority (threads s' t) = original_priority (mutexes s x) \<and>
    (case tlists s (Wait x) of
       [] \<Rightarrow> owner (mutexes s' x) = None \<and> mutex_value (mutexes s' x) = 1
     | u # us \<Rightarrow> owner (mutexes s' x) = Some u \<and> hold (mutexes s' x) = 1 \<and> tlists s' (Wait x) = us \<and>
         stat (threads s' u) = RT_THREAD_READY \<and>
         (rt_scheduler_lock_nest s = 0 \<longrightarrow> rt_current_thread s' = top_thread s'))"
proof -
  let ?p = "original_priority (mutexes s x)" and ?s0 = "upd_mutex x (\<lambda>m. m\<lparr>hold := hold m - 1\<rparr>) s"
  have m: "mutex_value (mutexes s x) = 0" "unat ?p < 32" "t \<notin> set (tlists s (Wait x))"
    using s(2,3) o by (auto simp: mutex_inv_def mutex_ok_def)
  obtain s1 where s1: "(if ?p \<noteq> current_priority (threads ?s0 t)
             then map_option snd (rt_thread_control t (RT_THREAD_CTRL_CHANGE_PRIORITY ?p) ?s0)
             else Some ?s0) = Some s1" "sys d {} s1" "\<forall>u. u \<noteq> t \<longrightarrow> threads s1 u = threads ?s0 u"
    "current_priority (threads s1 t) = ?p" "stat (threads s1 t) = RT_THREAD_READY" "same_ctl ?s0 s1"
    "\<forall>q. is_wait q \<longrightarrow> tlists s1 q = tlists ?s0 q"
    using restore_ok[of d ?s0 ?p t] s(1) m(2) c(3) by auto
  have mx: "mutexes s1 = (mutexes s)(x := (mutexes s x)\<lparr>hold := 0\<rparr>)"
    using s1(6) h by (simp add: same_ctl_def same_ipc_def)
  have w: "tlists s1 (Wait y) = tlists s (Wait y)" for y using s1(7) by simp
  have run: "rt_mutex_release x s = (case tlists s1 (Wait x) of
           u # _ \<Rightarrow> do {
             let s = upd_mutex x (\<lambda>m. m\<lparr>owner := Some u,
                       original_priority := current_priority (threads s1 u), hold := hold m + 1\<rparr>) s1;
             s \<leftarrow> rt_ipc_list_resume (Wait x) s;
             s \<leftarrow> rt_schedule s;
             Some (RT_EOK, s)
           }
         | [] \<Rightarrow> Some (RT_EOK, upd_mutex x (\<lambda>m. m\<lparr>mutex_value := mutex_value m + 1,
                   owner := None, original_priority := 0xff\<rparr>) s1))"
    using c o h s1(1)
    by (cases "?p = current_priority (threads s t)") (auto simp: rt_mutex_release_def rt_thread_self_def)
  show ?thesis
  proof (cases "tlists s (Wait x)")
    case Nil
    let ?s = "upd_mutex x (\<lambda>m. m\<lparr>mutex_value := mutex_value m + 1, owner := None, original_priority := 0xff\<rparr>) s1"
    have "mutex_inv M ?s"
      by (rule mutex_invI[OF s(2), of x]) (use mx m w Nil in \<open>auto simp: mutex_ok_def\<close>)
    then show ?thesis using run Nil w s1 mx m(1) by simp
  next
    case (Cons u us)
    let ?f = "\<lambda>m. m\<lparr>owner := Some u, original_priority := current_priority (threads s1 u), hold := hold m + 1\<rparr>"
    let ?s2 = "upd_mutex x ?f s1"
    have w2: "tlists ?s2 (Wait x) = u # us" using w Cons by simp
    have ut: "u \<noteq> t" using m(3) Cons by auto
    obtain s3 s' where s': "rt_ipc_list_resume (Wait x) ?s2 = Some s3" "rt_schedule s3 = Some s'" "sys d {} s'"
      "woke_first (Wait x) u ?s2 s'"
      using resume_schedule_ok[of d ?s2 "Wait x" u us] s1(2) w2 by auto
    have pu: "unat (current_priority (threads s1 u)) < 32"
      using kinvxD(9)[OF sysD(1)[OF s1(2)], of u] waiting_suspended[OF s1(2), of "Wait x" u] w Cons
      by (auto simp: runnable_fields_def)
    have d: "distinct (u # us)" using kinvxD(1)[OF sysD(1)[OF s1(2)], of "Wait x"] w Cons by simp
    have mx': "mutexes s' = (mutexes s1)(x := ?f (mutexes s1 x))" "tlists s' (Wait x) = us"
      using s'(4) w2 by (auto simp: woke_first_def same_ipc_def)
    have "mutex_inv M s'"
    proof (rule mutex_invI[OF s(2), of x])
      show "mutex_ok (mutexes s' x) (tlists s' (Wait x))"
        using mx' mx m(1) pu d by (simp add: mutex_ok_def)
      show "y \<noteq> x \<Longrightarrow> tlists s' (Wait y) = tlists s (Wait y)" for y
        using woke_first_waits[OF s'(4), of d "Wait y"] s1(2) w2 w by simp
    qed (simp add: mx' mx)
    moreover have "same_ctl ?s0 s1" by (rule s1(6))
    ultimately show ?thesis
      using run s' w2 mx' mx Cons w ut s1(4) by (auto simp: woke_first_def same_ctl_def)
  qed
qed

end
