(* ===== verification/RT_Event.thy ===== *)
theory RT_Event
  imports RT_Mutex
begin

text \<open>
  Events of \<^verbatim>\<open>Kernel/ipc.c\<close>: a set of 32 flags; a thread waits until all (AND) or one (OR) of
  the flags it names are set, and may clear them when it receives them.
\<close>

subsection \<open>Operations\<close>

abbreviation (input) RT_EVENT_FLAG_AND :: u8 where "RT_EVENT_FLAG_AND \<equiv> 1"
abbreviation (input) RT_EVENT_FLAG_OR :: u8 where "RT_EVENT_FLAG_OR \<equiv> 2"
abbreviation (input) RT_EVENT_FLAG_CLEAR :: u8 where "RT_EVENT_FLAG_CLEAR \<equiv> 4"

definition upd_event :: "oid \<Rightarrow> (rt_event \<Rightarrow> rt_event) \<Rightarrow> kstate \<Rightarrow> kstate" where
  "upd_event x f s = s\<lparr>events := (events s)(x := f (events s x))\<rparr>"

definition rt_event_init :: "oid \<Rightarrow> u8 list \<Rightarrow> u8 \<Rightarrow> kstate \<Rightarrow> (rt_err_t \<times> kstate) option" where
  "rt_event_init x nm flag s = do {
     s \<leftarrow> rt_object_init (Obj x) RT_Object_Class_Event nm s;
     let s = upd_object (Obj x) (\<lambda>ob. ob\<lparr>obj_flag := flag\<rparr>) s;
     let s = rt_ipc_object_init (Wait x) s;
     Some (RT_EOK, upd_event x (\<lambda>e. e\<lparr>ev_set := 0\<rparr>) s)
   }"

definition rt_event_detach :: "oid \<Rightarrow> kstate \<Rightarrow> (rt_err_t \<times> kstate) option" where
  "rt_event_detach x s = do {
     s \<leftarrow> rt_ipc_list_resume_all (Wait x) s;
     Some (RT_EOK, rt_object_detach (Obj x) s)
   }"

text \<open>
  Whether the flags in \<open>es\<close> end a wait for \<open>set\<close> with the given option. Without AND and OR
  nothing does.
\<close>

definition event_satisfied :: "u8 \<Rightarrow> u32 \<Rightarrow> u32 \<Rightarrow> bool" where
  "event_satisfied opt st es =
    (if opt AND RT_EVENT_FLAG_AND \<noteq> 0 then es AND st = st
     else if opt AND RT_EVENT_FLAG_OR \<noteq> 0 then es AND st \<noteq> 0
     else False)"

text \<open>
  The walk over the waiting threads; \<^verbatim>\<open>n\<close> moves on before the thread is taken off the list, so
  it visits the threads that were waiting at the start. The result tells whether one was
  resumed.
\<close>

fun event_scan :: "oid \<Rightarrow> tid list \<Rightarrow> kstate \<Rightarrow> (bool \<times> kstate) option" where
  "event_scan x [] s = Some (False, s)"
| "event_scan x (t # ts) s =
    (let th = threads s t; es = ev_set (events s x) in
     if event_satisfied (event_info th) (event_set th) es then do {
       let s = (if event_info th AND RT_EVENT_FLAG_AND \<noteq> 0 then s
                else upd_thread t (\<lambda>th. th\<lparr>event_set := event_set th AND es\<rparr>) s);
       let s = (if event_info th AND RT_EVENT_FLAG_CLEAR \<noteq> 0
                then upd_event x (\<lambda>e. e\<lparr>ev_set := ev_set e AND NOT (event_set (threads s t))\<rparr>) s else s);
       (_, s) \<leftarrow> rt_thread_resume t s;
       (_, s) \<leftarrow> event_scan x ts s;
       Some (True, s)
     } else event_scan x ts s)"

definition rt_event_send :: "oid \<Rightarrow> u32 \<Rightarrow> kstate \<Rightarrow> (rt_err_t \<times> kstate) option" where
  "rt_event_send x st s =
    (if st = 0 then Some (- RT_ERROR, s)
     else do {
       let s = upd_event x (\<lambda>e. e\<lparr>ev_set := ev_set e OR st\<rparr>) s;
       (need_schedule, s) \<leftarrow> event_scan x (tlists s (Wait x)) s;
       s \<leftarrow> (if need_schedule then rt_schedule s else Some s);
       Some (RT_EOK, s)
     })"

text \<open>
  The second result is the value stored through \<^verbatim>\<open>recved\<close>, if one is stored.
\<close>

definition rt_event_recv ::
    "oid \<Rightarrow> u32 \<Rightarrow> u8 \<Rightarrow> u32 \<Rightarrow> kstate \<Rightarrow> (rt_err_t option \<times> u32 option \<times> kstate) option" where
  "rt_event_recv x st opt timeout s = do {
     RT_DEBUG_IN_THREAD_CONTEXT s;
     if st = 0 then Some (Some (- RT_ERROR), None, s)
     else do {
       t \<leftarrow> rt_thread_self s;
       let s = upd_thread t (\<lambda>th. th\<lparr>error := RT_EOK\<rparr>) s;
       rt_assert (opt AND RT_EVENT_FLAG_AND \<noteq> 0 \<or> opt AND RT_EVENT_FLAG_OR \<noteq> 0);
       if event_satisfied opt st (ev_set (events s x)) then do {
         let recved = ev_set (events s x) AND st;
         let s = (if opt AND RT_EVENT_FLAG_CLEAR \<noteq> 0
                  then upd_event x (\<lambda>e. e\<lparr>ev_set := ev_set e AND NOT st\<rparr>) s else s);
         Some (Some (error (threads s t)), Some recved, s)
       } else if timeout = 0 then do {
         let s = upd_thread t (\<lambda>th. th\<lparr>error := - RT_ETIMEOUT\<rparr>) s;
         Some (Some (error (threads s t)), None, s)
       } else do {
         let s = upd_thread t (\<lambda>th. th\<lparr>event_set := st, event_info := opt\<rparr>) s;
         s \<leftarrow> wait_on (Wait x) (obj_flag (objects s (Obj x))) t timeout s;
         Some (None, None, s)
       }
     }
   }"

definition rt_event_recv_resume :: "tid \<Rightarrow> kstate \<Rightarrow> rt_err_t \<times> u32 option" where
  "rt_event_recv_resume t s =
    (if error (threads s t) \<noteq> RT_EOK then (error (threads s t), None)
     else (error (threads s t), Some (event_set (threads s t))))"

definition rt_event_control :: "oid \<Rightarrow> ipc_cmd \<Rightarrow> kstate \<Rightarrow> (rt_err_t \<times> kstate) option" where
  "rt_event_control x cmd s =
    (case cmd of
       RT_IPC_CMD_RESET _ \<Rightarrow> do {
         s \<leftarrow> rt_ipc_list_resume_all (Wait x) s;
         let s = upd_event x (\<lambda>e. e\<lparr>ev_set := 0\<rparr>) s;
         s \<leftarrow> rt_schedule s;
         Some (RT_EOK, s)
       }
     | RT_IPC_CMD_OTHER \<Rightarrow> Some (- RT_ERROR, s))"

subsection \<open>No thread waits for an event that has happened\<close>

definition thread_satisfied :: "rt_thread \<Rightarrow> u32 \<Rightarrow> bool" where
  "thread_satisfied th es \<longleftrightarrow> event_satisfied (event_info th) (event_set th) es"

definition event_inv :: "oid \<Rightarrow> kstate \<Rightarrow> bool" where
  "event_inv x s \<longleftrightarrow> (\<forall>t \<in> set (tlists s (Wait x)). \<not> thread_satisfied (threads s t) (ev_set (events s x)))"

text \<open>Fewer flags satisfy fewer waits.\<close>

lemma event_satisfied_mono:
  assumes "event_satisfied opt st es" "es AND es' = es"
  shows "event_satisfied opt st es'"
proof -
  have *: "bit es i \<Longrightarrow> bit es' i" for i
    using assms(2) by (simp add: word_and_eq_self_iff)
  have a: "es' AND st = st" if "es AND st = st"
    using that * by (auto simp: bit_eq_iff bit_and_iff)
  have o: "es' AND st \<noteq> 0" if "es AND st \<noteq> 0"
  proof
    assume z: "es' AND st = 0"
    have "es AND st = es AND (es' AND st)" using assms(2) by (simp flip: and.assoc)
    with z that show False by simp
  qed
  show ?thesis using assms(1) a o by (auto simp: event_satisfied_def split: if_splits)
qed

lemma upd_event_sel [simp]:
  "threads (upd_event x f s) = threads s" "tlists (upd_event x f s) = tlists s"
  "objects (upd_event x f s) = objects s" "rt_current_thread (upd_event x f s) = rt_current_thread s"
  "rt_interrupt_nest (upd_event x f s) = rt_interrupt_nest s" "rt_timer_list (upd_event x f s) = rt_timer_list s"
  "rt_scheduler_lock_nest (upd_event x f s) = rt_scheduler_lock_nest s"
  "events (upd_event x f s) = (events s)(x := f (events s x))"
  by (simp_all add: upd_event_def)

lemma upd_event_sys [simp]: "sys d X (upd_event x f s) = sys d X s"
proof -
  have "sys d X s \<Longrightarrow> sys d X (upd_event x f s)" by (erule sys_eqI) (simp_all add: upd_event_def)
  moreover have "sys d X (upd_event x f s) \<Longrightarrow> sys d X s" by (erule sys_eqI) (simp_all add: upd_event_def)
  ultimately show ?thesis by blast
qed

text \<open>
  The walk over the waiting threads: it ends, clears flags only, wakes every thread it
  visits whose wait is over and leaves the others as they were.
\<close>

definition scanned :: "oid \<Rightarrow> tid list \<Rightarrow> kstate \<Rightarrow> kstate \<Rightarrow> bool" where
  "scanned x ts s s' \<longleftrightarrow>
     ev_set (events s' x) AND ev_set (events s x) = ev_set (events s' x) \<and>
     (\<forall>y. y \<noteq> x \<longrightarrow> events s' y = events s y) \<and>
     (\<forall>t. t \<notin> set ts \<longrightarrow> threads s' t = threads s t) \<and>
     (\<forall>t. t \<notin> set ts \<longrightarrow> t \<in> set (tlists s' (Wait x)) \<longleftrightarrow> t \<in> set (tlists s (Wait x))) \<and>
     (\<forall>t \<in> set ts. t \<in> set (tlists s' (Wait x)) \<longrightarrow>
        threads s' t = threads s t \<and> \<not> thread_satisfied (threads s' t) (ev_set (events s' x))) \<and>
     (\<forall>t \<in> set ts. t \<notin> set (tlists s' (Wait x)) \<longrightarrow> stat (threads s' t) = RT_THREAD_READY) \<and>
     (\<forall>q. is_wait q \<longrightarrow> q \<noteq> Wait x \<longrightarrow> tlists s' q = tlists s q) \<and>
     rt_scheduler_lock_nest s' = rt_scheduler_lock_nest s \<and> rt_current_thread s' = rt_current_thread s"

text \<open>
  The flags left in the event: those that were there, less the flags that went to a woken thread with the option
  CLEAR. A woken thread keeps the flags it received: flags it waits for and that were there, enough for its condition.
\<close>

definition ev_woken :: "oid \<Rightarrow> tid list \<Rightarrow> kstate \<Rightarrow> tid set" where
  "ev_woken x ts s' = set ts - set (tlists s' (Wait x))"

definition handed :: "oid \<Rightarrow> tid list \<Rightarrow> kstate \<Rightarrow> kstate \<Rightarrow> bool" where
  "handed x ts s s' \<longleftrightarrow>
     (\<forall>i. bit (ev_set (events s' x)) i \<longleftrightarrow> bit (ev_set (events s x)) i \<and>
        \<not> (\<exists>t \<in> ev_woken x ts s'. event_info (threads s t) AND RT_EVENT_FLAG_CLEAR \<noteq> 0 \<and> bit (event_set (threads s' t)) i)) \<and>
     (\<forall>t \<in> ev_woken x ts s'. event_satisfied (event_info (threads s t)) (event_set (threads s t)) (event_set (threads s' t)) \<and>
        (\<forall>i. bit (event_set (threads s' t)) i \<longrightarrow> bit (event_set (threads s t)) i \<and> bit (ev_set (events s x)) i))"

lemma handed_skip: "handed x ts s s' \<Longrightarrow> t \<in> set (tlists s' (Wait x)) \<Longrightarrow> handed x (t # ts) s s'"
proof -
  assume a: "handed x ts s s'" "t \<in> set (tlists s' (Wait x))"
  from a(2) have "ev_woken x (t # ts) s' = ev_woken x ts s'" by (auto simp: ev_woken_def)
  with a(1) show ?thesis by (simp add: handed_def)
qed

lemma handed_step:
  assumes h: "handed x ts s3 s'" and th: "\<And>u. u \<in> set ts \<Longrightarrow> threads s3 u = threads s u"
    and r: "t \<notin> set (tlists s' (Wait x))" and g: "event_set (threads s' t) = got"
    and ok: "event_satisfied (event_info (threads s t)) (event_set (threads s t)) got"
      "\<And>i. bit got i \<Longrightarrow> bit (event_set (threads s t)) i \<and> bit (ev_set (events s x)) i"
    and ev: "ev_set (events s3 x) =
      (if event_info (threads s t) AND RT_EVENT_FLAG_CLEAR \<noteq> 0 then ev_set (events s x) AND NOT got else ev_set (events s x))"
  shows "handed x (t # ts) s s'"
proof -
  have w: "ev_woken x (t # ts) s' = insert t (ev_woken x ts s')" using r by (auto simp: ev_woken_def)
  have th': "threads s3 u = threads s u" if "u \<in> ev_woken x ts s'" for u using th that by (simp add: ev_woken_def)
  let ?clear = "event_info (threads s t) AND RT_EVENT_FLAG_CLEAR \<noteq> 0"
  have n: "bit (NOT got) i \<longleftrightarrow> \<not> bit got i" if "bit (ev_set (events s x)) i" for i
    using that bit_imp_le_length[OF that] by (simp add: bit_not_iff)
  have e: "bit (ev_set (events s3 x)) i \<longleftrightarrow> bit (ev_set (events s x)) i \<and> \<not> (?clear \<and> bit got i)" for i
    unfolding ev using n[of i] by (auto simp: bit_and_iff)
  have "bit (ev_set (events s' x)) i \<longleftrightarrow> bit (ev_set (events s x)) i \<and>
      \<not> (\<exists>u \<in> insert t (ev_woken x ts s'). event_info (threads s u) AND RT_EVENT_FLAG_CLEAR \<noteq> 0 \<and> bit (event_set (threads s' u)) i)" for i
    using h th' e[of i] g by (auto simp: handed_def)
  moreover have "event_satisfied (event_info (threads s u)) (event_set (threads s u)) (event_set (threads s' u)) \<and>
      (\<forall>i. bit (event_set (threads s' u)) i \<longrightarrow> bit (event_set (threads s u)) i \<and> bit (ev_set (events s x)) i)"
    if u: "u \<in> insert t (ev_woken x ts s')" for u
  proof (cases "u = t")
    case False
    then show ?thesis using u h th'[of u] e by (auto simp: handed_def)
  qed (use ok g in simp)
  ultimately show ?thesis unfolding handed_def w by blast
qed

lemma scanned_step:
  assumes sc: "scanned x ts s3 s'" and sub: "ev_set (events s3 x) AND ev_set (events s x) = ev_set (events s3 x)"
    and ev: "\<And>y. y \<noteq> x \<Longrightarrow> events s3 y = events s y" and th: "\<And>u. u \<noteq> t \<Longrightarrow> threads s3 u = threads s u"
    and w: "set (tlists s3 (Wait x)) = set (tlists s (Wait x)) - {t}"
    and q: "\<And>q. is_wait q \<Longrightarrow> q \<noteq> Wait x \<Longrightarrow> tlists s3 q = tlists s q"
    and r: "stat (threads s' t) = RT_THREAD_READY" "t \<notin> set (tlists s' (Wait x))"
    and ctl: "rt_scheduler_lock_nest s3 = rt_scheduler_lock_nest s" "rt_current_thread s3 = rt_current_thread s"
  shows "scanned x (t # ts) s s'"
proof -
  have "ev_set (events s' x) AND ev_set (events s3 x) = ev_set (events s' x)" using sc by (simp add: scanned_def)
  then have "ev_set (events s' x) AND ev_set (events s x) = ev_set (events s' x)"
    using sub by (metis (no_types, lifting) and.assoc)
  moreover have "u \<in> set (tlists s' (Wait x)) \<Longrightarrow> threads s3 u = threads s u" for u using th r(2) by (cases "u = t") auto
  moreover have "\<not> thread_satisfied (threads s u) (ev_set (events s' x))"
    if "u \<in> set ts" "u \<in> set (tlists s' (Wait x))" for u
    using sc that calculation(2)[OF that(2)] by (auto simp: scanned_def)
  ultimately show ?thesis using sc ev th w q r ctl by (simp add: scanned_def)
qed

lemma resume_waits:
  assumes "made_ready t s s'" "sys d {} s" "t \<in> set (tlists s q)" "is_wait q" "is_wait q'"
  shows "tlists s' q' = (if q' = q then remove1 t (tlists s q) else tlists s q')"
proof -
  have "t \<notin> set (tlists s q')" if "q' \<noteq> q"
    using kinvxD(2)[OF sysD(1)[OF assms(2)] assms(3), of q'] that by auto
  then show ?thesis
    using assms(1,5) by (cases q') (auto simp: made_ready_def q_insert_before_def q_remove_def remove1_idem)
qed

lemma event_scan_ok:
  assumes "sys d {} s" "set ts \<subseteq> set (tlists s (Wait x))" "distinct ts"
  shows "\<exists>b s'. event_scan x ts s = Some (b, s') \<and> sys d {} s' \<and> scanned x ts s s' \<and> handed x ts s s' \<and> (b \<longrightarrow> some_ready s')"
  using assms
proof (induction ts arbitrary: s)
  case Nil
  then show ?case by (intro exI[of _ False] exI[of _ s]) (simp add: scanned_def handed_def ev_woken_def)
next
  case (Cons t ts)
  let ?th = "threads s t" and ?es = "ev_set (events s x)"
  show ?case
  proof (cases "event_satisfied (event_info ?th) (event_set ?th) ?es")
    case False
    from Cons.IH[OF Cons.prems(1)] Cons.prems(2,3) obtain b s' where
      IH: "event_scan x ts s = Some (b, s')" "sys d {} s'" "scanned x ts s s'" "b \<longrightarrow> some_ready s'" "handed x ts s s'" by auto
    have "\<not> thread_satisfied (threads s' t) (ev_set (events s' x))" "t \<in> set (tlists s' (Wait x))" "threads s' t = ?th"
      using IH(3) False Cons.prems event_satisfied_mono[of _ _ "ev_set (events s' x)" ?es]
      by (auto simp: scanned_def thread_satisfied_def)
    then have "scanned x (t # ts) s s'" "handed x (t # ts) s s'"
      using IH(3) Cons.prems(2) handed_skip[OF IH(5)] by (auto simp: scanned_def)
    with IH False show ?thesis by (auto simp: Let_def)
  next
    case True
    let ?s1 = "if event_info ?th AND RT_EVENT_FLAG_AND \<noteq> 0 then s
               else upd_thread t (\<lambda>th. th\<lparr>event_set := event_set th AND ?es\<rparr>) s"
    let ?s2 = "if event_info ?th AND RT_EVENT_FLAG_CLEAR \<noteq> 0
               then upd_event x (\<lambda>e. e\<lparr>ev_set := ev_set e AND NOT (event_set (threads ?s1 t))\<rparr>) ?s1 else ?s1"
    have "sys d {} (upd_thread t (\<lambda>th. th\<lparr>event_set := event_set th AND ?es\<rparr>) s)"
      using Cons.prems(1) by (subst sys_upd_same) (auto simp: sched_same_def)
    then have s1: "sys d {} ?s1" using Cons.prems(1) by simp
    then have s2: "sys d {} ?s2" by simp
    have l2: "tlists ?s2 = tlists s" by simp
    have wt: "t \<in> set (tlists ?s2 (Wait x))" using Cons.prems(2) l2 by auto
    have st: "stat (threads ?s2 t) = RT_THREAD_SUSPEND" using waiting_suspended[OF s2 _ wt] by simp
    obtain s3 where s3: "rt_thread_resume t ?s2 = Some (RT_EOK, s3)" "sys d {} s3" "made_ready t ?s2 s3"
      using rt_thread_resume_suspended[OF s2 _ st] by auto
    have w3: "tlists s3 q = (if q = Wait x then remove1 t (tlists s (Wait x)) else tlists s q)" if "is_wait q" for q
      using resume_waits[OF s3(3) s2 wt _ that] l2 by auto
    have ds: "distinct (tlists s (Wait x))" using kinvxD(1)[OF sysD(1)[OF Cons.prems(1)]] .
    have "set ts \<subseteq> set (tlists s3 (Wait x))" using Cons.prems(2,3) w3[of "Wait x"] ds by auto
    from Cons.IH[OF s3(2) this] Cons.prems(3) obtain b s' where
      IH: "event_scan x ts s3 = Some (b, s')" "sys d {} s'" "scanned x ts s3 s'" "handed x ts s3 s'" by auto
    have th3: "threads s3 u = threads s u" if "u \<noteq> t" for u
      using s3(3) that by (auto simp: made_ready_def)
    have rdy: "stat (threads s' t) = RT_THREAD_READY" "t \<notin> set (tlists s' (Wait x))"
      using IH(3) Cons.prems(3) s3(3) w3[of "Wait x"] ds by (auto simp: scanned_def made_ready_def)
    have ev3: "events s3 y = events s y" if "y \<noteq> x" for y
      using s3(3) that by (auto simp: made_ready_def same_ctl_def same_ipc_def)
    have sub3: "ev_set (events s3 x) AND ?es = ev_set (events s3 x)"
      using s3(3) by (auto simp: made_ready_def same_ctl_def same_ipc_def and.assoc and.left_commute and.commute)
    have ctl: "rt_scheduler_lock_nest s3 = rt_scheduler_lock_nest s" "rt_current_thread s3 = rt_current_thread s"
      using s3(3) by (auto simp: made_ready_def same_ctl_def)
    have "scanned x (t # ts) s s'"
      by (rule scanned_step[OF IH(3) sub3 ev3 th3 _ _ rdy ctl]) (simp_all add: w3 ds)
    moreover have "handed x (t # ts) s s'"
    proof (rule handed_step[OF IH(4) _ rdy(2)])
      let ?got = "event_set ?th AND ?es"
      have and_got: "?got = event_set ?th" if "event_info ?th AND RT_EVENT_FLAG_AND \<noteq> 0"
        using True that by (simp add: event_satisfied_def and.commute)
      have g1: "event_set (threads ?s1 t) = ?got" using and_got by simp
      show "event_set (threads s' t) = ?got"
        using IH(3) Cons.prems(3) s3(3) g1 by (auto simp: scanned_def made_ready_def)
      show "event_satisfied (event_info ?th) (event_set ?th) ?got"
        using True by (auto simp: event_satisfied_def and.assoc and.left_commute and.commute)
      show "ev_set (events s3 x) = (if event_info ?th AND RT_EVENT_FLAG_CLEAR \<noteq> 0 then ?es AND NOT ?got else ?es)"
        using s3(3) g1 by (simp add: made_ready_def same_ctl_def same_ipc_def)
      show "threads s3 u = threads s u" if "u \<in> set ts" for u
        by (rule th3) (use that Cons.prems(3) in auto)
    qed (auto simp: bit_and_iff)
    moreover have "some_ready s'"
      using kinvxD(6)[OF sysD(1)[OF IH(2)] _ rdy(1)] unfolding some_ready_def by (metis empty_iff empty_set)
    moreover have "event_scan x (t # ts) s = Some (True, s')"
      using True s3(1) IH(1) by (simp add: Let_def)
    ultimately show ?thesis using IH(2) by blast
  qed
qed

lemma rt_event_send_ok:
  assumes s: "sys d {} s" and st: "st \<noteq> 0"
  shows "\<exists>s1 s'. rt_event_send x st s = Some (RT_EOK, s') \<and> sys d {} s' \<and> event_inv x s' \<and>
    scanned x (tlists s (Wait x)) (upd_event x (\<lambda>e. e\<lparr>ev_set := ev_set e OR st\<rparr>) s) s1 \<and>
    handed x (tlists s (Wait x)) (upd_event x (\<lambda>e. e\<lparr>ev_set := ev_set e OR st\<rparr>) s) s1 \<and>
    (\<exists>a b. s' = s1\<lparr>rt_current_priority := a, rt_current_thread := b\<rparr>)"
proof -
  let ?s0 = "upd_event x (\<lambda>e. e\<lparr>ev_set := ev_set e OR st\<rparr>) s"
  have s0: "sys d {} ?s0" using s by simp
  obtain b s1 where s1: "event_scan x (tlists s (Wait x)) ?s0 = Some (b, s1)" "sys d {} s1"
    "scanned x (tlists s (Wait x)) ?s0 s1" "b \<longrightarrow> some_ready s1" "handed x (tlists s (Wait x)) ?s0 s1"
    using event_scan_ok[OF s0, of "tlists s (Wait x)" x] kinvxD(1)[OF sysD(1)[OF s]] by auto
  have inv: "event_inv x s1"
    unfolding event_inv_def
  proof
    fix u assume u: "u \<in> set (tlists s1 (Wait x))"
    then have "u \<in> set (tlists s (Wait x))"
      using s1(3) by (cases "u \<in> set (tlists s (Wait x))") (auto simp: scanned_def)
    with u show "\<not> thread_satisfied (threads s1 u) (ev_set (events s1 x))" using s1(3) by (auto simp: scanned_def)
  qed
  obtain s' where s': "(if b then rt_schedule s1 else Some s1) = Some s'"
    using rt_schedule_ok[OF s1(2)] s1(4) by (cases b) auto
  have fr: "\<exists>a c. s' = s1\<lparr>rt_current_priority := a, rt_current_thread := c\<rparr>"
  proof (cases b)
    case True then show ?thesis using rt_schedule_frame[of s1 s'] s' by simp
  next
    case False
    then have "s' = s1\<lparr>rt_current_priority := rt_current_priority s1, rt_current_thread := rt_current_thread s1\<rparr>"
      using s' by simp
    then show ?thesis by blast
  qed
  have "rt_event_send x st s = Some (RT_EOK, s')" using st s1(1) s' by (simp add: rt_event_send_def Let_def)
  moreover have "sys d {} s'" "event_inv x s'" using fr s1(2) inv by (auto simp: event_inv_def)
  ultimately show ?thesis using s1(3,5) fr by blast
qed

lemma recv_eq:
  assumes "may_block t timeout s" "st \<noteq> 0" "opt AND RT_EVENT_FLAG_AND \<noteq> 0 \<or> opt AND RT_EVENT_FLAG_OR \<noteq> 0"
  shows "rt_event_recv x st opt timeout s =
    (let s = cleared t s in
     if event_satisfied opt st (ev_set (events s x)) then
       Some (Some RT_EOK, Some (ev_set (events s x) AND st),
         if opt AND RT_EVENT_FLAG_CLEAR \<noteq> 0
         then upd_event x (\<lambda>e. e\<lparr>ev_set := ev_set e AND NOT st\<rparr>) s else s)
     else if timeout = 0 then
       Some (Some (- RT_ETIMEOUT), None, upd_thread t (\<lambda>th. th\<lparr>error := - RT_ETIMEOUT\<rparr>) s)
     else do {
         let s = upd_thread t (\<lambda>th. th\<lparr>event_set := st, event_info := opt\<rparr>) s;
         s \<leftarrow> wait_on (Wait x) (obj_flag (objects s (Obj x))) t timeout s;
         Some (None, None, s)
     })"
  using assms may_block_context[OF assms(1)]
  by (simp add: rt_event_recv_def rt_thread_self_def may_block_def Let_def)

lemma recv_waits:
  assumes s: "sys d {} s" and inv: "event_inv x s" and b: "may_block t timeout s" and v: "valid_flag s x"
    and st: "st \<noteq> 0" "opt AND RT_EVENT_FLAG_AND \<noteq> 0 \<or> opt AND RT_EVENT_FLAG_OR \<noteq> 0"
    and no: "\<not> event_satisfied opt st (ev_set (events s x))" "timeout \<noteq> 0"
  shows "\<exists>s'. rt_event_recv x st opt timeout s = Some (None, None, s') \<and> sys d {} s' \<and> event_inv x s' \<and>
    t \<in> set (tlists s' (Wait x)) \<and> stat (threads s' t) = RT_THREAD_SUSPEND \<and> events s' = events s"
proof -
  let ?g = "\<lambda>th :: rt_thread. th\<lparr>error := RT_EOK, event_set := st, event_info := opt\<rparr>"
  let ?f = "obj_flag (objects s (Obj x))"
  obtain s' where s': "wait_on (Wait x) ?f t timeout (upd_thread t ?g s) = Some s'" "sys d {} s'"
    "blocked_on (Wait x) ?f t timeout (upd_thread t ?g s) s'"
    using block_self_ok[OF s b, of "Wait x" ?f ?g] v by (auto simp: valid_flag_def sched_same_def)
  have run: "rt_event_recv x st opt timeout s = Some (None, None, s')"
    using s'(1) no st by (simp add: recv_eq[OF b st] Let_def)
  have tin: "set (tlists s' (Wait x)) = insert t (set (tlists s (Wait x)))"
    using s'(3) v by (auto simp: blocked_on_def wait_insert_def valid_flag_def)
  have ev: "events s' = events s" using s'(3) by (simp add: blocked_on_def same_ipc_def)
  have th: "threads s' u = threads s u" if "u \<noteq> t" for u using s'(3) that by (simp add: blocked_on_def)
  have tt: "event_info (threads s' t) = opt" "event_set (threads s' t) = st" "stat (threads s' t) = RT_THREAD_SUSPEND"
    using s'(3) by (simp_all add: blocked_on_def)
  have "event_inv x s'"
    unfolding event_inv_def tin
  proof
    fix u assume "u \<in> insert t (set (tlists s (Wait x)))"
    then show "\<not> thread_satisfied (threads s' u) (ev_set (events s' x))"
      using inv no(1) tt th ev by (cases "u = t") (auto simp: event_inv_def thread_satisfied_def)
  qed
  then show ?thesis using run s'(2) tin tt ev by auto
qed

lemma event_inv_shrink:
  assumes "event_inv x s" "tlists s' (Wait x) = tlists s (Wait x)"
    "\<And>u. event_set (threads s' u) = event_set (threads s u) \<and> event_info (threads s' u) = event_info (threads s u)"
    "ev_set (events s' x) AND ev_set (events s x) = ev_set (events s' x)"
  shows "event_inv x s'"
  using assms event_satisfied_mono[of _ _ "ev_set (events s' x)" "ev_set (events s x)"]
  by (auto simp: event_inv_def thread_satisfied_def)

end
