(* ===== verification/RT_Fifo.thy ===== *)
theory RT_Fifo
  imports RT_Prelude
begin

text \<open>
  The contract of a bounded first-in first-out buffer, which mailboxes, message queues and
  the buffers of the device drivers promise, and the lemmas on circular arrays they share.
\<close>

subsection \<open>The contract\<close>

datatype 'a fifo_op = Put 'a | Get

text \<open>Runs of operations on the abstract queue; \<^term>\<open>None\<close> if it overflows or underflows.\<close>

fun queue_run :: "nat \<Rightarrow> 'a fifo_op list \<Rightarrow> 'a list \<Rightarrow> ('a list \<times> 'a list) option" where
  "queue_run n [] q = Some ([], q)"
| "queue_run n (Put v # ops) q = (if length q < n then queue_run n ops (q @ [v]) else None)"
| "queue_run n (Get # ops) q =
     (case q of [] \<Rightarrow> None | v # q \<Rightarrow> map_option (\<lambda>(out, q). (v # out, q)) (queue_run n ops q))"

fun fifo_run :: "('a \<Rightarrow> 's \<Rightarrow> 's option) \<Rightarrow> ('s \<Rightarrow> ('a \<times> 's) option) \<Rightarrow> 'a fifo_op list \<Rightarrow> 's \<Rightarrow>
    ('a list \<times> 's) option" where
  "fifo_run put get [] s = Some ([], s)"
| "fifo_run put get (Put v # ops) s = do { s \<leftarrow> put v s; fifo_run put get ops s }"
| "fifo_run put get (Get # ops) s = do {
     (v, s) \<leftarrow> get s;
     (out, s) \<leftarrow> fifo_run put get ops s;
     Some (v # out, s)
   }"

locale bounded_fifo =
  fixes inv :: "'s \<Rightarrow> bool"
    and fits :: "'s \<Rightarrow> 'a \<Rightarrow> bool"
    and contents :: "'s \<Rightarrow> 'a list"
    and cap :: "'s \<Rightarrow> nat"
    and put :: "'a \<Rightarrow> 's \<Rightarrow> 's option"
    and get :: "'s \<Rightarrow> ('a \<times> 's) option"
  assumes put_law: "inv s \<Longrightarrow> fits s v \<Longrightarrow> length (contents s) < cap s \<Longrightarrow>
      \<exists>s'. put v s = Some s' \<and> inv s' \<and> contents s' = contents s @ [v] \<and> cap s' = cap s \<and> fits s' = fits s"
    and get_law: "inv s \<Longrightarrow> contents s = v # vs \<Longrightarrow>
      \<exists>s'. get s = Some (v, s') \<and> inv s' \<and> contents s' = vs \<and> cap s' = cap s \<and> fits s' = fits s"
begin

text \<open>Every run the abstract queue allows, the buffer performs with the same results.\<close>

lemma run_refines:
  assumes "inv s" "queue_run (cap s) ops (contents s) = Some (out, q)" "\<And>v. Put v \<in> set ops \<Longrightarrow> fits s v"
  shows "\<exists>s'. fifo_run put get ops s = Some (out, s') \<and> inv s' \<and> contents s' = q \<and> cap s' = cap s"
  using assms
proof (induction ops arbitrary: s out)
  case (Cons op ops)
  show ?case
  proof (cases op)
    case (Put v)
    then have l: "length (contents s) < cap s" using Cons.prems(2) by (auto split: if_splits)
    obtain s1 where s1: "put v s = Some s1" "inv s1" "contents s1 = contents s @ [v]" "cap s1 = cap s" "fits s1 = fits s"
      using put_law[OF Cons.prems(1) _ l] Cons.prems(3) Put by auto
    have "queue_run (cap s1) ops (contents s1) = Some (out, q)"
      using Cons.prems(2) Put l s1(3,4) by simp
    from Cons.IH[OF s1(2) this] s1(1,4,5) Put Cons.prems(3) show ?thesis by auto
  next
    case Get
    then obtain v vs out' where v: "contents s = v # vs" "out = v # out'" "queue_run (cap s) ops vs = Some (out', q)"
      using Cons.prems(2) by (auto split: list.splits)
    obtain s1 where s1: "get s = Some (v, s1)" "inv s1" "contents s1 = vs" "cap s1 = cap s" "fits s1 = fits s"
      using get_law[OF Cons.prems(1) v(1)] by blast
    have "queue_run (cap s1) ops (contents s1) = Some (out', q)" using v(3) s1(3,4) by simp
    from Cons.IH[OF s1(2) this] s1(1,4,5) v(2) Get Cons.prems(3) show ?thesis by auto
  qed
qed auto

end

subsection \<open>Circular arrays\<close>

text \<open>The \<open>e\<close> elements of an array of \<open>n\<close> cells from position \<open>i\<close> on, wrapping around.\<close>

definition circ :: "'a list \<Rightarrow> nat \<Rightarrow> nat \<Rightarrow> nat \<Rightarrow> 'a list" where
  "circ xs i n e = map (\<lambda>k. xs ! ((i + k) mod n)) [0..<e]"

lemma length_circ [simp]: "length (circ xs i n e) = e"
  by (simp add: circ_def)

lemma circ_0 [simp]: "circ xs i n 0 = []"
  by (simp add: circ_def)

lemma mod_add_neq:
  assumes "j < k" "k < n"
  shows "((i :: nat) + j) mod n \<noteq> (i + k) mod n"
proof
  assume "(i + j) mod n = (i + k) mod n"
  then have "n dvd (i + k) - (i + j)" using assms(1) by (metis add_le_mono less_imp_le_nat mod_eq_dvd_iff_nat order_refl)
  then have "n dvd k - j" by simp
  moreover have "0 < k - j" "k - j < n" using assms by auto
  ultimately show False using dvd_imp_le by fastforce
qed

lemma mod_wrap: "a < n \<Longrightarrow> k \<le> n \<Longrightarrow> ((a :: nat) + k) mod n = (if a + k < n then a + k else a + k - n)"
  by (simp add: mod_if)

lemma circ_put:
  assumes "e < n" "n \<le> length xs"
  shows "circ (xs[(i + e) mod n := v]) i n (Suc e) = circ xs i n e @ [v]"
proof -
  have "(i + e) mod n < n" using assms by (intro mod_less_divisor) simp
  with assms have "(i + e) mod n < length xs" by linarith
  moreover have "(i + e) mod n \<noteq> (i + k) mod n" if "k < e" for k using mod_add_neq[OF that assms(1), of i] by simp
  ultimately show ?thesis by (auto simp: circ_def nth_list_update)
qed

lemma circ_get: "circ xs i n (Suc e) = xs ! (i mod n) # circ xs (Suc i mod n) n e"
proof -
  have "[0..<Suc e] = 0 # map Suc [0..<e]" by (simp add: map_Suc_upt upt_conv_Cons)
  then show ?thesis by (simp add: circ_def mod_simps)
qed

text \<open>Writing and reading several cells at once.\<close>

lemma circ_append:
  assumes "e + length vs \<le> n"
    and new: "\<And>k. k < length vs \<Longrightarrow> ys ! ((i + e + k) mod n) = vs ! k"
    and old: "\<And>j. j < n \<Longrightarrow> (\<And>k. k < length vs \<Longrightarrow> j \<noteq> (i + e + k) mod n) \<Longrightarrow> ys ! j = xs ! j"
  shows "circ ys i n (e + length vs) = circ xs i n e @ vs"
proof (rule nth_equalityI)
  fix k assume "k < length (circ ys i n (e + length vs))"
  then have k: "k < e + length vs" by simp
  show "circ ys i n (e + length vs) ! k = (circ xs i n e @ vs) ! k"
  proof (cases "k < e")
    case True
    have "(i + k) mod n \<noteq> (i + e + l) mod n" if "l < length vs" for l
      using mod_add_neq[of k "e + l" n i] True that assms(1) by (simp add: add.assoc)
    moreover have "(i + k) mod n < n" using True assms(1) by (intro mod_less_divisor) linarith
    ultimately have "ys ! ((i + k) mod n) = xs ! ((i + k) mod n)" by (intro old)
    then show ?thesis using True k by (simp add: circ_def nth_append)
  next
    case False
    then show ?thesis using new[of "k - e"] k by (simp add: circ_def nth_append add.assoc)
  qed
qed simp

lemma circ_take_drop:
  assumes "m \<le> e"
  shows "take m (circ xs i n e) = circ xs i n m" "drop m (circ xs i n e) = circ xs ((i + m) mod n) n (e - m)"
proof -
  show "take m (circ xs i n e) = circ xs i n m" using assms by (simp add: circ_def take_map)
  have "((i + m) mod n + k) mod n = (i + (m + k)) mod n" for k by (simp add: mod_simps add.assoc)
  then show "drop m (circ xs i n e) = circ xs ((i + m) mod n) n (e - m)"
    using assms by (intro nth_equalityI) (simp_all add: circ_def less_diff_conv add.commute)
qed

lemma circ_slice:
  assumes "i + m \<le> n" "n \<le> length xs" "i < n"
  shows "circ xs i n m = take m (drop i xs)"
  using assms by (intro nth_equalityI) (simp_all add: circ_def)

lemma circ_wrap:
  assumes "i < n" "n \<le> i + m" "m \<le> n" "n \<le> length xs"
  shows "circ xs i n m = take (n - i) (drop i xs) @ take (m - (n - i)) xs"
proof (rule nth_equalityI)
  fix k assume "k < length (circ xs i n m)"
  then have k: "k < m" by simp
  show "circ xs i n m ! k = (take (n - i) (drop i xs) @ take (m - (n - i)) xs) ! k"
  proof (cases "i + k < n")
    case True
    then have "k < n - i" by simp
    with True show ?thesis using k assms by (simp add: circ_def nth_append)
  next
    case False
    then have "(i + k) mod n = i + k - n" using k assms by (simp add: mod_if)
    moreover from False have "\<not> k < n - i" by linarith
    ultimately show ?thesis using False k assms by (simp add: circ_def nth_append add.commute)
  qed
qed (use assms in simp)

end
