(* ===== verification/RT_Mailbox.thy ===== *)
theory RT_Mailbox
  imports RT_Event RT_Fifo
begin

text \<open>
  Mailboxes of \<^verbatim>\<open>Kernel/ipc.c\<close>: a circular buffer of 4-byte messages with a list of waiting
  receivers (\<open>Wait x\<close>) and one of waiting senders (\<open>Wait_Sender x\<close>).

  A call that waits leaves its local variables \<^verbatim>\<open>timeout\<close> and \<^verbatim>\<open>tick_delta\<close> on the stack of the
  thread; here they are the result of the part up to the context switch (\<^term>\<open>Inr\<close>) and the
  arguments of the \<open>_resume\<close> part, which runs the rest of the loop.
\<close>

subsection \<open>The message buffer\<close>

definition mb_put :: "u32 \<Rightarrow> rt_mailbox \<Rightarrow> rt_mailbox option" where
  "mb_put v mb = do {
     rt_assert (unat (in_offset mb) < length (mb_pool mb));
     let mb = mb\<lparr>mb_pool := (mb_pool mb)[unat (in_offset mb) := v]\<rparr>;
     let mb = mb\<lparr>in_offset := in_offset mb + 1\<rparr>;
     let mb = (if in_offset mb \<ge> mb_size mb then mb\<lparr>in_offset := 0\<rparr> else mb);
     Some (mb\<lparr>mb_entry := mb_entry mb + 1\<rparr>)
   }"

definition mb_get :: "rt_mailbox \<Rightarrow> (u32 \<times> rt_mailbox) option" where
  "mb_get mb = do {
     rt_assert (unat (out_offset mb) < length (mb_pool mb));
     let v = mb_pool mb ! unat (out_offset mb);
     let mb = mb\<lparr>out_offset := out_offset mb + 1\<rparr>;
     let mb = (if out_offset mb \<ge> mb_size mb then mb\<lparr>out_offset := 0\<rparr> else mb);
     Some (v, mb\<lparr>mb_entry := mb_entry mb - 1\<rparr>)
   }"

subsection \<open>Operations\<close>

definition set_mb :: "oid \<Rightarrow> rt_mailbox \<Rightarrow> kstate \<Rightarrow> kstate" where
  "set_mb x mb s = s\<lparr>mailboxes := (mailboxes s)(x := mb)\<rparr>"

definition rt_mb_init :: "oid \<Rightarrow> u8 list \<Rightarrow> u32 list \<Rightarrow> u32 \<Rightarrow> u8 \<Rightarrow> kstate \<Rightarrow> (rt_err_t \<times> kstate) option" where
  "rt_mb_init x nm pool sz flag s = do {
     s \<leftarrow> rt_object_init (Obj x) RT_Object_Class_MailBox nm s;
     let s = upd_object (Obj x) (\<lambda>ob. ob\<lparr>obj_flag := flag\<rparr>) s;
     let s = rt_ipc_object_init (Wait x) s;
     let s = set_mb x \<lparr>mb_pool = pool, mb_size = ucast sz, mb_entry = 0, in_offset = 0, out_offset = 0\<rparr> s;
     Some (RT_EOK, s\<lparr>tlists := q_init (Wait_Sender x) (tlists s)\<rparr>)
   }"

definition rt_mb_detach :: "oid \<Rightarrow> kstate \<Rightarrow> (rt_err_t \<times> kstate) option" where
  "rt_mb_detach x s = do {
     s \<leftarrow> rt_ipc_list_resume_all (Wait x) s;
     s \<leftarrow> rt_ipc_list_resume_all (Wait_Sender x) s;
     Some (RT_EOK, rt_object_detach (Obj x) s)
   }"

type_synonym locals = "u32 \<times> u32"

text \<open>Wake the first thread of a list, if there is one, and schedule.\<close>

definition wake_one :: "qid \<Rightarrow> kstate \<Rightarrow> kstate option" where
  "wake_one q s =
    (if \<not> q_isempty q (tlists s) then do { s \<leftarrow> rt_ipc_list_resume q s; rt_schedule s } else Some s)"

text \<open>The remaining time after a wait that began at tick \<open>tick_delta\<close>.\<close>

definition remaining_timeout :: "u32 \<Rightarrow> u32 \<Rightarrow> kstate \<Rightarrow> u32" where
  "remaining_timeout timeout tick_delta s =
    (if sint timeout > 0 then
       let timeout = timeout - (rt_tick_get s - tick_delta) in
       if sint timeout < 0 then 0 else timeout
     else timeout)"

text \<open>The loop and the rest of \<^verbatim>\<open>rt_mb_send_wait\<close>, up to the next context switch.\<close>

definition mb_send_loop :: "tid option \<Rightarrow> oid \<Rightarrow> u32 \<Rightarrow> u32 \<Rightarrow> u32 \<Rightarrow> kstate \<Rightarrow> ((rt_err_t + locals) \<times> kstate) option" where
  "mb_send_loop thread x v timeout tick_delta s =
    (if mb_entry (mailboxes s x) = mb_size (mailboxes s x) then do {
       t \<leftarrow> thread;
       let s = upd_thread t (\<lambda>th. th\<lparr>error := RT_EOK\<rparr>) s;
       if timeout = 0 then Some (Inl (- RT_EFULL), s)
       else do {
         RT_DEBUG_IN_THREAD_CONTEXT s;
         let tick_delta = (if sint timeout > 0 then rt_tick_get s else tick_delta);
         s \<leftarrow> wait_on (Wait_Sender x) (obj_flag (objects s (Obj x))) t timeout s;
         Some (Inr (timeout, tick_delta), s)
       }
     } else do {
       mb \<leftarrow> mb_put v (mailboxes s x);
       s \<leftarrow> wake_one (Wait x) (set_mb x mb s);
       Some (Inl RT_EOK, s)
     })"

definition rt_mb_send_wait :: "oid \<Rightarrow> u32 \<Rightarrow> u32 \<Rightarrow> kstate \<Rightarrow> ((rt_err_t + locals) \<times> kstate) option" where
  "rt_mb_send_wait x v timeout s =
    (if mb_entry (mailboxes s x) = mb_size (mailboxes s x) \<and> timeout = 0 then Some (Inl (- RT_EFULL), s)
     else mb_send_loop (rt_thread_self s) x v timeout 0 s)"

definition rt_mb_send_wait_resume :: "tid \<Rightarrow> oid \<Rightarrow> u32 \<Rightarrow> locals \<Rightarrow> kstate \<Rightarrow> ((rt_err_t + locals) \<times> kstate) option" where
  "rt_mb_send_wait_resume t x v loc s =
    (if error (threads s t) \<noteq> RT_EOK then Some (Inl (error (threads s t)), s)
     else mb_send_loop (Some t) x v (remaining_timeout (fst loc) (snd loc) s)
            (if sint (fst loc) > 0 then rt_tick_get s - snd loc else snd loc) s)"

definition rt_mb_send :: "oid \<Rightarrow> u32 \<Rightarrow> kstate \<Rightarrow> ((rt_err_t + locals) \<times> kstate) option" where
  "rt_mb_send x v s = rt_mb_send_wait x v 0 s"

text \<open>The second result of the receiving functions is the value stored through \<^verbatim>\<open>value\<close>.\<close>

definition mb_recv_loop ::
    "tid option \<Rightarrow> oid \<Rightarrow> u32 \<Rightarrow> u32 \<Rightarrow> kstate \<Rightarrow> ((rt_err_t + locals) \<times> u32 option \<times> kstate) option" where
  "mb_recv_loop thread x timeout tick_delta s =
    (if mb_entry (mailboxes s x) = 0 then do {
       t \<leftarrow> thread;
       let s = upd_thread t (\<lambda>th. th\<lparr>error := RT_EOK\<rparr>) s;
       if timeout = 0 then Some (Inl (- RT_ETIMEOUT), None, upd_thread t (\<lambda>th. th\<lparr>error := - RT_ETIMEOUT\<rparr>) s)
       else do {
         RT_DEBUG_IN_THREAD_CONTEXT s;
         let tick_delta = (if sint timeout > 0 then rt_tick_get s else tick_delta);
         s \<leftarrow> wait_on (Wait x) (obj_flag (objects s (Obj x))) t timeout s;
         Some (Inr (timeout, tick_delta), None, s)
       }
     } else do {
       (v, mb) \<leftarrow> mb_get (mailboxes s x);
       s \<leftarrow> wake_one (Wait_Sender x) (set_mb x mb s);
       Some (Inl RT_EOK, Some v, s)
     })"

definition rt_mb_recv :: "oid \<Rightarrow> u32 \<Rightarrow> kstate \<Rightarrow> ((rt_err_t + locals) \<times> u32 option \<times> kstate) option" where
  "rt_mb_recv x timeout s =
    (if mb_entry (mailboxes s x) = 0 \<and> timeout = 0 then Some (Inl (- RT_ETIMEOUT), None, s)
     else mb_recv_loop (rt_thread_self s) x timeout 0 s)"

definition rt_mb_recv_resume ::
    "tid \<Rightarrow> oid \<Rightarrow> locals \<Rightarrow> kstate \<Rightarrow> ((rt_err_t + locals) \<times> u32 option \<times> kstate) option" where
  "rt_mb_recv_resume t x loc s =
    (if error (threads s t) \<noteq> RT_EOK then Some (Inl (error (threads s t)), None, s)
     else mb_recv_loop (Some t) x (remaining_timeout (fst loc) (snd loc) s)
            (if sint (fst loc) > 0 then rt_tick_get s - snd loc else snd loc) s)"

definition rt_mb_control :: "oid \<Rightarrow> ipc_cmd \<Rightarrow> kstate \<Rightarrow> (rt_err_t \<times> kstate) option" where
  "rt_mb_control x cmd s =
    (case cmd of
       RT_IPC_CMD_RESET _ \<Rightarrow> do {
         s \<leftarrow> rt_ipc_list_resume_all (Wait x) s;
         s \<leftarrow> rt_ipc_list_resume_all (Wait_Sender x) s;
         let s = set_mb x ((mailboxes s x)\<lparr>mb_entry := 0, in_offset := 0, out_offset := 0\<rparr>) s;
         s \<leftarrow> rt_schedule s;
         Some (RT_EOK, s)
       }
     | RT_IPC_CMD_OTHER \<Rightarrow> Some (- RT_ERROR, s))"

subsection \<open>The buffer is a bounded queue\<close>

definition mb_inv :: "rt_mailbox \<Rightarrow> bool" where
  "mb_inv mb \<longleftrightarrow> 0 < mb_size mb \<and> unat (mb_size mb) = length (mb_pool mb) \<and>
     out_offset mb < mb_size mb \<and> mb_entry mb \<le> mb_size mb \<and>
     unat (in_offset mb) = (unat (out_offset mb) + unat (mb_entry mb)) mod unat (mb_size mb)"

definition mb_contents :: "rt_mailbox \<Rightarrow> u32 list" where
  "mb_contents mb = circ (mb_pool mb) (unat (out_offset mb)) (unat (mb_size mb)) (unat (mb_entry mb))"

definition mb_cap :: "rt_mailbox \<Rightarrow> nat" where
  "mb_cap mb = unat (mb_size mb)"

text \<open>Advancing an offset of a circular buffer of fewer than \<open>2^16\<close> cells.\<close>

lemma advance_offset:
  fixes i n :: u16
  assumes "i < n"
  shows "unat (if i + 1 \<ge> n then 0 else i + 1) = Suc (unat i) mod unat n"
proof -
  have b: "unat i < unat n" "unat n < 65536" using assms unsigned_less[of n] by (simp_all add: word_less_nat_alt)
  then have s: "unat (i + 1) = Suc (unat i)" by (simp add: unat_word_ariths)
  show ?thesis
  proof (cases "Suc (unat i) = unat n")
    case True then show ?thesis using s by (simp add: word_le_nat_alt)
  next
    case False then show ?thesis using s b by (simp add: word_le_nat_alt)
  qed
qed

lemma mb_put_ok:
  assumes inv: "mb_inv mb" and room: "length (mb_contents mb) < mb_cap mb"
  shows "\<exists>mb'. mb_put v mb = Some mb' \<and> mb_inv mb' \<and> mb_contents mb' = mb_contents mb @ [v] \<and> mb_cap mb' = mb_cap mb"
proof -
  let ?n = "unat (mb_size mb)" and ?o = "unat (out_offset mb)" and ?e = "unat (mb_entry mb)"
  have n: "0 < ?n" "?n = length (mb_pool mb)" "?o < ?n" and i: "unat (in_offset mb) = (?o + ?e) mod ?n"
    using inv by (auto simp: mb_inv_def word_less_nat_alt)
  have e: "?e < ?n" using room by (simp add: mb_contents_def mb_cap_def)
  have il: "in_offset mb < mb_size mb" using i n by (simp add: word_less_nat_alt)
  have e1: "unat (mb_entry mb + 1) = Suc ?e"
    using e unat_u16_less[of "mb_size mb"] by (simp add: unat_word_ariths)
  let ?mb = "mb\<lparr>mb_pool := (mb_pool mb)[unat (in_offset mb) := v], in_offset := (if in_offset mb + 1 \<ge> mb_size mb then 0 else in_offset mb + 1),
      mb_entry := mb_entry mb + 1\<rparr>"
  have run: "mb_put v mb = Some ?mb"
    using il n by (auto simp: mb_put_def Let_def word_less_nat_alt)
  have "mb_inv ?mb"
    using inv advance_offset[OF il] i e e1 n by (simp add: mb_inv_def word_le_nat_alt word_less_nat_alt mod_simps)
  moreover have "mb_contents ?mb = mb_contents mb @ [v]"
    using circ_put[OF e, of "mb_pool mb" ?o v] i n e1 by (simp add: mb_contents_def)
  ultimately show ?thesis using run by (auto simp: mb_cap_def)
qed

lemma mb_get_ok:
  assumes inv: "mb_inv mb" and c: "mb_contents mb = v # vs"
  shows "\<exists>mb'. mb_get mb = Some (v, mb') \<and> mb_inv mb' \<and> mb_contents mb' = vs \<and> mb_cap mb' = mb_cap mb"
proof -
  let ?n = "unat (mb_size mb)" and ?o = "unat (out_offset mb)" and ?e = "unat (mb_entry mb)"
  have n: "0 < ?n" "?n = length (mb_pool mb)" "?o < ?n" "?e \<le> ?n" and i: "unat (in_offset mb) = (?o + ?e) mod ?n"
    and ol: "out_offset mb < mb_size mb"
    using inv by (auto simp: mb_inv_def word_less_nat_alt word_le_nat_alt)
  have "?e \<noteq> 0" using c by (auto simp: mb_contents_def)
  then obtain e where e: "?e = Suc e" by (cases ?e) auto
  have "1 \<le> mb_entry mb" using e by (simp add: word_le_nat_alt)
  then have e1: "unat (mb_entry mb - 1) = e" using e by (simp add: unat_sub)
  let ?mb = "mb\<lparr>out_offset := (if out_offset mb + 1 \<ge> mb_size mb then 0 else out_offset mb + 1), mb_entry := mb_entry mb - 1\<rparr>"
  have v: "v = mb_pool mb ! ?o" "vs = circ (mb_pool mb) (Suc ?o mod ?n) ?n e"
    using c n circ_get[of "mb_pool mb" ?o ?n e] by (simp_all add: mb_contents_def e)
  have run: "mb_get mb = Some (v, ?mb)"
    using n v by (auto simp: mb_get_def Let_def)
  have adv: "unat (out_offset ?mb) = Suc ?o mod ?n" using advance_offset[OF ol] by simp
  then have "out_offset ?mb < mb_size ?mb" using n by (simp add: word_less_nat_alt)
  moreover have "unat (in_offset mb) = (unat (out_offset ?mb) + e) mod ?n" unfolding adv i e by (simp add: mod_simps)
  ultimately have "mb_inv ?mb" using inv n e e1 by (simp add: mb_inv_def word_le_nat_alt)
  moreover have "mb_contents ?mb = vs" using v(2) adv e1 by (simp add: mb_contents_def)
  ultimately show ?thesis using run by (auto simp: mb_cap_def)
qed

interpretation mbq: bounded_fifo mb_inv "\<lambda>_ _. True" mb_contents mb_cap mb_put mb_get
  by unfold_locales (simp_all add: mb_put_ok mb_get_ok)

subsection \<open>Sending and receiving\<close>

lemma set_mb_sel [simp]:
  "threads (set_mb x mb s) = threads s" "tlists (set_mb x mb s) = tlists s"
  "mailboxes (set_mb x mb s) = (mailboxes s)(x := mb)" "rt_scheduler_lock_nest (set_mb x mb s) = rt_scheduler_lock_nest s"
  by (simp_all add: set_mb_def)

lemma set_mb_sys: "sys d X s \<Longrightarrow> sys d X (set_mb x mb s)"
  by (erule sys_eqI) (simp_all add: set_mb_def)

text \<open>Waking at most one thread: nothing happens if nobody waits.\<close>

definition woke_one :: "qid \<Rightarrow> kstate \<Rightarrow> kstate \<Rightarrow> bool" where
  "woke_one q s s' \<longleftrightarrow> same_ipc s s' \<and> tlists s' q = tl (tlists s q) \<and>
     (case tlists s q of [] \<Rightarrow> s' = s | t # _ \<Rightarrow> woke_first q t s s' \<and> stat (threads s' t) = RT_THREAD_READY)"

lemma wake_one_ok:
  assumes s: "sys d {} s" and q: "is_wait q"
  shows "\<exists>s'. wake_one q s = Some s' \<and> sys d {} s' \<and> woke_one q s s'"
proof (cases "tlists s q")
  case Nil
  then show ?thesis using s by (simp add: wake_one_def q_isempty_def woke_one_def same_ipc_def)
next
  case (Cons t ts)
  from resume_schedule_ok[OF s q Cons] obtain s1 s' where
    "rt_ipc_list_resume q s = Some s1" "rt_schedule s1 = Some s'" "sys d {} s'" "woke_first q t s s'" by blast
  with Cons show ?thesis by (auto simp: wake_one_def q_isempty_def woke_one_def woke_first_def)
qed

lemma entry_full_iff: "mb_inv mb \<Longrightarrow> mb_entry mb = mb_size mb \<longleftrightarrow> length (mb_contents mb) = mb_cap mb"
  by (simp add: mb_contents_def mb_cap_def word_unat_eq_iff)

lemma entry_empty_iff: "mb_entry mb = 0 \<longleftrightarrow> mb_contents mb = []"
  by (metis length_circ length_0_conv mb_contents_def unat_eq_zero unat_0)

lemma mb_not_full:
  "mb_inv mb \<Longrightarrow> mb_entry mb \<noteq> mb_size mb \<Longrightarrow> length (mb_contents mb) < mb_cap mb"
  by (auto simp: mb_contents_def mb_cap_def mb_inv_def word_le_nat_alt word_unat_eq_iff)

lemma mb_send_delivers:
  assumes s: "sys d {} s" and inv: "mb_inv (mailboxes s x)"
    and room: "mb_entry (mailboxes s x) \<noteq> mb_size (mailboxes s x)"
  shows "\<exists>s'. mb_send_loop th x v timeout delta s = Some (Inl RT_EOK, s') \<and> sys d {} s' \<and> mb_inv (mailboxes s' x) \<and>
    mb_contents (mailboxes s' x) = mb_contents (mailboxes s x) @ [v] \<and>
    (\<forall>t ts. tlists s (Wait x) = t # ts \<longrightarrow> stat (threads s' t) = RT_THREAD_READY \<and> tlists s' (Wait x) = ts)"
proof -
  obtain mb where mb: "mb_put v (mailboxes s x) = Some mb" "mb_inv mb" "mb_contents mb = mb_contents (mailboxes s x) @ [v]"
    using mb_put_ok[OF inv mb_not_full[OF inv room]] by blast
  obtain s' where s': "wake_one (Wait x) (set_mb x mb s) = Some s'" "sys d {} s'" "woke_one (Wait x) (set_mb x mb s) s'"
    using wake_one_ok[OF set_mb_sys[OF s], of "Wait x" x mb] by auto
  have "mailboxes s' x = mb" using s'(3) by (simp add: woke_one_def same_ipc_def)
  moreover have "mb_send_loop th x v timeout delta s = Some (Inl RT_EOK, s')"
    using room mb(1) s'(1) by (simp add: mb_send_loop_def)
  ultimately show ?thesis using mb s' by (auto simp: woke_one_def)
qed

lemma mb_recv_delivers:
  assumes s: "sys d {} s" and inv: "mb_inv (mailboxes s x)" and c: "mb_contents (mailboxes s x) = v # vs"
  shows "\<exists>s'. mb_recv_loop th x timeout delta s = Some (Inl RT_EOK, Some v, s') \<and> sys d {} s' \<and> mb_inv (mailboxes s' x) \<and>
    mb_contents (mailboxes s' x) = vs \<and>
    (\<forall>t ts. tlists s (Wait_Sender x) = t # ts \<longrightarrow> stat (threads s' t) = RT_THREAD_READY \<and> tlists s' (Wait_Sender x) = ts)"
proof -
  obtain mb where mb: "mb_get (mailboxes s x) = Some (v, mb)" "mb_inv mb" "mb_contents mb = vs"
    using mb_get_ok[OF inv c] by blast
  obtain s' where s': "wake_one (Wait_Sender x) (set_mb x mb s) = Some s'" "sys d {} s'"
    "woke_one (Wait_Sender x) (set_mb x mb s) s'"
    using wake_one_ok[OF set_mb_sys[OF s], of "Wait_Sender x" x mb] by auto
  have "mailboxes s' x = mb" using s'(3) by (simp add: woke_one_def same_ipc_def)
  moreover have "mb_entry (mailboxes s x) \<noteq> 0" using c entry_empty_iff[of "mailboxes s x"] by simp
  then have "mb_recv_loop th x timeout delta s = Some (Inl RT_EOK, Some v, s')"
    using mb(1) s'(1) by (simp add: mb_recv_loop_def)
  ultimately show ?thesis using mb s' by (auto simp: woke_one_def)
qed

lemma mb_send_blocks:
  assumes s: "sys d {} s" and b: "may_block t timeout s" and v: "valid_flag s x"
    and full: "mb_entry (mailboxes s x) = mb_size (mailboxes s x)" "timeout \<noteq> 0"
  shows "\<exists>s'. mb_send_loop (Some t) x m timeout delta s =
      Some (Inr (timeout, if sint timeout > 0 then rt_tick s else delta), s') \<and> sys d {} s' \<and>
    blocked_on (Wait_Sender x) (obj_flag (objects s (Obj x))) t timeout (cleared t s) s'"
proof -
  have "\<exists>s'. wait_on (Wait_Sender x) (obj_flag (objects s (Obj x))) t timeout (cleared t s) = Some s' \<and> sys d {} s' \<and>
    blocked_on (Wait_Sender x) (obj_flag (objects s (Obj x))) t timeout (cleared t s) s'"
    by (rule block_self_ok[OF s b]) (use v in \<open>auto simp: valid_flag_def sched_same_def\<close>)
  then show ?thesis
    using full may_block_context[OF b]
    by (auto simp: mb_send_loop_def Let_def rt_tick_get_def RT_DEBUG_IN_THREAD_CONTEXT_def
        RT_DEBUG_NOT_IN_INTERRUPT_def rt_thread_self_def rt_interrupt_get_nest_def)
qed

lemma mb_recv_blocks:
  assumes s: "sys d {} s" and b: "may_block t timeout s" and v: "valid_flag s x"
    and empty: "mb_entry (mailboxes s x) = 0" "timeout \<noteq> 0"
  shows "\<exists>s'. mb_recv_loop (Some t) x timeout delta s =
      Some (Inr (timeout, if sint timeout > 0 then rt_tick s else delta), None, s') \<and> sys d {} s' \<and>
    blocked_on (Wait x) (obj_flag (objects s (Obj x))) t timeout (cleared t s) s'"
proof -
  have "\<exists>s'. wait_on (Wait x) (obj_flag (objects s (Obj x))) t timeout (cleared t s) = Some s' \<and> sys d {} s' \<and>
    blocked_on (Wait x) (obj_flag (objects s (Obj x))) t timeout (cleared t s) s'"
    by (rule block_self_ok[OF s b]) (use v in \<open>auto simp: valid_flag_def sched_same_def\<close>)
  then show ?thesis
    using empty may_block_context[OF b]
    by (auto simp: mb_recv_loop_def Let_def rt_tick_get_def RT_DEBUG_IN_THREAD_CONTEXT_def
        RT_DEBUG_NOT_IN_INTERRUPT_def rt_thread_self_def rt_interrupt_get_nest_def)
qed

end
