(* ===== verification/RT_Mq.thy ===== *)
theory RT_Mq
  imports RT_Mailbox
begin

text \<open>
  Message queues of \<^verbatim>\<open>Kernel/ipc.c\<close>: the blocks of a pool are linked in a queue of messages and
  a list of free blocks. Sending and receiving have two critical sections with the copy of
  the message between them; each section is a definition of its own, so that a block can be
  in neither list while a thread copies. The message is the list of its bytes.
\<close>

subsection \<open>The critical sections\<close>

text \<open>\<^verbatim>\<open>msg = msg_queue_free; msg_queue_free = msg->next\<close>, \<^term>\<open>None\<close> when the queue is full.\<close>

definition mq_take_free :: "rt_messagequeue \<Rightarrow> (nat \<times> rt_messagequeue) option" where
  "mq_take_free mq =
    (case msg_queue_free mq of
       None \<Rightarrow> None
     | Some b \<Rightarrow> Some (b, mq\<lparr>msg_queue_free := mq_next mq b\<rparr>))"

definition mq_set_next :: "nat \<Rightarrow> nat option \<Rightarrow> rt_messagequeue \<Rightarrow> rt_messagequeue" where
  "mq_set_next b p mq = mq\<lparr>mq_next := (mq_next mq)(b := p)\<rparr>"

text \<open>\<^verbatim>\<open>rt_memcpy(msg + 1, buffer, size)\<close>.\<close>

definition mq_fill :: "nat \<Rightarrow> u8 list \<Rightarrow> rt_messagequeue \<Rightarrow> rt_messagequeue" where
  "mq_fill b buf mq = mq\<lparr>mq_data := (mq_data mq)(b := buf @ drop (length buf) (mq_data mq b))\<rparr>"

definition mq_link_tail :: "nat \<Rightarrow> rt_messagequeue \<Rightarrow> rt_messagequeue" where
  "mq_link_tail b mq =
    (let mq = (case msg_queue_tail mq of Some t \<Rightarrow> mq_set_next t (Some b) mq | None \<Rightarrow> mq);
         mq = mq\<lparr>msg_queue_tail := Some b\<rparr>;
         mq = (if msg_queue_head mq = None then mq\<lparr>msg_queue_head := Some b\<rparr> else mq)
     in mq\<lparr>mq_entry := mq_entry mq + 1\<rparr>)"

definition mq_link_head :: "nat \<Rightarrow> rt_messagequeue \<Rightarrow> rt_messagequeue" where
  "mq_link_head b mq =
    (let mq = mq_set_next b (msg_queue_head mq) mq;
         mq = mq\<lparr>msg_queue_head := Some b\<rparr>;
         mq = (if msg_queue_tail mq = None then mq\<lparr>msg_queue_tail := Some b\<rparr> else mq)
     in mq\<lparr>mq_entry := mq_entry mq + 1\<rparr>)"

definition mq_unlink :: "rt_messagequeue \<Rightarrow> (nat \<times> rt_messagequeue) option" where
  "mq_unlink mq =
    (case msg_queue_head mq of
       None \<Rightarrow> None
     | Some b \<Rightarrow>
         let mq = mq\<lparr>msg_queue_head := mq_next mq b\<rparr>;
             mq = (if msg_queue_tail mq = Some b then mq\<lparr>msg_queue_tail := None\<rparr> else mq)
         in Some (b, mq\<lparr>mq_entry := mq_entry mq - 1\<rparr>))"

definition mq_release :: "nat \<Rightarrow> rt_messagequeue \<Rightarrow> rt_messagequeue" where
  "mq_release b mq = (mq_set_next b (msg_queue_free mq) mq)\<lparr>msg_queue_free := Some b\<rparr>"

subsection \<open>Operations\<close>

definition set_mq :: "oid \<Rightarrow> rt_messagequeue \<Rightarrow> kstate \<Rightarrow> kstate" where
  "set_mq x mq s = s\<lparr>mqs := (mqs s)(x := mq)\<rparr>"

text \<open>\<open>pool\<close> gives the bytes the message pool holds already.\<close>

definition mq_init_blocks :: "(nat \<Rightarrow> u8 list) \<Rightarrow> u32 \<Rightarrow> u32 \<Rightarrow> rt_messagequeue" where
  "mq_init_blocks pool msgsize pool_size =
    (let sz = ucast (RT_ALIGN msgsize 4) :: u16;
         n = ucast (pool_size div (ucast sz + 4)) :: u16;
         mq = \<lparr>mq_next = (\<lambda>_. None), mq_data = pool, msg_size = sz, max_msgs = n, mq_entry = 0,
               msg_queue_head = None, msg_queue_tail = None, msg_queue_free = None\<rparr>
     in (fold mq_release [0..<unat n] mq)\<lparr>mq_entry := 0\<rparr>)"

definition rt_mq_init ::
    "oid \<Rightarrow> u8 list \<Rightarrow> (nat \<Rightarrow> u8 list) \<Rightarrow> u32 \<Rightarrow> u32 \<Rightarrow> u8 \<Rightarrow> kstate \<Rightarrow> (rt_err_t \<times> kstate) option" where
  "rt_mq_init x nm pool msgsize pool_size flag s = do {
     s \<leftarrow> rt_object_init (Obj x) RT_Object_Class_MessageQueue nm s;
     let s = upd_object (Obj x) (\<lambda>ob. ob\<lparr>obj_flag := flag\<rparr>) s;
     let s = rt_ipc_object_init (Wait x) s;
     Some (RT_EOK, set_mq x (mq_init_blocks pool msgsize pool_size) s)
   }"

definition rt_mq_detach :: "oid \<Rightarrow> kstate \<Rightarrow> (rt_err_t \<times> kstate) option" where
  "rt_mq_detach x s = do {
     s \<leftarrow> rt_ipc_list_resume_all (Wait x) s;
     Some (RT_EOK, rt_object_detach (Obj x) s)
   }"

definition rt_mq_send :: "oid \<Rightarrow> u8 list \<Rightarrow> kstate \<Rightarrow> (rt_err_t \<times> kstate) option" where
  "rt_mq_send x buf s = do {
     rt_assert (length buf \<noteq> 0);
     if length buf > unat (msg_size (mqs s x)) then Some (- RT_ERROR, s)
     else case mq_take_free (mqs s x) of
       None \<Rightarrow> Some (- RT_EFULL, s)
     | Some (b, mq) \<Rightarrow> do {
         let mq = mq_set_next b None mq;
         let mq = mq_fill b buf mq;
         s \<leftarrow> wake_one (Wait x) (set_mq x (mq_link_tail b mq) s);
         Some (RT_EOK, s)
       }
   }"

definition rt_mq_urgent :: "oid \<Rightarrow> u8 list \<Rightarrow> kstate \<Rightarrow> (rt_err_t \<times> kstate) option" where
  "rt_mq_urgent x buf s = do {
     rt_assert (length buf \<noteq> 0);
     if length buf > unat (msg_size (mqs s x)) then Some (- RT_ERROR, s)
     else case mq_take_free (mqs s x) of
       None \<Rightarrow> Some (- RT_EFULL, s)
     | Some (b, mq) \<Rightarrow> do {
         let mq = mq_fill b buf mq;
         s \<leftarrow> wake_one (Wait x) (set_mq x (mq_link_head b mq) s);
         Some (RT_EOK, s)
       }
   }"

text \<open>The second result of the receiving functions is what they copied to \<^verbatim>\<open>buffer\<close>.\<close>

definition mq_recv_loop ::
    "tid option \<Rightarrow> oid \<Rightarrow> nat \<Rightarrow> u32 \<Rightarrow> u32 \<Rightarrow> kstate \<Rightarrow> ((rt_err_t + locals) \<times> u8 list option \<times> kstate) option" where
  "mq_recv_loop thread x sz timeout tick_delta s =
    (if mq_entry (mqs s x) = 0 then do {
       RT_DEBUG_IN_THREAD_CONTEXT s;
       t \<leftarrow> thread;
       let s = upd_thread t (\<lambda>th. th\<lparr>error := RT_EOK\<rparr>) s;
       if timeout = 0 then Some (Inl (- RT_ETIMEOUT), None, upd_thread t (\<lambda>th. th\<lparr>error := - RT_ETIMEOUT\<rparr>) s)
       else do {
         let tick_delta = (if sint timeout > 0 then rt_tick_get s else tick_delta);
         s \<leftarrow> wait_on (Wait x) (obj_flag (objects s (Obj x))) t timeout s;
         Some (Inr (timeout, tick_delta), None, s)
       }
     } else do {
       (b, mq) \<leftarrow> mq_unlink (mqs s x);
       let buf = take (if sz > unat (msg_size mq) then unat (msg_size mq) else sz) (mq_data mq b);
       Some (Inl RT_EOK, Some buf, set_mq x (mq_release b mq) s)
     })"

definition rt_mq_recv ::
    "oid \<Rightarrow> nat \<Rightarrow> u32 \<Rightarrow> kstate \<Rightarrow> ((rt_err_t + locals) \<times> u8 list option \<times> kstate) option" where
  "rt_mq_recv x sz timeout s = do {
     rt_assert (sz \<noteq> 0);
     if mq_entry (mqs s x) = 0 \<and> timeout = 0 then Some (Inl (- RT_ETIMEOUT), None, s)
     else mq_recv_loop (rt_thread_self s) x sz timeout 0 s
   }"

definition rt_mq_recv_resume ::
    "tid \<Rightarrow> oid \<Rightarrow> nat \<Rightarrow> locals \<Rightarrow> kstate \<Rightarrow> ((rt_err_t + locals) \<times> u8 list option \<times> kstate) option" where
  "rt_mq_recv_resume t x sz loc s =
    (if error (threads s t) \<noteq> RT_EOK then Some (Inl (error (threads s t)), None, s)
     else mq_recv_loop (Some t) x sz (remaining_timeout (fst loc) (snd loc) s)
            (if sint (fst loc) > 0 then rt_tick_get s - snd loc else snd loc) s)"

partial_function (option) mq_flush :: "rt_messagequeue \<Rightarrow> rt_messagequeue option" where
  "mq_flush mq =
    (case msg_queue_head mq of
       None \<Rightarrow> Some mq
     | Some b \<Rightarrow>
         let mq = mq\<lparr>msg_queue_head := mq_next mq b\<rparr>;
             mq = (if msg_queue_tail mq = Some b then mq\<lparr>msg_queue_tail := None\<rparr> else mq)
         in mq_flush (mq_release b mq))"

definition rt_mq_control :: "oid \<Rightarrow> ipc_cmd \<Rightarrow> kstate \<Rightarrow> (rt_err_t \<times> kstate) option" where
  "rt_mq_control x cmd s =
    (case cmd of
       RT_IPC_CMD_RESET _ \<Rightarrow> do {
         s \<leftarrow> rt_ipc_list_resume_all (Wait x) s;
         mq \<leftarrow> mq_flush (mqs s x);
         let s = set_mq x (mq\<lparr>mq_entry := 0\<rparr>) s;
         s \<leftarrow> rt_schedule s;
         Some (RT_EOK, s)
       }
     | RT_IPC_CMD_OTHER \<Rightarrow> Some (- RT_ERROR, s))"

subsection \<open>The blocks of the pool\<close>

fun chain :: "(nat \<Rightarrow> nat option) \<Rightarrow> nat option \<Rightarrow> nat list \<Rightarrow> bool" where
  "chain nx p [] \<longleftrightarrow> p = None"
| "chain nx p (b # bs) \<longleftrightarrow> p = Some b \<and> chain nx (nx b) bs"

text \<open>
  Every block is a queued message, free, or held by a thread that is copying (\<open>ps\<close>), and
  exactly one of these.
\<close>

definition mq_rep :: "rt_messagequeue \<Rightarrow> nat list \<Rightarrow> nat list \<Rightarrow> nat list \<Rightarrow> bool" where
  "mq_rep mq qs fs ps \<longleftrightarrow>
     chain (mq_next mq) (msg_queue_head mq) qs \<and> chain (mq_next mq) (msg_queue_free mq) fs \<and>
     msg_queue_tail mq = (if qs = [] then None else Some (last qs)) \<and>
     distinct (qs @ fs @ ps) \<and> set (qs @ fs @ ps) = {..<unat (max_msgs mq)} \<and>
     mq_entry mq = of_nat (length qs) \<and>
     (\<forall>b < unat (max_msgs mq). length (mq_data mq b) = unat (msg_size mq))"

lemma chain_upd [simp]: "b \<notin> set xs \<Longrightarrow> chain (nx(b := q)) p xs = chain nx p xs"
  by (induction xs arbitrary: p) auto

lemma chain_snoc:
  "chain nx p xs \<Longrightarrow> xs \<noteq> [] \<Longrightarrow> b \<notin> set xs \<Longrightarrow> distinct xs \<Longrightarrow> nx b = None \<Longrightarrow>
   chain (nx(last xs := Some b)) p (xs @ [b])"
proof (induction xs arbitrary: p)
  case (Cons x xs)
  show ?case
  proof (cases "xs = []")
    case False
    then have "x \<noteq> last xs" using Cons.prems(4) by auto
    then show ?thesis using Cons False by simp
  qed (use Cons.prems in simp)
qed simp

lemma mq_rep_take_free:
  "mq_rep mq qs (b # fs) ps \<Longrightarrow> \<exists>mq'. mq_take_free mq = Some (b, mq') \<and> mq_rep mq' qs fs (b # ps) \<and>
     mq_data mq' = mq_data mq \<and> msg_size mq' = msg_size mq \<and> max_msgs mq' = max_msgs mq"
  by (auto simp: mq_rep_def mq_take_free_def)

lemma mq_rep_full: "mq_rep mq qs [] ps \<Longrightarrow> mq_take_free mq = None"
  by (simp add: mq_rep_def mq_take_free_def)

lemma mq_rep_out: "mq_rep mq qs fs ps \<Longrightarrow> b \<in> set ps \<Longrightarrow> b \<notin> set qs \<and> b \<notin> set fs"
  by (auto simp: mq_rep_def)

lemma mq_rep_set_next:
  assumes "mq_rep mq qs fs ps" "b \<in> set ps"
  shows "mq_rep (mq_set_next b p mq) qs fs ps"
  using assms mq_rep_out[OF assms] by (simp add: mq_rep_def mq_set_next_def)

lemma mq_rep_fill:
  "mq_rep mq qs fs ps \<Longrightarrow> b \<in> set ps \<Longrightarrow> length buf \<le> unat (msg_size mq) \<Longrightarrow> mq_rep (mq_fill b buf mq) qs fs ps"
  by (auto simp: mq_rep_def mq_fill_def)

lemma mq_rep_link_tail:
  assumes rep: "mq_rep mq qs fs ps" and b: "b \<in> set ps" "mq_next mq b = None"
  shows "mq_rep (mq_link_tail b mq) (qs @ [b]) fs (remove1 b ps) \<and> mq_data (mq_link_tail b mq) = mq_data mq"
proof (cases "qs = []")
  case True
  then show ?thesis using rep b by (auto simp: mq_rep_def mq_link_tail_def Let_def)
next
  case False
  have "set qs \<inter> (set fs \<union> set ps) = {}" using rep by (simp add: mq_rep_def)
  then have nl: "last qs \<notin> set fs" using last_in_set[OF False] by blast
  have "msg_queue_head mq \<noteq> None" using rep False by (cases qs) (auto simp: mq_rep_def)
  moreover have "chain ((mq_next mq)(last qs := Some b)) (msg_queue_head mq) (qs @ [b])"
    using rep b False by (intro chain_snoc) (auto simp: mq_rep_def)
  ultimately show ?thesis
    using rep b False nl by (auto simp: mq_rep_def mq_link_tail_def mq_set_next_def Let_def)
qed

lemma mq_rep_link_head:
  assumes rep: "mq_rep mq qs fs ps" and b: "b \<in> set ps"
  shows "mq_rep (mq_link_head b mq) (b # qs) fs (remove1 b ps) \<and> mq_data (mq_link_head b mq) = mq_data mq"
  using rep b mq_rep_out[OF rep b] by (auto simp: mq_rep_def mq_link_head_def mq_set_next_def Let_def)

lemma mq_rep_unlink:
  assumes rep: "mq_rep mq (b # qs) fs ps"
  shows "\<exists>mq'. mq_unlink mq = Some (b, mq') \<and> mq_rep mq' qs fs (b # ps) \<and>
    mq_data mq' = mq_data mq \<and> msg_size mq' = msg_size mq \<and> max_msgs mq' = max_msgs mq"
  using rep by (auto simp: mq_rep_def mq_unlink_def Let_def split: if_splits)

lemma mq_rep_release:
  assumes rep: "mq_rep mq qs fs ps" and b: "b \<in> set ps"
  shows "mq_rep (mq_release b mq) qs (b # fs) (remove1 b ps)"
  using rep b mq_rep_out[OF rep b] by (auto simp: mq_rep_def mq_release_def mq_set_next_def)

lemma mq_rep_entry: "mq_rep mq qs fs ps \<Longrightarrow> mq_entry mq = 0 \<longleftrightarrow> qs = []"
proof -
  assume rep: "mq_rep mq qs fs ps"
  have "length qs \<le> card {..<unat (max_msgs mq)}"
    using rep distinct_card[of "qs @ fs @ ps"] by (auto simp: mq_rep_def)
  then have "length qs < 2 ^ 16" using unat_u16_less[of "max_msgs mq"] by simp
  then show ?thesis
    using rep by (auto simp: mq_rep_def word_unat_eq_iff unat_of_nat)
qed

subsection \<open>The queue of messages\<close>

fun follow :: "(nat \<Rightarrow> nat option) \<Rightarrow> nat \<Rightarrow> nat option \<Rightarrow> nat list" where
  "follow nx 0 p = []"
| "follow nx (Suc n) p = (case p of None \<Rightarrow> [] | Some b \<Rightarrow> b # follow nx n (nx b))"

lemma follow_chain: "chain nx p xs \<Longrightarrow> length xs \<le> n \<Longrightarrow> follow nx n p = xs"
proof (induction xs arbitrary: p n)
  case Nil then show ?case by (cases n) auto
next
  case (Cons b xs) then show ?case by (cases n) auto
qed

definition mq_contents :: "rt_messagequeue \<Rightarrow> u8 list list" where
  "mq_contents mq = map (mq_data mq) (follow (mq_next mq) (unat (max_msgs mq)) (msg_queue_head mq))"

definition mq_inv :: "rt_messagequeue \<Rightarrow> bool" where
  "mq_inv mq \<longleftrightarrow> (\<exists>qs fs. mq_rep mq qs fs [])"

definition mq_cap :: "rt_messagequeue \<Rightarrow> nat" where
  "mq_cap mq = unat (max_msgs mq)"

definition mq_fits :: "rt_messagequeue \<Rightarrow> u8 list \<Rightarrow> bool" where
  "mq_fits mq buf \<longleftrightarrow> length buf = unat (msg_size mq)"

lemma mq_rep_counts:
  assumes "mq_rep mq qs fs ps"
  shows "length qs + length fs + length ps = unat (max_msgs mq)"
  using assms distinct_card[of "qs @ fs @ ps"] by (simp add: mq_rep_def)

lemma mq_contents_rep: "mq_rep mq qs fs ps \<Longrightarrow> mq_contents mq = map (mq_data mq) qs"
  using follow_chain[of "mq_next mq" "msg_queue_head mq" qs "unat (max_msgs mq)"] mq_rep_counts[of mq qs fs ps]
  by (simp add: mq_contents_def mq_rep_def)

text \<open>The three steps of sending and the two of receiving, done without interruption.\<close>

definition mq_put :: "u8 list \<Rightarrow> rt_messagequeue \<Rightarrow> rt_messagequeue option" where
  "mq_put buf mq = do {
     (b, mq) \<leftarrow> mq_take_free mq;
     Some (mq_link_tail b (mq_fill b buf (mq_set_next b None mq)))
   }"

definition mq_put_front :: "u8 list \<Rightarrow> rt_messagequeue \<Rightarrow> rt_messagequeue option" where
  "mq_put_front buf mq = do {
     (b, mq) \<leftarrow> mq_take_free mq;
     Some (mq_link_head b (mq_fill b buf mq))
   }"

definition mq_get :: "rt_messagequeue \<Rightarrow> (u8 list \<times> rt_messagequeue) option" where
  "mq_get mq = do {
     (b, mq) \<leftarrow> mq_unlink mq;
     Some (mq_data mq b, mq_release b mq)
   }"

lemma mq_link_sel [simp]:
  "msg_size (mq_link_tail b mq) = msg_size mq" "max_msgs (mq_link_tail b mq) = max_msgs mq"
  "msg_size (mq_link_head b mq) = msg_size mq" "max_msgs (mq_link_head b mq) = max_msgs mq"
  "msg_size (mq_fill b buf mq) = msg_size mq" "max_msgs (mq_fill b buf mq) = max_msgs mq"
  "msg_size (mq_set_next b p mq) = msg_size mq" "max_msgs (mq_set_next b p mq) = max_msgs mq"
  "mq_data (mq_set_next b p mq) = mq_data mq" "mq_next (mq_fill b buf mq) = mq_next mq"
  "mq_next (mq_set_next b p mq) b = p" "msg_size (mq_release b mq) = msg_size mq"
  "max_msgs (mq_release b mq) = max_msgs mq" "mq_data (mq_release b mq) = mq_data mq"
  by (simp_all add: mq_link_tail_def mq_link_head_def mq_fill_def mq_set_next_def mq_release_def Let_def split: option.split)

lemma free_block:
  assumes inv: "mq_inv mq" and room: "length (mq_contents mq) < mq_cap mq"
  obtains qs b fs mq1 where "mq_rep mq qs (b # fs) []" "mq_take_free mq = Some (b, mq1)" "mq_rep mq1 qs fs [b]"
    "mq_data mq1 = mq_data mq" "msg_size mq1 = msg_size mq" "max_msgs mq1 = max_msgs mq" "b \<notin> set qs"
    "length (mq_data mq b) = unat (msg_size mq)"
proof -
  obtain qs fs where rep: "mq_rep mq qs fs []" using inv by (auto simp: mq_inv_def)
  have "fs \<noteq> []" using room mq_rep_counts[OF rep] mq_contents_rep[OF rep] by (auto simp: mq_cap_def)
  then obtain b fs' where fs: "fs = b # fs'" by (cases fs) auto
  have "b \<notin> set qs" "b < unat (max_msgs mq)" using rep fs by (auto simp: mq_rep_def)
  moreover from this have "length (mq_data mq b) = unat (msg_size mq)" using rep by (simp add: mq_rep_def)
  ultimately show thesis using mq_rep_take_free[of mq qs b fs' "[]"] rep fs that by auto
qed

lemma filled_data:
  "length buf \<le> length (mq_data mq b) \<Longrightarrow> take (length buf) (mq_data (mq_fill b buf mq) b) = buf"
  by (simp add: mq_fill_def)

lemma mq_put_ok:
  assumes inv: "mq_inv mq" and room: "length (mq_contents mq) < mq_cap mq" and sz: "length buf \<le> unat (msg_size mq)"
  shows "\<exists>mq' m. mq_put buf mq = Some mq' \<and> mq_inv mq' \<and> mq_contents mq' = mq_contents mq @ [m] \<and>
    take (length buf) m = buf \<and> length m = unat (msg_size mq) \<and> mq_cap mq' = mq_cap mq \<and> msg_size mq' = msg_size mq"
proof -
  obtain qs b fs mq1 where 1: "mq_rep mq qs (b # fs) []" "mq_take_free mq = Some (b, mq1)" "mq_rep mq1 qs fs [b]"
    "mq_data mq1 = mq_data mq" "msg_size mq1 = msg_size mq" "max_msgs mq1 = max_msgs mq" "b \<notin> set qs"
    "length (mq_data mq b) = unat (msg_size mq)"
    using free_block[OF inv room] .
  let ?mq2 = "mq_fill b buf (mq_set_next b None mq1)" and ?mq3 = "mq_link_tail b (mq_fill b buf (mq_set_next b None mq1))"
  have 2: "mq_rep ?mq2 qs fs [b]" using mq_rep_fill[OF mq_rep_set_next[OF 1(3)]] 1(5) sz by simp
  have 3: "mq_rep ?mq3 (qs @ [b]) fs []" and d3: "mq_data ?mq3 = mq_data ?mq2"
    using mq_rep_link_tail[OF 2, of b] by auto
  have same: "map (mq_data ?mq2) qs = map (mq_data mq) qs" using 1(4,7) by (auto simp: mq_fill_def)
  have "mq_contents ?mq3 = mq_contents mq @ [mq_data ?mq2 b]"
    using mq_contents_rep[OF 3] mq_contents_rep[OF 1(1)] d3 same by simp
  moreover have "take (length buf) (mq_data ?mq2 b) = buf" "length (mq_data ?mq2 b) = unat (msg_size mq)"
    using sz 1(4,8) by (simp_all add: mq_fill_def)
  moreover have "mq_put buf mq = Some ?mq3" using 1(2) by (simp add: mq_put_def)
  ultimately show ?thesis using 3 1(5,6) by (auto simp: mq_inv_def mq_cap_def)
qed

lemma mq_put_front_ok:
  assumes inv: "mq_inv mq" and room: "length (mq_contents mq) < mq_cap mq" and sz: "length buf \<le> unat (msg_size mq)"
  shows "\<exists>mq' m. mq_put_front buf mq = Some mq' \<and> mq_inv mq' \<and> mq_contents mq' = m # mq_contents mq \<and>
    take (length buf) m = buf \<and> length m = unat (msg_size mq) \<and> mq_cap mq' = mq_cap mq \<and> msg_size mq' = msg_size mq"
proof -
  obtain qs b fs mq1 where 1: "mq_rep mq qs (b # fs) []" "mq_take_free mq = Some (b, mq1)" "mq_rep mq1 qs fs [b]"
    "mq_data mq1 = mq_data mq" "msg_size mq1 = msg_size mq" "max_msgs mq1 = max_msgs mq" "b \<notin> set qs"
    "length (mq_data mq b) = unat (msg_size mq)"
    using free_block[OF inv room] .
  let ?mq2 = "mq_fill b buf mq1" and ?mq3 = "mq_link_head b (mq_fill b buf mq1)"
  have 2: "mq_rep ?mq2 qs fs [b]" using mq_rep_fill[OF 1(3)] 1(5) sz by simp
  have 3: "mq_rep ?mq3 (b # qs) fs []" and d3: "mq_data ?mq3 = mq_data ?mq2"
    using mq_rep_link_head[OF 2, of b] by auto
  have same: "map (mq_data ?mq2) qs = map (mq_data mq) qs" using 1(4,7) by (auto simp: mq_fill_def)
  have "mq_contents ?mq3 = mq_data ?mq2 b # mq_contents mq"
    using mq_contents_rep[OF 3] mq_contents_rep[OF 1(1)] d3 same by simp
  moreover have "take (length buf) (mq_data ?mq2 b) = buf" "length (mq_data ?mq2 b) = unat (msg_size mq)"
    using sz 1(4,8) by (simp_all add: mq_fill_def)
  moreover have "mq_put_front buf mq = Some ?mq3" using 1(2) by (simp add: mq_put_front_def)
  ultimately show ?thesis using 3 1(5,6) by (auto simp: mq_inv_def mq_cap_def)
qed

lemma mq_get_ok:
  assumes inv: "mq_inv mq" and c: "mq_contents mq = m # ms"
  shows "\<exists>mq'. mq_get mq = Some (m, mq') \<and> mq_inv mq' \<and> mq_contents mq' = ms \<and> mq_cap mq' = mq_cap mq \<and>
    msg_size mq' = msg_size mq"
proof -
  obtain qs0 fs where rep0: "mq_rep mq qs0 fs []" using inv by (auto simp: mq_inv_def)
  obtain b qs where qs: "qs0 = b # qs" and m: "m = mq_data mq b" "ms = map (mq_data mq) qs"
    using c mq_contents_rep[OF rep0] by (cases qs0) auto
  obtain mq1 where 1: "mq_unlink mq = Some (b, mq1)" "mq_rep mq1 qs fs [b]"
    "mq_data mq1 = mq_data mq" "msg_size mq1 = msg_size mq" "max_msgs mq1 = max_msgs mq"
    using mq_rep_unlink[of mq b qs fs "[]"] rep0 qs by auto
  have 2: "mq_rep (mq_release b mq1) qs (b # fs) []" using mq_rep_release[OF 1(2), of b] by simp
  show ?thesis
    using 1 2 m mq_contents_rep[OF 2] by (auto simp: mq_get_def mq_inv_def mq_cap_def)
qed

interpretation mqq: bounded_fifo mq_inv mq_fits mq_contents mq_cap mq_put mq_get
proof
  fix mq buf assume *: "mq_inv mq" "mq_fits mq buf" "length (mq_contents mq) < mq_cap mq"
  then obtain mq' m where "mq_put buf mq = Some mq'" "mq_inv mq'" "mq_contents mq' = mq_contents mq @ [m]"
    "take (length buf) m = buf" "length m = unat (msg_size mq)" "mq_cap mq' = mq_cap mq" "msg_size mq' = msg_size mq"
    using mq_put_ok[OF *(1,3), of buf] by (auto simp: mq_fits_def)
  moreover from this * have "m = buf" by (simp add: mq_fits_def)
  ultimately show "\<exists>mq'. mq_put buf mq = Some mq' \<and> mq_inv mq' \<and> mq_contents mq' = mq_contents mq @ [buf] \<and>
      mq_cap mq' = mq_cap mq \<and> mq_fits mq' = mq_fits mq"
    by (auto simp: mq_fits_def fun_eq_iff)
next
  fix mq m ms assume "mq_inv mq" "mq_contents mq = m # ms"
  then show "\<exists>mq'. mq_get mq = Some (m, mq') \<and> mq_inv mq' \<and> mq_contents mq' = ms \<and>
      mq_cap mq' = mq_cap mq \<and> mq_fits mq' = mq_fits mq"
    using mq_get_ok[of mq m ms] by (auto simp: mq_fits_def fun_eq_iff)
qed

text \<open>A queue is empty and well formed after its initialisation.\<close>

lemma init_blocks_rep:
  assumes "mq_rep mq [] [] (rev bs)" "distinct bs"
  shows "mq_rep (fold mq_release bs mq) [] (rev bs) []"
proof -
  have "mq_rep mq [] fs ps \<Longrightarrow> set bs \<subseteq> set ps \<Longrightarrow> distinct bs \<Longrightarrow>
      mq_rep (fold mq_release bs mq) [] (rev bs @ fs) (filter (\<lambda>b. b \<notin> set bs) ps)" for mq fs ps
  proof (induction bs arbitrary: mq fs ps)
    case (Cons b bs)
    have "mq_rep (mq_release b mq) [] (b # fs) (remove1 b ps)"
      using mq_rep_release[OF Cons.prems(1)] Cons.prems(2) by simp
    have dp: "distinct ps" using Cons.prems(1) by (simp add: mq_rep_def)
    then have "set bs \<subseteq> set (remove1 b ps)" using Cons.prems(2,3) by auto
    from Cons.IH[OF \<open>mq_rep (mq_release b mq) [] (b # fs) (remove1 b ps)\<close> this] Cons.prems(3) have
      "mq_rep (fold mq_release bs (mq_release b mq)) [] (rev bs @ b # fs) (filter (\<lambda>b. b \<notin> set bs) (remove1 b ps))"
      by auto
    moreover have "filter (\<lambda>b. b \<notin> set bs) (remove1 b ps) = filter (\<lambda>c. c \<notin> set (b # bs)) ps"
      using dp by (auto simp: distinct_remove1_removeAll removeAll_filter_not_eq intro: filter_cong)
    ultimately show ?case by simp
  qed (simp add: mq_rep_def)
  from this[OF assms(1)] assms(2) show ?thesis by (simp add: filter_empty_conv)
qed

lemma mq_init_blocks_ok:
  assumes pool: "\<And>b. length (pool b) = unat (ucast (RT_ALIGN msgsize 4) :: u16)"
  shows "mq_inv (mq_init_blocks pool msgsize pool_size) \<and> mq_contents (mq_init_blocks pool msgsize pool_size) = []"
proof -
  let ?sz = "ucast (RT_ALIGN msgsize 4) :: u16"
  let ?n = "ucast (pool_size div (ucast ?sz + 4)) :: u16"
  let ?mq = "\<lparr>mq_next = (\<lambda>_. None), mq_data = pool, msg_size = ?sz, max_msgs = ?n, mq_entry = 0,
               msg_queue_head = None, msg_queue_tail = None, msg_queue_free = None\<rparr>"
  have "mq_rep ?mq [] [] (rev [0..<unat ?n])"
    using pool by (auto simp: mq_rep_def atLeast0LessThan)
  from init_blocks_rep[OF this] have r: "mq_rep (fold mq_release [0..<unat ?n] ?mq) [] (rev [0..<unat ?n]) []" by simp
  then have "(fold mq_release [0..<unat ?n] ?mq)\<lparr>mq_entry := 0\<rparr> = fold mq_release [0..<unat ?n] ?mq"
    by (simp add: mq_rep_def)
  with r have "mq_rep (mq_init_blocks pool msgsize pool_size) [] (rev [0..<unat ?n]) []"
    by (simp add: mq_init_blocks_def Let_def)
  then show ?thesis using mq_contents_rep by (auto simp: mq_inv_def)
qed

text \<open>The reset loop ends and frees every queued block.\<close>

lemma mq_flush_ok:
  "mq_rep mq qs fs ps \<Longrightarrow> \<exists>mq'. mq_flush mq = Some mq' \<and> mq_rep (mq'\<lparr>mq_entry := 0\<rparr>) [] (rev qs @ fs) ps"
proof -
  have "\<lbrakk>chain (mq_next mq) (msg_queue_head mq) qs; mq_rep (mq\<lparr>mq_entry := of_nat (length qs)\<rparr>) qs fs ps\<rbrakk> \<Longrightarrow>
      \<exists>mq'. mq_flush mq = Some mq' \<and> mq_rep (mq'\<lparr>mq_entry := 0\<rparr>) [] (rev qs @ fs) ps" for mq
  proof (induction qs arbitrary: mq fs)
    case Nil
    then show ?case by (simp add: mq_flush.simps[of mq] mq_rep_def)
  next
    case (Cons b qs)
    let ?mq0 = "mq\<lparr>mq_entry := of_nat (length (b # qs))\<rparr>"
    let ?mq1 = "mq\<lparr>msg_queue_head := mq_next mq b\<rparr>"
    let ?mq2 = "mq_release b (if msg_queue_tail ?mq1 = Some b then ?mq1\<lparr>msg_queue_tail := None\<rparr> else ?mq1)"
    have run: "mq_flush mq = mq_flush ?mq2"
      using Cons.prems(1) by (simp add: mq_flush.simps[of mq] Let_def)
    obtain mq3 where 3: "mq_unlink ?mq0 = Some (b, mq3)" "mq_rep mq3 qs fs (b # ps)"
      using mq_rep_unlink[OF Cons.prems(2)] by auto
    have eq: "(mq_release b mq3)\<lparr>mq_entry := e\<rparr> = ?mq2\<lparr>mq_entry := e\<rparr>" for e
      using 3(1) Cons.prems(1) by (auto simp: mq_unlink_def mq_release_def mq_set_next_def Let_def split: if_splits)
    have rel: "mq_rep (mq_release b mq3) qs (b # fs) ps" using mq_rep_release[OF 3(2), of b] by simp
    then have "mq_entry (mq_release b mq3) = of_nat (length qs)" by (simp add: mq_rep_def)
    then have "(mq_release b mq3)\<lparr>mq_entry := of_nat (length qs)\<rparr> = mq_release b mq3" by simp
    then have rep2: "mq_rep (?mq2\<lparr>mq_entry := of_nat (length qs)\<rparr>) qs (b # fs) ps"
      using rel eq[of "of_nat (length qs)"] by simp
    then have "chain (mq_next ?mq2) (msg_queue_head ?mq2) qs" by (simp add: mq_rep_def)
    from Cons.IH[OF this rep2] run show ?case by simp
  qed
  moreover assume rep: "mq_rep mq qs fs ps"
  moreover from rep have "mq\<lparr>mq_entry := of_nat (length qs)\<rparr> = mq" by (simp add: mq_rep_def)
  ultimately show ?thesis by (auto simp: mq_rep_def)
qed

subsection \<open>Sending and receiving\<close>

lemma set_mq_sel [simp]:
  "threads (set_mq x mq s) = threads s" "tlists (set_mq x mq s) = tlists s"
  "mqs (set_mq x mq s) = (mqs s)(x := mq)"
  by (simp_all add: set_mq_def)

lemma set_mq_sys: "sys d X s \<Longrightarrow> sys d X (set_mq x mq s)"
  by (erule sys_eqI) (simp_all add: set_mq_def)

lemma mq_full_iff:
  assumes "mq_inv mq"
  shows "mq_take_free mq = None \<longleftrightarrow> length (mq_contents mq) = mq_cap mq"
    and "length (mq_contents mq) \<le> mq_cap mq"
proof -
  obtain qs fs where rep: "mq_rep mq qs fs []" using assms by (auto simp: mq_inv_def)
  note c = mq_rep_counts[OF rep] mq_contents_rep[OF rep]
  show "mq_take_free mq = None \<longleftrightarrow> length (mq_contents mq) = mq_cap mq"
    using c rep by (cases fs) (auto simp: mq_cap_def mq_take_free_def mq_rep_def)
  show "length (mq_contents mq) \<le> mq_cap mq" using c by (simp add: mq_cap_def)
qed

lemma mq_empty_iff: "mq_inv mq \<Longrightarrow> mq_entry mq = 0 \<longleftrightarrow> mq_contents mq = []"
  using mq_rep_entry mq_contents_rep by (fastforce simp: mq_inv_def)

lemma mq_contents_length:
  assumes "mq_inv mq" "m \<in> set (mq_contents mq)"
  shows "length m = unat (msg_size mq)"
proof -
  obtain qs fs where rep: "mq_rep mq qs fs []" using assms by (auto simp: mq_inv_def)
  with assms(2) obtain b where b: "b \<in> set qs" "m = mq_data mq b" using mq_contents_rep[OF rep] by auto
  moreover have "b < unat (max_msgs mq)" using rep b(1) by (auto simp: mq_rep_def)
  ultimately show ?thesis using rep by (simp add: mq_rep_def)
qed

text \<open>A send with the given way of linking the block, once the arguments are checked.\<close>

lemma mq_deliver_ok:
  assumes s: "sys d {} s" and mq: "mq_inv mq"
  shows "\<exists>s'. wake_one (Wait x) (set_mq x mq s) = Some s' \<and> sys d {} s' \<and> mqs s' x = mq \<and>
    (\<forall>t ts. tlists s (Wait x) = t # ts \<longrightarrow> stat (threads s' t) = RT_THREAD_READY \<and> tlists s' (Wait x) = ts)"
proof -
  obtain s' where "wake_one (Wait x) (set_mq x mq s) = Some s'" "sys d {} s'" "woke_one (Wait x) (set_mq x mq s) s'"
    using wake_one_ok[OF set_mq_sys[OF s], of "Wait x" x mq] by auto
  then show ?thesis by (auto simp: woke_one_def same_ipc_def)
qed

lemma rt_mq_send_put:
  assumes "0 < length buf" "length buf \<le> unat (msg_size (mqs s x))" "mq_put buf (mqs s x) = Some mq"
  shows "rt_mq_send x buf s = map_option (Pair RT_EOK) (wake_one (Wait x) (set_mq x mq s))"
  using assms
  by (cases "wake_one (Wait x) (set_mq x mq s)")
    (auto simp: rt_mq_send_def mq_put_def Let_def split: option.splits bind_splits)

lemma rt_mq_urgent_put:
  assumes "0 < length buf" "length buf \<le> unat (msg_size (mqs s x))" "mq_put_front buf (mqs s x) = Some mq"
  shows "rt_mq_urgent x buf s = map_option (Pair RT_EOK) (wake_one (Wait x) (set_mq x mq s))"
  using assms
  by (cases "wake_one (Wait x) (set_mq x mq s)")
    (auto simp: rt_mq_urgent_def mq_put_front_def Let_def split: option.splits bind_splits)

lemma mq_recv_delivers:
  assumes s: "sys d {} s" and inv: "mq_inv (mqs s x)" and c: "mq_contents (mqs s x) = m # ms"
  shows "\<exists>s'. mq_recv_loop th x sz timeout delta s = Some (Inl RT_EOK, Some (take sz m), s') \<and> sys d {} s' \<and>
    mq_inv (mqs s' x) \<and> mq_contents (mqs s' x) = ms \<and> tlists s' = tlists s \<and> threads s' = threads s"
proof -
  obtain mq where mq: "mq_get (mqs s x) = Some (m, mq)" "mq_inv mq" "mq_contents mq = ms"
    using mq_get_ok[OF inv c] by auto
  obtain b mq1 where 1: "mq_unlink (mqs s x) = Some (b, mq1)" "m = mq_data mq1 b" "mq = mq_release b mq1"
    using mq(1) by (auto simp: mq_get_def split: bind_splits)
  have len: "length m = unat (msg_size (mqs s x))" using mq_contents_length[OF inv] c by simp
  have sz1: "msg_size mq1 = msg_size (mqs s x)"
    using 1(1) by (auto simp: mq_unlink_def Let_def split: option.splits)
  have "mq_entry (mqs s x) \<noteq> 0" using c mq_empty_iff[OF inv] by simp
  then have "mq_recv_loop th x sz timeout delta s = Some (Inl RT_EOK, Some (take sz m), set_mq x mq s)"
    using 1 sz1 len by (simp add: mq_recv_loop_def Let_def)
  then show ?thesis using mq set_mq_sys[OF s, of x mq] by simp
qed

end
