(* ===== verification/RT_Alloc.thy ===== *)
theory RT_Alloc
  imports RT_Prelude
begin

text \<open>
  The contract of an allocator of blocks, which the memory pools promise: the relation
  \<open>inv s F\<close> says that \<open>F\<close> is the set of free blocks of state \<open>s\<close>. A client keeps a ledger of the
  blocks it holds.
\<close>

datatype 'b alloc_op = Alloc | Free 'b

text \<open>A run of a client; \<^term>\<open>None\<close> if it frees a block it does not hold or an allocation fails.\<close>

fun alloc_run :: "('s \<Rightarrow> ('b \<times> 's) option) \<Rightarrow> ('b \<Rightarrow> 's \<Rightarrow> 's) \<Rightarrow> 'b alloc_op list \<Rightarrow> 'b list \<Rightarrow> 's \<Rightarrow>
    ('b list \<times> 's) option" where
  "alloc_run grab give [] held s = Some (held, s)"
| "alloc_run grab give (Alloc # ops) held s = do { (b, s) \<leftarrow> grab s; alloc_run grab give ops (b # held) s }"
| "alloc_run grab give (Free b # ops) held s =
     (if b \<in> set held then alloc_run grab give ops (remove1 b held) (give b s) else None)"

locale block_allocator =
  fixes inv :: "'s \<Rightarrow> 'b set \<Rightarrow> bool"
    and blocks :: "'s \<Rightarrow> 'b set"
    and grab :: "'s \<Rightarrow> ('b \<times> 's) option"
    and give :: "'b \<Rightarrow> 's \<Rightarrow> 's"
  assumes free_blocks: "inv s F \<Longrightarrow> F \<subseteq> blocks s"
    and grab_law: "inv s F \<Longrightarrow> F \<noteq> {} \<Longrightarrow>
      \<exists>b s'. grab s = Some (b, s') \<and> b \<in> F \<and> inv s' (F - {b}) \<and> blocks s' = blocks s"
    and grab_empty: "inv s {} \<Longrightarrow> grab s = None"
    and give_law: "inv s F \<Longrightarrow> b \<in> blocks s \<Longrightarrow> b \<notin> F \<Longrightarrow>
      inv (give b s) (insert b F) \<and> blocks (give b s) = blocks s"
begin

text \<open>
  In every run no block is handed out twice: the held blocks stay distinct and are exactly
  the blocks that are not free.
\<close>

lemma run_exclusive:
  assumes "inv s F" "distinct held" "set held = blocks s - F" "alloc_run grab give ops held s = Some (held', s')"
  shows "distinct held' \<and> set held' \<subseteq> blocks s \<and> blocks s' = blocks s \<and> inv s' (blocks s - set held')"
  using assms
proof (induction ops arbitrary: held s F)
  case Nil
  have "blocks s - set held = F" unfolding Nil.prems(3) using free_blocks[OF Nil.prems(1)] by blast
  then show ?case using Nil.prems by simp
next
  case (Cons op ops)
  show ?case
  proof (cases op)
    case Alloc
    have "F \<noteq> {}"
    proof
      assume "F = {}"
      then show False using grab_empty Cons.prems(1,4) Alloc by simp
    qed
    with grab_law[OF Cons.prems(1)] obtain b s1 where s1: "grab s = Some (b, s1)" "b \<in> F" "inv s1 (F - {b})" "blocks s1 = blocks s"
      by blast
    have "set (b # held) = blocks s1 - (F - {b})" using Cons.prems(3) s1(2,4) free_blocks[OF Cons.prems(1)] by auto
    from Cons.IH[OF s1(3) _ this] show ?thesis using Cons.prems Alloc s1 by auto
  next
    case (Free b)
    then have b: "b \<in> set held" and run: "alloc_run grab give ops (remove1 b held) (give b s) = Some (held', s')"
      using Cons.prems(4) by (auto split: if_splits)
    with Cons.prems(3) have "b \<in> blocks s" "b \<notin> F" by auto
    from give_law[OF Cons.prems(1) this]
    have g: "inv (give b s) (insert b F)" "blocks (give b s) = blocks s" by auto
    have "set (remove1 b held) = blocks (give b s) - insert b F" using Cons.prems(2,3) g(2) by auto
    from Cons.IH[OF g(1) _ this run] Cons.prems(2) g(2) show ?thesis by simp
  qed
qed

text \<open>An allocation succeeds as long as the client holds fewer blocks than there are.\<close>

lemma grab_succeeds:
  assumes "inv s F" "set held = blocks s - F" "finite (blocks s)" "length held < card (blocks s)"
  shows "grab s \<noteq> None"
proof -
  have "F \<noteq> {}"
  proof
    assume "F = {}"
    then have "card (blocks s) \<le> length held" using assms(2) card_length[of held] by simp
    then show False using assms(4) by simp
  qed
  then show ?thesis using grab_law[OF assms(1)] by auto
qed

end

end
