(* ===== verification/RT_Mempool.thy ===== *)
theory RT_Mempool
  imports RT_Mailbox RT_Alloc RT_Clock
begin

text \<open>
  Memory pools of \<^verbatim>\<open>Kernel/mempool.c\<close>: blocks of one size, the free ones linked through their
  headers. A thread that asks for a block of an empty pool waits on the list \<open>Wait x\<close> and is
  counted in \<^verbatim>\<open>suspend_thread_count\<close>.
\<close>

subsection \<open>Blocks\<close>

text \<open>
  The initialisation of the free list. For a pool with no block the code writes the header
  of block \<open>-1\<close>, before the start of the pool.
\<close>

definition mp_init_blocks :: "u32 \<Rightarrow> u32 \<Rightarrow> rt_mempool option" where
  "mp_init_blocks sz bs = do {
     let size = RT_ALIGN_DOWN sz 4;
     let block_size = RT_ALIGN bs 4;
     let total = size div (block_size + 4);
     rt_assert (block_size + 4 \<noteq> 0);
     rt_assert (total \<noteq> 0);
     let hdr = fold (\<lambda>i h. h(i := Next_Free (Some (i + 1)))) [0..<unat total] (\<lambda>_. Next_Free None);
     let hdr = hdr(unat total - 1 := Next_Free None);
     Some \<lparr>mp_size = size, mp_block_size = block_size, mp_header_of = hdr, block_list = Some 0,
           block_total_count = total, block_free_count = total, suspend_thread_count = 0\<rparr>
   }"

text \<open>Taking the first free block; reading a header that holds no link is undefined.\<close>

definition mp_take :: "oid \<Rightarrow> rt_mempool \<Rightarrow> (nat \<times> rt_mempool) option" where
  "mp_take x mp = do {
     let mp = mp\<lparr>block_free_count := block_free_count mp - 1\<rparr>;
     b \<leftarrow> block_list mp;
     next \<leftarrow> (case mp_header_of mp b of Next_Free n \<Rightarrow> Some n | Owner_Pool _ \<Rightarrow> None);
     let mp = mp\<lparr>block_list := next\<rparr>;
     Some (b, mp\<lparr>mp_header_of := (mp_header_of mp)(b := Owner_Pool x)\<rparr>)
   }"

definition mp_put :: "nat \<Rightarrow> rt_mempool \<Rightarrow> rt_mempool" where
  "mp_put b mp =
    (let mp = mp\<lparr>block_free_count := block_free_count mp + 1\<rparr>;
         mp = mp\<lparr>mp_header_of := (mp_header_of mp)(b := Next_Free (block_list mp))\<rparr>
     in mp\<lparr>block_list := Some b\<rparr>)"

subsection \<open>Operations\<close>

definition set_mp :: "oid \<Rightarrow> rt_mempool \<Rightarrow> kstate \<Rightarrow> kstate" where
  "set_mp x mp s = s\<lparr>mempools := (mempools s)(x := mp)\<rparr>"

definition rt_mp_init :: "oid \<Rightarrow> u8 list \<Rightarrow> u32 \<Rightarrow> u32 \<Rightarrow> kstate \<Rightarrow> (rt_err_t \<times> kstate) option" where
  "rt_mp_init x nm sz bs s = do {
     s \<leftarrow> rt_object_init (Obj x) RT_Object_Class_MemPool nm s;
     mp \<leftarrow> mp_init_blocks sz bs;
     let s = s\<lparr>tlists := q_init (Wait x) (tlists s)\<rparr>;
     Some (RT_EOK, set_mp x mp s)
   }"

partial_function (option) mp_wake_all :: "oid \<Rightarrow> kstate \<Rightarrow> kstate option" where
  "mp_wake_all x s =
    (case tlists s (Wait x) of
       [] \<Rightarrow> Some s
     | t # _ \<Rightarrow>
         Option.bind (rt_thread_resume t (upd_thread t (\<lambda>th. th\<lparr>error := - RT_ERROR\<rparr>) s))
           (\<lambda>(_, s). mp_wake_all x
              (set_mp x ((mempools s x)\<lparr>suspend_thread_count := suspend_thread_count (mempools s x) - 1\<rparr>) s)))"

definition rt_mp_detach :: "oid \<Rightarrow> kstate \<Rightarrow> (rt_err_t \<times> kstate) option" where
  "rt_mp_detach x s = do {
     s \<leftarrow> mp_wake_all x s;
     Some (RT_EOK, rt_object_detach (Obj x) s)
   }"

text \<open>
  The loop and the rest of \<^verbatim>\<open>rt_mp_alloc\<close> up to the next context switch. The result is a block
  (\<^term>\<open>Inl (Some b)\<close>), no block, or the local variables \<^verbatim>\<open>time\<close> and \<^verbatim>\<open>before_sleep\<close> of a thread
  that waits.
\<close>

definition mp_alloc_loop ::
    "tid option \<Rightarrow> oid \<Rightarrow> u32 \<Rightarrow> u32 \<Rightarrow> kstate \<Rightarrow> ((nat option + locals) \<times> kstate) option" where
  "mp_alloc_loop thread x time before_sleep s =
    (if block_free_count (mempools s x) = 0 then
       if time = 0 then Some (Inl None, rt_set_errno (- RT_ETIMEOUT) s)
       else do {
         RT_DEBUG_NOT_IN_INTERRUPT s;
         t \<leftarrow> thread;
         let s = upd_thread t (\<lambda>th. th\<lparr>error := RT_EOK\<rparr>) s;
         (_, s) \<leftarrow> rt_thread_suspend t s;
         let s = s\<lparr>tlists := q_insert_after (Wait x) t (tlists s)\<rparr>;
         let s = set_mp x ((mempools s x)\<lparr>suspend_thread_count := suspend_thread_count (mempools s x) + 1\<rparr>) s;
         let before_sleep = (if sint time > 0 then rt_tick_get s else before_sleep);
         s \<leftarrow> (if sint time > 0 then start_thread_timer t time s else Some s);
         s \<leftarrow> rt_schedule s;
         Some (Inr (time, before_sleep), s)
       }
     else do {
       (b, mp) \<leftarrow> mp_take x (mempools s x);
       Some (Inl (Some b), set_mp x mp s)
     })"

definition rt_mp_alloc :: "oid \<Rightarrow> u32 \<Rightarrow> kstate \<Rightarrow> ((nat option + locals) \<times> kstate) option" where
  "rt_mp_alloc x time s = mp_alloc_loop (rt_thread_self s) x time 0 s"

definition rt_mp_alloc_resume :: "tid \<Rightarrow> oid \<Rightarrow> locals \<Rightarrow> kstate \<Rightarrow> ((nat option + locals) \<times> kstate) option" where
  "rt_mp_alloc_resume t x loc s =
    (if error (threads s t) \<noteq> RT_EOK then Some (Inl None, s)
     else mp_alloc_loop (Some t) x (remaining_timeout (fst loc) (snd loc) s) (snd loc) s)"

text \<open>
  Freeing block \<open>b\<close> of pool \<open>x\<close>: the pool is found through the header of the block.
\<close>

definition rt_mp_free :: "oid \<Rightarrow> nat \<Rightarrow> kstate \<Rightarrow> kstate option" where
  "rt_mp_free x b s = do {
     y \<leftarrow> (case mp_header_of (mempools s x) b of Owner_Pool y \<Rightarrow> Some y | Next_Free _ \<Rightarrow> None);
     rt_assert (y = x);
     let s = set_mp x (mp_put b (mempools s x)) s;
     if suspend_thread_count (mempools s x) > 0 then do {
       t \<leftarrow> (case tlists s (Wait x) of [] \<Rightarrow> None | t # _ \<Rightarrow> Some t);
       let s = upd_thread t (\<lambda>th. th\<lparr>error := RT_EOK\<rparr>) s;
       (_, s) \<leftarrow> rt_thread_resume t s;
       let s = set_mp x ((mempools s x)\<lparr>suspend_thread_count := suspend_thread_count (mempools s x) - 1\<rparr>) s;
       rt_schedule s
     } else Some s
   }"

subsection \<open>The free list\<close>

fun mp_chain :: "(nat \<Rightarrow> mp_header) \<Rightarrow> nat option \<Rightarrow> nat list \<Rightarrow> bool" where
  "mp_chain h p [] \<longleftrightarrow> p = None"
| "mp_chain h p (b # bs) \<longleftrightarrow> p = Some b \<and> (case h b of Next_Free n \<Rightarrow> mp_chain h n bs | Owner_Pool _ \<Rightarrow> False)"

text \<open>
  Pool \<open>x\<close> with the free blocks \<open>fs\<close>, in the order of the list: every other block of the pool is
  marked as belonging to \<open>x\<close>.
\<close>

definition mp_rep :: "oid \<Rightarrow> rt_mempool \<Rightarrow> nat list \<Rightarrow> bool" where
  "mp_rep x mp fs \<longleftrightarrow> mp_chain (mp_header_of mp) (block_list mp) fs \<and> distinct fs \<and>
     (\<forall>b \<in> set fs. b < unat (block_total_count mp)) \<and>
     (\<forall>b < unat (block_total_count mp). b \<notin> set fs \<longrightarrow> mp_header_of mp b = Owner_Pool x) \<and>
     unat (block_free_count mp) = length fs"

definition mp_blocks :: "rt_mempool \<Rightarrow> nat set" where
  "mp_blocks mp = {..< unat (block_total_count mp)}"

definition mp_free_set :: "oid \<Rightarrow> rt_mempool \<Rightarrow> nat set \<Rightarrow> bool" where
  "mp_free_set x mp F \<longleftrightarrow> (\<exists>fs. mp_rep x mp fs \<and> set fs = F)"

lemma mp_chain_upd_other: "b \<notin> set fs \<Longrightarrow> mp_chain (h(b := v)) p fs = mp_chain h p fs"
  by (induction fs arbitrary: p) (auto split: mp_header.splits)

lemma mp_take_rep:
  assumes "mp_rep x mp (b # fs)"
  shows "\<exists>mp'. mp_take x mp = Some (b, mp') \<and> mp_rep x mp' fs \<and> block_total_count mp' = block_total_count mp \<and>
    suspend_thread_count mp' = suspend_thread_count mp"
proof -
  obtain n where n: "block_list mp = Some b" "mp_header_of mp b = Next_Free n" "mp_chain (mp_header_of mp) n fs"
    "b \<notin> set fs" "unat (block_free_count mp) = Suc (length fs)"
    using assms by (auto simp: mp_rep_def split: mp_header.splits)
  have "1 \<le> block_free_count mp" using n(5) by (simp add: word_le_nat_alt)
  then have "unat (block_free_count mp - 1) = length fs" using n(5) by (simp add: unat_sub)
  with assms n show ?thesis
    by (auto simp: mp_take_def mp_rep_def Let_def mp_chain_upd_other)
qed

lemma mp_take_empty: "mp_rep x mp [] \<Longrightarrow> mp_take x mp = None"
  by (simp add: mp_take_def mp_rep_def)

lemma mp_rep_length:
  assumes "mp_rep x mp fs"
  shows "length fs \<le> unat (block_total_count mp)"
proof -
  have "card (set fs) \<le> card {..< unat (block_total_count mp)}"
    using assms by (intro card_mono) (auto simp: mp_rep_def)
  then show ?thesis using assms by (simp add: mp_rep_def distinct_card)
qed

lemma mp_put_rep:
  assumes r: "mp_rep x mp fs" and b: "b < unat (block_total_count mp)" "b \<notin> set fs"
  shows "mp_rep x (mp_put b mp) (b # fs)"
proof -
  have "mp_rep x mp fs" "distinct (b # fs)" "set (b # fs) \<subseteq> {..< unat (block_total_count mp)}"
    using r b by (auto simp: mp_rep_def)
  then have "length (b # fs) \<le> unat (block_total_count mp)"
    using distinct_card[of "b # fs"] card_mono[of "{..< unat (block_total_count mp)}" "set (b # fs)"] by simp
  then have "Suc (unat (block_free_count mp)) < 2 ^ 32"
    using r unat_u32_less[of "block_total_count mp"] by (simp add: mp_rep_def)
  then have "unat (block_free_count mp + 1) = Suc (length fs)"
    using r by (simp add: unat_word_ariths mp_rep_def)
  with r b show ?thesis by (auto simp: mp_put_def mp_rep_def Let_def mp_chain_upd_other)
qed

interpretation mpa: block_allocator "mp_free_set x" mp_blocks "mp_take x" mp_put for x
proof unfold_locales
  show "mp_free_set x mp F \<Longrightarrow> F \<subseteq> mp_blocks mp" for mp F
    by (auto simp: mp_free_set_def mp_rep_def mp_blocks_def)
  show "\<exists>b mp'. mp_take x mp = Some (b, mp') \<and> b \<in> F \<and> mp_free_set x mp' (F - {b}) \<and> mp_blocks mp' = mp_blocks mp"
    if F: "mp_free_set x mp F" "F \<noteq> {}" for mp F
  proof -
    from F obtain b fs where fs: "mp_rep x mp (b # fs)" "F = set (b # fs)"
      by (metis list.exhaust mp_free_set_def set_empty)
    then have "b \<notin> set fs" by (simp add: mp_rep_def)
    then have "F - {b} = set fs" using fs(2) by auto
    with mp_take_rep[OF fs(1)] fs(2) show ?thesis by (auto simp: mp_free_set_def mp_blocks_def)
  qed
  show "mp_free_set x mp {} \<Longrightarrow> mp_take x mp = None" for mp
    by (auto simp: mp_free_set_def mp_take_empty)
  show "mp_free_set x (mp_put b mp) (insert b F) \<and> mp_blocks (mp_put b mp) = mp_blocks mp"
    if "mp_free_set x mp F" "b \<in> mp_blocks mp" "b \<notin> F" for mp F b
  proof -
    from that obtain fs where fs: "mp_rep x mp fs" "F = set fs" by (auto simp: mp_free_set_def)
    then have "mp_rep x (mp_put b mp) (b # fs)" using that by (intro mp_put_rep) (auto simp: mp_blocks_def)
    moreover have "set (b # fs) = insert b F" using fs by simp
    ultimately show ?thesis unfolding mp_free_set_def by (auto simp: mp_blocks_def mp_put_def Let_def)
  qed
qed

subsection \<open>Initialisation\<close>

lemma mp_chain_upt:
  assumes "\<And>i. a \<le> i \<Longrightarrow> Suc i < n \<Longrightarrow> h i = Next_Free (Some (Suc i))" "a < n" "h (n - 1) = Next_Free None"
  shows "mp_chain h (Some a) [a..<n]"
  using assms
proof (induction "n - a" arbitrary: a)
  case (Suc k)
  show ?case
  proof (cases "Suc a = n")
    case True
    then show ?thesis using Suc.prems by (auto simp: upt_rec)
  next
    case False
    then have a: "Suc a < n" using Suc.prems(2) by simp
    have "mp_chain h (Some (Suc a)) [Suc a..<n]" by (rule Suc.hyps) (use Suc a in auto)
    then show ?thesis using Suc.prems(1)[of a] a by (simp add: upt_rec[of a])
  qed
qed simp

lemma fold_header: "fold (\<lambda>i h. h(i := Next_Free (Some (Suc i)))) [0..<n] h0 i = (if i < n then Next_Free (Some (Suc i)) else h0 i)"
  by (induction n) auto

lemma mp_init_blocks_ok:
  assumes "mp_init_blocks sz bs = Some mp"
  shows "mp_rep x mp [0..<unat (block_total_count mp)] \<and> suspend_thread_count mp = 0 \<and> block_total_count mp > 0 \<and>
    block_total_count mp = RT_ALIGN_DOWN sz 4 div (RT_ALIGN bs 4 + 4)"
proof -
  let ?n = "RT_ALIGN_DOWN sz 4 div (RT_ALIGN bs 4 + 4)"
  let ?h = "(fold (\<lambda>i h. h(i := Next_Free (Some (i + 1)))) [0..<unat ?n] (\<lambda>_. Next_Free None))(unat ?n - 1 := Next_Free None)"
  have n: "?n \<noteq> 0" and mp: "mp_header_of mp = ?h" "block_list mp = Some 0" "block_total_count mp = ?n" "block_free_count mp = ?n"
    "suspend_thread_count mp = 0"
    using assms by (auto simp: mp_init_blocks_def Let_def rt_assert_def split: if_splits Option.bind_splits)
  then have "0 < unat ?n" by (metis gr0I unat_eq_zero)
  then have "mp_chain ?h (Some 0) [0..<unat ?n]" by (intro mp_chain_upt) (auto simp: fold_header)
  with mp n show ?thesis by (auto simp: mp_rep_def word_greater_zero_iff)
qed

subsection \<open>Allocation\<close>

lemma set_mp_sel [simp]:
  "threads (set_mp x mp s) = threads s" "tlists (set_mp x mp s) = tlists s" "rt_timer_list (set_mp x mp s) = rt_timer_list s"
  "mempools (set_mp x mp s) = (mempools s)(x := mp)" "rt_scheduler_lock_nest (set_mp x mp s) = rt_scheduler_lock_nest s"
  "rt_tick (set_mp x mp s) = rt_tick s" "timers (set_mp x mp s) = timers s"
  by (simp_all add: set_mp_def)

lemma set_mp_sys: "sys d X s \<Longrightarrow> sys d X (set_mp x mp s)"
  by (erule sys_eqI) (simp_all add: set_mp_def)

lemma rt_set_errno_sys: "sys d X s \<Longrightarrow> sys d X (rt_set_errno e s)"
  by (auto simp: rt_set_errno_def sys_upd_same[unfolded upd_defs] sched_same_def elim: sys_eqI split: option.splits)

lemma mp_free_count: "mp_rep x mp fs \<Longrightarrow> block_free_count mp = 0 \<longleftrightarrow> fs = []"
  by (auto simp: mp_rep_def unat_eq_zero)

lemma mp_alloc_available:
  assumes "mp_rep x (mempools s x) (b # fs)"
  shows "\<exists>mp. mp_alloc_loop th x time before s = Some (Inl (Some b), set_mp x mp s) \<and> mp_rep x mp fs \<and>
    suspend_thread_count mp = suspend_thread_count (mempools s x)"
  using mp_take_rep[OF assms] mp_free_count[OF assms] by (auto simp: mp_alloc_loop_def)

text \<open>A thread that finds no block waits at the head of the list of the pool and is counted.\<close>

definition mp_blocked :: "oid \<Rightarrow> tid \<Rightarrow> u32 \<Rightarrow> kstate \<Rightarrow> kstate \<Rightarrow> bool" where
  "mp_blocked x t time s s' \<longleftrightarrow> stat (threads s' t) = RT_THREAD_SUSPEND \<and> tlists s' (Wait x) = t # tlists s (Wait x) \<and>
     (Thread_Timer t \<in> set (rt_timer_list s') \<longleftrightarrow> sint time > 0) \<and>
     (sint time > 0 \<longrightarrow> timeout_tick (timers s' (Thread_Timer t)) = rt_tick s + time) \<and>
     (rt_scheduler_lock_nest s = 0 \<longrightarrow>
        (\<exists>u. rt_current_thread s' = Some u \<and> u \<noteq> t \<and> stat (threads s' u) = RT_THREAD_READY)) \<and>
     mempools s' = (mempools s)(x := (mempools s x)\<lparr>suspend_thread_count := suspend_thread_count (mempools s x) + 1\<rparr>)"

lemma mp_alloc_blocks:
  assumes s: "sys d {} s" and b: "may_block t time s" and e: "block_free_count (mempools s x) = 0" "time \<noteq> 0"
  shows "\<exists>loc s'. mp_alloc_loop (Some t) x time before s = Some (Inr loc, s') \<and> sys d {} s' \<and> mp_blocked x t time s s'"
proof -
  let ?s0 = "upd_thread t (\<lambda>th. th\<lparr>error := RT_EOK\<rparr>) s"
  have s0: "sys d {} ?s0" using sys_upd_same[of "\<lambda>th. th\<lparr>error := RT_EOK\<rparr>" d "{}" t s] s by (simp add: sched_same_def)
  have t0: "stat (threads ?s0 t) = RT_THREAD_READY" using b by (simp add: may_block_def)
  obtain s1 where s1: "rt_thread_suspend t ?s0 = Some (RT_EOK, s1)" "tlists s1 (Wait x) = tlists s (Wait x)"
    "threads s1 = (threads ?s0)(t := (threads ?s0 t)\<lparr>stat := RT_THREAD_SUSPEND\<rparr>)"
    "sys d {} (s1\<lparr>tlists := (tlists s1)(Wait x := t # tlists s (Wait x))\<rparr>)" "same_ctl ?s0 s1"
    "rt_timer_list s1 = rt_timer_list ?s0" "Thread_Timer t \<notin> set (rt_timer_list s)"
    using suspend_link_ok[OF s0 t0, of "Wait x" "[]" "tlists s (Wait x)"] by auto
  let ?mp = "(mempools s x)\<lparr>suspend_thread_count := suspend_thread_count (mempools s x) + 1\<rparr>"
  let ?s2 = "set_mp x ?mp (s1\<lparr>tlists := (tlists s1)(Wait x := t # tlists s (Wait x))\<rparr>)"
  have mps: "mempools s1 = mempools s" "rt_tick s1 = rt_tick s" "rt_scheduler_lock_nest s1 = rt_scheduler_lock_nest s"
    using s1(5) by (simp_all add: same_ctl_def same_ipc_def)
  have s2: "sys d {} ?s2" by (rule set_mp_sys) (rule s1(4))
  have t2: "stat (threads ?s2 t) = RT_THREAD_SUSPEND" "Thread_Timer t \<notin> set (rt_timer_list ?s2)" "other_ready t ?s2"
    using s1(3,6,7) b by (auto simp: may_block_def other_ready_def)
  have time: "sint time > 0 \<Longrightarrow> time < 0x7fffffff" using b by (simp add: may_block_def)
  obtain s3 s' where s3: "(if sint time > 0 then start_thread_timer t time ?s2 else Some ?s2) = Some s3" "rt_schedule s3 = Some s'"
    "sys d {} s'" "threads s' = threads ?s2" "tlists s' = tlists ?s2"
    "Thread_Timer t \<in> set (rt_timer_list s') \<longleftrightarrow> sint time > 0"
    "sint time > 0 \<longrightarrow> timeout_tick (timers s' (Thread_Timer t)) = rt_tick ?s2 + time"
    "rt_scheduler_lock_nest ?s2 = 0 \<longrightarrow>
       (\<exists>u. rt_current_thread s' = Some u \<and> u \<noteq> t \<and> stat (threads s' u) = RT_THREAD_READY)" "same_ipc ?s2 s'"
    using sleep_schedule_ok[OF s2 t2 time] by blast
  have "mp_blocked x t time s s'"
    using s3(4-9) t2(1) mps by (simp add: mp_blocked_def same_ipc_def)
  moreover have "mp_alloc_loop (Some t) x time before s = Some (Inr (time, if sint time > 0 then rt_tick_get ?s2 else before), s')"
    using e s1(1,2) s3(1,2) may_block_context[OF b] mps
    by (simp add: mp_alloc_loop_def RT_DEBUG_IN_THREAD_CONTEXT_def RT_DEBUG_NOT_IN_INTERRUPT_def
        rt_thread_self_def rt_interrupt_get_nest_def q_insert_after_def split: if_splits)
  ultimately show ?thesis using s3(3) by blast
qed

subsection \<open>Release\<close>

text \<open>The pool counts its waiting threads; \<^verbatim>\<open>rt_mp_free\<close> relies on it.\<close>

definition mp_waiters_ok :: "oid \<Rightarrow> kstate \<Rightarrow> bool" where
  "mp_waiters_ok x s \<longleftrightarrow> unat (suspend_thread_count (mempools s x)) = length (tlists s (Wait x))"

lemma mp_put_sel [simp]:
  "suspend_thread_count (mp_put b mp) = suspend_thread_count mp" "block_total_count (mp_put b mp) = block_total_count mp"
  by (simp_all add: mp_put_def Let_def)

lemma mp_rep_suspend [simp]: "mp_rep x (mp\<lparr>suspend_thread_count := n\<rparr>) fs = mp_rep x mp fs"
  by (simp add: mp_rep_def)

lemma mp_free_no_waiter:
  assumes r: "mp_rep x (mempools s x) fs" and b: "b < unat (block_total_count (mempools s x))" "b \<notin> set fs"
    and w: "mp_waiters_ok x s" "tlists s (Wait x) = []"
  shows "rt_mp_free x b s = Some (set_mp x (mp_put b (mempools s x)) s)"
proof -
  have "suspend_thread_count (mempools s x) = 0" using w by (simp add: mp_waiters_ok_def unat_eq_zero)
  then show ?thesis using r b by (simp add: rt_mp_free_def mp_rep_def)
qed

lemma mp_free_wakes:
  assumes s: "sys d {} s" and r: "mp_rep x (mempools s x) fs"
    and b: "b < unat (block_total_count (mempools s x))" "b \<notin> set fs"
    and w: "mp_waiters_ok x s" "tlists s (Wait x) = t # ts"
  shows "\<exists>s'. rt_mp_free x b s = Some s' \<and> sys d {} s' \<and> mp_rep x (mempools s' x) (b # fs) \<and> mp_waiters_ok x s' \<and>
    tlists s' (Wait x) = ts \<and> stat (threads s' t) = RT_THREAD_READY \<and> error (threads s' t) = RT_EOK \<and>
    Thread_Timer t \<notin> set (rt_timer_list s')"
proof -
  let ?s0 = "set_mp x (mp_put b (mempools s x)) s"
  let ?s1 = "upd_thread t (\<lambda>th. th\<lparr>error := RT_EOK\<rparr>) ?s0"
  have s1: "sys d {} ?s1"
    using set_mp_sys[OF s] sys_upd_same[of "\<lambda>th. th\<lparr>error := RT_EOK\<rparr>" d "{}" t ?s0] by (simp add: sched_same_def)
  obtain s2 where s2: "rt_ipc_list_resume (Wait x) ?s1 = Some s2" "sys d {} s2" "made_ready t ?s1 s2" "tlists s2 (Wait x) = ts"
    "Thread_Timer t \<notin> set (rt_timer_list s2)"
    using rt_ipc_list_resume_ok[OF s1, of "Wait x" t ts] w(2) by auto
  have run2: "map_option snd (rt_thread_resume t ?s1) = Some s2"
    using s2(1) w(2) by (auto simp: rt_ipc_list_resume_def split: Option.bind_splits)
  have mps: "mempools s2 x = mp_put b (mempools s x)" using s2(3) by (simp add: made_ready_def same_ctl_def same_ipc_def)
  let ?s3 = "set_mp x ((mempools s2 x)\<lparr>suspend_thread_count := suspend_thread_count (mempools s2 x) - 1\<rparr>) s2"
  have s3: "sys d {} ?s3" by (rule set_mp_sys) (rule s2(2))
  have sr: "some_ready ?s3" using made_ready_some_ready[OF s2(3)] by (simp add: some_ready_def)
  obtain s' where s': "rt_schedule ?s3 = Some s'" using rt_schedule_ok[OF s3 sr] by auto
  have c: "unat (suspend_thread_count (mempools s x)) = Suc (length ts)" using w by (simp add: mp_waiters_ok_def)
  then have "1 \<le> suspend_thread_count (mempools s x)" by (simp add: word_le_nat_alt)
  then have "unat (suspend_thread_count (mempools s x) - 1) = length ts" using c by (simp add: unat_sub)
  moreover have "suspend_thread_count (mempools s x) > 0" using c by (simp add: word_less_nat_alt)
  moreover have "mp_header_of (mempools s x) b = Owner_Pool x" using r b by (simp add: mp_rep_def)
  ultimately show ?thesis
    using s' run2 w(2) mps mp_put_rep[OF r b] rt_schedule_sys[OF s3 s'] rt_schedule_frame[OF s'] s2(3,4,5)
    by (auto simp: rt_mp_free_def mp_waiters_ok_def made_ready_def)
qed

text \<open>Detaching the pool wakes every waiting thread with an error.\<close>

lemma mp_wake_all_ok:
  assumes "sys d {} s"
  shows "\<exists>s'. mp_wake_all x s = Some s' \<and> sys d {} s' \<and> tlists s' (Wait x) = [] \<and> woken (set (tlists s (Wait x))) s s' \<and>
    suspend_thread_count (mempools s' x) = suspend_thread_count (mempools s x) - of_nat (length (tlists s (Wait x)))"
  using assms
proof (induction "tlists s (Wait x)" arbitrary: s)
  case Nil
  then show ?case by (intro exI[of _ s]) (simp add: mp_wake_all.simps[of x s] woken_def)
next
  case (Cons t ts)
  let ?s1 = "upd_thread t (\<lambda>th. th\<lparr>error := - RT_ERROR\<rparr>) s"
  have s1: "sys d {} ?s1" using Cons.prems by (subst sys_upd_same) (simp_all add: sched_same_def)
  have l: "tlists ?s1 (Wait x) = t # ts" using Cons.hyps(2) by simp
  obtain s2 where s2: "rt_ipc_list_resume (Wait x) ?s1 = Some s2" "sys d {} s2" "made_ready t ?s1 s2" "tlists s2 (Wait x) = ts"
    using rt_ipc_list_resume_ok[OF s1 _ l] by auto
  let ?s3 = "set_mp x ((mempools s2 x)\<lparr>suspend_thread_count := suspend_thread_count (mempools s2 x) - 1\<rparr>) s2"
  have s3: "sys d {} ?s3" by (rule set_mp_sys) (rule s2(2))
  obtain s' where s': "mp_wake_all x ?s3 = Some s'" "sys d {} s'" "tlists s' (Wait x) = []" "woken (set ts) ?s3 s'"
    "suspend_thread_count (mempools s' x) = suspend_thread_count (mempools s2 x) - 1 - of_nat (length ts)"
    using Cons.hyps(1)[of ?s3] s3 s2(4) by auto
  have t: "t \<notin> set ts" using kinvxD(1)[OF sysD(1)[OF Cons.prems], of "Wait x"] Cons.hyps(2)[symmetric] by simp
  have "\<exists>r. rt_thread_resume t ?s1 = Some (r, s2)"
    using s2(1) l by (auto simp: rt_ipc_list_resume_def split: Option.bind_splits)
  then have "mp_wake_all x s = Some s'" using s'(1) l by (auto simp: mp_wake_all.simps[of x s])
  moreover have "woken (set (tlists s (Wait x))) s s'"
    using s'(4) s2(3) t Cons.hyps(2)[symmetric] by (auto simp: woken_def made_ready_def)
  moreover have "mempools s2 = mempools s" using s2(3) by (simp add: made_ready_def same_ctl_def same_ipc_def)
  ultimately show ?case
    using s'(2,3,5) Cons.hyps(2)[symmetric] by (intro exI[of _ s']) simp
qed

subsection \<open>A time-out is not accounted for\<close>

text \<open>
  A waiting thread whose time runs out leaves the list, but the pool still counts it. The next
  \<^verbatim>\<open>rt_mp_free\<close> of the pool then takes the head of the empty list for a thread.
\<close>

lemma mp_timeout_count:
  assumes s: "sys d {} s" and w: "mp_waiters_ok x s" "tlists s (Wait x) = [t]" and off: "Thread_Timer t \<notin> set (rt_timer_list s)"
  shows "\<exists>s'. rt_thread_timeout t s = Some s' \<and> sys d {} s' \<and> rt_mp_alloc_resume t x loc s' = Some (Inl None, s') \<and>
    tlists s' (Wait x) = [] \<and> suspend_thread_count (mempools s' x) = 1 \<and> (\<forall>b. rt_mp_free x b s' = None)"
proof -
  have t: "stat (threads s t) = RT_THREAD_SUSPEND" using waiting_suspended[OF s, of "Wait x" t] w(2) by simp
  obtain s' where s': "rt_thread_timeout t s = Some s'" "sys d {} s'" "same_ipc s s'"
    "threads s' = (threads s)(t := (threads s t)\<lparr>error := - RT_ETIMEOUT, stat := RT_THREAD_READY\<rparr>)"
    "tlists s' = q_insert_before (Ready (unat (current_priority (threads s t)))) t (q_remove t (tlists s))"
    using rt_thread_timeout_ok[OF s t off] by blast
  have l: "tlists s' (Wait x) = []" using s'(5) w(2) by (simp add: q_insert_before_def q_remove_def)
  have c: "suspend_thread_count (mempools s' x) = 1"
    using s'(3) w by (simp add: same_ipc_def mp_waiters_ok_def word_unat_eq_iff)
  then have "rt_mp_free x b s' = None" for b
    using l by (auto simp: rt_mp_free_def mp_put_def Let_def rt_assert_def split: mp_header.splits Option.bind_splits if_splits)
  moreover have "error (threads s' t) \<noteq> RT_EOK" by (simp add: s'(4))
  ultimately show ?thesis using s' l c by (auto simp: rt_mp_alloc_resume_def)
qed

end
