(* ===== verification/RT_Lifecycle.thy ===== *)
theory RT_Lifecycle
  imports RT_Ipc
begin

text \<open>
  The life of a thread: starting, sleeping, exit and removal, over the operations of
  \<^verbatim>\<open>RT_Thread\<close>. Each operation keeps the system invariant and has the effect the kernel
  promises.
\<close>

subsection \<open>Starting\<close>

lemma sys_take_out:
  assumes s: "sys d X s" and t: "\<And>q. t \<notin> set (tlists s q)" "Thread_Timer t \<notin> set (rt_timer_list s)"
  shows "sys d (insert t X) s"
proof -
  have "lists_inv (insert t X) s" using sysD(1)[OF s] t(1) by (auto simp: kinvx_def lists_inv_def)
  moreover have "stat_inv (insert t X) s" using sysD(1)[OF s] by (auto simp: kinvx_def stat_inv_def)
  ultimately have "kinvx (insert t X) s" using sysD(1)[OF s] by (simp add: kinvx_def)
  then show ?thesis using sysD(2-6)[OF s] t(2) by (auto simp: sys_def sleepers_ok_def)
qed

lemma not_started_unlinked:
  assumes s: "sys d {} s" and t: "stat (threads s t) = RT_THREAD_INIT"
  shows "t \<notin> set (tlists s q)" "Thread_Timer t \<notin> set (rt_timer_list s)"
proof -
  note k = sysD(1)[OF s]
  show "t \<notin> set (tlists s q)"
  proof (cases q)
    case (Ready p) then show ?thesis using kinvxD(5)[OF k, of t p] t by auto
  next
    case Defunct then show ?thesis using kinvxD(8)[OF k, of t] t by auto
  qed (use kinvxD(7)[OF k, of t q] t in auto)
  show "Thread_Timer t \<notin> set (rt_timer_list s)" using sysD(3)[OF s] t by (auto simp: sleepers_ok_def)
qed

lemma rt_thread_startup_ok:
  assumes s: "sys d {} s" and t: "stat (threads s t) = RT_THREAD_INIT"
    and p: "unat (init_priority (threads s t)) < 32" and stk: "rt_scheduler_stack_check (threads s t) = Some ()"
  shows "\<exists>s'. rt_thread_startup t s = Some (RT_EOK, s') \<and> sys d {} s' \<and> stat (threads s' t) = RT_THREAD_READY \<and>
    current_priority (threads s' t) = init_priority (threads s t) \<and>
    (\<forall>u. u \<noteq> t \<longrightarrow> threads s' u = threads s u) \<and>
    t \<in> set (tlists s' (Ready (unat (init_priority (threads s t)))))"
proof -
  let ?f = "\<lambda>th. th\<lparr>current_priority := init_priority th, number_mask := push_bit (unat (init_priority th)) 1,
      stat := RT_THREAD_SUSPEND\<rparr>"
  let ?s1 = "upd_thread t ?f s"
  have "sys d {t} s" using sys_take_out[OF s] not_started_unlinked[OF s t] by simp
  then have "sys d {t} ?s1" by (rule sys_upd_out) simp
  moreover have r: "runnable_fields (threads ?s1 t)"
    using p stk by (simp add: runnable_fields_def rt_scheduler_stack_check_def)
  ultimately have s1: "sys d {} ?s1" using sys_restore[of d "{t}" ?s1 t] by simp
  obtain s2 where s2: "rt_thread_resume t ?s1 = Some (RT_EOK, s2)" "sys d {} s2" "made_ready t ?s1 s2"
    using rt_thread_resume_suspended[OF s1, of t] by auto
  have "some_ready s2" by (rule made_ready_some_ready[OF s2(3)])
  then obtain s' where s': "(if rt_thread_self s2 \<noteq> None then rt_schedule s2 else Some s2) = Some s'"
    using rt_schedule_ok[OF s2(2)] by (cases "rt_thread_self s2 = None") auto
  then have fr: "s' = s2 \<or> (\<exists>x y. s' = s2\<lparr>rt_current_priority := x, rt_current_thread := y\<rparr>)"
    using rt_schedule_frame[of s2 s'] by (auto split: if_splits)
  have "rt_thread_startup t s = Some (RT_EOK, s')"
    using t s2(1) s' by (simp add: rt_thread_startup_def Let_def)
  then show ?thesis using fr s2(2,3) by (auto simp: made_ready_def q_insert_before_def)
qed

subsection \<open>Sleeping\<close>

lemma rt_thread_sleep_ok:
  assumes s: "sys d {} s" and t: "rt_current_thread s = Some t" "stat (threads s t) = RT_THREAD_READY" "other_ready t s"
    and tick: "tick < 0x7fffffff"
  shows "\<exists>s'. rt_thread_sleep tick s = Some s' \<and> sys d {} s' \<and>
    threads s' = (threads s)(t := (threads s t)\<lparr>stat := RT_THREAD_SUSPEND\<rparr>) \<and>
    Thread_Timer t \<in> set (rt_timer_list s') \<and> timeout_tick (timers s' (Thread_Timer t)) = rt_tick s + tick \<and>
    rt_tick s' = rt_tick s \<and>
    (rt_scheduler_lock_nest s = 0 \<longrightarrow>
       (\<exists>u. rt_current_thread s' = Some u \<and> u \<noteq> t \<and> stat (threads s' u) = RT_THREAD_READY)) \<and>
    (rt_scheduler_lock_nest s = 0 \<longrightarrow> rt_current_thread s' = top_thread s') \<and>
    (\<forall>q. is_wait q \<longrightarrow> tlists s' q = tlists s q) \<and> rt_interrupt_nest s' = rt_interrupt_nest s \<and>
    rt_scheduler_lock_nest s' = rt_scheduler_lock_nest s \<and> same_ipc s s'"
proof -
  obtain s1 where s1: "rt_thread_suspend t s = Some (RT_EOK, s1)" "sys d {t} s1"
    "threads s1 = (threads s)(t := (threads s t)\<lparr>stat := RT_THREAD_SUSPEND\<rparr>)" "same_ctl s s1" "tlists s1 = q_remove t (tlists s)"
    using rt_thread_suspend_ready[OF s _ t(2)] by auto
  have w: "tlists s1 q = tlists s q" if "is_wait q" for q
    using kinvxD(7)[OF sysD(1)[OF s], of t q] t(2) that s1(5) by (force simp: q_remove_def intro!: remove1_idem)
  have r: "runnable_fields (threads s1 t)" using kinvxD(9)[OF sysD(1)[OF s], of t] t(2) s1(3) by simp
  have s1': "sys d {} s1" using sys_restore[OF s1(2), of t] s1(3) r by simp
  obtain s2 where s2: "start_thread_timer t tick s1 = Some s2" "sys d {} s2" "same_ctl s1 s2" "threads s2 = threads s1" "tlists s2 = tlists s1"
    "Thread_Timer t \<in> set (rt_timer_list s2)" "timeout_tick (timers s2 (Thread_Timer t)) = rt_tick s1 + tick"
    using start_thread_timer_ok[OF s1' _ tick, of t] s1(3) by auto
  have sr: "some_ready s2" by (rule other_ready_some_ready[OF s2(2) t(3)]) (simp add: s2(4) s1(3))
  obtain x where run: "rt_schedule s2 = Some (s2\<lparr>rt_current_priority := x,
      rt_current_thread := (if rt_scheduler_lock_nest s2 = 0 then top_thread s2 else rt_current_thread s2)\<rparr>)"
    using rt_schedule_ok[OF s2(2) sr] by auto
  obtain u where u: "top_thread s2 = Some u" "stat (threads s2 u) = RT_THREAD_READY"
    using top_thread_ready[OF s2(2) sr] .
  have "u \<noteq> t" using u(2) s2(4) s1(3) by auto
  moreover have "rt_thread_sleep tick s = rt_schedule s2" using t(1) s1(1) s2(1) by (simp add: rt_thread_sleep_def)
  ultimately show ?thesis
    using run s1(2-4) s2(2-) u w by (auto simp: same_ctl_def same_ipc_def top_thread_run)
qed

subsection \<open>Exit and removal\<close>

lemma rt_object_detach_sys: "sys d X s \<Longrightarrow> sys d X (rt_object_detach x s)"
  by (erule sys_eqI) (simp_all add: rt_object_detach_def)

lemma timer_detach_sys: "sys d X s \<Longrightarrow> sys d X (snd (rt_timer_detach tm s))"
  by (simp add: rt_timer_detach_def rt_object_detach_sys remove_timer_sys)

lemma timer_detach_sel [simp]:
  "threads (snd (rt_timer_detach tm s)) = threads s" "tlists (snd (rt_timer_detach tm s)) = tlists s"
  "objects (snd (rt_timer_detach tm s)) = objects s"
  "rt_timer_list (snd (rt_timer_detach tm s)) = remove1 tm (rt_timer_list s)"
  "rt_current_thread (snd (rt_timer_detach tm s)) = rt_current_thread s"
  "rt_scheduler_lock_nest (snd (rt_timer_detach tm s)) = rt_scheduler_lock_nest s"
  by (simp_all add: rt_timer_detach_def rt_timer_remove_def rt_object_detach_def)

text \<open>A closed thread leaves the invariant's exceptions, on the defunct list or on none.\<close>

lemma sys_closed:
  assumes s: "sys d X s" and t: "t \<in> X" "stat (threads s t) = RT_THREAD_CLOSE"
  shows "sys d (X - {t}) s" "sys d (X - {t}) (s\<lparr>tlists := q_insert_after Defunct t (tlists s)\<rparr>)"
proof -
  have "kinvx (X - {t}) s" by (rule kinvx_Diff[OF sysD(1)[OF s] t(1)]) (use t(2) in auto)
  then show "sys d (X - {t}) s" using sysD(2-6)[OF s] by (auto simp: sys_def sleepers_ok_def)
  let ?s = "s\<lparr>tlists := q_insert_after Defunct t (tlists s)\<rparr>"
  have "kinvx (X - {t}) ?s" by (rule kinvx_defunct_link[OF sysD(1)[OF s] t])
  moreover have "timer_inv d ?s" using sysD(2)[OF s] timer_inv_cong[of ?s s d] by (simp add: timer_active_def)
  ultimately show "sys d (X - {t}) ?s" using sysD(3-6)[OF s] by (auto simp: sys_def sleepers_ok_def timers_ok_def)
qed

text \<open>
  Taking a alive thread (ready, running or waiting) out of the scheduler, stopping its timer
  and closing it, in the order the kernel does it.
\<close>

definition closed_state :: "tid \<Rightarrow> u32 \<Rightarrow> kstate \<Rightarrow> kstate" where
  "closed_state t g s = upd_thread t (\<lambda>th. th\<lparr>stat := RT_THREAD_CLOSE\<rparr>)
     ((snd (rt_timer_detach (Thread_Timer t) s))\<lparr>tlists := q_remove t (tlists s), rt_thread_ready_priority_group := g\<rparr>)"

definition alive :: "rt_thread \<Rightarrow> bool" where
  "alive th \<longleftrightarrow> stat th = RT_THREAD_READY \<or> stat th = RT_THREAD_SUSPEND"

lemma close_ok:
  assumes s: "sys d {} s" and t: "alive (threads s t)"
  shows "\<exists>g. rt_schedule_remove_thread t s = Some (s\<lparr>tlists := q_remove t (tlists s), rt_thread_ready_priority_group := g\<rparr>) \<and>
    sys d {t} (closed_state t g s)"
proof -
  let ?s1 = "snd (rt_timer_detach (Thread_Timer t) s)"
  have s1: "sys d {} ?s1" by (rule timer_detach_sys[OF s])
  have r: "runnable_fields (threads s t)" using kinvxD(9)[OF sysD(1)[OF s], of t] t by (auto simp: alive_def)
  have "distinct (rt_timer_list s)" using sysD(2)[OF s] by (simp add: timer_inv_def)
  then have off: "Thread_Timer t \<notin> set (rt_timer_list ?s1)" by simp
  let ?s2 = "\<lambda>g. ?s1\<lparr>tlists := q_remove t (tlists s), rt_thread_ready_priority_group := g\<rparr>"
  obtain g where g: "rt_schedule_remove_thread t ?s1 = Some (?s2 g)" and k: "kinvx {t} (?s2 g)"
    using remove_thread_kinvx[OF sysD(1)[OF s1], of t] r by auto
  have "rt_schedule_remove_thread t s = Some (s\<lparr>tlists := q_remove t (tlists s), rt_thread_ready_priority_group := g\<rparr>)"
    using g r by (cases s)
      (auto simp: rt_schedule_remove_thread_def runnable_fields_def rt_timer_detach_def rt_timer_remove_def
        rt_object_detach_def Let_def split: if_splits)
  moreover have "timer_inv d (?s2 g)" using sysD(2)[OF s1] timer_inv_cong[of "?s2 g" ?s1 d] by (simp add: timer_active_def)
  then have "sys d {t} (?s2 g)" using k sysD(3-6)[OF s1] off by (auto simp: sys_def sleepers_ok_def timers_ok_def)
  then have "sys d {t} (closed_state t g s)" unfolding closed_state_def by (rule sys_upd_out) simp
  ultimately show ?thesis by blast
qed

lemma closed_state_sel [simp]:
  "threads (closed_state t g s) = (threads s)(t := (threads s t)\<lparr>stat := RT_THREAD_CLOSE\<rparr>)"
  "tlists (closed_state t g s) = q_remove t (tlists s)" "objects (closed_state t g s) = objects s"
  "rt_timer_list (closed_state t g s) = remove1 (Thread_Timer t) (rt_timer_list s)"
  by (simp_all add: closed_state_def)

lemma close_order:
  "snd (rt_timer_detach (Thread_Timer t) (upd_thread t (\<lambda>th. th\<lparr>stat := RT_THREAD_CLOSE\<rparr>)
     (s\<lparr>tlists := q_remove t (tlists s), rt_thread_ready_priority_group := g\<rparr>))) = closed_state t g s"
  "upd_thread t (\<lambda>th. th\<lparr>stat := RT_THREAD_CLOSE\<rparr>) (snd (rt_timer_detach (Thread_Timer t)
     (s\<lparr>tlists := q_remove t (tlists s), rt_thread_ready_priority_group := g\<rparr>))) = closed_state t g s"
  by (simp_all add: closed_state_def rt_timer_detach_def rt_timer_remove_def rt_object_detach_def)

lemma upd_thread_sel:
  "objects (upd_thread t f s) = objects s" "threads (upd_thread t f s) t = f (threads s t)"
  by simp_all

text \<open>What closing a thread leaves behind.\<close>

definition closed :: "tid \<Rightarrow> bool \<Rightarrow> kstate \<Rightarrow> kstate \<Rightarrow> bool" where
  "closed t defunct s s' \<longleftrightarrow>
     threads s' = (threads s)(t := (threads s t)\<lparr>stat := RT_THREAD_CLOSE\<rparr>) \<and>
     (\<forall>q. q \<noteq> Defunct \<longrightarrow> t \<notin> set (tlists s' q)) \<and> (t \<in> set (tlists s' Defunct) \<longleftrightarrow> defunct) \<and>
     Thread_Timer t \<notin> set (rt_timer_list s')"

lemma unlinked_removed: "sys d {} s \<Longrightarrow> t \<notin> set (q_remove t (tlists s) q)"
  using kinvxD(1)[OF sysD(1), of d "{}" s q] by (simp add: q_remove_def)

lemma off_removed: "sys d {} s \<Longrightarrow> Thread_Timer t \<notin> set (remove1 (Thread_Timer t) (rt_timer_list s))"
  using sysD(2)[of d "{}" s] by (simp add: timer_inv_def)

lemma rt_thread_delete_ok:
  assumes s: "sys d {} s" and t: "alive (threads s t)"
  shows "\<exists>s'. rt_thread_delete t s = Some (RT_EOK, s') \<and> sys d {} s' \<and> closed t True s s'"
proof -
  obtain g where g: "rt_schedule_remove_thread t s =
      Some (s\<lparr>tlists := q_remove t (tlists s), rt_thread_ready_priority_group := g\<rparr>)" "sys d {t} (closed_state t g s)"
    using close_ok[OF s t] by blast
  let ?s = "(closed_state t g s)\<lparr>tlists := q_insert_after Defunct t (tlists (closed_state t g s))\<rparr>"
  have "sys d {} ?s" using sys_closed(2)[OF g(2), of t] by simp
  moreover have "rt_thread_delete t s = Some (RT_EOK, ?s)"
    using g(1) by (simp add: rt_thread_delete_def Let_def close_order del: upd_defs)
  moreover have "closed t True s ?s"
    using unlinked_removed[OF s] off_removed[OF s] by (auto simp: closed_def q_insert_after_def)
  ultimately show ?thesis by blast
qed

lemma rt_thread_detach_ok:
  assumes s: "sys d {} s" and t: "alive (threads s t)"
  shows "\<exists>s'. rt_thread_detach t s = Some (RT_EOK, s') \<and> sys d {} s' \<and> closed t (cleanup (threads s t) \<noteq> None) s s'"
proof -
  obtain g where g: "rt_schedule_remove_thread t s =
      Some (s\<lparr>tlists := q_remove t (tlists s), rt_thread_ready_priority_group := g\<rparr>)" "sys d {t} (closed_state t g s)"
    using close_ok[OF s t] by blast
  let ?s0 = "rt_object_detach (Obj_Thread t) (closed_state t g s)"
  have s0: "sys d {t} ?s0" by (rule rt_object_detach_sys[OF g(2)])
  have sel: "threads ?s0 = threads (closed_state t g s)" "tlists ?s0 = tlists (closed_state t g s)"
    "rt_timer_list ?s0 = rt_timer_list (closed_state t g s)" by (simp_all add: rt_object_detach_def)
  let ?s = "if cleanup (threads s t) \<noteq> None then ?s0\<lparr>tlists := q_insert_after Defunct t (tlists ?s0)\<rparr> else ?s0"
  have "sys d {} ?s" using sys_closed[OF s0, of t] sel by simp
  moreover have "rt_thread_detach t s = Some (RT_EOK, ?s)"
    using g(1) sel by (simp add: rt_thread_detach_def Let_def close_order del: upd_defs)
  moreover have "closed t (cleanup (threads s t) \<noteq> None) s ?s"
    using unlinked_removed[OF s] off_removed[OF s] by (auto simp: closed_def q_insert_after_def sel)
  ultimately show ?thesis by blast
qed

lemma rt_thread_exit_ok:
  assumes s: "sys d {} s" and t: "rt_current_thread s = Some t" "stat (threads s t) = RT_THREAD_READY" "other_ready t s"
  shows "\<exists>s'. rt_thread_exit s = Some s' \<and> sys d {} s' \<and>
    closed t (\<not> (rt_object_is_systemobject (Obj_Thread t) s \<and> cleanup (threads s t) = None)) s s' \<and>
    (rt_scheduler_lock_nest s = 0 \<longrightarrow> (\<exists>u. rt_current_thread s' = Some u \<and> u \<noteq> t \<and> stat (threads s' u) = RT_THREAD_READY))"
proof -
  obtain g where g: "rt_schedule_remove_thread t s =
      Some (s\<lparr>tlists := q_remove t (tlists s), rt_thread_ready_priority_group := g\<rparr>)" "sys d {t} (closed_state t g s)"
    using close_ok[OF s] t(2) by (auto simp: alive_def)
  let ?c = "closed_state t g s" and ?stat = "rt_object_is_systemobject (Obj_Thread t) s \<and> cleanup (threads s t) = None"
  let ?s = "if ?stat then rt_object_detach (Obj_Thread t) ?c else ?c\<lparr>tlists := q_insert_after Defunct t (tlists ?c)\<rparr>"
  have s1: "sys d {} ?s"
    using sys_closed[OF g(2), of t] rt_object_detach_sys[of d "{}" ?c] by simp
  have sel: "threads ?s = threads ?c" "rt_scheduler_lock_nest ?s = rt_scheduler_lock_nest s"
    "rt_timer_list ?s = rt_timer_list ?c"
    by (simp_all add: rt_object_detach_def closed_state_def)
  have sr: "some_ready ?s" by (rule other_ready_some_ready[OF s1 t(3)]) (simp only: sel, simp)
  obtain x where run: "rt_schedule ?s = Some (?s\<lparr>rt_current_priority := x,
      rt_current_thread := (if rt_scheduler_lock_nest ?s = 0 then top_thread ?s else rt_current_thread ?s)\<rparr>)"
    using rt_schedule_ok[OF s1 sr] by auto
  obtain u where u: "top_thread ?s = Some u" "stat (threads ?s u) = RT_THREAD_READY"
    using top_thread_ready[OF s1 sr] .
  have "u \<noteq> t" using u(2) unfolding sel by auto
  have "closed t (\<not> ?stat) s ?s"
    using unlinked_removed[OF s] off_removed[OF s] by (auto simp: closed_def q_insert_after_def rt_object_detach_def)
  moreover have "rt_thread_exit s = rt_schedule ?s"
    using t(1) g(1) by (simp add: rt_thread_exit_def Let_def close_order upd_thread_sel rt_object_is_systemobject_def
        del: upd_defs)
  ultimately show ?thesis
    using run s1 u \<open>u \<noteq> t\<close> sel(2) by (simp add: closed_def)
qed

end
