(* ===== verification/RT_Heap.thy ===== *)
theory RT_Heap
  imports RT_Memory
begin

text \<open>
  The heap of \<^verbatim>\<open>Kernel/mem.c\<close> (the configured \<^verbatim>\<open>RT_USING_SMALL_MEM\<close> allocator). The memory between
  \<^verbatim>\<open>heap_ptr\<close> and \<^verbatim>\<open>heap_end\<close> is a chain of blocks, each with a header \<^verbatim>\<open>struct heap_mem\<close> of 12 bytes; a
  pointer to a header is modelled by its offset from \<^verbatim>\<open>heap_ptr\<close>, and the headers by a function of the
  offset. The semaphore \<^verbatim>\<open>heap_sem\<close> is its counter: taking it while it is 0 would block the caller,
  which is outside these definitions (\<^term>\<open>None\<close>). The parameter \<open>nest\<close> of an operation is the interrupt
  nesting that \<^verbatim>\<open>RT_DEBUG_NOT_IN_INTERRUPT\<close> tests; no hook is installed.
\<close>

subsection \<open>State\<close>

record heap_mem =
  hm_magic :: u16
  hm_used :: u16
  hm_next :: u32
  hm_prev :: u32

record heap =
  heap_ptr :: u32
  hdr :: "u32 \<Rightarrow> heap_mem"
  heap_end :: u32
  lfree :: u32
  heap_sem :: u16
  mem_size_aligned :: u32
  used_mem :: u32
  max_mem :: u32

abbreviation (input) HEAP_MAGIC :: u16 where "HEAP_MAGIC \<equiv> 0x1ea0"
abbreviation (input) SIZEOF_STRUCT_MEM :: u32 where "SIZEOF_STRUCT_MEM \<equiv> 12"
abbreviation (input) MIN_SIZE_ALIGNED :: u32 where "MIN_SIZE_ALIGNED \<equiv> 12"

definition upd_hdr :: "u32 \<Rightarrow> (heap_mem \<Rightarrow> heap_mem) \<Rightarrow> heap \<Rightarrow> heap" where
  "upd_hdr p f h = h\<lparr>hdr := (hdr h)(p := f (hdr h p))\<rparr>"

definition addr :: "heap \<Rightarrow> u32 \<Rightarrow> u32" where
  "addr h p = heap_ptr h + p"

definition heap_take :: "heap \<Rightarrow> heap option" where
  "heap_take h = (if heap_sem h > 0 then Some (h\<lparr>heap_sem := heap_sem h - 1\<rparr>) else None)"

definition heap_release :: "heap \<Rightarrow> heap" where
  "heap_release h = h\<lparr>heap_sem := heap_sem h + 1\<rparr>"

subsection \<open>Operations\<close>

definition plug_holes :: "u32 \<Rightarrow> heap \<Rightarrow> heap option" where
  "plug_holes mem h = do {
     rt_assert (addr h mem \<ge> heap_ptr h);
     rt_assert (addr h mem < addr h (heap_end h));
     rt_assert (hm_used (hdr h mem) = 0);
     let nmem = hm_next (hdr h mem);
     let h = (if mem \<noteq> nmem \<and> hm_used (hdr h nmem) = 0 \<and> nmem \<noteq> heap_end h then
                let h = (if lfree h = nmem then h\<lparr>lfree := mem\<rparr> else h);
                    h = upd_hdr mem (\<lambda>m. m\<lparr>hm_next := hm_next (hdr h nmem)\<rparr>) h
                in upd_hdr (hm_next (hdr h nmem)) (\<lambda>m. m\<lparr>hm_prev := mem\<rparr>) h
              else h);
     let pmem = hm_prev (hdr h mem);
     Some (if pmem \<noteq> mem \<and> hm_used (hdr h pmem) = 0 then
             let h = (if lfree h = mem then h\<lparr>lfree := pmem\<rparr> else h);
                 h = upd_hdr pmem (\<lambda>m. m\<lparr>hm_next := hm_next (hdr h mem)\<rparr>) h
             in upd_hdr (hm_next (hdr h mem)) (\<lambda>m. m\<lparr>hm_prev := pmem\<rparr>) h
           else h)
   }"

text \<open>On unusable addresses the code only prints a message and the heap stays as it was.\<close>

definition rt_system_heap_init :: "u8 \<Rightarrow> u32 \<Rightarrow> u32 \<Rightarrow> heap \<Rightarrow> heap option" where
  "rt_system_heap_init nest begin_addr end_addr h = do {
     let begin_align = RT_ALIGN begin_addr 4;
     let end_align = RT_ALIGN_DOWN end_addr 4;
     rt_assert (nest = 0);
     if end_align > 2 * SIZEOF_STRUCT_MEM \<and> end_align - 2 * SIZEOF_STRUCT_MEM \<ge> begin_align then do {
       let h = h\<lparr>mem_size_aligned := end_align - begin_align - 2 * SIZEOF_STRUCT_MEM\<rparr>;
       let h = h\<lparr>heap_ptr := begin_align\<rparr>;
       let h = upd_hdr 0 (\<lambda>_. \<lparr>hm_magic = HEAP_MAGIC, hm_used = 0,
                 hm_next = mem_size_aligned h + SIZEOF_STRUCT_MEM, hm_prev = 0\<rparr>) h;
       let h = h\<lparr>heap_end := hm_next (hdr h 0)\<rparr>;
       let h = upd_hdr (heap_end h) (\<lambda>_. \<lparr>hm_magic = HEAP_MAGIC, hm_used = 1,
                 hm_next = mem_size_aligned h + SIZEOF_STRUCT_MEM,
                 hm_prev = mem_size_aligned h + SIZEOF_STRUCT_MEM\<rparr>) h;
       let h = h\<lparr>heap_sem := 1\<rparr>;
       Some (h\<lparr>lfree := 0\<rparr>)
     } else Some h
   }"

text \<open>The search loop of \<^verbatim>\<open>rt_malloc\<close>, and the loop that moves the pointer to the lowest free block.\<close>

partial_function (option) malloc_scan :: "u32 \<Rightarrow> u32 \<Rightarrow> heap \<Rightarrow> u32 option option" where
  "malloc_scan sz ptr h =
    (if ptr < mem_size_aligned h - sz then
       if hm_used (hdr h ptr) = 0 \<and> hm_next (hdr h ptr) - (ptr + SIZEOF_STRUCT_MEM) \<ge> sz then Some (Some ptr)
       else malloc_scan sz (hm_next (hdr h ptr)) h
     else Some None)"

partial_function (option) skip_used :: "u32 \<Rightarrow> heap \<Rightarrow> u32 option" where
  "skip_used p h =
    (if hm_used (hdr h p) \<noteq> 0 \<and> p \<noteq> heap_end h then skip_used (hm_next (hdr h p)) h else Some p)"

definition count_used :: "u32 \<Rightarrow> heap \<Rightarrow> heap" where
  "count_used n h =
    (let h = h\<lparr>used_mem := used_mem h + n\<rparr>
     in if max_mem h < used_mem h then h\<lparr>max_mem := used_mem h\<rparr> else h)"

text \<open>The body of the search loop for a block that is large enough: split it or take it whole.\<close>

definition malloc_take :: "u32 \<Rightarrow> u32 \<Rightarrow> heap \<Rightarrow> heap" where
  "malloc_take sz ptr h =
    (let h = (if hm_next (hdr h ptr) - (ptr + SIZEOF_STRUCT_MEM) \<ge> sz + SIZEOF_STRUCT_MEM + MIN_SIZE_ALIGNED then
         let ptr2 = ptr + SIZEOF_STRUCT_MEM + sz;
             h = upd_hdr ptr2 (\<lambda>_. \<lparr>hm_magic = HEAP_MAGIC, hm_used = 0, hm_next = hm_next (hdr h ptr), hm_prev = ptr\<rparr>) h;
             h = upd_hdr ptr (\<lambda>m. m\<lparr>hm_next := ptr2, hm_used := 1\<rparr>) h;
             h = (if hm_next (hdr h ptr2) \<noteq> mem_size_aligned h + SIZEOF_STRUCT_MEM
                  then upd_hdr (hm_next (hdr h ptr2)) (\<lambda>m. m\<lparr>hm_prev := ptr2\<rparr>) h else h)
         in count_used (sz + SIZEOF_STRUCT_MEM) h
       else
         let h = upd_hdr ptr (\<lambda>m. m\<lparr>hm_used := 1\<rparr>) h
         in count_used (hm_next (hdr h ptr) - ptr) h)
     in upd_hdr ptr (\<lambda>m. m\<lparr>hm_magic := HEAP_MAGIC\<rparr>) h)"

text \<open>The result is the address of the memory, 0 for \<^verbatim>\<open>RT_NULL\<close>.\<close>

definition rt_malloc :: "u8 \<Rightarrow> u32 \<Rightarrow> heap \<Rightarrow> (u32 \<times> heap) option" where
  "rt_malloc nest sz h = do {
     rt_assert (nest = 0);
     if sz = 0 then Some (0, h)
     else do {
       let sz = RT_ALIGN sz 4;
       if sz > mem_size_aligned h then Some (0, h)
       else do {
         let sz = (if sz < MIN_SIZE_ALIGNED then MIN_SIZE_ALIGNED else sz);
         h \<leftarrow> heap_take h;
         r \<leftarrow> malloc_scan sz (lfree h) h;
         case r of
           None \<Rightarrow> Some (0, heap_release h)
         | Some mem \<Rightarrow> do {
             let h = malloc_take sz mem h;
             h \<leftarrow> (if mem = lfree h then do {
                     l \<leftarrow> skip_used (lfree h) h;
                     let h = h\<lparr>lfree := l\<rparr>;
                     rt_assert (lfree h = heap_end h \<or> hm_used (hdr h (lfree h)) = 0);
                     Some h
                   } else Some h);
             let h = heap_release h;
             rt_assert (addr h mem + SIZEOF_STRUCT_MEM + sz \<le> addr h (heap_end h));
             rt_assert ((addr h mem + SIZEOF_STRUCT_MEM) mod 4 = 0);
             rt_assert (addr h mem AND 3 = 0);
             Some (addr h mem + SIZEOF_STRUCT_MEM, h)
           }
       }
     }
   }"

definition rt_free :: "u8 \<Rightarrow> u32 \<Rightarrow> heap \<Rightarrow> heap option" where
  "rt_free nest rmem h = do {
     rt_assert (nest = 0);
     if rmem = 0 then Some h
     else do {
       rt_assert (rmem AND 3 = 0);
       rt_assert (rmem \<ge> heap_ptr h \<and> rmem < addr h (heap_end h));
       let mem = rmem - SIZEOF_STRUCT_MEM - heap_ptr h;
       h \<leftarrow> heap_take h;
       rt_assert (hm_used (hdr h mem) \<noteq> 0);
       rt_assert (hm_magic (hdr h mem) = HEAP_MAGIC);
       let h = upd_hdr mem (\<lambda>m. m\<lparr>hm_used := 0, hm_magic := HEAP_MAGIC\<rparr>) h;
       let h = (if mem < lfree h then h\<lparr>lfree := mem\<rparr> else h);
       let h = h\<lparr>used_mem := used_mem h - (hm_next (hdr h mem) - mem)\<rparr>;
       h \<leftarrow> plug_holes mem h;
       Some (heap_release h)
     }
   }"

text \<open>\<^verbatim>\<open>rt_realloc\<close> and \<^verbatim>\<open>rt_calloc\<close> also write the memory.\<close>

definition rt_realloc :: "u8 \<Rightarrow> u32 \<Rightarrow> u32 \<Rightarrow> heap \<Rightarrow> mem \<Rightarrow> (u32 \<times> heap \<times> mem) option" where
  "rt_realloc nest rmem newsize h m = do {
     rt_assert (nest = 0);
     let newsize = RT_ALIGN newsize 4;
     if newsize > mem_size_aligned h then Some (0, h, m)
     else if rmem = 0 then do { (p, h) \<leftarrow> rt_malloc nest newsize h; Some (p, h, m) }
     else do {
       h \<leftarrow> heap_take h;
       if rmem < heap_ptr h \<or> rmem \<ge> addr h (heap_end h) then Some (rmem, heap_release h, m)
       else do {
         let ptr = rmem - SIZEOF_STRUCT_MEM - heap_ptr h;
         let sz = hm_next (hdr h ptr) - ptr - SIZEOF_STRUCT_MEM;
         if sz = newsize then Some (rmem, heap_release h, m)
         else if newsize + SIZEOF_STRUCT_MEM + 12 < sz then do {
           let h = h\<lparr>used_mem := used_mem h - (sz - newsize)\<rparr>;
           let ptr2 = ptr + SIZEOF_STRUCT_MEM + newsize;
           let h = upd_hdr ptr2 (\<lambda>_. \<lparr>hm_magic = HEAP_MAGIC, hm_used = 0, hm_next = hm_next (hdr h ptr), hm_prev = ptr\<rparr>) h;
           let h = upd_hdr ptr (\<lambda>x. x\<lparr>hm_next := ptr2\<rparr>) h;
           let h = (if hm_next (hdr h ptr2) \<noteq> mem_size_aligned h + SIZEOF_STRUCT_MEM
                    then upd_hdr (hm_next (hdr h ptr2)) (\<lambda>x. x\<lparr>hm_prev := ptr2\<rparr>) h else h);
           h \<leftarrow> plug_holes ptr2 h;
           Some (rmem, heap_release h, m)
         } else do {
           let h = heap_release h;
           (nmem, h) \<leftarrow> rt_malloc nest newsize h;
           if nmem \<noteq> 0 then do {
             let m = rt_memcpy nmem rmem (if sz < newsize then sz else newsize) m;
             h \<leftarrow> rt_free nest rmem h;
             Some (nmem, h, m)
           } else Some (nmem, h, m)
         }
       }
     }
   }"

definition rt_calloc :: "u8 \<Rightarrow> u32 \<Rightarrow> u32 \<Rightarrow> heap \<Rightarrow> mem \<Rightarrow> (u32 \<times> heap \<times> mem) option" where
  "rt_calloc nest count sz h m = do {
     rt_assert (nest = 0);
     (p, h) \<leftarrow> rt_malloc nest (count * sz) h;
     Some (p, h, if p \<noteq> 0 then rt_memset p 0 (count * sz) m else m)
   }"

definition rt_memory_info :: "heap \<Rightarrow> u32 \<times> u32 \<times> u32" where
  "rt_memory_info h = (mem_size_aligned h, used_mem h, max_mem h)"

subsection \<open>The chain of blocks\<close>

text \<open>
  The blocks from \<open>p\<close> up to \<open>e\<close>, the block before \<open>p\<close> being \<open>q\<close>: each is aligned, holds at least
  its header, and knows its neighbours.
\<close>

fun hseg :: "(u32 \<Rightarrow> heap_mem) \<Rightarrow> u32 \<Rightarrow> u32 \<Rightarrow> u32 list \<Rightarrow> u32 \<Rightarrow> bool" where
  "hseg H q p [] e \<longleftrightarrow> p = e"
| "hseg H q p (x # xs) e \<longleftrightarrow> x = p \<and> hm_prev (H p) = q \<and> hm_magic (H p) = HEAP_MAGIC \<and> 4 dvd unat p \<and>
     unat p + 12 \<le> unat (hm_next (H p)) \<and> hseg H p (hm_next (H p)) xs e"

lemma hseg_append: "hseg H q p (xs @ ys) e \<longleftrightarrow> (\<exists>m. hseg H q p xs m \<and> hseg H (last (q # xs)) m ys e)"
  by (induction xs arbitrary: q p) auto

lemma hseg_cong: "(\<And>x. x \<in> set xs \<Longrightarrow> H' x = H x) \<Longrightarrow> hseg H' q p xs e = hseg H q p xs e"
  by (induction xs arbitrary: q p) auto

lemma hseg_le: "hseg H q p xs e \<Longrightarrow> unat p \<le> unat e"
  by (induction xs arbitrary: q p) (auto, fastforce)

lemma hseg_bounds: "hseg H q p xs e \<Longrightarrow> x \<in> set xs \<Longrightarrow> unat p \<le> unat x \<and> unat x + 12 \<le> unat e"
proof (induction xs arbitrary: q p)
  case (Cons y ys)
  then have y: "y = p" "unat p + 12 \<le> unat (hm_next (H p))" "hseg H p (hm_next (H p)) ys e" by auto
  show ?case
  proof (cases "x = p")
    case True
    then show ?thesis using y hseg_le[OF y(3)] by simp
  next
    case False
    then show ?thesis using Cons.IH[OF y(3)] Cons.prems(2) y by auto
  qed
qed simp

lemma hseg_distinct: "hseg H q p xs e \<Longrightarrow> distinct xs"
proof (induction xs arbitrary: q p)
  case (Cons y ys)
  then have y: "y = p" "unat p + 12 \<le> unat (hm_next (H p))" "hseg H p (hm_next (H p)) ys e" by auto
  have "p \<notin> set ys" using hseg_bounds[OF y(3), of p] y(2) by auto
  then show ?case using Cons.IH[OF y(3)] y(1) by simp
qed simp

lemma hseg_end_notin: "hseg H q p xs e \<Longrightarrow> e \<notin> set xs"
  using hseg_bounds[of H q p xs e e] by auto

lemma hseg_block:
  assumes "hseg H q p (as @ x # bs) e"
  shows "hseg H q p as x" "hm_prev (H x) = last (q # as)" "hm_magic (H x) = HEAP_MAGIC" "4 dvd unat x"
    "unat x + 12 \<le> unat (hm_next (H x))" "hseg H x (hm_next (H x)) bs e"
  using assms by (auto simp: hseg_append)

lemma hsegI:
  assumes "hseg H q p as x" "hm_prev (H x) = last (q # as)" "hm_magic (H x) = HEAP_MAGIC" "4 dvd unat x"
    "unat x + 12 \<le> unat (hm_next (H x))" "hseg H x (hm_next (H x)) bs e"
  shows "hseg H q p (as @ x # bs) e"
  using assms by (auto simp: hseg_append)

text \<open>Changing the predecessor of what follows, in the next header if there is one.\<close>

lemma hseg_relink:
  assumes "hseg H q z bs e" "distinct (z # tl bs)" "\<And>x. x \<in> set bs \<Longrightarrow> x \<noteq> z \<Longrightarrow> H' x = H x"
    and "bs \<noteq> [] \<Longrightarrow> H' z = (H z)\<lparr>hm_prev := q'\<rparr>"
  shows "hseg H' q' z bs e"
proof (cases bs)
  case (Cons b bs')
  then have b: "b = z" using assms(1) by simp
  have "hseg H' z (hm_next (H z)) bs' e = hseg H z (hm_next (H z)) bs' e"
    by (rule hseg_cong) (use assms(2,3) Cons in auto)
  then show ?thesis using assms(1,4) Cons b by simp
qed (use assms(1) in simp)

text \<open>Merging block \<open>x\<close> with its successor \<open>y\<close>, and splitting block \<open>x\<close> at \<open>y\<close>.\<close>

lemma hseg_merge:
  assumes h: "hseg H q p (as @ x # y # bs) e" and z: "z = hm_next (H y)"
    and H': "H' x = (H x)\<lparr>hm_next := z\<rparr>" "\<And>w. w \<noteq> x \<Longrightarrow> w \<noteq> z \<Longrightarrow> H' w = H w" "H' z = (H z)\<lparr>hm_prev := x\<rparr>"
  shows "hseg H' q p (as @ x # bs) e"
proof -
  note X = hseg_block[OF h]
  have y: "hm_next (H x) = y" using X(6) by simp
  have Y: "unat y + 12 \<le> unat z" "hseg H y z bs e" using X(6) z by auto
  have d: "distinct (as @ x # y # bs)" by (rule hseg_distinct[OF h])
  have as: "unat a + 12 \<le> unat x" if "a \<in> set as" for a using hseg_bounds[OF X(1) that] by simp
  have bs: "unat z \<le> unat b" if "b \<in> set bs" for b using hseg_bounds[OF Y(2) that] by simp
  show ?thesis
  proof (rule hsegI)
    have "H' a = H a" if "a \<in> set as" for a
      by (rule H'(2)) (use as[OF that] Y(1) X(5) y in auto)
    then show "hseg H' q p as x" using X(1) hseg_cong[of as H' H] by blast
    have "distinct (z # tl bs)" using d Y(2) by (cases bs) auto
    then show "hseg H' x (hm_next (H' x)) bs e"
      unfolding H'(1) using Y bs X(5) y d by (auto intro!: hseg_relink[OF Y(2)] H'(2) H'(3))
  qed (use X Y H' y in auto)
qed

lemma hseg_split:
  assumes h: "hseg H q p (as @ x # bs) e" and z: "z = hm_next (H x)"
    and y: "unat x + 12 \<le> unat y" "unat y + 12 \<le> unat z" "4 dvd unat y"
    and H': "H' y = \<lparr>hm_magic = HEAP_MAGIC, hm_used = u, hm_next = z, hm_prev = x\<rparr>"
      "hm_next (H' x) = y" "hm_prev (H' x) = hm_prev (H x)" "hm_magic (H' x) = HEAP_MAGIC"
      "\<And>w. w \<noteq> x \<Longrightarrow> w \<noteq> y \<Longrightarrow> w \<noteq> z \<Longrightarrow> H' w = H w" "z \<noteq> e \<Longrightarrow> H' z = (H z)\<lparr>hm_prev := y\<rparr>"
  shows "hseg H' q p (as @ x # y # bs) e"
proof -
  note X = hseg_block[OF h]
  have Z: "hseg H x z bs e" using X(6) z by simp
  have d: "distinct (as @ x # bs)" by (rule hseg_distinct[OF h])
  have as: "unat a + 12 \<le> unat x" if "a \<in> set as" for a using hseg_bounds[OF X(1) that] by simp
  have bs: "unat z \<le> unat b" if "b \<in> set bs" for b using hseg_bounds[OF Z that] by simp
  have ze: "z \<noteq> e" if "bs \<noteq> []" using Z hseg_end_notin[OF Z] that by (cases bs) auto
  have dz: "distinct (z # tl bs)" using d Z by (cases bs) auto
  have "H' b = H b" if "b \<in> set bs" "b \<noteq> z" for b
    by (rule H'(5)) (use bs[OF that(1)] that(2) y in auto)
  then have zbs: "hseg H' y z bs e"
    by (rule hseg_relink[OF Z dz]) (use ze H'(6) in auto)
  show ?thesis
  proof (rule hsegI)
    have "H' a = H a" if "a \<in> set as" for a
      by (rule H'(5)) (use as[OF that] y in auto)
    then show "hseg H' q p as x" using X(1) hseg_cong[of as H' H] by blast
    show "hseg H' x (hm_next (H' x)) (y # bs) e" using zbs y H'(1,2) by simp
  qed (use X y H' in auto)
qed

subsection \<open>Well-formed heaps\<close>

text \<open>The blocks in use, with their extents; and the property that no two neighbours are free.\<close>

definition live :: "(u32 \<Rightarrow> heap_mem) \<Rightarrow> u32 list \<Rightarrow> u32 \<rightharpoonup> u32" where
  "live H ps = (\<lambda>p. if p \<in> set ps \<and> hm_used (H p) \<noteq> 0 then Some (hm_next (H p)) else None)"

definition coalesced :: "(u32 \<Rightarrow> heap_mem) \<Rightarrow> u32 list \<Rightarrow> bool" where
  "coalesced H ps \<longleftrightarrow> successively (\<lambda>x y. hm_used (H x) \<noteq> 0 \<or> hm_used (H y) \<noteq> 0) ps"

lemma coalesced_Cons: "coalesced H (x # xs) \<longleftrightarrow> xs = [] \<or> coalesced H xs \<and> (hm_used (H x) \<noteq> 0 \<or> hm_used (H (hd xs)) \<noteq> 0)"
  by (auto simp: coalesced_def successively_Cons)

lemma coalesced_append:
  "coalesced H (xs @ ys) \<longleftrightarrow> coalesced H xs \<and> coalesced H ys \<and>
     (xs = [] \<or> ys = [] \<or> hm_used (H (last xs)) \<noteq> 0 \<or> hm_used (H (hd ys)) \<noteq> 0)"
  by (auto simp: coalesced_def successively_append_iff)

lemma coalesced_Nil [simp]: "coalesced H []"
  by (simp add: coalesced_def)

definition heap_frame :: "heap \<Rightarrow> bool" where
  "heap_frame h \<longleftrightarrow> heap_end h = mem_size_aligned h + 12 \<and> unat (heap_ptr h) + unat (mem_size_aligned h) + 24 < 2 ^ 32 \<and>
     12 \<le> unat (mem_size_aligned h) \<and> 4 dvd unat (heap_ptr h) \<and> 4 dvd unat (mem_size_aligned h) \<and> hm_used (hdr h (heap_end h)) \<noteq> 0"

definition heap_chain :: "heap \<Rightarrow> u32 list \<Rightarrow> bool" where
  "heap_chain h ps \<longleftrightarrow> heap_frame h \<and> hseg (hdr h) 0 0 ps (heap_end h) \<and>
     (\<forall>p \<in> set ps. hm_used (hdr h p) \<noteq> 0 \<longrightarrow> unat p + 12 < unat (heap_end h)) \<and>
     (lfree h = heap_end h \<or> lfree h \<in> set ps \<and> hm_used (hdr h (lfree h)) = 0)"

definition heap_inv :: "heap \<Rightarrow> u32 list \<Rightarrow> bool" where
  "heap_inv h ps \<longleftrightarrow> heap_chain h ps \<and> coalesced (hdr h) ps"

definition same_heap :: "heap \<Rightarrow> heap \<Rightarrow> bool" where
  "same_heap h h' \<longleftrightarrow> heap_ptr h' = heap_ptr h \<and> heap_end h' = heap_end h \<and> mem_size_aligned h' = mem_size_aligned h \<and>
     heap_sem h' = heap_sem h \<and> used_mem h' = used_mem h \<and> max_mem h' = max_mem h"

lemma heap_frame_cong:
  "heap_frame h \<Longrightarrow> heap_ptr h' = heap_ptr h \<Longrightarrow> heap_end h' = heap_end h \<Longrightarrow> mem_size_aligned h' = mem_size_aligned h \<Longrightarrow>
   hm_used (hdr h' (heap_end h)) = hm_used (hdr h (heap_end h)) \<Longrightarrow> heap_frame h'"
  unfolding heap_frame_def by metis

lemma unat_heap_end: "heap_frame h \<Longrightarrow> unat (heap_end h) = unat (mem_size_aligned h) + 12"
  by (auto simp: heap_frame_def unat_word_ariths)

lemma unat_addr:
  assumes "heap_frame h" "unat p \<le> unat (heap_end h)"
  shows "unat (addr h p) = unat (heap_ptr h) + unat p"
proof -
  have "unat (heap_ptr h) + unat p < 2 ^ 32"
    using assms unat_heap_end[OF assms(1)] by (auto simp: heap_frame_def)
  then show ?thesis by (simp add: addr_def unat_word_ariths)
qed

text \<open>The two steps of \<^verbatim>\<open>plug_holes\<close>.\<close>

definition plug_forward :: "u32 \<Rightarrow> heap \<Rightarrow> heap" where
  "plug_forward mem h =
    (let nmem = hm_next (hdr h mem) in
     if mem \<noteq> nmem \<and> hm_used (hdr h nmem) = 0 \<and> nmem \<noteq> heap_end h then
       let h = (if lfree h = nmem then h\<lparr>lfree := mem\<rparr> else h);
           h = upd_hdr mem (\<lambda>m. m\<lparr>hm_next := hm_next (hdr h nmem)\<rparr>) h
       in upd_hdr (hm_next (hdr h nmem)) (\<lambda>m. m\<lparr>hm_prev := mem\<rparr>) h
     else h)"

definition plug_backward :: "u32 \<Rightarrow> heap \<Rightarrow> heap" where
  "plug_backward mem h =
    (let pmem = hm_prev (hdr h mem) in
     if pmem \<noteq> mem \<and> hm_used (hdr h pmem) = 0 then
       let h = (if lfree h = mem then h\<lparr>lfree := pmem\<rparr> else h);
           h = upd_hdr pmem (\<lambda>m. m\<lparr>hm_next := hm_next (hdr h mem)\<rparr>) h
       in upd_hdr (hm_next (hdr h mem)) (\<lambda>m. m\<lparr>hm_prev := pmem\<rparr>) h
     else h)"

lemma plug_holes_eq:
  "plug_holes mem h = do {
     rt_assert (addr h mem \<ge> heap_ptr h);
     rt_assert (addr h mem < addr h (heap_end h));
     rt_assert (hm_used (hdr h mem) = 0);
     Some (plug_backward mem (plug_forward mem h))
   }"
  unfolding plug_holes_def plug_forward_def plug_backward_def Let_def by simp

text \<open>Merging two free blocks changes neither the blocks in use nor the frame.\<close>

definition merged :: "u32 \<Rightarrow> u32 \<Rightarrow> heap \<Rightarrow> heap" where
  "merged x y h =
    (let h = (if lfree h = y then h\<lparr>lfree := x\<rparr> else h);
         h = upd_hdr x (\<lambda>m. m\<lparr>hm_next := hm_next (hdr h y)\<rparr>) h
     in upd_hdr (hm_next (hdr h y)) (\<lambda>m. m\<lparr>hm_prev := x\<rparr>) h)"

lemma merged_ok:
  assumes c: "heap_chain h (as @ x # y # bs)" and u: "hm_used (hdr h x) = 0" "hm_used (hdr h y) = 0"
  shows "heap_chain (merged x y h) (as @ x # bs)" "same_heap h (merged x y h)"
    "live (hdr (merged x y h)) (as @ x # bs) = live (hdr h) (as @ x # y # bs)"
    "\<And>w. hm_used (hdr (merged x y h) w) = hm_used (hdr h w)"
proof -
  let ?H = "hdr h" and ?e = "heap_end h" and ?z = "hm_next (hdr h y)"
  have h: "hseg ?H 0 0 (as @ x # y # bs) ?e" using c by (simp add: heap_chain_def)
  note X = hseg_block[OF h]
  have y: "hm_next (?H x) = y" "unat y + 12 \<le> unat ?z" using X(6) by auto
  have ne: "x \<noteq> y" "x \<noteq> ?z" "y \<noteq> ?z" using X(5) y by auto
  have H: "hdr (merged x y h) = ?H(x := (?H x)\<lparr>hm_next := ?z\<rparr>, ?z := (?H ?z)\<lparr>hm_prev := x\<rparr>)"
    using ne by (auto simp: merged_def upd_hdr_def Let_def)
  show used: "hm_used (hdr (merged x y h) w) = hm_used (?H w)" for w
    using ne by (simp add: H)
  have seg: "hseg (hdr (merged x y h)) 0 0 (as @ x # bs) ?e"
    by (rule hseg_merge[OF h refl]) (use ne in \<open>auto simp: H\<close>)
  show s: "same_heap h (merged x y h)" by (simp add: same_heap_def merged_def upd_hdr_def Let_def)
  have lf: "lfree (merged x y h) = (if lfree h = y then x else lfree h)"
    by (simp add: merged_def upd_hdr_def Let_def)
  show "heap_chain (merged x y h) (as @ x # bs)"
    using c s seg used u lf by (auto simp: heap_chain_def heap_frame_def same_heap_def)
  have d: "distinct (as @ x # y # bs)" by (rule hseg_distinct[OF h])
  have "hm_next (hdr (merged x y h) w) = hm_next (?H w)" if "hm_used (?H w) \<noteq> 0" for w
    using that ne u(1) by (auto simp: H)
  then show "live (hdr (merged x y h)) (as @ x # bs) = live ?H (as @ x # y # bs)"
    using u used by (auto simp: live_def fun_eq_iff)
qed

lemma coalesced_cong: "(\<And>w. hm_used (H' w) = hm_used (H w)) \<Longrightarrow> coalesced H' ps = coalesced H ps"
  by (simp add: coalesced_def)

lemma plug_forward_ok:
  assumes c: "heap_chain h (as @ mem # bs)" and u: "hm_used (hdr h mem) = 0" and b: "coalesced (hdr h) bs"
  shows "\<exists>bs'. heap_chain (plug_forward mem h) (as @ mem # bs') \<and> same_heap h (plug_forward mem h) \<and>
    live (hdr (plug_forward mem h)) (as @ mem # bs') = live (hdr h) (as @ mem # bs) \<and>
    (\<forall>w. hm_used (hdr (plug_forward mem h) w) = hm_used (hdr h w)) \<and> coalesced (hdr h) (mem # bs')"
proof -
  have h: "hseg (hdr h) 0 0 (as @ mem # bs) (heap_end h)" using c by (simp add: heap_chain_def)
  note X = hseg_block[OF h]
  show ?thesis
  proof (cases "bs = [] \<or> hm_used (hdr h (hd bs)) \<noteq> 0")
    case True
    then have "plug_forward mem h = h" using X(6) by (cases bs) (auto simp: plug_forward_def Let_def)
    then show ?thesis using True c b by (intro exI[of _ bs]) (auto simp: same_heap_def coalesced_Cons)
  next
    case False
    then obtain y bs' where y: "bs = y # bs'" "hm_used (hdr h y) = 0" by (cases bs) auto
    then have n: "hm_next (hdr h mem) = y" "mem \<noteq> y" using X(5,6) by auto
    have "y \<noteq> heap_end h" using c y(2) by (auto simp: heap_chain_def heap_frame_def)
    then have "plug_forward mem h = merged mem y h" using n y(2) by (simp add: plug_forward_def merged_def Let_def)
    moreover have "coalesced (hdr h) (mem # bs')" using b y by (auto simp: coalesced_Cons)
    ultimately show ?thesis using merged_ok[of h as mem y bs'] c u y by auto
  qed
qed

lemma plug_backward_ok:
  assumes c: "heap_chain h (as @ mem # bs)" and u: "hm_used (hdr h mem) = 0" and b: "coalesced (hdr h) as" "coalesced (hdr h) (mem # bs)"
  shows "\<exists>ps. heap_inv (plug_backward mem h) ps \<and> same_heap h (plug_backward mem h) \<and>
    live (hdr (plug_backward mem h)) ps = live (hdr h) (as @ mem # bs)"
proof -
  have h: "hseg (hdr h) 0 0 (as @ mem # bs) (heap_end h)" using c by (simp add: heap_chain_def)
  note X = hseg_block[OF h]
  show ?thesis
  proof (cases "as = [] \<or> hm_used (hdr h (last as)) \<noteq> 0")
    case True
    then have "plug_backward mem h = h" using X(1,2) by (auto simp: plug_backward_def Let_def split: if_splits)
    moreover have "coalesced (hdr h) (as @ mem # bs)" using True b by (auto simp: coalesced_append)
    ultimately show ?thesis using c by (auto simp: heap_inv_def same_heap_def)
  next
    case False
    then obtain as' a where a: "as = as' @ [a]" "hm_used (hdr h a) = 0" by (cases as rule: rev_cases) auto
    then have p: "hm_prev (hdr h mem) = a" "a \<noteq> mem" using X(2) hseg_distinct[OF h] by auto
    have eq: "plug_backward mem h = merged a mem h" using p a(2) by (simp add: plug_backward_def merged_def Let_def)
    have c': "heap_chain h (as' @ a # mem # bs)" using c a(1) by simp
    note M = merged_ok[OF c' a(2) u]
    have "coalesced (hdr h) (as' @ a # bs)" using b a u by (auto simp: coalesced_append coalesced_Cons)
    then have "coalesced (hdr (merged a mem h)) (as' @ a # bs)" 
      using coalesced_cong[of "hdr (merged a mem h)" "hdr h"] M(4) by blast
    then show ?thesis using M(1-3) a(1) eq by (auto simp: heap_inv_def)
  qed
qed

lemma plug_holes_ok:
  assumes c: "heap_chain h (as @ mem # bs)" and u: "hm_used (hdr h mem) = 0" and b: "coalesced (hdr h) as" "coalesced (hdr h) bs"
  shows "\<exists>h' ps. plug_holes mem h = Some h' \<and> heap_inv h' ps \<and> same_heap h h' \<and> live (hdr h') ps = live (hdr h) (as @ mem # bs)"
proof -
  have f: "heap_frame h" and h: "hseg (hdr h) 0 0 (as @ mem # bs) (heap_end h)" using c by (simp_all add: heap_chain_def)
  have m: "unat mem + 12 \<le> unat (heap_end h)" using hseg_bounds[OF h, of mem] by simp
  have "addr h mem \<ge> heap_ptr h" "addr h mem < addr h (heap_end h)"
    using unat_addr[OF f, of mem] unat_addr[OF f, of "heap_end h"] m by (simp_all add: word_le_nat_alt word_less_nat_alt)
  moreover obtain bs' where 1: "heap_chain (plug_forward mem h) (as @ mem # bs')" "same_heap h (plug_forward mem h)"
    "live (hdr (plug_forward mem h)) (as @ mem # bs') = live (hdr h) (as @ mem # bs)"
    "\<forall>w. hm_used (hdr (plug_forward mem h) w) = hm_used (hdr h w)" "coalesced (hdr h) (mem # bs')"
    using plug_forward_ok[OF c u b(2)] by blast
  moreover have "hm_used (hdr (plug_forward mem h) mem) = 0" using 1(4) u by simp
  moreover have "coalesced (hdr (plug_forward mem h)) as" "coalesced (hdr (plug_forward mem h)) (mem # bs')"
    using b(1) 1(4,5) coalesced_cong by metis+
  ultimately show ?thesis
    using plug_backward_ok[of "plug_forward mem h" as mem bs'] u by (auto simp: plug_holes_eq same_heap_def)
qed

subsection \<open>Release\<close>

lemma and3_iff: "(w :: u32) AND 3 = 0 \<longleftrightarrow> 4 dvd unat w"
proof -
  have "w AND 3 = take_bit 2 w" by (simp add: take_bit_eq_mask mask_eq_exp_minus_1)
  also have "\<dots> = 0 \<longleftrightarrow> take_bit 2 (unat w) = 0" by (simp add: word_unat_eq_iff unsigned_take_bit_eq)
  finally show ?thesis by (simp add: take_bit_eq_mod dvd_eq_mod_eq_0)
qed

lemma hseg_cong_links:
  "(\<And>x. x \<in> set xs \<Longrightarrow> hm_next (H' x) = hm_next (H x) \<and> hm_prev (H' x) = hm_prev (H x) \<and> hm_magic (H' x) = hm_magic (H x)) \<Longrightarrow>
   hseg H' q p xs e = hseg H q p xs e"
  by (induction xs arbitrary: q p) auto

lemma coalesced_on: "(\<And>w. w \<in> set ps \<Longrightarrow> hm_used (H' w) = hm_used (H w)) \<Longrightarrow> coalesced H' ps = coalesced H ps"
  unfolding coalesced_def by (rule successively_cong) auto

lemma coalesced_upd [simp]: "p \<notin> set ps \<Longrightarrow> coalesced (H(p := v)) ps = coalesced H ps"
  by (rule coalesced_on) auto

lemma block_addr:
  assumes f: "heap_frame h" and p: "unat p + 12 < unat (heap_end h)" "4 dvd unat p"
  shows "unat (addr h p + 12) = unat (heap_ptr h) + unat p + 12" "addr h p + 12 \<noteq> 0" "(addr h p + 12) AND 3 = 0"
    "addr h p + 12 \<ge> heap_ptr h" "addr h p + 12 < addr h (heap_end h)" "addr h p + 12 - 12 - heap_ptr h = p"
proof -
  have "unat (heap_ptr h) + unat p + 12 < 2 ^ 32"
    using f p(1) unat_heap_end[OF f] by (auto simp: heap_frame_def)
  then show u: "unat (addr h p + 12) = unat (heap_ptr h) + unat p + 12"
    by (simp add: addr_def unat_word_ariths)
  then have "unat (addr h p + 12) \<noteq> 0" by simp
  then show "addr h p + 12 \<noteq> 0" by (metis unat_0)
  have "4 dvd unat (heap_ptr h)" using f by (simp add: heap_frame_def)
  then show "(addr h p + 12) AND 3 = 0" unfolding and3_iff u using p(2) by (intro dvd_add) simp_all
  show "addr h p + 12 \<ge> heap_ptr h" "addr h p + 12 < addr h (heap_end h)"
    using u unat_addr[OF f, of "heap_end h"] p(1) by (simp_all add: word_le_nat_alt word_less_nat_alt)
  show "addr h p + 12 - 12 - heap_ptr h = p" by (simp add: addr_def)
qed

definition heap_ok :: "heap \<Rightarrow> u32 list \<Rightarrow> bool" where
  "heap_ok h ps \<longleftrightarrow> heap_inv h ps \<and> heap_sem h = 1"

lemma rt_free_ok:
  assumes ok: "heap_ok h ps" and p: "live (hdr h) ps p = Some e"
  shows "\<exists>h' ps'. rt_free 0 (addr h p + 12) h = Some h' \<and> heap_ok h' ps' \<and> live (hdr h') ps' = (live (hdr h) ps)(p := None) \<and>
    heap_ptr h' = heap_ptr h \<and> heap_end h' = heap_end h \<and> mem_size_aligned h' = mem_size_aligned h \<and>
    used_mem h' = used_mem h - (e - p)"
proof -
  have u: "p \<in> set ps" "hm_used (hdr h p) \<noteq> 0" "hm_next (hdr h p) = e" using p by (auto simp: live_def split: if_splits)
  then obtain as bs where ps: "ps = as @ p # bs" by (meson split_list)
  have c: "heap_chain h ps" "coalesced (hdr h) ps" "heap_sem h = 1" using ok by (auto simp: heap_ok_def heap_inv_def)
  have f: "heap_frame h" and h: "hseg (hdr h) 0 0 (as @ p # bs) (heap_end h)" using c(1) ps by (simp_all add: heap_chain_def)
  note X = hseg_block[OF h] and d = hseg_distinct[OF h]
  have pe: "unat p + 12 < unat (heap_end h)" using c(1) u by (auto simp: heap_chain_def)
  note B = block_addr[OF f pe X(4)]
  let ?h = "h\<lparr>heap_sem := 0, hdr := (hdr h)(p := (hdr h p)\<lparr>hm_used := 0\<rparr>), lfree := (if p < lfree h then p else lfree h),
    used_mem := used_mem h - (e - p)\<rparr>"
  have lf: "lfree h \<noteq> p" using c(1) u pe by (auto simp: heap_chain_def)
  have seg: "hseg (hdr ?h) 0 0 ps (heap_end h) = hseg (hdr h) 0 0 ps (heap_end h)" by (rule hseg_cong_links) auto
  have ne: "p \<noteq> heap_end h" using pe by auto
  have ch: "heap_chain ?h (as @ p # bs)"
    using c(1) seg ne lf u(1) ps unfolding heap_chain_def heap_frame_def by auto
  have co: "coalesced (hdr ?h) as" "coalesced (hdr ?h) bs"
    using c(2) d ps by (auto simp: coalesced_append coalesced_Cons)
  obtain h' ps' where h': "plug_holes p ?h = Some h'" "heap_inv h' ps'" "same_heap ?h h'"
    "live (hdr h') ps' = live (hdr ?h) (as @ p # bs)"
    using plug_holes_ok[OF ch _ co] by auto
  have "live (hdr ?h) ps = (live (hdr h) ps)(p := None)" by (auto simp: live_def fun_eq_iff)
  moreover have "rt_free 0 (addr h p + 12) h = Some (heap_release h')"
  proof -
    have eq: "(hdr h p)\<lparr>hm_used := 0, hm_magic := HEAP_MAGIC\<rparr> = (hdr h p)\<lparr>hm_used := 0\<rparr>" using X(3) by (cases "hdr h p") simp
    have "heap_take h = Some (h\<lparr>heap_sem := 0\<rparr>)" using c(3) by (simp add: heap_take_def)
    moreover have "h\<lparr>heap_sem := 0, hdr := H, lfree := lfree h, used_mem := u\<rparr> = h\<lparr>heap_sem := 0, hdr := H, used_mem := u\<rparr>" for H u
      by (rule heap.equality) simp_all
    ultimately show ?thesis
      using B u X(3) h'(1) unfolding rt_free_def
      by (cases "p < lfree h") (simp_all add: upd_hdr_def addr_def eq Let_def del: word_and_eq_self_iff)
  qed
  moreover have "heap_ok (heap_release h') ps'"
    using h'(2,3) by (auto simp: heap_ok_def heap_release_def heap_inv_def heap_chain_def heap_frame_def same_heap_def)
  ultimately show ?thesis
    using h'(3,4) ps by (intro exI[of _ "heap_release h'"] exI[of _ ps']) (simp add: heap_release_def same_heap_def)
qed

subsection \<open>Allocation\<close>

text \<open>The size of the block \<^verbatim>\<open>rt_malloc\<close> looks for, and the test of its search loop.\<close>

definition need :: "u32 \<Rightarrow> u32" where
  "need sz = (if RT_ALIGN sz 4 < 12 then 12 else RT_ALIGN sz 4)"

definition fits :: "heap \<Rightarrow> u32 \<Rightarrow> u32 \<Rightarrow> bool" where
  "fits h sz x \<longleftrightarrow> x < mem_size_aligned h - sz \<and> hm_used (hdr h x) = 0 \<and> hm_next (hdr h x) - (x + 12) \<ge> sz"

lemma RT_ALIGN_dvd: "4 dvd unat (RT_ALIGN sz 4)"
proof -
  have "RT_ALIGN sz 4 AND 3 = 0" by (simp add: RT_ALIGN_def and.assoc)
  then show ?thesis by (simp add: and3_iff)
qed

lemma need_dvd: "4 dvd unat (need sz)" "12 \<le> unat (need sz)"
  by (auto simp: need_def RT_ALIGN_dvd word_less_nat_alt)

lemma malloc_scan_ok:
  assumes f: "heap_frame h" and sz: "unat sz \<le> unat (mem_size_aligned h)" and s: "hseg (hdr h) q p bs (heap_end h)"
  shows "malloc_scan sz p h = Some (find (fits h sz) bs)"
  using s
proof (induction bs arbitrary: q p)
  case Nil
  have "unat (mem_size_aligned h - sz) \<le> unat (mem_size_aligned h)" using sz by (simp add: unat_sub word_le_nat_alt)
  then have "\<not> heap_end h < mem_size_aligned h - sz" using unat_heap_end[OF f] by (simp add: word_less_nat_alt)
  then show ?case using Nil by (simp add: malloc_scan.simps)
next
  case (Cons x xs)
  then have x: "x = p" "hseg (hdr h) p (hm_next (hdr h p)) xs (heap_end h)" "unat p + 12 \<le> unat (hm_next (hdr h p))" by auto
  show ?case
  proof (cases "p < mem_size_aligned h - sz")
    case True
    then show ?thesis using Cons.IH[OF x(2)] x(1) by (subst malloc_scan.simps) (auto simp: fits_def[of h sz p])
  next
    case False
    have "\<not> fits h sz y" if "y \<in> set xs" for y
      using False hseg_bounds[OF x(2) that] x(3) by (auto simp: fits_def word_less_nat_alt)
    then have "find (fits h sz) xs = None" by (auto simp: find_None_iff)
    then show ?thesis using False x(1) by (subst malloc_scan.simps) (simp add: fits_def[of h sz p])
  qed
qed

lemma skip_used_ok:
  assumes "hseg (hdr h) q p bs (heap_end h)"
  shows "skip_used p h = Some (case find (\<lambda>x. hm_used (hdr h x) = 0) bs of None \<Rightarrow> heap_end h | Some x \<Rightarrow> x)"
  using assms
proof (induction bs arbitrary: q p)
  case (Cons x xs)
  then have x: "x = p" "hseg (hdr h) p (hm_next (hdr h p)) xs (heap_end h)" by auto
  have "p \<noteq> heap_end h" using hseg_end_notin[OF Cons.prems] x(1) by auto
  then show ?case using Cons.IH[OF x(2)] x(1) by (subst skip_used.simps) auto
qed (simp add: skip_used.simps)

lemma count_used_sel [simp]:
  "hdr (count_used n h) = hdr h" "heap_ptr (count_used n h) = heap_ptr h" "heap_end (count_used n h) = heap_end h"
  "mem_size_aligned (count_used n h) = mem_size_aligned h" "lfree (count_used n h) = lfree h" "heap_sem (count_used n h) = heap_sem h"
  "used_mem (count_used n h) = used_mem h + n"
  by (simp_all add: count_used_def Let_def)

lemma fits_bounds:
  assumes f: "heap_frame h" and x: "fits h sz x" "unat x + 12 \<le> unat (hm_next (hdr h x))" "unat (hm_next (hdr h x)) \<le> unat (heap_end h)"
  shows "unat x + 12 + unat sz \<le> unat (hm_next (hdr h x))"
    "unat (x + 12 + sz) = unat x + 12 + unat sz"
    "hm_next (hdr h x) - (x + 12) \<ge> sz + 12 + 12 \<longleftrightarrow> unat x + 12 + unat sz + 24 \<le> unat (hm_next (hdr h x))"
proof -
  have n: "unat (hm_next (hdr h x) - (x + 12)) = unat (hm_next (hdr h x)) - (unat x + 12)"
  proof -
    have "unat (x + 12) = unat x + 12" using x(2) unat_u32_less[of "hm_next (hdr h x)"] by (simp add: unat_word_ariths)
    then show ?thesis using x(2) by (simp add: unat_sub word_le_nat_alt)
  qed
  show b: "unat x + 12 + unat sz \<le> unat (hm_next (hdr h x))"
    using x(1,2) n by (auto simp: fits_def word_le_nat_alt)
  have l: "unat (heap_end h) + 12 < 2 ^ 32" using f unat_heap_end[OF f] by (auto simp: heap_frame_def)
  show "unat (x + 12 + sz) = unat x + 12 + unat sz"
    using b unat_u32_less[of "hm_next (hdr h x)"] by (simp add: unat_word_ariths)
  have "unat (sz + 12 + 12) = unat sz + 24" using b l x(3) by (simp add: unat_word_ariths)
  then show "hm_next (hdr h x) - (x + 12) \<ge> sz + 12 + 12 \<longleftrightarrow> unat x + 12 + unat sz + 24 \<le> unat (hm_next (hdr h x))"
    unfolding word_le_nat_alt n using x(2) by linarith
qed

text \<open>A heap in which block \<open>x\<close> has been given out up to \<open>e\<close>; \<open>lfree\<close> may still point to \<open>x\<close>.\<close>

definition taken :: "u32 \<Rightarrow> u32 \<Rightarrow> heap \<Rightarrow> u32 list \<Rightarrow> heap \<Rightarrow> u32 list \<Rightarrow> bool" where
  "taken x e h ps h' ps' \<longleftrightarrow> hseg (hdr h') 0 0 ps' (heap_end h) \<and> coalesced (hdr h') ps' \<and>
     live (hdr h') ps' = (live (hdr h) ps)(x \<mapsto> e) \<and> hm_used (hdr h' (heap_end h)) = hm_used (hdr h (heap_end h)) \<and>
     (\<forall>w \<in> set ps. w \<in> set ps' \<and> (w \<noteq> x \<longrightarrow> hm_used (hdr h' w) = hm_used (hdr h w))) \<and>
     (\<forall>w \<in> set ps'. hm_used (hdr h' w) \<noteq> 0 \<longrightarrow> w = x \<or> w \<in> set ps \<and> hm_used (hdr h w) \<noteq> 0) \<and>
     heap_ptr h' = heap_ptr h \<and> heap_end h' = heap_end h \<and> mem_size_aligned h' = mem_size_aligned h \<and>
     heap_sem h' = heap_sem h \<and> lfree h' = lfree h \<and> used_mem h' = used_mem h + (e - x)"

lemma malloc_take_whole:
  assumes c: "heap_chain h (as @ x # bs)" "coalesced (hdr h) (as @ x # bs)"
    and w: "\<not> hm_next (hdr h x) - (x + 12) \<ge> sz + 12 + 12"
  shows "taken x (hm_next (hdr h x)) h (as @ x # bs) (malloc_take sz x h) (as @ x # bs)"
proof -
  let ?h = "malloc_take sz x h"
  have h: "hseg (hdr h) 0 0 (as @ x # bs) (heap_end h)" using c(1) by (simp add: heap_chain_def)
  note X = hseg_block[OF h] and d = hseg_distinct[OF h]
  have H: "hdr ?h = (hdr h)(x := (hdr h x)\<lparr>hm_used := 1\<rparr>)"
    using w X(3) by (auto simp: malloc_take_def upd_hdr_def Let_def intro!: heap_mem.equality)
  have "hseg (hdr ?h) 0 0 (as @ x # bs) (heap_end h)"
    using h by (subst hseg_cong_links[of _ _ "hdr h"]) (auto simp: H)
  moreover have "x \<noteq> heap_end h" using hseg_end_notin[OF h] by auto
  moreover have "coalesced (hdr ?h) (as @ x # bs)"
    using c(2) d by (auto simp: H coalesced_append coalesced_Cons hd_in_set)
  ultimately show ?thesis
    using w by (auto simp: taken_def H live_def fun_eq_iff) (auto simp: malloc_take_def upd_hdr_def Let_def)
qed

lemma malloc_take_split:
  assumes c: "heap_chain h (as @ x # bs)" "coalesced (hdr h) (as @ x # bs)" and u: "hm_used (hdr h x) = 0"
    and w: "hm_next (hdr h x) - (x + 12) \<ge> sz + 12 + 12"
    and y: "y = x + 12 + sz" "unat y = unat x + 12 + unat sz" "unat y + 24 \<le> unat (hm_next (hdr h x))" "4 dvd unat sz" "12 \<le> unat sz"
  shows "taken x y h (as @ x # bs) (malloc_take sz x h) (as @ x # y # bs)"
proof -
  let ?h = "malloc_take sz x h" and ?z = "hm_next (hdr h x)" and ?e = "heap_end h"
  have h: "hseg (hdr h) 0 0 (as @ x # bs) ?e" and e: "?e = mem_size_aligned h + 12" using c(1) by (auto simp: heap_chain_def heap_frame_def)
  note X = hseg_block[OF h] and d = hseg_distinct[OF h]
  have ne: "x \<noteq> y" "x \<noteq> ?z" "y \<noteq> ?z" using y(2,3) by auto
  have ze: "unat ?z \<le> unat ?e" by (rule hseg_le[OF X(6)])
  then have yx: "y \<noteq> ?e" "x \<noteq> ?e" using y by auto
  have H: "hdr ?h = (hdr h)(y := \<lparr>hm_magic = HEAP_MAGIC, hm_used = 0, hm_next = ?z, hm_prev = x\<rparr>,
      x := (hdr h x)\<lparr>hm_next := y, hm_used := 1, hm_magic := HEAP_MAGIC\<rparr>,
      ?z := (if ?z = ?e then hdr h ?z else (hdr h ?z)\<lparr>hm_prev := y\<rparr>))"
    using w ne yx by (auto simp: malloc_take_def upd_hdr_def Let_def y(1)[symmetric] e)
  have f: "lfree ?h = lfree h" "heap_ptr ?h = heap_ptr h" "heap_end ?h = ?e" "mem_size_aligned ?h = mem_size_aligned h" "heap_sem ?h = heap_sem h"
    "used_mem ?h = used_mem h + (y - x)"
    using w by (simp_all add: malloc_take_def upd_hdr_def Let_def y(1) add.commute)
  have "4 dvd unat y" unfolding y(2) using X(4) y(4) by (intro dvd_add) simp_all
  then have seg: "hseg (hdr ?h) 0 0 (as @ x # y # bs) ?e"
    using y X(2,3) ne by (intro hseg_split[OF h refl]) (auto simp: H)
  note d' = hseg_distinct[OF seg]
  have used: "hm_used (hdr ?h w) = hm_used (hdr h w)" if "w \<noteq> x" "w \<noteq> y" for w using that by (simp add: H)
  have u': "hm_used (hdr ?h x) = 1" "hm_used (hdr ?h y) = 0" "hm_next (hdr ?h x) = y" using ne by (simp_all add: H)
  have nx: "hm_next (hdr ?h w) = hm_next (hdr h w)" if "w \<noteq> x" "w \<noteq> y" for w using that by (simp add: H)
  have "coalesced (hdr ?h) as" "coalesced (hdr ?h) bs"
    using c(2) d' used coalesced_on[of as "hdr ?h" "hdr h"] coalesced_on[of bs "hdr ?h" "hdr h"]
    by (force simp: coalesced_append coalesced_Cons)+
  moreover have "bs = [] \<or> hm_used (hdr ?h (hd bs)) \<noteq> 0"
    using c(2) u used[of "hd bs"] d' by (cases bs) (auto simp: coalesced_append coalesced_Cons)
  ultimately have "coalesced (hdr ?h) (as @ x # y # bs)" using u' by (auto simp: coalesced_append coalesced_Cons)
  moreover have "live (hdr ?h) (as @ x # y # bs) = (live (hdr h) (as @ x # bs))(x \<mapsto> y)"
  proof
    fix w
    show "live (hdr ?h) (as @ x # y # bs) w = ((live (hdr h) (as @ x # bs))(x \<mapsto> y)) w"
      using u' d' used[of w] nx[of w] by (cases "w = x"; cases "w = y") (auto simp: live_def)
  qed
  moreover have mem: "w \<noteq> x \<and> w \<noteq> y" if "w \<in> set (as @ bs)" for w using d' that by auto
  have "hm_used (hdr ?h w) = hm_used (hdr h w)" if "w \<in> set (as @ x # bs)" "w \<noteq> x" for w
    using that used[of w] mem[of w] by auto
  moreover have "w \<in> set (as @ x # bs) \<and> hm_used (hdr h w) \<noteq> 0" if "w \<in> set (as @ x # y # bs)" "hm_used (hdr ?h w) \<noteq> 0" "w \<noteq> x" for w
    using that u'(2) used[of w] mem[of w] by auto
  ultimately show ?thesis
    using seg used[of ?e] f yx unfolding taken_def by auto
qed

lemma malloc_take_ok:
  assumes i: "heap_inv h ps" and x: "x \<in> set ps" "fits h sz x" and sz: "4 dvd unat sz" "12 \<le> unat sz"
  shows "\<exists>e ps'. taken x e h ps (malloc_take sz x h) ps' \<and> unat x + 12 + unat sz \<le> unat e \<and> unat e \<le> unat (heap_end h)"
proof -
  obtain as bs where ps: "ps = as @ x # bs" using x(1) by (meson split_list)
  have c: "heap_chain h (as @ x # bs)" "coalesced (hdr h) (as @ x # bs)" and f: "heap_frame h"
    using i ps by (auto simp: heap_inv_def heap_chain_def)
  have h: "hseg (hdr h) 0 0 (as @ x # bs) (heap_end h)" using c(1) by (simp add: heap_chain_def)
  note X = hseg_block[OF h]
  note B = fits_bounds[OF f x(2) X(5) hseg_le[OF X(6)]]
  show ?thesis
  proof (cases "hm_next (hdr h x) - (x + 12) \<ge> sz + 12 + 12")
    case True
    then have "unat (x + 12 + sz) + 24 \<le> unat (hm_next (hdr h x))" using B by simp
    then show ?thesis
      using malloc_take_split[OF c _ True refl B(2) _ sz] x(2) B(2) hseg_le[OF X(6)] ps by (fastforce simp: fits_def)
  next
    case False
    then show ?thesis using malloc_take_whole[OF c False] B(1) hseg_le[OF X(6)] ps by blast
  qed
qed

text \<open>After the pointer to the lowest free block has been moved, the heap is well formed again.\<close>

lemma taken_inv:
  assumes i: "heap_inv h ps" and t: "taken x e h ps h' ps'" and x: "unat x + 12 < unat (heap_end h)"
  shows "lfree h' \<noteq> x \<Longrightarrow> heap_inv h' ps'"
    "\<exists>l. skip_used x h' = Some l \<and> heap_inv (h'\<lparr>lfree := l\<rparr>) ps' \<and> (l = heap_end h' \<or> hm_used (hdr h' l) = 0)"
proof -
  have c: "heap_chain h ps" using i by (simp add: heap_inv_def)
  have T: "hseg (hdr h') 0 0 ps' (heap_end h')" "coalesced (hdr h') ps'" "heap_frame h'"
    "lfree h' = lfree h" "heap_end h' = heap_end h"
    using c t heap_frame_cong[of h h'] unfolding taken_def heap_chain_def by metis+
  have U: "unat p + 12 < unat (heap_end h')" if p: "p \<in> set ps'" "hm_used (hdr h' p) \<noteq> 0" for p
  proof (cases "p = x")
    case False
    then have "p \<in> set ps \<and> hm_used (hdr h p) \<noteq> 0" using t p unfolding taken_def by blast
    then show ?thesis using c T(5) unfolding heap_chain_def by auto
  qed (use x T(5) in simp)
  show "heap_inv h' ps'" if "lfree h' \<noteq> x"
  proof -
    have "lfree h' = heap_end h' \<or> lfree h' \<in> set ps' \<and> hm_used (hdr h' (lfree h')) = 0"
      using c t that T(4,5) unfolding heap_chain_def taken_def by metis
    then show ?thesis using T U unfolding heap_inv_def heap_chain_def by blast
  qed
  have "live (hdr h') ps' x = Some e" using t by (simp add: taken_def)
  then have "x \<in> set ps'" by (auto simp: live_def split: if_splits)
  then obtain as bs where ps': "ps' = as @ x # bs" by (meson split_list)
  then have s: "hseg (hdr h') (last (0 # as)) x (x # bs) (heap_end h')" using T(1) by (auto simp: hseg_append)
  let ?l = "case find (\<lambda>x. hm_used (hdr h' x) = 0) (x # bs) of None \<Rightarrow> heap_end h' | Some x \<Rightarrow> x"
  have l: "?l = heap_end h' \<or> ?l \<in> set ps' \<and> hm_used (hdr h' ?l) = 0"
  proof (cases "find (\<lambda>x. hm_used (hdr h' x) = 0) (x # bs)")
    case (Some a)
    then have "a \<in> set (x # bs)" "hm_used (hdr h' a) = 0" unfolding find_Some_iff by (metis nth_mem)+
    then show ?thesis using Some ps' by auto
  qed simp
  define l where "l = ?l"
  have "skip_used x h' = Some l" unfolding l_def by (rule skip_used_ok[OF s])
  moreover have "l = heap_end h' \<or> l \<in> set ps' \<and> hm_used (hdr h' l) = 0" unfolding l_def by (rule l)
  ultimately show "\<exists>l. skip_used x h' = Some l \<and> heap_inv (h'\<lparr>lfree := l\<rparr>) ps' \<and> (l = heap_end h' \<or> hm_used (hdr h' l) = 0)"
    using T U by (intro exI[of _ l]) (auto simp: heap_inv_def heap_chain_def heap_frame_def)
qed

lemma lfree_suffix:
  assumes "heap_chain h ps"
  shows "\<exists>q bs. hseg (hdr h) q (lfree h) bs (heap_end h) \<and> set bs = {x \<in> set ps. lfree h \<le> x}"
proof (cases "lfree h = heap_end h")
  case True
  have s: "hseg (hdr h) 0 0 ps (heap_end h)" using assms by (simp add: heap_chain_def)
  have "\<not> lfree h \<le> x" if "x \<in> set ps" for x using hseg_bounds[OF s that] True by (auto simp: word_le_nat_alt)
  then have "{x \<in> set ps. lfree h \<le> x} = {}" by blast
  then show ?thesis using True by (intro exI[of _ 0] exI[of _ "[]"]) auto
next
  case False
  then obtain as bs where ps: "ps = as @ lfree h # bs" using assms by (auto simp: heap_chain_def dest!: split_list)
  have s: "hseg (hdr h) 0 0 (as @ lfree h # bs) (heap_end h)" using assms ps by (simp add: heap_chain_def)
  note X = hseg_block[OF s]
  have "\<not> lfree h \<le> a" if "a \<in> set as" for a using hseg_bounds[OF X(1) that] by (auto simp: word_le_nat_alt)
  moreover have "lfree h \<le> b" if "b \<in> set bs" for b using hseg_bounds[OF X(6) that] X(5) by (auto simp: word_le_nat_alt)
  ultimately have "set (lfree h # bs) = {x \<in> set ps. lfree h \<le> x}" using ps by auto
  moreover have "hseg (hdr h) (last (0 # as)) (lfree h) (lfree h # bs) (heap_end h)" using s by (auto simp: hseg_append)
  ultimately show ?thesis by blast
qed

lemma word_mod4: "(w :: u32) mod 4 = 0 \<longleftrightarrow> w AND 3 = 0"
proof -
  have "w mod 4 = take_bit 2 w" by (simp add: take_bit_eq_mod)
  also have "\<dots> = w AND 3" by (simp add: take_bit_eq_mask mask_eq_exp_minus_1)
  finally show ?thesis by simp
qed

lemma malloc_asserts:
  assumes f: "heap_frame h" and x: "unat x + 12 + unat n \<le> unat (heap_end h)" "4 dvd unat x" "0 < unat n"
  shows "addr h x + 12 + n \<le> addr h (heap_end h)" "(addr h x + 12) mod 4 = 0" "addr h x AND 3 = 0"
proof -
  have x12: "unat x + 12 < unat (heap_end h)" using x by linarith
  note B = block_addr[OF f x12 x(2)]
  have "unat (addr h x + 12 + n) = unat (heap_ptr h) + unat x + 12 + unat n"
    using B(1) x(1) f unat_heap_end[OF f] by (subst unat_word_ariths) (auto simp: heap_frame_def)
  then show "addr h x + 12 + n \<le> addr h (heap_end h)"
    using unat_addr[OF f, of "heap_end h"] x(1) by (simp add: word_le_nat_alt)
  show "(addr h x + 12) mod 4 = 0" using B(3) by (simp only: word_mod4)
  have "4 dvd unat (addr h x)" using unat_addr[OF f, of x] x12 f x(2) by (simp add: heap_frame_def)
  then show "addr h x AND 3 = 0" by (simp add: and3_iff)
qed

lemma heap_inv_sem: "heap_inv (h\<lparr>heap_sem := n\<rparr>) ps = heap_inv h ps"
  by (simp add: heap_inv_def heap_chain_def heap_frame_def)

lemma heap_inv_stats: "heap_inv (h\<lparr>heap_sem := n, used_mem := u\<rparr>) ps = heap_inv h ps"
  by (simp add: heap_inv_def heap_chain_def heap_frame_def)

lemma heap_release_ok: "heap_inv h ps \<Longrightarrow> heap_sem h = 0 \<Longrightarrow> heap_ok (heap_release h) ps"
  by (simp add: heap_ok_def heap_release_def heap_inv_sem)

lemma rt_malloc_refused:
  assumes "heap_sem h = 1" "sz = 0 \<or> RT_ALIGN sz 4 > mem_size_aligned h \<or> malloc_scan (need sz) (lfree h) (h\<lparr>heap_sem := 0\<rparr>) = Some None"
  shows "rt_malloc 0 sz h = Some (0, h)"
proof -
  have "heap_release (h\<lparr>heap_sem := 0\<rparr>) = h" using assms(1) by (auto simp: heap_release_def intro!: heap.equality)
  then show ?thesis
    using assms unfolding rt_malloc_def Let_def need_def[symmetric] by (auto simp: heap_take_def)
qed

lemma rt_malloc_found:
  assumes i: "heap_inv h ps" and s: "heap_sem h = 1" and sz: "sz \<noteq> 0" "\<not> RT_ALIGN sz 4 > mem_size_aligned h"
    and scan: "malloc_scan (need sz) (lfree h) (h\<lparr>heap_sem := 0\<rparr>) = Some (Some x)" and x: "x \<in> set ps" "fits h (need sz) x"
  shows "\<exists>h' ps' e. rt_malloc 0 sz h = Some (addr h x + 12, h') \<and> heap_ok h' ps' \<and>
    live (hdr h') ps' = (live (hdr h) ps)(x \<mapsto> e) \<and> unat x + 12 + unat (need sz) \<le> unat e \<and> unat e \<le> unat (heap_end h) \<and>
    heap_ptr h' = heap_ptr h \<and> heap_end h' = heap_end h \<and> mem_size_aligned h' = mem_size_aligned h \<and>
    used_mem h' = used_mem h + (e - x)"
proof -
  let ?h0 = "h\<lparr>heap_sem := 0\<rparr>" and ?n = "need sz"
  let ?h1 = "malloc_take ?n x ?h0"
  have f: "heap_frame h" and hs: "hseg (hdr h) 0 0 ps (heap_end h)" using i by (auto simp: heap_inv_def heap_chain_def)
  have "fits ?h0 ?n x" using x(2) by (simp add: fits_def)
  then obtain e ps' where t: "taken x e ?h0 ps ?h1 ps'" and e: "unat x + 12 + unat ?n \<le> unat e" "unat e \<le> unat (heap_end h)"
    using malloc_take_ok[of ?h0 ps x ?n] i x(1) need_dvd[of sz] by (auto simp: heap_inv_sem)
  have xe: "unat x + 12 < unat (heap_end ?h0)" using e need_dvd(2)[of sz] by simp
  note I = taken_inv[OF _ t xe, unfolded heap_inv_sem, OF i]
  have T: "heap_ptr ?h1 = heap_ptr h" "heap_end ?h1 = heap_end h" "mem_size_aligned ?h1 = mem_size_aligned h" "heap_sem ?h1 = 0"
    "live (hdr ?h1) ps' = (live (hdr h) ps)(x \<mapsto> e)" "used_mem ?h1 = used_mem h + (e - x)"
    using t by (simp_all add: taken_def)
  have "4 dvd unat x" using hs x(1) by (auto simp: hseg_append dest!: split_list)
  moreover have "unat x + 12 + unat ?n \<le> unat (heap_end h)" "0 < unat ?n" using e need_dvd(2)[of sz] by linarith+
  ultimately have A: "addr h x + 12 + ?n \<le> addr h (heap_end h)" "(addr h x + 12) mod 4 = 0" "addr h x AND 3 = 0"
    using malloc_asserts[OF f] by blast+
  have ad: "addr (heap_release (?h1\<lparr>lfree := l\<rparr>)) = addr h" "addr (heap_release ?h1) = addr h" for l
    using T by (auto simp: addr_def heap_release_def fun_eq_iff)
  obtain h2 where h2: "(if x = lfree ?h1 then do { l \<leftarrow> skip_used (lfree ?h1) ?h1; let h = ?h1\<lparr>lfree := l\<rparr>;
      rt_assert (lfree h = heap_end h \<or> hm_used (hdr h (lfree h)) = 0); Some h } else Some ?h1) = Some h2"
    "heap_inv h2 ps'" "\<exists>l. h2 = ?h1\<lparr>lfree := l\<rparr>"
  proof (cases "lfree ?h1 = x")
    case True
    with I(2) show thesis by (auto intro!: that)
  next
    case False
    have "\<exists>l. ?h1 = ?h1\<lparr>lfree := l\<rparr>" by (rule exI[of _ "lfree ?h1"], rule heap.equality) simp_all
    with I(1)[OF False] False show thesis by (intro that[of ?h1]) (simp_all del: ex_simps)
  qed
  have "heap_ok (heap_release h2) ps'" using heap_release_ok[OF h2(2)] h2(3) T(4) by auto
  moreover have "rt_malloc 0 sz h = Some (addr h x + 12, heap_release h2)"
  proof -
    have "addr (heap_release h2) = addr h" "heap_end (heap_release h2) = heap_end h"
      using h2(3) ad T(2) by (auto simp: heap_release_def)
    then show ?thesis
      using sz s scan A h2(1) unfolding rt_malloc_def need_def[symmetric] Let_def by (simp add: heap_take_def)
  qed
  moreover have "hdr (heap_release h2) = hdr ?h1" using h2(3) by (auto simp: heap_release_def)
  ultimately show ?thesis
    using T e h2(3) by (intro exI[of _ "heap_release h2"] exI[of _ ps'] exI[of _ e]) (auto simp: heap_release_def)
qed

text \<open>The whole of \<^verbatim>\<open>rt_malloc\<close>.\<close>

lemma rt_malloc_ok:
  assumes ok: "heap_ok h ps"
  shows "\<exists>r h' ps'. rt_malloc 0 sz h = Some (r, h') \<and> heap_ok h' ps' \<and>
    heap_ptr h' = heap_ptr h \<and> heap_end h' = heap_end h \<and> mem_size_aligned h' = mem_size_aligned h \<and>
    (if r = 0 then h' = h \<and> ps' = ps \<and> (sz = 0 \<or> RT_ALIGN sz 4 > mem_size_aligned h \<or> (\<forall>x \<in> set ps. lfree h \<le> x \<longrightarrow> \<not> fits h (need sz) x))
     else \<exists>x e. r = addr h x + 12 \<and> x \<in> set ps \<and> live (hdr h) ps x = None \<and> live (hdr h') ps' = (live (hdr h) ps)(x \<mapsto> e) \<and>
       unat x + 12 + unat (need sz) \<le> unat e \<and> unat e \<le> unat (heap_end h) \<and> used_mem h' = used_mem h + (e - x))"
proof -
  have i: "heap_inv h ps" and s: "heap_sem h = 1" using ok by (auto simp: heap_ok_def)
  then have c: "heap_chain h ps" and f: "heap_frame h" by (auto simp: heap_inv_def heap_chain_def)
  show ?thesis
  proof (cases "sz = 0 \<or> RT_ALIGN sz 4 > mem_size_aligned h")
    case True
    then show ?thesis using rt_malloc_refused[OF s, of sz] ok by auto
  next
    case False
    let ?h0 = "h\<lparr>heap_sem := 0\<rparr>"
    obtain q bs where bs: "hseg (hdr h) q (lfree h) bs (heap_end h)" "set bs = {x \<in> set ps. lfree h \<le> x}"
      using lfree_suffix[OF c] by blast
    have fit: "fits ?h0 n = fits h n" for n by (simp add: fits_def fun_eq_iff)
    have "unat (need sz) \<le> unat (mem_size_aligned h)"
      using False f by (auto simp: need_def heap_frame_def word_le_nat_alt word_less_nat_alt not_less)
    then have scan: "malloc_scan (need sz) (lfree h) ?h0 = Some (find (fits h (need sz)) bs)"
      using malloc_scan_ok[OF heap_frame_cong[OF f, of ?h0], of "need sz" q "lfree h" bs] bs(1) by (simp add: fit)
    show ?thesis
    proof (cases "find (fits h (need sz)) bs")
      case None
      then show ?thesis using rt_malloc_refused[OF s, of sz] scan ok bs(2) by (auto simp: find_None_iff)
    next
      case (Some x)
      then have x: "x \<in> set ps" "fits h (need sz) x" using bs(2) unfolding find_Some_iff by (auto dest: nth_mem)
      have "live (hdr h) ps x = None" using x(2) by (simp add: live_def fits_def)
      moreover obtain h' ps' e where R: "rt_malloc 0 sz h = Some (addr h x + 12, h')" "heap_ok h' ps'"
        "live (hdr h') ps' = (live (hdr h) ps)(x \<mapsto> e)" "unat x + 12 + unat (need sz) \<le> unat e" "unat e \<le> unat (heap_end h)"
        "heap_ptr h' = heap_ptr h" "heap_end h' = heap_end h" "mem_size_aligned h' = mem_size_aligned h" "used_mem h' = used_mem h + (e - x)"
        using rt_malloc_found[OF i s _ _ scan[unfolded Some] x] False by blast
      moreover have "addr h x + 12 \<noteq> 0"
      proof -
        have "hseg (hdr h) 0 0 ps (heap_end h)" using c by (simp add: heap_chain_def)
        then have "4 dvd unat x" using x(1) by (auto simp: hseg_append dest!: split_list)
        moreover have "unat x + 12 < unat (heap_end h)" using R(4,5) need_dvd(2)[of sz] by linarith
        ultimately show ?thesis using block_addr(2)[OF f] by blast
      qed
      ultimately show ?thesis using x(1)
        by (intro exI[of _ "addr h x + 12"] exI[of _ h'] exI[of _ ps']) auto
    qed
  qed
qed

text \<open>Blocks in use do not overlap.\<close>

lemma live_disjoint:
  assumes "hseg H q p ps end" "live H ps x = Some e" "live H ps y = Some f" "x \<noteq> y"
  shows "unat e \<le> unat y \<or> unat f \<le> unat x"
proof -
  have x: "x \<in> set ps" "e = hm_next (H x)" and y: "y \<in> set ps" "f = hm_next (H y)"
    using assms(2,3) by (auto simp: live_def split: if_splits)
  obtain as bs where ps: "ps = as @ x # bs" using x(1) by (meson split_list)
  note X = hseg_block[OF assms(1)[unfolded ps]]
  from y(1) assms(4) ps consider "y \<in> set as" | "y \<in> set bs" by auto
  then show ?thesis
  proof cases
    case 1
    then obtain cs ds where "as = cs @ y # ds" by (meson split_list)
    then have "hseg H y (hm_next (H y)) ds x" using X(1) by (auto simp: hseg_append)
    then show ?thesis using hseg_le y(2) by blast
  next
    case 2
    then show ?thesis using hseg_bounds[OF X(6)] x(2) by simp
  qed
qed

text \<open>A new heap is one free block.\<close>

lemma rt_system_heap_init_ok:
  assumes e: "unat (RT_ALIGN begin_addr 4) + 36 \<le> unat (RT_ALIGN_DOWN end_addr 4)"
  shows "\<exists>h'. rt_system_heap_init 0 begin_addr end_addr h = Some h' \<and> heap_ok h' [0] \<and> live (hdr h') [0] = Map.empty \<and>
    heap_ptr h' = RT_ALIGN begin_addr 4 \<and> addr h' (heap_end h') + 12 = RT_ALIGN_DOWN end_addr 4"
proof -
  let ?b = "RT_ALIGN begin_addr 4" and ?e = "RT_ALIGN_DOWN end_addr 4"
  define m where "m = ?e - ?b - 24"
  have al: "4 dvd unat ?e"
  proof -
    have "?e AND 3 = 0" by (simp add: RT_ALIGN_DOWN_def and.assoc)
    then show ?thesis by (simp add: and3_iff)
  qed
  have "unat (?e - ?b) = unat ?e - unat ?b" using e by (simp add: unat_sub word_le_nat_alt)
  then have m: "unat m = unat ?e - unat ?b - 24" unfolding m_def using e by (subst unat_sub) (simp_all add: word_le_nat_alt)
  have n: "unat (m + 12) = unat m + 12" using m e unat_u32_less[of ?e] by (simp add: unat_word_ariths)
  have c: "?e > 24" "?e - 24 \<ge> ?b"
  proof -
    show c1: "?e > 24" using e by (simp add: word_less_nat_alt)
    have "unat (?e - 24) = unat ?e - 24" using c1 by (subst unat_sub) (simp_all add: word_le_nat_alt word_less_nat_alt)
    then show "?e - 24 \<ge> ?b" using e by (simp add: word_le_nat_alt)
  qed
  define h' where "h' = h\<lparr>mem_size_aligned := m, heap_ptr := ?b, heap_end := m + 12, heap_sem := 1, lfree := 0,
    hdr := (hdr h)(0 := \<lparr>hm_magic = HEAP_MAGIC, hm_used = 0, hm_next = m + 12, hm_prev = 0\<rparr>,
      m + 12 := \<lparr>hm_magic = HEAP_MAGIC, hm_used = 1, hm_next = m + 12, hm_prev = m + 12\<rparr>)\<rparr>"
  have z: "m + 12 \<noteq> 0" using n by (metis add_is_0 unat_0 zero_neq_numeral)
  have "rt_system_heap_init 0 begin_addr end_addr h = Some h'"
  proof -
    have "?e - ?b - 2 * 12 = m" by (simp add: m_def)
    then show ?thesis
      using c z unfolding rt_system_heap_init_def by (auto simp: h'_def upd_hdr_def Let_def intro!: heap.equality)
  qed
  moreover have "4 dvd unat m" unfolding m using al RT_ALIGN_dvd[of begin_addr] by (intro dvd_diff_nat) simp_all
  then have "heap_ok h' [0]"
    using z n m e unat_u32_less[of ?e] RT_ALIGN_dvd[of begin_addr]
    by (auto simp: h'_def heap_ok_def heap_inv_def heap_chain_def heap_frame_def coalesced_def)
  moreover have "live (hdr h') [0] = Map.empty" using z by (auto simp: live_def h'_def fun_eq_iff)
  ultimately show ?thesis by (intro exI[of _ h']) (simp add: h'_def addr_def m_def)
qed

subsection \<open>Changing the size of a block\<close>

text \<open>Cutting off the tail of a block in use, which becomes free.\<close>

definition cut :: "u32 \<Rightarrow> u32 \<Rightarrow> heap \<Rightarrow> heap" where
  "cut p y h =
    (let h = upd_hdr y (\<lambda>_. \<lparr>hm_magic = HEAP_MAGIC, hm_used = 0, hm_next = hm_next (hdr h p), hm_prev = p\<rparr>) h;
         h = upd_hdr p (\<lambda>x. x\<lparr>hm_next := y\<rparr>) h
     in if hm_next (hdr h y) \<noteq> mem_size_aligned h + SIZEOF_STRUCT_MEM
        then upd_hdr (hm_next (hdr h y)) (\<lambda>x. x\<lparr>hm_prev := y\<rparr>) h else h)"

lemma cut_ok:
  assumes i: "heap_inv h (as @ p # bs)" and u: "hm_used (hdr h p) \<noteq> 0"
    and y: "unat p + 12 \<le> unat y" "unat y + 24 \<le> unat (hm_next (hdr h p))" "4 dvd unat y"
  shows "heap_chain (cut p y h) ((as @ [p]) @ y # bs)" "coalesced (hdr (cut p y h)) (as @ [p])" "coalesced (hdr (cut p y h)) bs"
    "hm_used (hdr (cut p y h) y) = 0" "same_heap h (cut p y h)"
    "live (hdr (cut p y h)) ((as @ [p]) @ y # bs) = (live (hdr h) (as @ p # bs))(p \<mapsto> y)"
proof -
  let ?h = "cut p y h" and ?z = "hm_next (hdr h p)" and ?e = "heap_end h"
  have c: "heap_chain h (as @ p # bs)" and co: "coalesced (hdr h) (as @ p # bs)" using i by (simp_all add: heap_inv_def)
  have h: "hseg (hdr h) 0 0 (as @ p # bs) ?e" and f: "heap_frame h" and e: "?e = mem_size_aligned h + 12"
    using c by (auto simp: heap_chain_def heap_frame_def)
  note X = hseg_block[OF h]
  have ne: "p \<noteq> y" "p \<noteq> ?z" "y \<noteq> ?z" using y by auto
  have ze: "unat ?z \<le> unat ?e" by (rule hseg_le[OF X(6)])
  then have yx: "y \<noteq> ?e" "p \<noteq> ?e" using y by auto
  have H: "hdr ?h = (hdr h)(y := \<lparr>hm_magic = HEAP_MAGIC, hm_used = 0, hm_next = ?z, hm_prev = p\<rparr>,
      p := (hdr h p)\<lparr>hm_next := y\<rparr>, ?z := (if ?z = ?e then hdr h ?z else (hdr h ?z)\<lparr>hm_prev := y\<rparr>))"
    using ne yx by (auto simp: cut_def upd_hdr_def Let_def e)
  have F: "lfree ?h = lfree h" "heap_end ?h = ?e" "same_heap h ?h"
    by (simp_all add: cut_def upd_hdr_def Let_def same_heap_def)
  show "same_heap h ?h" by (rule F)
  have seg: "hseg (hdr ?h) 0 0 (as @ p # y # bs) ?e"
    using y X(2,3) ne by (intro hseg_split[OF h refl]) (auto simp: H)
  note d = hseg_distinct[OF seg]
  have used: "hm_used (hdr ?h w) = hm_used (hdr h w)" if "w \<noteq> y" for w using that by (simp add: H)
  show u': "hm_used (hdr ?h y) = 0" using ne by (simp add: H)
  have nx: "hm_next (hdr ?h w) = hm_next (hdr h w)" if "w \<noteq> p" "w \<noteq> y" for w using that by (simp add: H)
  have frame: "heap_frame ?h" using F used[of ?e] yx by (intro heap_frame_cong[OF f]) (auto simp: same_heap_def)
  have "lfree h \<noteq> y" if "lfree h \<noteq> ?e"
  proof -
    have "lfree h \<in> set (as @ p # bs)" using c that by (auto simp: heap_chain_def)
    then show ?thesis using d by auto
  qed
  then have lf: "lfree h = ?e \<or> lfree h \<in> set (as @ p # y # bs) \<and> hm_used (hdr ?h (lfree h)) = 0"
    using c used[of "lfree h"] by (auto simp: heap_chain_def)
  have U: "unat w + 12 < unat ?e" if "w \<in> set (as @ p # y # bs)" "hm_used (hdr ?h w) \<noteq> 0" for w
  proof -
    have "w \<noteq> y" using that(2) u' by auto
    then show ?thesis using c that used[of w] unfolding heap_chain_def by auto
  qed
  show "heap_chain ?h ((as @ [p]) @ y # bs)" using seg frame lf U F unfolding heap_chain_def by auto
  have "coalesced (hdr h) (as @ [p])" "coalesced (hdr h) bs"
    using co by (auto simp: coalesced_append coalesced_Cons)
  then show "coalesced (hdr ?h) (as @ [p])" "coalesced (hdr ?h) bs"
    using d used coalesced_on[of "as @ [p]" "hdr ?h" "hdr h"] coalesced_on[of bs "hdr ?h" "hdr h"] by force+
  show "live (hdr ?h) ((as @ [p]) @ y # bs) = (live (hdr h) (as @ p # bs))(p \<mapsto> y)"
  proof
    fix w
    have "hm_next (hdr ?h p) = y" using ne by (simp add: H)
    then show "live (hdr ?h) ((as @ [p]) @ y # bs) w = ((live (hdr h) (as @ p # bs))(p \<mapsto> y)) w"
      using u u' d used[of w] nx[of w] by (cases "w = p"; cases "w = y") (auto simp: live_def)
  qed
qed

lemma and3_mod: "(w :: u32) AND 3 = w mod 4"
proof -
  have "w AND 3 = take_bit 2 w" by (simp add: take_bit_eq_mask mask_eq_exp_minus_1)
  then show ?thesis by (simp add: take_bit_eq_mod)
qed

lemma unat_align_down: "unat ((w :: u32) AND NOT 3) = unat w - unat w mod 4"
proof -
  have "NOT w AND (w AND 3) = 0" by (simp flip: and.assoc)
  from disjunctive_diff_eq_and_not[OF this] have "w AND NOT 3 = w - (w AND 3)"
    by (auto simp: bit_eq_iff bit_simps)
  moreover have "w AND 3 \<le> w" by (simp add: and3_mod word_le_nat_alt unat_mod)
  ultimately show ?thesis by (simp add: unat_sub and3_mod unat_mod)
qed

lemma unat_RT_ALIGN: "unat (RT_ALIGN n 4) = unat (n + 3) - unat (n + 3) mod 4"
proof -
  have "n + 4 - 1 = n + 3" "(4 - 1 :: u32) = 3" by simp_all
  then have "RT_ALIGN n 4 = (n + 3) AND NOT 3" unfolding RT_ALIGN_def by (simp only:)
  then show ?thesis by (simp only: unat_align_down)
qed

lemma RT_ALIGN_ge:
  assumes "unat n + 3 < 2 ^ 32"
  shows "unat n \<le> unat (RT_ALIGN n 4)" "4 dvd unat n \<Longrightarrow> RT_ALIGN n 4 = n"
proof -
  define k where "k = unat n"
  have "unat (n + 3) = k + 3" using assms by (simp add: unat_word_ariths k_def)
  then have u: "unat (RT_ALIGN n 4) = k + 3 - (k + 3) mod 4" by (simp only: unat_RT_ALIGN)
  have "k \<le> k + 3 - (k + 3) mod 4" by presburger
  then show "unat n \<le> unat (RT_ALIGN n 4)" using u by (simp only: k_def)
  assume "4 dvd unat n"
  then have "k + 3 - (k + 3) mod 4 = k" unfolding k_def[symmetric] by presburger
  then show "RT_ALIGN n 4 = n" using u by (simp only: k_def word_unat_eq_iff)
qed

text \<open>
  Requests within three bytes of the largest number are aligned to 0 and served with a block of
  the smallest size.
\<close>

lemma align_wraps: "unat sz + 3 \<ge> 2 ^ 32 \<Longrightarrow> RT_ALIGN sz 4 = 0"
proof -
  assume "unat sz + 3 \<ge> 2 ^ 32"
  then have w: "unat sz + 3 \<ge> 4294967296" by simp
  have "unat (sz + 3) = (unat sz + 3) mod 4294967296" by (simp add: unat_word_ariths)
  moreover have "(unat sz + 3) mod 4294967296 = unat sz + 3 - 4294967296" using w unat_u32_less[of sz] by (simp add: mod_if)
  ultimately have "unat (sz + 3) < 3" using w unat_u32_less[of sz] by linarith
  then have "unat (sz + 3) mod 4 = unat (sz + 3)" by simp
  then have "unat (RT_ALIGN sz 4) = 0" using unat_RT_ALIGN[of sz] by simp
  then show ?thesis by (simp only: unat_eq_0)
qed

lemma need_ge: "unat sz + 3 < 2 ^ 32 \<Longrightarrow> unat sz \<le> unat (need sz)"
  using RT_ALIGN_ge(1)[of sz] by (auto simp: need_def word_less_nat_alt)

lemma unat_block_size:
  "unat p + 12 \<le> unat e \<Longrightarrow> unat ((e :: u32) - p - 12) = unat e - unat p - 12"
proof -
  assume a: "unat p + 12 \<le> unat e"
  have "unat (e - p) = unat e - unat p" using a by (simp add: unat_sub word_le_nat_alt)
  then show ?thesis using a by (subst unat_sub) (simp_all add: word_le_nat_alt)
qed

text \<open>
  The outcomes of \<^verbatim>\<open>rt_realloc\<close> on the block \<open>p\<close> in use up to \<open>e\<close>: no memory, resized in place, or moved to a
  fresh block with the old contents copied.
\<close>

definition realloc_result :: "u32 \<Rightarrow> u32 \<Rightarrow> u32 \<Rightarrow> heap \<Rightarrow> u32 list \<Rightarrow> mem \<Rightarrow> u32 \<Rightarrow> heap \<Rightarrow> u32 list \<Rightarrow> mem \<Rightarrow> bool" where
  "realloc_result p e n h ps m r h' ps' m' \<longleftrightarrow>
     r = 0 \<and> h' = h \<and> ps' = ps \<and> m' = m \<or>
     r = addr h p + 12 \<and> m' = m \<and> (\<exists>e'. live (hdr h') ps' = (live (hdr h) ps)(p \<mapsto> e') \<and>
       unat p + 12 + unat n \<le> unat e' \<and> unat e' \<le> unat e \<and> used_mem h' = used_mem h - (e - e')) \<or>
     (\<exists>x f. r = addr h x + 12 \<and> x \<noteq> p \<and> live (hdr h) ps x = None \<and> live (hdr h') ps' = (live (hdr h) ps)(x \<mapsto> f, p := None) \<and>
       unat x + 12 + unat n \<le> unat f \<and> unat f \<le> unat (heap_end h) \<and> used_mem h' = used_mem h + (f - x) - (e - p) \<and>
       (unat e \<le> unat x \<or> unat f \<le> unat p) \<and> m' = rt_memcpy r (addr h p + 12) (if e - p - 12 < n then e - p - 12 else n) m)"

definition resized :: "u32 \<Rightarrow> u32 \<Rightarrow> u32 \<Rightarrow> heap \<Rightarrow> u32 list \<Rightarrow> mem \<Rightarrow> (u32 \<times> heap \<times> mem) option \<Rightarrow> bool" where
  "resized p e n h ps m res \<longleftrightarrow> (\<exists>r h' ps' m'. res = Some (r, h', m') \<and> heap_ok h' ps' \<and> heap_ptr h' = heap_ptr h \<and>
     heap_end h' = heap_end h \<and> mem_size_aligned h' = mem_size_aligned h \<and> realloc_result p e n h ps m r h' ps' m')"

lemma realloc_shrinks:
  assumes ok: "heap_ok h ps" and p: "live (hdr h) ps p = Some e"
    and n: "4 dvd unat n" "unat p + unat n + 36 < unat e" and h1: "h1 = h\<lparr>heap_sem := 0, used_mem := u\<rparr>"
  shows "\<exists>h' ps'. plug_holes (p + 12 + n) (cut p (p + 12 + n) h1) = Some h' \<and> heap_ok (heap_release h') ps' \<and>
    live (hdr h') ps' = (live (hdr h) ps)(p \<mapsto> p + 12 + n) \<and> heap_ptr h' = heap_ptr h \<and> heap_end h' = heap_end h \<and>
    mem_size_aligned h' = mem_size_aligned h \<and> used_mem h' = u \<and> unat (p + 12 + n) = unat p + 12 + unat n"
proof -
  define y where "y = p + 12 + n"
  have u: "p \<in> set ps" "hm_used (hdr h p) \<noteq> 0" "hm_next (hdr h p) = e" using p by (auto simp: live_def split: if_splits)
  then obtain as bs where ps: "ps = as @ p # bs" by (meson split_list)
  have "heap_inv h ps" using ok by (simp add: heap_ok_def)
  then have i: "heap_inv h1 (as @ p # bs)" using ps h1 by (simp add: heap_inv_stats)
  have "hseg (hdr h) 0 0 (as @ p # bs) (heap_end h)" using \<open>heap_inv h ps\<close> ps by (simp add: heap_inv_def heap_chain_def)
  note X = hseg_block[OF this]
  have uy: "unat y = unat p + 12 + unat n" using n(2) unat_u32_less[of e] by (simp add: y_def unat_word_ariths)
  have y: "unat p + 12 \<le> unat y" "unat y + 24 \<le> unat (hm_next (hdr h1 p))" using uy n(2) u(3) h1 by simp_all
  have "4 dvd unat y" unfolding uy using X(4) n(1) by (intro dvd_add) simp_all
  with cut_ok[OF i _ y] u(2) h1 have C: "heap_chain (cut p y h1) ((as @ [p]) @ y # bs)" "coalesced (hdr (cut p y h1)) (as @ [p])"
    "coalesced (hdr (cut p y h1)) bs" "hm_used (hdr (cut p y h1) y) = 0" "same_heap h1 (cut p y h1)"
    "live (hdr (cut p y h1)) ((as @ [p]) @ y # bs) = (live (hdr h) ps)(p \<mapsto> y)"
    using ps by auto
  from plug_holes_ok[OF C(1,4,2,3)] obtain h' ps' where h': "plug_holes y (cut p y h1) = Some h'" "heap_inv h' ps'"
    "same_heap (cut p y h1) h'" "live (hdr h') ps' = live (hdr (cut p y h1)) ((as @ [p]) @ y # bs)" by blast
  have "heap_sem h' = 0" using h'(3) C(5) h1 by (simp add: same_heap_def)
  then have "heap_ok (heap_release h') ps'" using heap_release_ok[OF h'(2)] by simp
  then show ?thesis using h' C(5,6) h1 uy by (auto simp: same_heap_def y_def[symmetric])
qed

lemma realloc_moves:
  assumes ok: "heap_ok h ps" and p: "live (hdr h) ps p = Some e" and n: "unat n \<le> unat (need n)"
    and sz: "sz = e - p - 12"
  shows "resized p e n h ps m (do { (nmem, h') \<leftarrow> rt_malloc 0 n h;
      if nmem \<noteq> 0 then do { let m = rt_memcpy nmem (addr h p + 12) (if sz < n then sz else n) m;
        h' \<leftarrow> rt_free 0 (addr h p + 12) h'; Some (nmem, h', m) }
      else Some (nmem, h', m) })"
proof -
  obtain r h1 ps1 where R: "rt_malloc 0 n h = Some (r, h1)" "heap_ok h1 ps1" "heap_ptr h1 = heap_ptr h" "heap_end h1 = heap_end h"
    "mem_size_aligned h1 = mem_size_aligned h" "r = 0 \<Longrightarrow> h1 = h \<and> ps1 = ps"
    "r \<noteq> 0 \<Longrightarrow> \<exists>x f. r = addr h x + 12 \<and> live (hdr h) ps x = None \<and> live (hdr h1) ps1 = (live (hdr h) ps)(x \<mapsto> f) \<and>
       unat x + 12 + unat (need n) \<le> unat f \<and> unat f \<le> unat (heap_end h) \<and> used_mem h1 = used_mem h + (f - x)"
    using rt_malloc_ok[OF ok, of n] by (elim exE conjE) (auto split: if_splits)
  show ?thesis
  proof (cases "r = 0")
    case True
    then show ?thesis using R ok by (auto simp: resized_def realloc_result_def)
  next
    case False
    then obtain x f where x: "r = addr h x + 12" "live (hdr h) ps x = None" "live (hdr h1) ps1 = (live (hdr h) ps)(x \<mapsto> f)"
      "unat x + 12 + unat (need n) \<le> unat f" "unat f \<le> unat (heap_end h)" "used_mem h1 = used_mem h + (f - x)" using R(7) by blast
    have xp: "x \<noteq> p" using x(2) p by auto
    then have "live (hdr h1) ps1 p = Some e" using x(3) p by simp
    from rt_free_ok[OF R(2) this] obtain h2 ps2 where F: "rt_free 0 (addr h1 p + 12) h1 = Some h2" "heap_ok h2 ps2"
      "live (hdr h2) ps2 = (live (hdr h1) ps1)(p := None)" "heap_ptr h2 = heap_ptr h1" "heap_end h2 = heap_end h1"
      "mem_size_aligned h2 = mem_size_aligned h1" "used_mem h2 = used_mem h1 - (e - p)" by blast
    have a: "addr h1 = addr h" using R(3) by (simp add: addr_def fun_eq_iff)
    have "hseg (hdr h1) 0 0 ps1 (heap_end h1)" using R(2) by (simp add: heap_ok_def heap_inv_def heap_chain_def)
    then have dis: "unat e \<le> unat x \<or> unat f \<le> unat p"
      using live_disjoint[of "hdr h1" 0 0 ps1 "heap_end h1" p e x f] \<open>live (hdr h1) ps1 p = Some e\<close> x(3) xp by auto
    let ?m = "rt_memcpy r (addr h p + 12) (if sz < n then sz else n) m"
    have "unat x + 12 + unat n \<le> unat f" using x(4) n by linarith
    then have "realloc_result p e n h ps m r h2 ps2 ?m"
      unfolding realloc_result_def using x F(3,7) xp sz dis by auto
    then show ?thesis unfolding resized_def using False R F a by auto
  qed
qed

lemma rt_realloc_ok:
  assumes ok: "heap_ok h ps" and p: "live (hdr h) ps p = Some e"
  shows "resized p e (RT_ALIGN newsize 4) h ps m (rt_realloc 0 (addr h p + 12) newsize h m)"
proof -
  define n where "n = RT_ALIGN newsize 4"
  have i: "heap_inv h ps" and s: "heap_sem h = 1" using ok by (auto simp: heap_ok_def)
  then have f: "heap_frame h" and c: "heap_chain h ps" and hs: "hseg (hdr h) 0 0 ps (heap_end h)"
    by (auto simp: heap_inv_def heap_chain_def)
  have u: "p \<in> set ps" "hm_used (hdr h p) \<noteq> 0" "hm_next (hdr h p) = e" using p by (auto simp: live_def split: if_splits)
  then obtain as bs where ps: "ps = as @ p # bs" by (meson split_list)
  note X = hseg_block[OF hs[unfolded ps]]
  have pe: "unat p + 12 < unat (heap_end h)" using c u by (auto simp: heap_chain_def)
  note B = block_addr[OF f pe X(4)]
  have sz: "unat (e - p - 12) = unat e - unat p - 12" using unat_block_size X(5) u(3) by blast
  have rel: "heap_release (h\<lparr>heap_sem := 0\<rparr>) = h" using s by (auto simp: heap_release_def intro!: heap.equality)
  have tk: "heap_take h = Some (h\<lparr>heap_sem := 0\<rparr>)" using s by (simp add: heap_take_def)
  have g: "\<not> (addr h p + 12 < heap_ptr h \<or> addr h p + 12 \<ge> addr h (heap_end h))" using B(4,5) by auto
  have same: "resized p e n h ps m (Some (addr h p + 12, h, m))" if "e - p - 12 = n"
  proof -
    have "unat p + 12 + unat n \<le> unat e" using that[symmetric] sz X(5) u(3) by simp
    moreover have "live (hdr h) ps = (live (hdr h) ps)(p \<mapsto> e)" using p by (simp add: map_upd_triv)
    ultimately have "realloc_result p e n h ps m (addr h p + 12) h ps m"
      unfolding realloc_result_def by (intro disjI2 disjI1 conjI refl exI[of _ e]) simp_all
    then show ?thesis using ok by (auto simp: resized_def)
  qed
  show ?thesis
  proof (cases "n > mem_size_aligned h")
    case True
    then show ?thesis using ok by (auto simp: rt_realloc_def n_def[symmetric] resized_def realloc_result_def)
  next
    case False
    then have nl: "unat n + 24 < 2 ^ 32" using f by (auto simp: heap_frame_def not_less word_le_nat_alt)
    then have n: "unat n \<le> unat (need n)" "RT_ALIGN n 4 = n" "4 dvd unat n"
      using need_ge[of n] RT_ALIGN_ge(2)[of n] RT_ALIGN_dvd[of newsize] by (auto simp: n_def)
    have n24: "unat (n + 12 + 12) = unat n + 24" using nl by (simp add: unat_word_ariths)
    define y where "y = p + 12 + n"
    define h1 where "h1 = h\<lparr>heap_sem := 0, used_mem := used_mem h - (e - p - 12 - n)\<rparr>"
    have shrink: "resized p e n h ps m (do { h \<leftarrow> plug_holes y (cut p y h1); Some (addr h1 p + 12, heap_release h, m) })"
      if "n + 12 + 12 < e - p - 12"
    proof -
      have "unat p + unat n + 36 < unat e" using that n24 sz by (simp add: word_less_nat_alt)
      from realloc_shrinks[OF ok p n(3) this h1_def] obtain h' ps' where S: "plug_holes y (cut p y h1) = Some h'"
        "heap_ok (heap_release h') ps'" "live (hdr h') ps' = (live (hdr h) ps)(p \<mapsto> y)" "heap_ptr h' = heap_ptr h"
        "heap_end h' = heap_end h" "mem_size_aligned h' = mem_size_aligned h" "unat y = unat p + 12 + unat n"
        "used_mem h' = used_mem h - (e - p - 12 - n)"
        unfolding y_def by blast
      have "realloc_result p e n h ps m (addr h p + 12) (heap_release h') ps' m"
        unfolding realloc_result_def using S \<open>unat p + unat n + 36 < unat e\<close>
        by (intro disjI2 disjI1 conjI refl exI[of _ y]) (simp_all add: heap_release_def y_def algebra_simps)
      then show ?thesis using S by (auto simp: resized_def heap_release_def addr_def h1_def)
    qed
    have eq: "addr (h\<lparr>heap_sem := 0\<rparr>) = addr h" "addr h1 = addr h" by (auto simp: addr_def h1_def fun_eq_iff)
    consider "e - p - 12 = n" | "e - p - 12 \<noteq> n" "n + 12 + 12 < e - p - 12" | "e - p - 12 \<noteq> n" "\<not> n + 12 + 12 < e - p - 12" by blast
    then have "resized p e n h ps m (rt_realloc 0 (addr h p + 12) newsize h m)"
    proof cases
      case 1
      then have "rt_realloc 0 (addr h p + 12) newsize h m = Some (addr h p + 12, h, m)"
        using False B(2,6) g u(3) rel by (simp add: rt_realloc_def n_def[symmetric] tk eq Let_def)
      then show ?thesis using same[OF 1] by simp
    next
      case 2
      have "rt_realloc 0 (addr h p + 12) newsize h m =
          do { h \<leftarrow> plug_holes y (cut p y h1); Some (addr h1 p + 12, heap_release h, m) }"
        using False B(2,6) g u(3) 2 unfolding rt_realloc_def n_def[symmetric] Let_def tk
        by (simp add: eq[unfolded h1_def] cut_def Let_def y_def h1_def)
      then show ?thesis using shrink[OF 2(2)] by simp
    next
      case 3
      have "rt_realloc 0 (addr h p + 12) newsize h m = do { (nmem, h') \<leftarrow> rt_malloc 0 n h;
          if nmem \<noteq> 0 then do { let m = rt_memcpy nmem (addr h p + 12) (if e - p - 12 < n then e - p - 12 else n) m;
            h' \<leftarrow> rt_free 0 (addr h p + 12) h'; Some (nmem, h', m) }
          else Some (nmem, h', m) }"
        using False B(2,6) g u(3) 3 rel unfolding rt_realloc_def n_def[symmetric] Let_def tk
        by (simp add: eq cong: if_cong)
      then show ?thesis using realloc_moves[OF ok p n(1) refl, of m] by (simp only:)
    qed
    then show ?thesis by (simp only: n_def)
  qed
qed

end
