(* ===== verification/RT_Heap_Run.thy ===== *)
theory RT_Heap_Run
  imports RT_Heap
begin

text \<open>
  The heap as its clients see it: every sequence of calls of \<^verbatim>\<open>rt_malloc\<close>, \<^verbatim>\<open>rt_realloc\<close> and \<^verbatim>\<open>rt_free\<close> that
  starts from \<^verbatim>\<open>rt_system_heap_init\<close> and in which only memory that was handed out is given back. The
  map \<open>own\<close> holds what the clients own, the size they asked for by address.
\<close>

subsection \<open>Sequences of calls\<close>

inductive heap_reach :: "heap \<Rightarrow> (u32 \<rightharpoonup> u32) \<Rightarrow> bool" where
  start: "rt_system_heap_init 0 begin_addr end_addr h0 = Some h \<Longrightarrow> used_mem h0 = 0 \<Longrightarrow>
    unat (RT_ALIGN begin_addr 4) + 36 \<le> unat (RT_ALIGN_DOWN end_addr 4) \<Longrightarrow> heap_reach h Map.empty"
| malloc: "heap_reach h own \<Longrightarrow> rt_malloc 0 sz h = Some (r, h') \<Longrightarrow>
    heap_reach h' (if r = 0 then own else own(r \<mapsto> sz))"
| realloc: "heap_reach h own \<Longrightarrow> own r \<noteq> None \<Longrightarrow> rt_realloc 0 r sz h m = Some (r', h', m') \<Longrightarrow>
    heap_reach h' (if r' = 0 then own else own(r := None, r' \<mapsto> sz))"
| free: "heap_reach h own \<Longrightarrow> own r \<noteq> None \<Longrightarrow> rt_free 0 r h = Some h' \<Longrightarrow> heap_reach h' (own(r := None))"

subsection \<open>The invariant\<close>

text \<open>The client's memory lies in the block in use in front of it, and every block in use is some client's.\<close>

definition covers :: "u32 option \<Rightarrow> u32 \<Rightarrow> u32 option \<Rightarrow> bool" where
  "covers b p o' \<longleftrightarrow> (case b of None \<Rightarrow> o' = None
     | Some e \<Rightarrow> \<exists>sz. o' = Some sz \<and> (unat sz + 3 < 2 ^ 32 \<longrightarrow> unat p + 12 + unat sz \<le> unat e))"

definition owned :: "u32 \<Rightarrow> (u32 \<rightharpoonup> u32) \<Rightarrow> (u32 \<rightharpoonup> u32) \<Rightarrow> bool" where
  "owned base L own \<longleftrightarrow> (\<forall>p. covers (L p) p (own (base + p + 12)))"

definition extent :: "(u32 \<rightharpoonup> u32) \<Rightarrow> u32" where
  "extent L = (\<Sum>p \<in> dom L. the (L p) - p)"

definition heap_run_inv :: "heap \<Rightarrow> u32 list \<Rightarrow> (u32 \<rightharpoonup> u32) \<Rightarrow> bool" where
  "heap_run_inv h ps own \<longleftrightarrow> heap_ok h ps \<and> owned (heap_ptr h) (live (hdr h) ps) own \<and> used_mem h = extent (live (hdr h) ps)"

lemma finite_live [simp]: "finite (dom (live H ps))"
  by (rule finite_subset[of _ "set ps"]) (auto simp: live_def split: if_splits)

lemma extent_add: "finite (dom L) \<Longrightarrow> L p = None \<Longrightarrow> extent (L(p \<mapsto> e)) = extent L + (e - p)"
proof -
  assume f: "finite (dom L)" "L p = None"
  then have "p \<notin> dom L" by auto
  moreover have "(\<Sum>q \<in> dom L. the ((L(p \<mapsto> e)) q) - q) = (\<Sum>q \<in> dom L. the (L q) - q)"
    by (rule sum.cong) (use \<open>p \<notin> dom L\<close> in auto)
  ultimately show ?thesis using f(1) by (simp add: extent_def)
qed

lemma extent_remove:
  assumes "finite (dom L)" "L p = Some e"
  shows "extent (L(p := None)) = extent L - (e - p)"
proof -
  have "L = (L(p := None))(p \<mapsto> e)" using assms(2) by auto
  then have "extent L = extent (L(p := None)) + (e - p)" using extent_add[of "L(p := None)" p e] assms(1) by simp
  then show ?thesis by simp
qed

lemma ownedD: "owned base L own \<Longrightarrow> covers (L p) p (own (base + p + 12))"
  by (simp add: owned_def)

lemma owned_update:
  "owned base L own \<Longrightarrow> covers b p c \<Longrightarrow> owned base (L(p := b)) (own(base + p + 12 := c))"
  by (auto simp: owned_def)

lemma covers_None [simp]: "covers None p c \<longleftrightarrow> c = None" and
  covers_Some: "covers (Some e) p c \<longleftrightarrow> (\<exists>sz. c = Some sz \<and> (unat sz + 3 < 2 ^ 32 \<longrightarrow> unat p + 12 + unat sz \<le> unat e))"
  by (simp_all add: covers_def)

lemma owned_live:
  assumes "owned base L own" "own r = Some sz"
  shows "\<exists>p e. r = base + p + 12 \<and> L p = Some e \<and> (unat sz + 3 < 2 ^ 32 \<longrightarrow> unat p + 12 + unat sz \<le> unat e)"
proof -
  define p where "p = r - 12 - base"
  have r: "base + p + 12 = r" by (simp add: p_def)
  then have "covers (L p) p (Some sz)" using ownedD[OF assms(1), of p] assms(2) by simp
  then show ?thesis using r by (cases "L p") (auto simp: covers_Some)
qed

text \<open>A block in use is aligned and lies inside the heap, and its memory is not at address 0.\<close>

lemma live_block:
  assumes "heap_ok h ps" "live (hdr h) ps p = Some e"
  shows "addr h p + 12 \<noteq> 0" "(addr h p + 12) AND 3 = 0" "unat (addr h p + 12) = unat (heap_ptr h) + unat p + 12"
    "unat p + 12 \<le> unat e" "unat e \<le> unat (heap_end h)" "unat (addr h (heap_end h)) = unat (heap_ptr h) + unat (heap_end h)"
proof -
  have c: "heap_chain h ps" and f: "heap_frame h" and s: "hseg (hdr h) 0 0 ps (heap_end h)"
    using assms(1) by (auto simp: heap_ok_def heap_inv_def heap_chain_def)
  have u: "p \<in> set ps" "hm_used (hdr h p) \<noteq> 0" "hm_next (hdr h p) = e" using assms(2) by (auto simp: live_def split: if_splits)
  then obtain as bs where "ps = as @ p # bs" by (meson split_list)
  note X = hseg_block[OF s[unfolded this]]
  have pe: "unat p + 12 < unat (heap_end h)" using c u by (auto simp: heap_chain_def)
  show "addr h p + 12 \<noteq> 0" "(addr h p + 12) AND 3 = 0" "unat (addr h p + 12) = unat (heap_ptr h) + unat p + 12"
    using block_addr[OF f pe X(4)] by blast+
  show "unat p + 12 \<le> unat e" "unat e \<le> unat (heap_end h)" using X(5) hseg_le[OF X(6)] u(3) by auto
  show "unat (addr h (heap_end h)) = unat (heap_ptr h) + unat (heap_end h)" by (rule unat_addr[OF f]) simp
qed

subsection \<open>Every call preserves it\<close>

lemma malloc_keeps:
  assumes i: "heap_run_inv h ps own"
  shows "\<exists>r h' ps'. rt_malloc 0 sz h = Some (r, h') \<and> heap_run_inv h' ps' (if r = 0 then own else own(r \<mapsto> sz))"
proof -
  let ?L = "live (hdr h) ps"
  have I: "heap_ok h ps" "owned (heap_ptr h) ?L own" "used_mem h = extent ?L" using i by (auto simp: heap_run_inv_def)
  obtain r h' ps' where R: "rt_malloc 0 sz h = Some (r, h')" "heap_ok h' ps'" "heap_ptr h' = heap_ptr h" "r = 0 \<Longrightarrow> h' = h \<and> ps' = ps"
    "r \<noteq> 0 \<Longrightarrow> \<exists>x e. r = addr h x + 12 \<and> ?L x = None \<and> live (hdr h') ps' = ?L(x \<mapsto> e) \<and>
       unat x + 12 + unat (need sz) \<le> unat e \<and> used_mem h' = used_mem h + (e - x)"
    using rt_malloc_ok[OF I(1), of sz] by (elim exE conjE) (auto split: if_splits)
  have "heap_run_inv h' ps' (own(r \<mapsto> sz))" if ne: "r \<noteq> 0"
  proof -
    obtain x e where x: "r = addr h x + 12" "?L x = None" "live (hdr h') ps' = ?L(x \<mapsto> e)"
      "unat x + 12 + unat (need sz) \<le> unat e" "used_mem h' = used_mem h + (e - x)" using R(5)[OF ne] by blast
    have "covers (Some e) x (Some sz)" using x(4) need_ge[of sz] by (auto simp: covers_Some)
    then have "owned (heap_ptr h) (?L(x \<mapsto> e)) (own(heap_ptr h + x + 12 \<mapsto> sz))" by (rule owned_update[OF I(2)])
    then show ?thesis using R(2,3) x I(3) extent_add[OF finite_live x(2)] by (auto simp: heap_run_inv_def addr_def)
  qed
  then show ?thesis using R(1,4) i by auto
qed

lemma free_keeps:
  assumes i: "heap_run_inv h ps own" and r: "own r = Some sz"
  shows "\<exists>h' ps'. rt_free 0 r h = Some h' \<and> heap_run_inv h' ps' (own(r := None))"
proof -
  let ?L = "live (hdr h) ps"
  have I: "heap_ok h ps" "owned (heap_ptr h) ?L own" "used_mem h = extent ?L" using i by (auto simp: heap_run_inv_def)
  obtain p e where p: "r = heap_ptr h + p + 12" "?L p = Some e" using owned_live[OF I(2) r] by blast
  obtain h' ps' where F: "rt_free 0 (addr h p + 12) h = Some h'" "heap_ok h' ps'" "live (hdr h') ps' = ?L(p := None)"
    "heap_ptr h' = heap_ptr h" "used_mem h' = used_mem h - (e - p)"
    using rt_free_ok[OF I(1) p(2)] by blast
  have "owned (heap_ptr h) (?L(p := None)) (own(r := None))" unfolding p(1) by (rule owned_update[OF I(2)]) simp
  then show ?thesis using F p I(3) extent_remove[OF finite_live p(2)] by (auto simp: heap_run_inv_def addr_def)
qed

lemma realloc_keeps:
  assumes i: "heap_run_inv h ps own" and r: "own r = Some old"
  shows "\<exists>r' h' m' ps'. rt_realloc 0 r sz h m = Some (r', h', m') \<and>
    heap_run_inv h' ps' (if r' = 0 then own else own(r := None, r' \<mapsto> sz))"
proof -
  let ?L = "live (hdr h) ps" and ?n = "RT_ALIGN sz 4"
  have I: "heap_ok h ps" "owned (heap_ptr h) ?L own" "used_mem h = extent ?L" using i by (auto simp: heap_run_inv_def)
  obtain p e where p: "r = addr h p + 12" "?L p = Some e" using owned_live[OF I(2) r] by (auto simp: addr_def)
  have n: "unat sz \<le> unat ?n" if "unat sz + 3 < 2 ^ 32" using RT_ALIGN_ge(1)[OF that] .
  obtain r' h' ps' m' where R: "rt_realloc 0 r sz h m = Some (r', h', m')" "heap_ok h' ps'" "heap_ptr h' = heap_ptr h"
    "realloc_result p e ?n h ps m r' h' ps' m'"
    using rt_realloc_ok[OF I(1) p(2), of sz m] p(1) by (auto simp: resized_def)
  have rm: "extent (?L(p := None)) = extent ?L - (e - p)" by (rule extent_remove[OF finite_live p(2)])
  have dn: "owned (heap_ptr h) (?L(p := None)) (own(r := None))" unfolding p(1) addr_def by (rule owned_update[OF I(2)]) simp
  from R(4) consider "r' = 0" "h' = h" "ps' = ps"
    | e' where "r' = r" "live (hdr h') ps' = ?L(p \<mapsto> e')" "unat p + 12 + unat ?n \<le> unat e'" "used_mem h' = used_mem h - (e - e')"
    | x f where "r' = addr h x + 12" "x \<noteq> p" "?L x = None" "live (hdr h') ps' = ?L(x \<mapsto> f, p := None)"
        "unat x + 12 + unat ?n \<le> unat f" "used_mem h' = used_mem h + (f - x) - (e - p)"
    unfolding realloc_result_def p(1) by (elim disjE exE conjE) blast+
  then have "heap_run_inv h' ps' (if r' = 0 then own else own(r := None, r' \<mapsto> sz))"
  proof cases
    case 1
    then show ?thesis using i by simp
  next
    case (2 e')
    have c: "covers (Some e') p (Some sz)" using 2(3) n by (auto simp: covers_Some)
    have "owned (heap_ptr h) (?L(p \<mapsto> e')) (own(r \<mapsto> sz))" unfolding p(1) addr_def by (rule owned_update[OF I(2) c])
    moreover have "extent (?L(p \<mapsto> e')) = extent ?L - (e - p) + (e' - p)"
      using extent_add[of "?L(p := None)" p e'] rm by simp
    moreover have "r \<noteq> 0" using live_block(1)[OF I(1) p(2)] p(1) by simp
    ultimately show ?thesis using 2 R(2,3) I(3) by (auto simp: heap_run_inv_def)
  next
    case (3 x f)
    have c: "covers (Some f) x (Some sz)" using 3(5) n by (auto simp: covers_Some)
    have tw: "?L(x \<mapsto> f, p := None) = (?L(p := None))(x \<mapsto> f)" using 3(2) by (simp add: fun_upd_twist)
    have "owned (heap_ptr h) ((?L(p := None))(x \<mapsto> f)) (own(r := None, r' \<mapsto> sz))"
      unfolding 3(1) addr_def by (rule owned_update[OF dn c])
    moreover have "extent ((?L(p := None))(x \<mapsto> f)) = extent ?L - (e - p) + (f - x)"
      using extent_add[of "?L(p := None)" x f] rm 3(2,3) by simp
    moreover have "r' \<noteq> 0" using live_block(1)[OF R(2), of x f] 3 R(3) by (simp add: addr_def)
    ultimately show ?thesis using 3 R(2,3) I(3) by (auto simp: heap_run_inv_def tw)
  qed
  then show ?thesis using R(1) by blast
qed

lemma init_starts:
  assumes "rt_system_heap_init 0 begin_addr end_addr h0 = Some h" "used_mem h0 = 0"
    "unat (RT_ALIGN begin_addr 4) + 36 \<le> unat (RT_ALIGN_DOWN end_addr 4)"
  shows "heap_run_inv h [0] Map.empty"
proof -
  have "heap_ok h [0]" "live (hdr h) [0] = Map.empty" using rt_system_heap_init_ok[OF assms(3), of h0] assms(1) by auto
  moreover have "used_mem h = used_mem h0"
    using assms(1) unfolding rt_system_heap_init_def by (auto simp: upd_hdr_def Let_def split: if_splits)
  ultimately show ?thesis using assms(2) by (simp add: heap_run_inv_def owned_def extent_def)
qed

theorem heap_reach_inv: "heap_reach h own \<Longrightarrow> \<exists>ps. heap_run_inv h ps own"
proof (induction rule: heap_reach.induct)
  case start
  then show ?case using init_starts by blast
next
  case (malloc h own sz r h')
  then show ?case using malloc_keeps[of h _ own sz] by auto
next
  case (realloc h own r sz m r' h' m')
  then obtain ps old where "heap_run_inv h ps own" "own r = Some old" by blast
  from realloc_keeps[OF this, of sz m] show ?case using realloc(3) by auto
next
  case (free h own r h')
  then obtain ps sz where "heap_run_inv h ps own" "own r = Some sz" by blast
  from free_keeps[OF this] show ?case using free(3) by (auto simp del: fun_upd_apply)
qed

subsection \<open>What the clients may rely on\<close>

definition region :: "u32 \<Rightarrow> u32 \<Rightarrow> nat set" where
  "region r sz = {unat r ..< unat r + unat sz}"

lemma owned_region:
  assumes i: "heap_run_inv h ps own" and r: "own r = Some sz" "unat sz + 3 < 2 ^ 32"
  shows "\<exists>p e. r = addr h p + 12 \<and> live (hdr h) ps p = Some e \<and> r \<noteq> 0 \<and> r AND 3 = 0 \<and>
    region r sz \<subseteq> {unat (heap_ptr h) + unat p + 12 ..< unat (heap_ptr h) + unat e} \<and> unat e \<le> unat (heap_end h)"
proof -
  have I: "heap_ok h ps" "owned (heap_ptr h) (live (hdr h) ps) own" using i by (auto simp: heap_run_inv_def)
  obtain p e where p: "r = addr h p + 12" "live (hdr h) ps p = Some e" "unat p + 12 + unat sz \<le> unat e"
    using owned_live[OF I(2) r(1)] r(2) by (auto simp: addr_def)
  note B = live_block[OF I(1) p(2)]
  show ?thesis using p B by (intro exI[of _ p] exI[of _ e]) (auto simp: region_def)
qed

lemma owned_disjoint:
  assumes i: "heap_run_inv h ps own" and r: "own r = Some sz" "unat sz + 3 < 2 ^ 32" and q: "own q = Some sz'" "unat sz' + 3 < 2 ^ 32"
    and ne: "r \<noteq> q"
  shows "region r sz \<inter> region q sz' = {}"
proof -
  obtain p e where p: "r = addr h p + 12" "live (hdr h) ps p = Some e"
    "region r sz \<subseteq> {unat (heap_ptr h) + unat p + 12 ..< unat (heap_ptr h) + unat e}" using owned_region[OF i r] by blast
  obtain p' e' where p': "q = addr h p' + 12" "live (hdr h) ps p' = Some e'"
    "region q sz' \<subseteq> {unat (heap_ptr h) + unat p' + 12 ..< unat (heap_ptr h) + unat e'}" using owned_region[OF i q] by blast
  have "p \<noteq> p'" using p(1) p'(1) ne by auto
  moreover have "hseg (hdr h) 0 0 ps (heap_end h)" using i by (simp add: heap_run_inv_def heap_ok_def heap_inv_def heap_chain_def)
  ultimately have "unat e \<le> unat p' \<or> unat e' \<le> unat p" using live_disjoint p(2) p'(2) by blast
  then show ?thesis using p(3) p'(3) by force
qed

text \<open>When everything has been given back, the heap is again one free block of the whole size.\<close>

lemma all_free_single:
  assumes i: "heap_run_inv h ps Map.empty"
  shows "ps = [0]" "hm_next (hdr h 0) = heap_end h" "hm_used (hdr h 0) = 0" "used_mem h = 0"
proof -
  have I: "heap_ok h ps" "owned (heap_ptr h) (live (hdr h) ps) Map.empty" "used_mem h = extent (live (hdr h) ps)"
    using i by (auto simp: heap_run_inv_def)
  have L: "live (hdr h) ps = Map.empty"
  proof
    fix p
    show "live (hdr h) ps p = None" using ownedD[OF I(2), of p] by (cases "live (hdr h) ps p") (auto simp: covers_Some)
  qed
  then show "used_mem h = 0" using I(3) by (simp add: extent_def)
  have fr: "hm_used (hdr h x) = 0" if "x \<in> set ps" for x
    using fun_cong[OF L, of x] that by (auto simp: live_def split: if_splits)
  have s: "hseg (hdr h) 0 0 ps (heap_end h)" and c: "coalesced (hdr h) ps" and f: "heap_frame h"
    using I(1) by (auto simp: heap_ok_def heap_inv_def heap_chain_def)
  have "heap_end h \<noteq> 0" using unat_heap_end[OF f] by auto
  then obtain x xs where ps: "ps = x # xs" using s by (cases ps) auto
  moreover have "xs = []" using c fr ps by (cases xs) (auto simp: coalesced_Cons)
  ultimately show "ps = [0]" "hm_next (hdr h 0) = heap_end h" "hm_used (hdr h 0) = 0" using s fr by auto
qed

subsection \<open>Contents of resized memory\<close>

text \<open>A copy between two disjoint blocks reads what was there and writes only the target block.\<close>

lemma disjoint_copy:
  fixes d s c a :: u32
  assumes "unat s + unat c \<le> unat d \<or> unat d + unat c \<le> unat s" "unat s + unat c < 2 ^ 32"
  shows "rt_memcpy d s c m a = (if unat (a - d) < unat c then m (s + (a - d)) else m a)"
proof -
  have "unat c \<le> unat (d - s)"
  proof (cases "unat s \<le> unat d")
    case True
    then have "unat (d - s) = unat d - unat s" by (simp add: unat_sub_if')
    then show ?thesis using assms(1) True by linarith
  next
    case False
    then have "unat (d - s) = unat d + 2 ^ 32 - unat s" by (simp add: unat_sub_if')
    then show ?thesis using assms(2) by linarith
  qed
  moreover have "unat c \<le> 2 ^ 32" using unat_u32_less[of c] by simp
  ultimately show ?thesis unfolding rt_memcpy_bytes by (intro copy_bytes_at) auto
qed

lemma copy_at_offset:
  fixes d s c k :: u32
  assumes "unat s + unat c \<le> unat d \<or> unat d + unat c \<le> unat s" "unat s + unat c < 2 ^ 32" "unat k < unat c"
  shows "rt_memcpy d s c m (d + k) = m (s + k)"
  using disjoint_copy[OF assms(1,2), of m "d + k"] assms(3) by simp

lemma copy_elsewhere:
  fixes d s c a :: u32
  assumes "unat s + unat c \<le> unat d \<or> unat d + unat c \<le> unat s" "unat s + unat c < 2 ^ 32"
    and "unat a < unat d \<or> unat d + unat c \<le> unat a" "unat d + unat c < 2 ^ 32"
  shows "rt_memcpy d s c m a = m a"
proof -
  have "unat c \<le> unat (a - d)"
  proof (cases "unat d \<le> unat a")
    case True
    then have "unat (a - d) = unat a - unat d" by (simp add: unat_sub_if')
    then show ?thesis using assms(3) True by linarith
  next
    case False
    then have "unat (a - d) = unat a + 2 ^ 32 - unat d" by (simp add: unat_sub_if')
    then show ?thesis using assms(4) by linarith
  qed
  then show ?thesis using disjoint_copy[OF assms(1,2), of m a] by simp
qed

text \<open>The memory of a client at offset \<open>k\<close>.\<close>

lemma owned_byte:
  assumes "heap_run_inv h ps own" "own q = Some n" "unat n + 3 < 2 ^ 32" "unat k < unat n"
  shows "\<exists>p e. q = addr h p + 12 \<and> live (hdr h) ps p = Some e \<and> unat (q + k) = unat (heap_ptr h) + unat p + 12 + unat k \<and>
    unat p + 12 + unat n \<le> unat e"
proof -
  have I: "heap_ok h ps" "owned (heap_ptr h) (live (hdr h) ps) own" using assms(1) by (auto simp: heap_run_inv_def)
  obtain p e where p: "q = addr h p + 12" "live (hdr h) ps p = Some e" "unat p + 12 + unat n \<le> unat e"
    using owned_live[OF I(2) assms(2)] assms(3) by (auto simp: addr_def)
  note B = live_block[OF I(1) p(2)]
  have "unat q + unat k < 2 ^ 32" using B(3,5,6) p assms(4) unat_u32_less[of "addr h (heap_end h)"] by simp
  then have "unat (q + k) = unat q + unat k" by (simp add: unat_word_ariths)
  then show ?thesis using p B(3) by auto
qed

lemma realloc_contents:
  assumes i: "heap_run_inv h ps own" and r: "own r = Some old" "unat old + 3 < 2 ^ 32"
    and R: "rt_realloc 0 r sz h m = Some (r', h', m')" "r' \<noteq> 0" and sz: "unat sz + 3 < 2 ^ 32"
  shows "unat k < unat old \<Longrightarrow> unat k < unat sz \<Longrightarrow> m' (r' + k) = m (r + k)"
    "own q = Some n \<Longrightarrow> q \<noteq> r \<Longrightarrow> unat n + 3 < 2 ^ 32 \<Longrightarrow> unat k < unat n \<Longrightarrow> m' (q + k) = m (q + k)"
proof -
  let ?L = "live (hdr h) ps" and ?n = "RT_ALIGN sz 4"
  have I: "heap_ok h ps" "owned (heap_ptr h) ?L own" using i by (auto simp: heap_run_inv_def)
  obtain p e where p: "r = addr h p + 12" "?L p = Some e" "unat p + 12 + unat old \<le> unat e"
    using owned_live[OF I(2) r(1)] r(2) by (auto simp: addr_def)
  note B = live_block[OF I(1) p(2)]
  obtain ps' where ps': "heap_ok h' ps'" "heap_ptr h' = heap_ptr h" "heap_end h' = heap_end h" "realloc_result p e ?n h ps m r' h' ps' m'"
    using rt_realloc_ok[OF I(1) p(2), of sz m] p(1) R(1) by (auto simp: resized_def)
  define c where "c = (if e - p - 12 < ?n then e - p - 12 else ?n)"
  from ps'(4) R(2) consider "r' = r" "m' = m"
    | x f where "r' = addr h x + 12" "x \<noteq> p" "live (hdr h') ps' = ?L(x \<mapsto> f, p := None)" "unat x + 12 + unat ?n \<le> unat f"
        "?L x = None" "unat e \<le> unat x \<or> unat f \<le> unat p" "m' = rt_memcpy r' r c m"
    unfolding realloc_result_def p(1) c_def by (elim disjE exE conjE) blast+
  then have "(unat k < unat old \<longrightarrow> unat k < unat sz \<longrightarrow> m' (r' + k) = m (r + k)) \<and>
    (own q = Some n \<longrightarrow> q \<noteq> r \<longrightarrow> unat n + 3 < 2 ^ 32 \<longrightarrow> unat k < unat n \<longrightarrow> m' (q + k) = m (q + k))"
  proof cases
    case (2 x f)
    have "live (hdr h') ps' x = Some f" using 2(2,3) by simp
    note X = live_block[OF ps'(1) this]
    have ad: "addr h' = addr h" using ps'(2) by (simp add: addr_def fun_eq_iff)
    have c: "unat c \<le> unat e - unat p - 12" "unat c \<le> unat ?n"
      using unat_block_size[OF B(4)] by (auto simp: c_def word_less_nat_alt not_less)
    have ur: "unat r = unat (heap_ptr h) + unat p + 12" "unat r' = unat (heap_ptr h) + unat x + 12"
      using B(3) X(3) p(1) 2(1) ps'(2) ad by auto
    have en: "unat (heap_ptr h) + unat e < 2 ^ 32" "unat (heap_ptr h) + unat f < 2 ^ 32"
      using B(5,6) X(5) ps'(3) unat_u32_less[of "addr h (heap_end h)"] by simp_all
    have apart: "unat r + unat c \<le> unat r' \<or> unat r' + unat c \<le> unat r" "unat r + unat c < 2 ^ 32" "unat r' + unat c < 2 ^ 32"
      using 2(4,6) c ur en B(4) by linarith+
    have "unat k < unat c" if "unat k < unat old" "unat k < unat sz"
      using that p(3) RT_ALIGN_ge(1)[OF sz] unat_block_size[OF B(4)] by (auto simp: c_def)
    moreover have "m' (q + k) = m (q + k)" if q: "own q = Some n" "q \<noteq> r" "unat n + 3 < 2 ^ 32" "unat k < unat n"
    proof -
      obtain y g where y: "q = addr h y + 12" "?L y = Some g" "unat (q + k) = unat (heap_ptr h) + unat y + 12 + unat k"
        "unat y + 12 + unat n \<le> unat g" using owned_byte[OF i q(1,3,4)] by blast
      have "y \<noteq> p" using y(1) p(1) q(2) by auto
      moreover have "y \<noteq> x" using y(2) 2(5) by auto
      ultimately have "live (hdr h') ps' y = Some g" using 2(3) y(2) by simp
      moreover have "hseg (hdr h') 0 0 ps' (heap_end h')" using ps'(1) by (simp add: heap_ok_def heap_inv_def heap_chain_def)
      ultimately have "unat f \<le> unat y \<or> unat g \<le> unat x"
        using live_disjoint[of "hdr h'" 0 0 ps' "heap_end h'" x f y g] \<open>live (hdr h') ps' x = Some f\<close> \<open>y \<noteq> x\<close> by auto
      then have "unat (q + k) < unat r' \<or> unat r' + unat c \<le> unat (q + k)"
        using y(3,4) q(4) ur(2) c(2) 2(4) by linarith
      then show ?thesis unfolding 2(7) using copy_elsewhere[OF apart(1,2) _ apart(3)] by blast
    qed
    ultimately show ?thesis unfolding 2(7) using copy_at_offset[OF apart(1,2)] by blast
  qed simp
  then show "unat k < unat old \<Longrightarrow> unat k < unat sz \<Longrightarrow> m' (r' + k) = m (r + k)"
    "own q = Some n \<Longrightarrow> q \<noteq> r \<Longrightarrow> unat n + 3 < 2 ^ 32 \<Longrightarrow> unat k < unat n \<Longrightarrow> m' (q + k) = m (q + k)" by blast+
qed

end
