(* ===== verification/RT_Create.thy ===== *)
theory RT_Create
  imports RT_Mq RT_Mempool RT_Event RT_Mutex RT_Lifecycle RT_Heap_Run
begin

text \<open>
  Kernel objects on the heap: \<^verbatim>\<open>rt_object_allocate\<close> and \<^verbatim>\<open>rt_object_delete\<close> of \<^verbatim>\<open>Kernel/object.c\<close>, the create
  and delete functions of \<^verbatim>\<open>ipc.c\<close>, \<^verbatim>\<open>mempool.c\<close>, \<^verbatim>\<open>timer.c\<close> and \<^verbatim>\<open>thread.c\<close>, and the idle thread of \<^verbatim>\<open>idle.c\<close>,
  which frees the memory of deleted threads. The state joins the kernel state with the heap of
  \<^verbatim>\<open>RT_Heap\<close>; an object on the heap is named by the address of its memory. The sizes of the structures
  are the table \<^verbatim>\<open>rt_object_container[].object_size\<close>. The pool memory of a mailbox, message queue or
  memory pool (\<^verbatim>\<open>msg_pool\<close>, \<^verbatim>\<open>start_address\<close>) is recorded by address in \<open>pool_of\<close>.
\<close>

record dstate =
  krn :: kstate
  hp :: heap
  pool_of :: "oid \<Rightarrow> u32"
  object_size :: "u8 \<Rightarrow> u32"

definition RT_KERNEL_MALLOC :: "u32 \<Rightarrow> dstate \<Rightarrow> (u32 \<times> dstate) option" where
  "RT_KERNEL_MALLOC sz s = do {
     (p, h) \<leftarrow> rt_malloc (rt_interrupt_get_nest (krn s)) sz (hp s);
     Some (p, s\<lparr>hp := h\<rparr>)
   }"

definition RT_KERNEL_FREE :: "u32 \<Rightarrow> dstate \<Rightarrow> dstate option" where
  "RT_KERNEL_FREE p s = do {
     h \<leftarrow> rt_free (rt_interrupt_get_nest (krn s)) p (hp s);
     Some (s\<lparr>hp := h\<rparr>)
   }"

definition on_krn :: "(kstate \<Rightarrow> kstate option) \<Rightarrow> dstate \<Rightarrow> dstate option" where
  "on_krn f s = map_option (\<lambda>k. s\<lparr>krn := k\<rparr>) (f (krn s))"

subsection \<open>Objects\<close>

definition objid_of :: "u8 \<Rightarrow> nat \<Rightarrow> objid" where
  "objid_of ty n = (if ty = RT_Object_Class_Thread then Obj_Thread n
     else if ty = RT_Object_Class_Timer then Obj_Timer (User_Timer n) else Obj n)"

fun obj_home :: "objid \<Rightarrow> nat" where
  "obj_home (Obj_Thread t) = t"
| "obj_home (Obj_Timer (User_Timer n)) = n"
| "obj_home (Obj_Timer (Thread_Timer t)) = t"
| "obj_home (Obj n) = n"

definition rt_object_allocate :: "u8 \<Rightarrow> u8 list \<Rightarrow> dstate \<Rightarrow> (nat option \<times> dstate) option" where
  "rt_object_allocate ty nm s = do {
     RT_DEBUG_NOT_IN_INTERRUPT (krn s);
     (p, s) \<leftarrow> RT_KERNEL_MALLOC (object_size s ty) s;
     if p = 0 then Some (None, s)
     else do {
       let x = objid_of ty (unat p);
       let k = upd_object x (\<lambda>ob. ob\<lparr>obj_type := ty, obj_flag := 0\<rparr>) (krn s);
       nm8 \<leftarrow> rt_strncpy nm RT_NAME_MAX;
       let k = upd_object x (\<lambda>ob. ob\<lparr>obj_name := nm8\<rparr>) k;
       let k = k\<lparr>rt_object_container := q_insert_after ty x (rt_object_container k)\<rparr>;
       Some (Some (unat p), s\<lparr>krn := k\<rparr>)
     }
   }"

definition rt_object_delete :: "objid \<Rightarrow> dstate \<Rightarrow> dstate option" where
  "rt_object_delete x s = do {
     rt_assert (obj_type (objects (krn s) x) AND RT_Object_Class_Static = 0);
     let s = s\<lparr>krn := rt_object_detach x (krn s)\<rparr>;
     RT_KERNEL_FREE (of_nat (obj_home x)) s
   }"

subsection \<open>IPC objects\<close>

definition rt_sem_create :: "u8 list \<Rightarrow> u32 \<Rightarrow> u8 \<Rightarrow> dstate \<Rightarrow> (oid option \<times> dstate) option" where
  "rt_sem_create nm v flag s = do {
     RT_DEBUG_NOT_IN_INTERRUPT (krn s);
     (r, s) \<leftarrow> rt_object_allocate RT_Object_Class_Semaphore nm s;
     case r of None \<Rightarrow> Some (None, s) | Some x \<Rightarrow> do {
       let k = rt_ipc_object_init (Wait x) (krn s);
       let k = upd_sem x (\<lambda>sm. sm\<lparr>sem_value := ucast v\<rparr>) k;
       let k = upd_object (Obj x) (\<lambda>ob. ob\<lparr>obj_flag := flag\<rparr>) k;
       Some (Some x, s\<lparr>krn := k\<rparr>)
     }
   }"

definition rt_sem_delete :: "oid \<Rightarrow> dstate \<Rightarrow> (rt_err_t \<times> dstate) option" where
  "rt_sem_delete x s = do {
     RT_DEBUG_NOT_IN_INTERRUPT (krn s);
     s \<leftarrow> on_krn (rt_ipc_list_resume_all (Wait x)) s;
     s \<leftarrow> rt_object_delete (Obj x) s;
     Some (RT_EOK, s)
   }"

definition rt_mutex_create :: "u8 list \<Rightarrow> u8 \<Rightarrow> dstate \<Rightarrow> (oid option \<times> dstate) option" where
  "rt_mutex_create nm flag s = do {
     RT_DEBUG_NOT_IN_INTERRUPT (krn s);
     (r, s) \<leftarrow> rt_object_allocate RT_Object_Class_Mutex nm s;
     case r of None \<Rightarrow> Some (None, s) | Some x \<Rightarrow> do {
       let k = rt_ipc_object_init (Wait x) (krn s);
       let k = upd_mutex x (\<lambda>_. \<lparr>mutex_value = 1, original_priority = 0xff, hold = 0, owner = None\<rparr>) k;
       let k = upd_object (Obj x) (\<lambda>ob. ob\<lparr>obj_flag := flag\<rparr>) k;
       Some (Some x, s\<lparr>krn := k\<rparr>)
     }
   }"

definition rt_mutex_delete :: "oid \<Rightarrow> dstate \<Rightarrow> (rt_err_t \<times> dstate) option" where
  "rt_mutex_delete x s = do {
     RT_DEBUG_NOT_IN_INTERRUPT (krn s);
     s \<leftarrow> on_krn (rt_ipc_list_resume_all (Wait x)) s;
     s \<leftarrow> rt_object_delete (Obj x) s;
     Some (RT_EOK, s)
   }"

definition rt_event_create :: "u8 list \<Rightarrow> u8 \<Rightarrow> dstate \<Rightarrow> (oid option \<times> dstate) option" where
  "rt_event_create nm flag s = do {
     RT_DEBUG_NOT_IN_INTERRUPT (krn s);
     (r, s) \<leftarrow> rt_object_allocate RT_Object_Class_Event nm s;
     case r of None \<Rightarrow> Some (None, s) | Some x \<Rightarrow> do {
       let k = upd_object (Obj x) (\<lambda>ob. ob\<lparr>obj_flag := flag\<rparr>) (krn s);
       let k = rt_ipc_object_init (Wait x) k;
       Some (Some x, s\<lparr>krn := upd_event x (\<lambda>e. e\<lparr>ev_set := 0\<rparr>) k\<rparr>)
     }
   }"

definition rt_event_delete :: "oid \<Rightarrow> dstate \<Rightarrow> (rt_err_t \<times> dstate) option" where
  "rt_event_delete x s = do {
     RT_DEBUG_NOT_IN_INTERRUPT (krn s);
     s \<leftarrow> on_krn (rt_ipc_list_resume_all (Wait x)) s;
     s \<leftarrow> rt_object_delete (Obj x) s;
     Some (RT_EOK, s)
   }"

text \<open>A pool starts with what the memory holds at its address.\<close>

definition rt_mb_create :: "u8 list \<Rightarrow> u32 \<Rightarrow> u8 \<Rightarrow> dstate \<Rightarrow> (oid option \<times> dstate) option" where
  "rt_mb_create nm sz flag s = do {
     RT_DEBUG_NOT_IN_INTERRUPT (krn s);
     (r, s) \<leftarrow> rt_object_allocate RT_Object_Class_MailBox nm s;
     case r of None \<Rightarrow> Some (None, s) | Some x \<Rightarrow> do {
       let k = upd_object (Obj x) (\<lambda>ob. ob\<lparr>obj_flag := flag\<rparr>) (krn s);
       let k = rt_ipc_object_init (Wait x) k;
       let k = set_mb x ((mailboxes k x)\<lparr>mb_size := ucast sz\<rparr>) k;
       let s = s\<lparr>krn := k\<rparr>;
       let size = mb_size (mailboxes k x);
       (p, s) \<leftarrow> RT_KERNEL_MALLOC (ucast size * 4) s;
       let s = s\<lparr>pool_of := (pool_of s)(x := p)\<rparr>;
       if p = 0 then do {
         s \<leftarrow> rt_object_delete (Obj x) s;
         Some (None, s)
       } else do {
         let k = krn s;
         let pool = map (\<lambda>i. load32 (memory k) (p + 4 * of_nat i)) [0..<unat size];
         let k = set_mb x \<lparr>mb_pool = pool, mb_size = size, mb_entry = 0, in_offset = 0, out_offset = 0\<rparr> k;
         let k = k\<lparr>tlists := q_init (Wait_Sender x) (tlists k)\<rparr>;
         Some (Some x, s\<lparr>krn := k\<rparr>)
       }
     }
   }"

definition rt_mb_delete :: "oid \<Rightarrow> dstate \<Rightarrow> (rt_err_t \<times> dstate) option" where
  "rt_mb_delete x s = do {
     RT_DEBUG_NOT_IN_INTERRUPT (krn s);
     s \<leftarrow> on_krn (rt_ipc_list_resume_all (Wait x)) s;
     s \<leftarrow> on_krn (rt_ipc_list_resume_all (Wait_Sender x)) s;
     s \<leftarrow> RT_KERNEL_FREE (pool_of s x) s;
     s \<leftarrow> rt_object_delete (Obj x) s;
     Some (RT_EOK, s)
   }"

definition rt_mq_delete :: "oid \<Rightarrow> dstate \<Rightarrow> (rt_err_t \<times> dstate) option" where
  "rt_mq_delete x s = do {
     RT_DEBUG_NOT_IN_INTERRUPT (krn s);
     s \<leftarrow> on_krn (rt_ipc_list_resume_all (Wait x)) s;
     s \<leftarrow> RT_KERNEL_FREE (pool_of s x) s;
     s \<leftarrow> rt_object_delete (Obj x) s;
     Some (RT_EOK, s)
   }"

definition rt_mq_create :: "u8 list \<Rightarrow> u32 \<Rightarrow> u32 \<Rightarrow> u8 \<Rightarrow> dstate \<Rightarrow> (oid option \<times> dstate) option" where
  "rt_mq_create nm msgsize maxmsgs flag s = do {
     RT_DEBUG_NOT_IN_INTERRUPT (krn s);
     (r, s) \<leftarrow> rt_object_allocate RT_Object_Class_MessageQueue nm s;
     case r of None \<Rightarrow> Some (None, s) | Some x \<Rightarrow> do {
       let k = upd_object (Obj x) (\<lambda>ob. ob\<lparr>obj_flag := flag\<rparr>) (krn s);
       let k = rt_ipc_object_init (Wait x) k;
       let sz = (ucast (RT_ALIGN msgsize 4) :: u16);
       let n = (ucast maxmsgs :: u16);
       let k = set_mq x ((mqs k x)\<lparr>msg_size := sz, max_msgs := n\<rparr>) k;
       let s = s\<lparr>krn := k\<rparr>;
       (p, s) \<leftarrow> RT_KERNEL_MALLOC ((ucast sz + 4) * ucast n) s;
       let s = s\<lparr>pool_of := (pool_of s)(x := p)\<rparr>;
       if p = 0 then do {
         (_, s) \<leftarrow> rt_mq_delete x s;
         Some (None, s)
       } else do {
         let k = krn s;
         let data = (\<lambda>b. map (\<lambda>i. memory k (p + of_nat b * (ucast sz + 4) + 4 + of_nat i)) [0..<unat sz]);
         let mq = \<lparr>mq_next = (\<lambda>_. None), mq_data = data, msg_size = sz, max_msgs = n, mq_entry = 0,
                   msg_queue_head = None, msg_queue_tail = None, msg_queue_free = None\<rparr>;
         let mq = (fold mq_release [0..<unat n] mq)\<lparr>mq_entry := 0\<rparr>;
         Some (Some x, s\<lparr>krn := set_mq x mq k\<rparr>)
       }
     }
   }"

subsection \<open>Memory pools, timers, threads\<close>

text \<open>
  If the product of block cnt and block size wraps, the memory is smaller than the blocks that are
  linked in it, and the code writes outside of it (\<^term>\<open>None\<close>).
\<close>

definition mp_create_blocks :: "u32 \<Rightarrow> u32 \<Rightarrow> rt_mempool option" where
  "mp_create_blocks cnt bs = do {
     let block_size = RT_ALIGN bs 4;
     rt_assert (unat (block_size + 4) * unat cnt < 2 ^ 32);
     let hdr = fold (\<lambda>i h. h(i := Next_Free (Some (i + 1)))) [0..<unat cnt] (\<lambda>_. Next_Free None);
     let hdr = hdr(unat cnt - 1 := Next_Free None);
     Some \<lparr>mp_size = (block_size + 4) * cnt, mp_block_size = block_size, mp_header_of = hdr, block_list = Some 0,
           block_total_count = cnt, block_free_count = cnt, suspend_thread_count = 0\<rparr>
   }"

definition rt_mp_create :: "u8 list \<Rightarrow> u32 \<Rightarrow> u32 \<Rightarrow> dstate \<Rightarrow> (oid option \<times> dstate) option" where
  "rt_mp_create nm cnt bs s = do {
     RT_DEBUG_NOT_IN_INTERRUPT (krn s);
     (r, s) \<leftarrow> rt_object_allocate RT_Object_Class_MemPool nm s;
     case r of None \<Rightarrow> Some (None, s) | Some x \<Rightarrow> do {
       let block_size = RT_ALIGN bs 4;
       let k = set_mp x ((mempools (krn s) x)\<lparr>mp_block_size := block_size, mp_size := (block_size + 4) * cnt\<rparr>) (krn s);
       let s = s\<lparr>krn := k\<rparr>;
       (p, s) \<leftarrow> RT_KERNEL_MALLOC ((block_size + 4) * cnt) s;
       let s = s\<lparr>pool_of := (pool_of s)(x := p)\<rparr>;
       if p = 0 then do {
         s \<leftarrow> rt_object_delete (Obj x) s;
         Some (None, s)
       } else do {
         mp \<leftarrow> mp_create_blocks cnt bs;
         let k = (krn s)\<lparr>tlists := q_init (Wait x) (tlists (krn s))\<rparr>;
         Some (Some x, s\<lparr>krn := set_mp x mp k\<rparr>)
       }
     }
   }"

definition rt_mp_delete :: "oid \<Rightarrow> dstate \<Rightarrow> (rt_err_t \<times> dstate) option" where
  "rt_mp_delete x s = do {
     RT_DEBUG_NOT_IN_INTERRUPT (krn s);
     s \<leftarrow> on_krn (mp_wake_all x) s;
     s \<leftarrow> RT_KERNEL_FREE (pool_of s x) s;
     s \<leftarrow> rt_object_delete (Obj x) s;
     Some (RT_EOK, s)
   }"

definition rt_timer_create :: "u8 list \<Rightarrow> timeout_fn \<Rightarrow> u32 \<Rightarrow> u8 \<Rightarrow> dstate \<Rightarrow> (oid option \<times> dstate) option" where
  "rt_timer_create nm timeout time flag s = do {
     (r, s) \<leftarrow> rt_object_allocate RT_Object_Class_Timer nm s;
     case r of None \<Rightarrow> Some (None, s) | Some x \<Rightarrow>
       Some (Some x, s\<lparr>krn := rt_timer_init_common (User_Timer x) timeout time flag (krn s)\<rparr>)
   }"

definition rt_timer_delete :: "oid \<Rightarrow> dstate \<Rightarrow> (rt_err_t \<times> dstate) option" where
  "rt_timer_delete x s = do {
     let s = s\<lparr>krn := rt_timer_remove (User_Timer x) (krn s)\<rparr>;
     s \<leftarrow> rt_object_delete (Obj_Timer (User_Timer x)) s;
     Some (- RT_EOK, s)
   }"

definition rt_thread_create ::
    "u32 \<Rightarrow> u8 list \<Rightarrow> u32 \<Rightarrow> u32 \<Rightarrow> u32 \<Rightarrow> u8 \<Rightarrow> u32 \<Rightarrow> dstate \<Rightarrow> (tid option \<times> dstate) option" where
  "rt_thread_create exit_fn nm entry param stksize priority tick s = do {
     (r, s) \<leftarrow> rt_object_allocate RT_Object_Class_Thread nm s;
     case r of None \<Rightarrow> Some (None, s) | Some t \<Rightarrow> do {
       (stack_start, s) \<leftarrow> RT_KERNEL_MALLOC stksize s;
       if stack_start = 0 then do {
         s \<leftarrow> rt_object_delete (Obj_Thread t) s;
         Some (None, s)
       } else do {
         (_, k) \<leftarrow> rt_thread_init_common exit_fn t entry param stack_start stksize priority tick (krn s);
         Some (Some t, s\<lparr>krn := k\<rparr>)
       }
     }
   }"

text \<open>
  The idle thread frees deleted threads. \<open>clean\<close> stands for the cleanup functions of the
  application.
\<close>

partial_function (option) rt_thread_idle_excute :: "(nat \<Rightarrow> tid \<Rightarrow> dstate \<Rightarrow> dstate option) \<Rightarrow> dstate \<Rightarrow> dstate option" where
  "rt_thread_idle_excute clean s =
    (case tlists (krn s) Defunct of
       [] \<Rightarrow> Some s
     | t # _ \<Rightarrow> Option.bind (RT_DEBUG_NOT_IN_INTERRUPT (krn s)) (\<lambda>_.
         Option.bind (let s = s\<lparr>krn := (krn s)\<lparr>tlists := q_remove t (tlists (krn s))\<rparr>\<rparr>
                      in case cleanup (threads (krn s) t) of None \<Rightarrow> Some s | Some c \<Rightarrow> clean c t s) (\<lambda>s.
         if rt_object_is_systemobject (Obj_Thread t) (krn s) then Some s
         else Option.bind (RT_KERNEL_FREE (stack_addr (threads (krn s) t)) s) (\<lambda>s.
              Option.bind (rt_object_delete (Obj_Thread t) s) (rt_thread_idle_excute clean)))))"

subsection \<open>Memory of the kernel objects\<close>

text \<open>An address is used if a list head, a linked thread, an attached object or a running timer lives there.\<close>

fun q_home :: "qid \<Rightarrow> nat option" where
  "q_home (Wait n) = Some n"
| "q_home (Wait_Sender n) = Some n"
| "q_home _ = None"

definition linked :: "nat \<Rightarrow> kstate \<Rightarrow> bool" where
  "linked n k \<longleftrightarrow> (\<exists>q. n \<in> set (tlists k q))"

definition waited :: "nat \<Rightarrow> kstate \<Rightarrow> bool" where
  "waited n k \<longleftrightarrow> (\<exists>q. q_home q = Some n \<and> tlists k q \<noteq> [])"

definition timed :: "nat \<Rightarrow> kstate \<Rightarrow> bool" where
  "timed n k \<longleftrightarrow> (\<exists>tm \<in> set (rt_timer_list k). obj_home (Obj_Timer tm) = n)"

definition housed :: "nat \<Rightarrow> kstate \<Rightarrow> objid set" where
  "housed n k = {x. attached x k \<and> obj_home x = n}"

definition used :: "nat \<Rightarrow> kstate \<Rightarrow> bool" where
  "used n k \<longleftrightarrow> linked n k \<or> waited n k \<or> timed n k \<or> housed n k \<noteq> {}"

lemmas used_defs = used_def linked_def waited_def timed_def housed_def attached_def

text \<open>
  The invariant: the kernel, its containers and the heap are well-formed, and every used address at
  or above the start of the heap is owned. (The static objects lie below the heap.)
\<close>

definition dyn_inv :: "int \<Rightarrow> (u32 \<rightharpoonup> u32) \<Rightarrow> dstate \<Rightarrow> bool" where
  "dyn_inv d own s \<longleftrightarrow> sys d {} (krn s) \<and> obj_inv (krn s) \<and> rt_interrupt_nest (krn s) = 0 \<and>
     (\<exists>ps. heap_run_inv (hp s) ps own) \<and>
     (\<forall>n. used n (krn s) \<longrightarrow> unat (heap_ptr (hp s)) \<le> n \<longrightarrow> n < 2 ^ 32 \<longrightarrow> own (of_nat n) \<noteq> None)"

lemma malloc_fresh:
  assumes i: "heap_run_inv h ps own"
  shows "\<exists>r h' ps'. rt_malloc 0 sz h = Some (r, h') \<and> heap_run_inv h' ps' (if r = 0 then own else own(r \<mapsto> sz)) \<and>
    heap_ptr h' = heap_ptr h \<and> (r = 0 \<longrightarrow> h' = h) \<and> (r \<noteq> 0 \<longrightarrow> own r = None \<and> unat (heap_ptr h) \<le> unat r)"
proof -
  have ok: "heap_ok h ps" and ow: "owned (heap_ptr h) (live (hdr h) ps) own" using i by (auto simp: heap_run_inv_def)
  obtain r h' ps' where m: "rt_malloc 0 sz h = Some (r, h')" "heap_run_inv h' ps' (if r = 0 then own else own(r \<mapsto> sz))"
    using malloc_keeps[OF i, of sz] by blast
  obtain r1 h1 ps1 where k: "rt_malloc 0 sz h = Some (r1, h1)" "heap_ok h1 ps1" "heap_ptr h1 = heap_ptr h" "r1 = 0 \<longrightarrow> h1 = h"
    "r1 \<noteq> 0 \<longrightarrow> (\<exists>x e. r1 = addr h x + 12 \<and> live (hdr h) ps x = None \<and> live (hdr h1) ps1 = (live (hdr h) ps)(x \<mapsto> e))"
    using rt_malloc_ok[OF ok, of sz] by (elim exE conjE) (auto split: if_splits)
  have e: "r1 = r" "h1 = h'" using m(1) k(1) by auto
  have "own r = None \<and> unat (heap_ptr h) \<le> unat r" if ne: "r \<noteq> 0"
  proof -
    obtain x e where x: "r = addr h x + 12" "live (hdr h) ps x = None" "live (hdr h1) ps1 x = Some e" using k(5) e ne by auto
    have "own r = None" using ownedD[OF ow, of x] x(1,2) by (simp add: addr_def)
    moreover have "unat (addr h x + 12) = unat (heap_ptr h) + unat x + 12"
      using live_block(3)[OF k(2) x(3)] k(3) by (simp add: addr_def)
    ultimately show ?thesis using x(1) by simp
  qed
  then show ?thesis using m k(3,4) e by blast
qed

lemma free_owned:
  assumes i: "heap_run_inv h ps own" and r: "own r \<noteq> None"
  shows "\<exists>h' ps'. rt_free 0 r h = Some h' \<and> heap_run_inv h' ps' (own(r := None)) \<and> heap_ptr h' = heap_ptr h"
proof -
  have I: "heap_ok h ps" "owned (heap_ptr h) (live (hdr h) ps) own" using i by (auto simp: heap_run_inv_def)
  obtain sz where sz: "own r = Some sz" using r by blast
  obtain h' ps' where f: "rt_free 0 r h = Some h'" "heap_run_inv h' ps' (own(r := None))" using free_keeps[OF i sz] by blast
  obtain p e where p: "r = heap_ptr h + p + 12" "live (hdr h) ps p = Some e" using owned_live[OF I(2) sz] by blast
  have "heap_ptr h' = heap_ptr h" using rt_free_ok[OF I(1) p(2)] p(1) f(1) by (auto simp: addr_def)
  then show ?thesis using f by blast
qed

subsection \<open>Allocating and deleting an object\<close>

text \<open>Memory requests of the kernel: a block no one owns, at an address nothing uses.\<close>

lemma kernel_malloc_ok:
  assumes i: "dyn_inv d own s"
  shows "\<exists>p s'. RT_KERNEL_MALLOC sz s = Some (p, s') \<and> dyn_inv d (if p = 0 then own else own(p \<mapsto> sz)) s' \<and>
    s' = s\<lparr>hp := hp s'\<rparr> \<and> heap_ptr (hp s') = heap_ptr (hp s) \<and> (p = 0 \<longrightarrow> s' = s) \<and>
    (p \<noteq> 0 \<longrightarrow> sz \<noteq> 0 \<and> own p = None \<and> unat (heap_ptr (hp s)) \<le> unat p \<and> \<not> used (unat p) (krn s))"
proof -
  have z: "rt_malloc 0 0 (hp s) = Some (0, hp s)" by (simp add: rt_malloc_def)
  obtain ps where h: "heap_run_inv (hp s) ps own" and nest: "rt_interrupt_nest (krn s) = 0"
    using i by (auto simp: dyn_inv_def)
  obtain p h' ps' where m: "rt_malloc 0 sz (hp s) = Some (p, h')" "heap_run_inv h' ps' (if p = 0 then own else own(p \<mapsto> sz))"
    "heap_ptr h' = heap_ptr (hp s)" "p = 0 \<longrightarrow> h' = hp s" "p \<noteq> 0 \<longrightarrow> own p = None \<and> unat (heap_ptr (hp s)) \<le> unat p"
    using malloc_fresh[OF h] by blast
  have "\<not> used (unat p) (krn s)" if "p \<noteq> 0"
    using i m(5) that unat_u32_less[of p] by (auto simp: dyn_inv_def)
  moreover have "dyn_inv d (if p = 0 then own else own(p \<mapsto> sz)) (s\<lparr>hp := h'\<rparr>)"
    using i m(2,3) by (auto simp: dyn_inv_def)
  moreover have "p \<noteq> 0 \<longrightarrow> sz \<noteq> 0" using z m(1) by auto
  ultimately show ?thesis using m nest by (intro exI[of _ p] exI[of _ "s\<lparr>hp := h'\<rparr>"])
      (auto simp: RT_KERNEL_MALLOC_def rt_interrupt_get_nest_def)
qed

lemma kernel_free_ok:
  assumes i: "dyn_inv d own s" and r: "own p \<noteq> None" "\<not> used (unat p) (krn s)"
  shows "\<exists>s'. RT_KERNEL_FREE p s = Some s' \<and> dyn_inv d (own(p := None)) s' \<and> s' = s\<lparr>hp := hp s'\<rparr> \<and> heap_ptr (hp s') = heap_ptr (hp s)"
proof -
  obtain ps where h: "heap_run_inv (hp s) ps own" and nest: "rt_interrupt_nest (krn s) = 0"
    using i by (auto simp: dyn_inv_def)
  obtain h' ps' where f: "rt_free 0 p (hp s) = Some h'" "heap_run_inv h' ps' (own(p := None))" "heap_ptr h' = heap_ptr (hp s)"
    using free_owned[OF h r(1)] by blast
  have "own (of_nat n) \<noteq> None \<and> of_nat n \<noteq> p" if "used n (krn s)" "unat (heap_ptr (hp s)) \<le> n" "n < 2 ^ 32" for n
    using i r(2) that by (auto simp: dyn_inv_def unat_of_nat)
  then have "dyn_inv d (own(p := None)) (s\<lparr>hp := h'\<rparr>)" using i f(2,3) by (auto simp: dyn_inv_def)
  then show ?thesis using f nest by (intro exI[of _ "s\<lparr>hp := h'\<rparr>"]) (auto simp: RT_KERNEL_FREE_def rt_interrupt_get_nest_def)
qed

text \<open>The object that a kernel state holds at an address, and no other.\<close>

definition stands :: "u8 \<Rightarrow> nat \<Rightarrow> kstate \<Rightarrow> bool" where
  "stands ty n k \<longleftrightarrow> housed n k = {objid_of ty n} \<and> objid_of ty n \<in> set (rt_object_container k ty) \<and>
     obj_type (objects k (objid_of ty n)) = ty \<and> n < 2 ^ 32"

lemma obj_home_objid_of [simp]: "obj_home (objid_of ty n) = n"
  by (simp add: objid_of_def)

lemma rt_object_whole [simp]:
  "(ob :: rt_object)\<lparr>obj_type := a, obj_flag := b, obj_name := c\<rparr> = \<lparr>obj_name = c, obj_type = a, obj_flag = b\<rparr>"
  by (cases ob) simp

text \<open>A timer that does not run may be written.\<close>

lemma sys_idle_timer:
  assumes s: "sys d X s" and n: "tmx \<notin> set (rt_timer_list s)"
    and eq: "threads s' = threads s" "tlists s' = tlists s" "rt_thread_ready_priority_group s' = rt_thread_ready_priority_group s"
      "rt_timer_list s' = rt_timer_list s" "rt_tick s' = rt_tick s"
    and tm: "\<And>tm. tm \<noteq> tmx \<Longrightarrow> timers s' tm = timers s tm \<and> obj_flag (objects s' (Obj_Timer tm)) = obj_flag (objects s (Obj_Timer tm))"
      "fn_matches tmx (timeout_func (timers s' tmx))" "\<And>t. tmx = Thread_Timer t \<Longrightarrow> obj_flag (objects s' (Obj_Timer tmx)) AND RT_TIMER_FLAG_PERIODIC = 0"
  shows "sys d X s'"
proof -
  have "remaining s' tm = remaining s tm \<and> timer_active tm s' = timer_active tm s" if "tm \<in> set (rt_timer_list s)" for tm
  proof -
    have "tm \<noteq> tmx" using that n by auto
    then show ?thesis using tm(1) eq by (simp add: remaining_def timer_active_def)
  qed
  moreover have "sorted_wrt (\<lambda>a b. remaining s a \<le> remaining s b) (rt_timer_list s)" using sysD(2)[OF s] by (simp add: timer_inv_def)
  ultimately have "timer_inv d s'" using sysD(2)[OF s] eq
    by (auto simp: timer_inv_def intro: sorted_wrt_mono_rel[of _ "\<lambda>a b. remaining s a \<le> remaining s b"])
  moreover have "timers_ok s'"
  proof -
    have "fn_matches tm' (timeout_func (timers s' tm'))" for tm'
      using sysD(4)[OF s] tm by (cases "tm' = tmx") (auto simp: timers_ok_def)
    moreover have "obj_flag (objects s' (Obj_Timer (Thread_Timer t))) AND RT_TIMER_FLAG_PERIODIC = 0" for t
      using tm(1)[of "Thread_Timer t"] tm(3)[of t] sysD(4)[OF s] by (cases "Thread_Timer t = tmx") (auto simp: timers_ok_def)
    ultimately show ?thesis by (simp add: timers_ok_def)
  qed
  ultimately show ?thesis using s kinvx_cong[OF eq(1-3)] eq by (simp add: sys_def sleepers_ok_def)
qed

lemma rt_object_allocate_ok:
  assumes i: "dyn_inv d own s" and nm: "terminated nm"
  shows "\<exists>r s'. rt_object_allocate ty nm s = Some (r, s') \<and>
    (case r of None \<Rightarrow> s' = s
     | Some n \<Rightarrow> \<exists>nm8. n < 2 ^ 32 \<and> n \<noteq> 0 \<and> own (of_nat n) = None \<and> unat (heap_ptr (hp s)) \<le> n \<and> \<not> used n (krn s) \<and>
         length nm8 = RT_NAME_MAX \<and> cstr RT_NAME_MAX nm8 = cstr RT_NAME_MAX nm \<and>
         dyn_inv d (own(of_nat n \<mapsto> object_size s ty)) s' \<and>
         s' = s\<lparr>krn := (krn s)\<lparr>objects := (objects (krn s))(objid_of ty n := \<lparr>obj_name = nm8, obj_type = ty, obj_flag = 0\<rparr>),
             rt_object_container := q_insert_after ty (objid_of ty n) (rt_object_container (krn s))\<rparr>, hp := hp s'\<rparr> \<and>
         heap_ptr (hp s') = heap_ptr (hp s))"
proof -
  have nest: "rt_interrupt_nest (krn s) = 0" using i by (simp add: dyn_inv_def)
  obtain p s1 where m: "RT_KERNEL_MALLOC (object_size s ty) s = Some (p, s1)" "dyn_inv d (if p = 0 then own else own(p \<mapsto> object_size s ty)) s1"
    "s1 = s\<lparr>hp := hp s1\<rparr>" "heap_ptr (hp s1) = heap_ptr (hp s)" "p = 0 \<longrightarrow> s1 = s"
    "p \<noteq> 0 \<longrightarrow> own p = None \<and> unat (heap_ptr (hp s)) \<le> unat p \<and> \<not> used (unat p) (krn s)"
    using kernel_malloc_ok[OF i] by blast
  show ?thesis
  proof (cases "p = 0")
    case True
    then show ?thesis using m(1,5) nest by (auto simp: rt_object_allocate_def RT_DEBUG_NOT_IN_INTERRUPT_def rt_interrupt_get_nest_def)
  next
    case False
    define n where "n = unat p"
    define x where "x = objid_of ty n"
    obtain nm8 where nm8: "rt_strncpy nm 8 = Some nm8" "length nm8 = 8" "cstr 8 nm8 = cstr 8 nm"
      using rt_strncpy_Some[OF nm, of 8] by blast
    define k where "k = (krn s)\<lparr>objects := (objects (krn s))(x := \<lparr>obj_name = nm8, obj_type = ty, obj_flag = 0\<rparr>),
        rt_object_container := q_insert_after ty x (rt_object_container (krn s))\<rparr>"
    have k1: "krn s1 = krn s" by (subst m(3)) simp
    have run: "rt_object_allocate ty nm s = Some (Some n, s1\<lparr>krn := k\<rparr>)"
      using False m(1) nm8(1) nest k1
      by (simp add: rt_object_allocate_def RT_DEBUG_NOT_IN_INTERRUPT_def rt_interrupt_get_nest_def Let_def k_def x_def n_def)
    have u: "\<not> used n (krn s)" using m(6) False by (simp add: n_def)
    then have na: "\<not> attached x (krn s)" by (auto simp: used_def housed_def x_def)
    have "obj_inv k" using i na nm8(2) by (auto simp: k_def dyn_inv_def obj_inv_def attached_def q_insert_after_def)
    moreover have "sys d {} k"
    proof -
      have "sys d {} (krn s)" using i by (simp add: dyn_inv_def)
      show ?thesis
      proof (cases "\<exists>tm. x = Obj_Timer tm")
        case False
        then show ?thesis using \<open>sys d {} (krn s)\<close> by (intro sys_eqI[OF \<open>sys d {} (krn s)\<close>]) (auto simp: k_def)
      next
        case True
        then have x: "x = Obj_Timer (User_Timer n)" by (auto simp: x_def objid_of_def split: if_splits)
        have "User_Timer n \<notin> set (rt_timer_list (krn s))" using u by (auto simp: used_def timed_def)
        moreover have "fn_matches (User_Timer n) (timeout_func (timers (krn s) (User_Timer n)))"
          using sysD(4)[OF \<open>sys d {} (krn s)\<close>] unfolding timers_ok_def by blast
        ultimately show ?thesis using x by (intro sys_idle_timer[OF \<open>sys d {} (krn s)\<close>]) (auto simp: k_def)
      qed
    qed
    moreover have "used m k \<longleftrightarrow> used m (krn s) \<or> m = n" for m
      by (auto simp: used_defs k_def q_insert_after_def x_def)
    ultimately have "dyn_inv d (own(p \<mapsto> object_size s ty)) (s1\<lparr>krn := k\<rparr>)"
      using m(2) False k1 nest by (auto simp: dyn_inv_def k_def n_def)
    moreover have "s1\<lparr>krn := k\<rparr> = s\<lparr>krn := k, hp := hp s1\<rparr>" by (subst m(3)) (cases s, simp)
    ultimately show ?thesis using run u m(4,6) False nm8 unat_u32_less[of p]
      by (intro exI[of _ "Some n"] exI[of _ "s1\<lparr>krn := k\<rparr>"]) (auto simp: n_def k_def x_def intro!: exI[of _ nm8])
  qed
qed

lemma rt_object_delete_ok:
  assumes i: "dyn_inv d own s" and n: "stands ty n (krn s)" "own (of_nat n) \<noteq> None" "ty AND RT_Object_Class_Static = 0"
    and free: "\<not> linked n (krn s)" "\<not> waited n (krn s)" "\<not> timed n (krn s)"
  shows "\<exists>s'. rt_object_delete (objid_of ty n) s = Some s' \<and> dyn_inv d (own(of_nat n := None)) s' \<and>
    s' = s\<lparr>krn := rt_object_detach (objid_of ty n) (krn s), hp := hp s'\<rparr> \<and> heap_ptr (hp s') = heap_ptr (hp s)"
proof -
  let ?x = "objid_of ty n" and ?s = "s\<lparr>krn := rt_object_detach (objid_of ty n) (krn s)\<rparr>"
  have o: "obj_inv (krn s)" using i by (simp add: dyn_inv_def)
  have at: "attached y (krn ?s) \<longleftrightarrow> attached y (krn s) \<and> y \<noteq> ?x" for y using rt_object_detach_attached[OF o] by simp
  have sub: "used m (krn ?s) \<longrightarrow> used m (krn s)" for m
    using at by (auto simp: used_def housed_def linked_def waited_def timed_def rt_object_detach_def)
  have "\<not> used n (krn ?s)" using at free n(1)
    by (auto simp: used_def housed_def linked_def waited_def timed_def rt_object_detach_def stands_def)
  then have nu: "\<not> used (unat (of_nat n :: u32)) (krn ?s)" using n(1) by (simp add: stands_def unat_of_nat)
  have "dyn_inv d own ?s"
    using i sub rt_object_detach_sys rt_object_detach_obj_inv by (auto simp: dyn_inv_def rt_object_detach_def)
  from kernel_free_ok[OF this n(2) nu] obtain s' where
    s': "RT_KERNEL_FREE (of_nat n) ?s = Some s'" "dyn_inv d (own(of_nat n := None)) s'" "s' = ?s\<lparr>hp := hp s'\<rparr>"
    "heap_ptr (hp s') = heap_ptr (hp ?s)" by blast
  show ?thesis using s' n(1,3) by (auto simp: rt_object_delete_def stands_def Let_def)
qed

subsection \<open>Waking the waiting threads\<close>

text \<open>What the loops that wake all threads of a list leave alone.\<close>

definition wakes :: "kstate \<Rightarrow> kstate \<Rightarrow> bool" where
  "wakes k k' \<longleftrightarrow> rt_object_container k' = rt_object_container k \<and>
     (\<forall>x. obj_name (objects k' x) = obj_name (objects k x) \<and> obj_type (objects k' x) = obj_type (objects k x)) \<and>
     (\<forall>n. linked n k' \<longrightarrow> linked n k) \<and> set (rt_timer_list k') \<subseteq> set (rt_timer_list k) \<and>
     (\<forall>q. q_home q \<noteq> None \<longrightarrow> set (tlists k' q) \<subseteq> set (tlists k q)) \<and> rt_interrupt_nest k' = rt_interrupt_nest k"

lemma wakes_refl: "wakes k k" by (simp add: wakes_def)

lemma wakes_trans: "wakes k k' \<Longrightarrow> wakes k' k'' \<Longrightarrow> wakes k k''"
  unfolding wakes_def by (elim conjE, intro conjI allI impI; (simp; fail)?) (blast dest: subsetD)+

lemma in_set_remove1D: "x \<in> set (remove1 y xs) \<Longrightarrow> x \<in> set xs"
  by (meson notin_set_remove1)

lemma resume_wakes:
  assumes "rt_thread_resume t k = Some (e, k')" "linked t k"
  shows "wakes k k'"
proof (cases "stat (threads k t) = RT_THREAD_SUSPEND")
  case True
  let ?k1 = "k\<lparr>tlists := q_remove t (tlists k)\<rparr>"
  let ?k2 = "snd (rt_timer_stop (Thread_Timer t) ?k1)"
  have r: "rt_schedule_insert_thread t ?k2 = Some k'"
    using assms(1) True by (auto simp: rt_thread_resume_def Let_def bind_eq_Some_conv)
  have sel: "tlists ?k2 = q_remove t (tlists k)" "rt_object_container ?k2 = rt_object_container k" "rt_interrupt_nest ?k2 = rt_interrupt_nest k"
    "set (rt_timer_list ?k2) \<subseteq> set (rt_timer_list k)"
    "obj_name (objects ?k2 x) = obj_name (objects k x)" "obj_type (objects ?k2 x) = obj_type (objects k x)" for x
    using set_remove1_subset[of "Thread_Timer t" "rt_timer_list k"] by (auto simp: rt_timer_stop_def timer_set_active_def rt_timer_remove_def)
  have k': "tlists k' = q_insert_before (Ready (unat (current_priority (threads k' t)))) t (tlists ?k2)" "rt_object_container k' = rt_object_container ?k2"
    "rt_timer_list k' = rt_timer_list ?k2" "objects k' = objects ?k2" "rt_interrupt_nest k' = rt_interrupt_nest ?k2"
    using r by (auto simp: rt_schedule_insert_thread_def Let_def rt_assert_Some_iff bind_eq_Some_conv)
  show ?thesis unfolding wakes_def k' sel
    using assms(2) sel(4) by (auto simp: linked_def k' sel q_insert_before_def q_remove_def dest: in_set_remove1D)
next
  case False
  then show ?thesis using assms(1) by (simp add: rt_thread_resume_def wakes_refl)
qed

lemma waker_wakes:
  assumes "tlists k q = t # ts" "rt_thread_resume t (upd_thread t f k) = Some (e, k')"
  shows "wakes k k'"
proof -
  have "linked t (upd_thread t f k)" using assms(1) by (auto simp: linked_def intro: exI[of _ q])
  from resume_wakes[OF assms(2) this] show ?thesis by (simp add: wakes_def linked_def)
qed

lemma wake_all_wakes: "rt_ipc_list_resume_all q k = Some k' \<Longrightarrow> wakes k k'"
proof (erule rt_ipc_list_resume_all.raw_induct[rotated])
  fix f q k k'
  assume IH: "\<And>q k k'. f q k = Some k' \<Longrightarrow> wakes k k'" and
    step: "(case tlists k q of [] \<Rightarrow> Some k
     | t # _ \<Rightarrow> Option.bind (rt_thread_resume t (upd_thread t (\<lambda>th. th\<lparr>error := - RT_ERROR\<rparr>) k)) (\<lambda>(_, s). f q s)) = Some k'"
  show "wakes k k'"
  proof (cases "tlists k q")
    case Nil
    then show ?thesis using step by (simp add: wakes_refl)
  next
    case (Cons t ts)
    then obtain e k1 where r: "rt_thread_resume t (upd_thread t (\<lambda>th. th\<lparr>error := - RT_ERROR\<rparr>) k) = Some (e, k1)" "f q k1 = Some k'"
      using step by (auto simp: bind_eq_Some_conv)
    show ?thesis by (rule wakes_trans[OF waker_wakes[OF Cons r(1)] IH[OF r(2)]])
  qed
qed

lemmas mp_wake_all_induct = mp_wake_all.raw_induct[of "\<lambda>_. P" "(x, k)" for P x k, unfolded prod.case]

lemma mp_wake_all_wakes: "mp_wake_all x k = Some k' \<Longrightarrow> wakes k k'"
proof (erule mp_wake_all_induct[rotated])
  fix f x k k'
  assume IH: "\<And>x k k'. f x k = Some k' \<Longrightarrow> wakes k k'" and
    step: "(case tlists k (Wait x) of [] \<Rightarrow> Some k
     | t # _ \<Rightarrow> Option.bind (rt_thread_resume t (upd_thread t (\<lambda>th. th\<lparr>error := - RT_ERROR\<rparr>) k))
           (\<lambda>(_, s). f x (set_mp x ((mempools s x)\<lparr>suspend_thread_count := suspend_thread_count (mempools s x) - 1\<rparr>) s))) = Some k'"
  show "wakes k k'"
  proof (cases "tlists k (Wait x)")
    case Nil
    then show ?thesis using step by (simp add: wakes_refl)
  next
    case (Cons t ts)
    then obtain e k1 where r: "rt_thread_resume t (upd_thread t (\<lambda>th. th\<lparr>error := - RT_ERROR\<rparr>) k) = Some (e, k1)"
      "f x (set_mp x ((mempools k1 x)\<lparr>suspend_thread_count := suspend_thread_count (mempools k1 x) - 1\<rparr>) k1) = Some k'"
      using step by (auto simp: bind_eq_Some_conv)
    have "wakes k1 k'" using IH[OF r(2)] by (simp add: wakes_def set_mp_def linked_def)
    then show ?thesis by (rule wakes_trans[OF waker_wakes[OF Cons r(1)]])
  qed
qed

lemma wakes_used: "wakes k k' \<Longrightarrow> used n k' \<Longrightarrow> used n k"
  by (auto simp: wakes_def used_def waited_def timed_def housed_def attached_def)

lemma wakes_obj_inv: "wakes k k' \<Longrightarrow> obj_inv k \<Longrightarrow> obj_inv k'"
  by (simp add: wakes_def obj_inv_def)

lemma wakes_stands: "wakes k k' \<Longrightarrow> stands ty n k' = stands ty n k"
  by (simp add: wakes_def stands_def housed_def attached_def)

lemma dyn_inv_wakes: "dyn_inv d own s \<Longrightarrow> wakes (krn s) k' \<Longrightarrow> sys d {} k' \<Longrightarrow> dyn_inv d own (s\<lparr>krn := k'\<rparr>)"
proof -
  assume i: "dyn_inv d own s" "sys d {} k'" and w: "wakes (krn s) k'"
  have "rt_interrupt_nest k' = rt_interrupt_nest (krn s)" using w by (simp add: wakes_def)
  then show ?thesis using i wakes_used[OF w] wakes_obj_inv[OF w] by (auto simp: dyn_inv_def)
qed

subsection \<open>Creating\<close>

text \<open>Writing an object's own fields: all that the lists, the timers and the scheduler look at stays.\<close>

definition dressed :: "nat \<Rightarrow> kstate \<Rightarrow> kstate \<Rightarrow> bool" where
  "dressed n k k' \<longleftrightarrow> threads k' = threads k \<and> tlists k' = tlists k \<and> timers k' = timers k \<and> rt_timer_list k' = rt_timer_list k \<and>
     rt_thread_ready_priority_group k' = rt_thread_ready_priority_group k \<and> rt_tick k' = rt_tick k \<and>
     rt_object_container k' = rt_object_container k \<and> rt_interrupt_nest k' = rt_interrupt_nest k \<and>
     (\<forall>x. x \<noteq> Obj n \<longrightarrow> objects k' x = objects k x) \<and>
     obj_name (objects k' (Obj n)) = obj_name (objects k (Obj n)) \<and> obj_type (objects k' (Obj n)) = obj_type (objects k (Obj n))"

lemma dressed_obj: "dressed n k k' \<Longrightarrow> obj_name (objects k' x) = obj_name (objects k x) \<and> obj_type (objects k' x) = obj_type (objects k x)"
  by (cases "x = Obj n") (simp_all add: dressed_def)

lemma dressed_same:
  assumes "dressed n k k'"
  shows "linked m k' = linked m k" "waited m k' = waited m k" "timed m k' = timed m k" "housed m k' = housed m k" "stands ty m k' = stands ty m k"
    "tlists k' = tlists k"
  using assms dressed_obj[OF assms] by (simp_all add: dressed_def linked_def waited_def timed_def housed_def attached_def stands_def)

lemma dyn_inv_dressed: "dyn_inv d own s \<Longrightarrow> dressed n (krn s) k' \<Longrightarrow> dyn_inv d own (s\<lparr>krn := k'\<rparr>)"
proof -
  assume i: "dyn_inv d own s" and w: "dressed n (krn s) k'"
  have "used m k' = used m (krn s)" for m using dressed_same[OF w] by (simp add: used_def)
  moreover have "obj_inv k'" using i w dressed_obj[OF w] by (simp add: dyn_inv_def obj_inv_def dressed_def)
  moreover have "sys d {} k'" using i w by (intro sys_eqI[of d "{}" "krn s" k']) (auto simp: dyn_inv_def dressed_def)
  moreover have "rt_interrupt_nest k' = rt_interrupt_nest (krn s)" using w by (simp add: dressed_def)
  ultimately show ?thesis using i by (auto simp: dyn_inv_def)
qed

text \<open>The allocated object stands alone at its address; the objects before it stand as they did.\<close>

definition alone :: "u8 \<Rightarrow> nat \<Rightarrow> kstate \<Rightarrow> bool" where
  "alone ty n k \<longleftrightarrow> stands ty n k \<and> \<not> linked n k \<and> \<not> timed n k"

lemma allocate_stands:
  assumes i: "dyn_inv d own s" and nm: "terminated nm"
  shows "\<exists>r s1. rt_object_allocate ty nm s = Some (r, s1) \<and> object_size s1 = object_size s \<and> pool_of s1 = pool_of s \<and>
    (case r of None \<Rightarrow> s1 = s
     | Some n \<Rightarrow> n < 2 ^ 32 \<and> n \<noteq> 0 \<and> own (of_nat n) = None \<and> \<not> used n (krn s) \<and> dyn_inv d (own(of_nat n \<mapsto> object_size s ty)) s1 \<and>
        alone ty n (krn s1) \<and> \<not> waited n (krn s1) \<and> name_of (krn s1) (objid_of ty n) = cstr RT_NAME_MAX nm \<and>
        (\<forall>ty' m. m \<noteq> n \<longrightarrow> stands ty' m (krn s1) = stands ty' m (krn s)) \<and>
        (\<forall>m. linked m (krn s1) = linked m (krn s) \<and> timed m (krn s1) = timed m (krn s) \<and> (used m (krn s1) \<longleftrightarrow> used m (krn s) \<or> m = n)) \<and>
        tlists (krn s1) = tlists (krn s) \<and> rt_timer_list (krn s1) = rt_timer_list (krn s) \<and> rt_interrupt_nest (krn s1) = 0)"
proof -
  obtain r s1 where a: "rt_object_allocate ty nm s = Some (r, s1)" and
    c: "case r of None \<Rightarrow> s1 = s
     | Some n \<Rightarrow> \<exists>nm8. n < 2 ^ 32 \<and> n \<noteq> 0 \<and> own (of_nat n) = None \<and> unat (heap_ptr (hp s)) \<le> n \<and> \<not> used n (krn s) \<and>
         length nm8 = RT_NAME_MAX \<and> cstr RT_NAME_MAX nm8 = cstr RT_NAME_MAX nm \<and>
         dyn_inv d (own(of_nat n \<mapsto> object_size s ty)) s1 \<and>
         s1 = s\<lparr>krn := (krn s)\<lparr>objects := (objects (krn s))(objid_of ty n := \<lparr>obj_name = nm8, obj_type = ty, obj_flag = 0\<rparr>),
             rt_object_container := q_insert_after ty (objid_of ty n) (rt_object_container (krn s))\<rparr>, hp := hp s1\<rparr> \<and>
         heap_ptr (hp s1) = heap_ptr (hp s)"
    using rt_object_allocate_ok[OF i nm, of ty] by blast
  show ?thesis
  proof (cases r)
    case None
    then show ?thesis using a c by auto
  next
    case (Some n)
    then obtain nm8 where n: "n < 2 ^ 32" "n \<noteq> 0" "own (of_nat n) = None" "\<not> used n (krn s)" "cstr RT_NAME_MAX nm8 = cstr RT_NAME_MAX nm"
      "dyn_inv d (own(of_nat n \<mapsto> object_size s ty)) s1" and
      s1: "s1 = s\<lparr>krn := (krn s)\<lparr>objects := (objects (krn s))(objid_of ty n := \<lparr>obj_name = nm8, obj_type = ty, obj_flag = 0\<rparr>),
             rt_object_container := q_insert_after ty (objid_of ty n) (rt_object_container (krn s))\<rparr>, hp := hp s1\<rparr>"
      using c by auto
    define x where "x = objid_of ty n"
    have k1: "krn s1 = (krn s)\<lparr>objects := (objects (krn s))(x := \<lparr>obj_name = nm8, obj_type = ty, obj_flag = 0\<rparr>),
             rt_object_container := q_insert_after ty x (rt_object_container (krn s))\<rparr>" by (subst s1) (simp add: x_def)
    have f: "object_size s1 = object_size s" "pool_of s1 = pool_of s" by (subst s1, simp)+
    have hx: "obj_home x = n" by (simp add: x_def)
    have sel: "linked m (krn s1) = linked m (krn s)" "timed m (krn s1) = timed m (krn s)" "waited m (krn s1) = waited m (krn s)"
      "housed m (krn s1) = (if m = n then insert x (housed n (krn s)) else housed m (krn s))" for m
      by (auto simp: k1 linked_def timed_def waited_def housed_def attached_def q_insert_after_def hx)
    have u: "housed n (krn s) = {}" "\<not> linked n (krn s)" "\<not> timed n (krn s)" "\<not> waited n (krn s)" using n(4) by (auto simp: used_def)
    have "objid_of ty' m \<noteq> x" if "m \<noteq> n" for ty' m using that hx by auto
    then have st: "stands ty' m (krn s1) = stands ty' m (krn s)" if "m \<noteq> n" for ty' m
      using that sel(4)[of m] by (auto simp: stands_def k1 q_insert_after_def)
    have al: "stands ty n (krn s1)" using sel(4)[of n] u n(1) by (simp add: stands_def x_def k1 q_insert_after_def)
    have us: "used m (krn s1) \<longleftrightarrow> used m (krn s) \<or> m = n" for m using sel by (auto simp: used_def)
    have "name_of (krn s1) (objid_of ty n) = cstr RT_NAME_MAX nm" using n(5) by (simp add: k1 x_def)
    moreover have "rt_interrupt_nest (krn s1) = 0" using n(6) by (simp add: dyn_inv_def)
    ultimately show ?thesis using a f n st al us sel u Some by (intro exI[of _ r] exI[of _ s1]) (simp add: alone_def k1)
  qed
qed

end
