(* ===== verification/RT_Dynamic.thy ===== *)
theory RT_Dynamic
  imports RT_Create
begin

text \<open>
  What the create and delete functions promise, as one interface: a created object has memory that
  nobody owned, deleting it gives exactly that memory back, and a creation that fails spares nothing.
  Over any sequence of such calls the heap memory in use is accounted for by the live objects. The
  contract of one kind adds that a call leaves the objects at other addresses alone. The functions of \<^verbatim>\<open>RT_Create\<close> are shown to keep this contract.
\<close>

subsection \<open>The interface\<close>

datatype ('p, 'h) dyn_op = Create 'p | Delete 'h

text \<open>The live objects and the state after some calls; an object that is not live is not deleted.\<close>

fun dyn_run :: "('p \<Rightarrow> dstate \<Rightarrow> ('h option \<times> dstate) option) \<Rightarrow> ('h \<Rightarrow> dstate \<Rightarrow> (rt_err_t \<times> dstate) option) \<Rightarrow>
    ('p, 'h) dyn_op list \<Rightarrow> 'h list \<times> dstate \<Rightarrow> ('h list \<times> dstate) option" where
  "dyn_run create delete [] (L, s) = Some (L, s)"
| "dyn_run create delete (Create p # ops) (L, s) = (case create p s of None \<Rightarrow> None
     | Some (r, s) \<Rightarrow> dyn_run create delete ops (case r of None \<Rightarrow> L | Some n \<Rightarrow> n # L, s))"
| "dyn_run create delete (Delete n # ops) (L, s) = (if n \<in> set L then
     (case delete n s of None \<Rightarrow> None | Some (_, s) \<Rightarrow> dyn_run create delete ops (remove1 n L, s))
     else dyn_run create delete ops (L, s))"

fun op_valid :: "('p \<Rightarrow> bool) \<Rightarrow> ('p, 'h) dyn_op \<Rightarrow> bool" where
  "op_valid valid (Create p) = valid p"
| "op_valid valid (Delete n) = True"

locale dyn_kind =
  fixes create :: "'p \<Rightarrow> dstate \<Rightarrow> ('h option \<times> dstate) option"
    and delete :: "'h \<Rightarrow> dstate \<Rightarrow> (rt_err_t \<times> dstate) option"
    and valid :: "'p \<Rightarrow> bool"
    and made :: "'p \<Rightarrow> 'h \<Rightarrow> dstate \<Rightarrow> bool"
    and here :: "'h \<Rightarrow> dstate \<Rightarrow> bool"
    and blocks :: "'h \<Rightarrow> dstate \<Rightarrow> u32 set"
  assumes create_ok: "dyn_inv d own s \<Longrightarrow> valid p \<Longrightarrow> \<exists>r s'. create p s = Some (r, s') \<and>
      (\<forall>m. here m s \<longrightarrow> blocks m s \<subseteq> dom own \<longrightarrow> here m s' \<and> blocks m s' = blocks m s) \<and>
      (case r of None \<Rightarrow> dyn_inv d own s'
       | Some n \<Rightarrow> here n s' \<and> made p n s' \<and> \<not> here n s \<and> (\<exists>own'. dyn_inv d own' s' \<and> own \<subseteq>\<^sub>m own' \<and>
            dom own' = dom own \<union> blocks n s' \<and> blocks n s' \<inter> dom own = {}))"
    and delete_ok: "dyn_inv d own s \<Longrightarrow> here n s \<Longrightarrow> blocks n s \<subseteq> dom own \<Longrightarrow> \<exists>s'. delete n s = Some (RT_EOK, s') \<and>
      dyn_inv d (own |` (- blocks n s)) s' \<and>
      (\<forall>m. m \<noteq> n \<longrightarrow> here m s \<longrightarrow> blocks m s \<inter> blocks n s = {} \<longrightarrow> here m s' \<and> blocks m s' = blocks m s)"
begin

text \<open>
  The account of the memory: what was owned at the start, and the blocks of the live objects, which
  do not overlap.
\<close>

definition account :: "int \<Rightarrow> (u32 \<rightharpoonup> u32) \<Rightarrow> 'h list \<Rightarrow> dstate \<Rightarrow> bool" where
  "account d own0 L s \<longleftrightarrow> (\<exists>own. dyn_inv d own s \<and> own0 \<subseteq>\<^sub>m own \<and> dom own = dom own0 \<union> (\<Union>n \<in> set L. blocks n s) \<and>
     (\<forall>n \<in> set L. here n s \<and> blocks n s \<inter> dom own0 = {}) \<and> distinct L \<and>
     (\<forall>n \<in> set L. \<forall>m \<in> set L. n \<noteq> m \<longrightarrow> blocks n s \<inter> blocks m s = {}))"

lemma account_create:
  assumes a: "account d own0 L s" and p: "valid p"
  shows "\<exists>r s'. create p s = Some (r, s') \<and> account d own0 (case r of None \<Rightarrow> L | Some n \<Rightarrow> n # L) s'"
proof -
  obtain own where o: "dyn_inv d own s" "own0 \<subseteq>\<^sub>m own" "dom own = dom own0 \<union> (\<Union>n \<in> set L. blocks n s)"
    "\<forall>n \<in> set L. here n s \<and> blocks n s \<inter> dom own0 = {}" "distinct L" "\<forall>n \<in> set L. \<forall>m \<in> set L. n \<noteq> m \<longrightarrow> blocks n s \<inter> blocks m s = {}"
    using a by (auto simp: account_def)
  obtain r s' where c: "create p s = Some (r, s')" and
    keep: "\<forall>m. here m s \<longrightarrow> blocks m s \<subseteq> dom own \<longrightarrow> here m s' \<and> blocks m s' = blocks m s" and
    res: "case r of None \<Rightarrow> dyn_inv d own s' | Some n \<Rightarrow> here n s' \<and> made p n s' \<and> \<not> here n s \<and> (\<exists>own'. dyn_inv d own' s' \<and> own \<subseteq>\<^sub>m own' \<and>
            dom own' = dom own \<union> blocks n s' \<and> blocks n s' \<inter> dom own = {})"
    using create_ok[OF o(1) p] by blast
  have k: "here m s' \<and> blocks m s' = blocks m s" if "m \<in> set L" for m using keep o(3,4) that by blast
  show ?thesis
  proof (cases r)
    case None
    then have "account d own0 L s'" unfolding account_def using res o k by (intro exI[of _ own]) simp
    then show ?thesis using c None by simp
  next
    case (Some n)
    then obtain own' where n: "here n s'" "\<not> here n s" "dyn_inv d own' s'" "own \<subseteq>\<^sub>m own'" "dom own' = dom own \<union> blocks n s'"
      "blocks n s' \<inter> dom own = {}" using res by auto
    have nl: "n \<notin> set L" using n(2) o(4) by blast
    have "own0 \<subseteq>\<^sub>m own'" using o(2) n(4) by (rule map_le_trans)
    then have "account d own0 (n # L) s'" unfolding account_def using n o k nl by (intro exI[of _ own']) auto
    then show ?thesis using c Some by simp
  qed
qed

lemma account_delete:
  assumes a: "account d own0 L s" and n: "n \<in> set L"
  shows "\<exists>s'. delete n s = Some (RT_EOK, s') \<and> account d own0 (remove1 n L) s'"
proof -
  obtain own where o: "dyn_inv d own s" "own0 \<subseteq>\<^sub>m own" "dom own = dom own0 \<union> (\<Union>n \<in> set L. blocks n s)"
    "\<forall>n \<in> set L. here n s \<and> blocks n s \<inter> dom own0 = {}" "distinct L" "\<forall>n \<in> set L. \<forall>m \<in> set L. n \<noteq> m \<longrightarrow> blocks n s \<inter> blocks m s = {}"
    using a by (auto simp: account_def)
  have b: "blocks n s \<subseteq> dom own" "here n s" using o(3,4) n by auto
  obtain s' where d: "delete n s = Some (RT_EOK, s')" "dyn_inv d (own |` (- blocks n s)) s'" and
    keep: "\<forall>m. m \<noteq> n \<longrightarrow> here m s \<longrightarrow> blocks m s \<inter> blocks n s = {} \<longrightarrow> here m s' \<and> blocks m s' = blocks m s"
    using delete_ok[OF o(1) b(2,1)] by blast
  have L: "set (remove1 n L) = set L - {n}" using o(5) by simp
  have k: "here m s' \<and> blocks m s' = blocks m s" if "m \<in> set L - {n}" for m using keep o(4,6) n that by blast
  have "own0 \<subseteq>\<^sub>m own |` (- blocks n s)" using o(2,4) n by (force simp: map_le_def restrict_map_def)
  moreover have "dom (own |` (- blocks n s)) = dom own0 \<union> (\<Union>m \<in> set L - {n}. blocks m s')"
  proof -
    have "(\<Union>m \<in> set L - {n}. blocks m s') = (\<Union>m \<in> set L - {n}. blocks m s)" using k by simp
    moreover have "(\<Union>m \<in> set L. blocks m s) - blocks n s = (\<Union>m \<in> set L - {n}. blocks m s)" using o(6) n by blast
    moreover have "dom own0 - blocks n s = dom own0" using o(4) n by blast
    moreover have "dom (own |` (- blocks n s)) = dom own - blocks n s" by auto
    ultimately show ?thesis by (simp add: o(3) Un_Diff)
  qed
  ultimately have "account d own0 (remove1 n L) s'"
    unfolding account_def L using d(2) o k by (intro exI[of _ "own |` (- blocks n s)"]) auto
  then show ?thesis using d(1) by blast
qed

theorem run_accounts:
  assumes "account d own0 L s" "list_all (op_valid valid) ops"
  shows "\<exists>L' s'. dyn_run create delete ops (L, s) = Some (L', s') \<and> account d own0 L' s'"
  using assms
proof (induction ops arbitrary: L s)
  case (Cons x ops)
  show ?case
  proof (cases x)
    case (Create p)
    then obtain r s' where "create p s = Some (r, s')" "account d own0 (case r of None \<Rightarrow> L | Some n \<Rightarrow> n # L) s'"
      using account_create[of d own0 L s p] Cons.prems by auto
    then show ?thesis using Cons.IH[of "case r of None \<Rightarrow> L | Some n \<Rightarrow> n # L" s'] Cons.prems(2) Create by auto
  next
    case (Delete n)
    show ?thesis
    proof (cases "n \<in> set L")
      case True
      then obtain s' where "delete n s = Some (RT_EOK, s')" "account d own0 (remove1 n L) s'" using account_delete Cons.prems(1) by blast
      then show ?thesis using Cons.IH[of "remove1 n L" s'] Cons.prems(2) Delete True by auto
    next
      case False
      then show ?thesis using Cons.IH[OF Cons.prems(1)] Cons.prems(2) Delete by auto
    qed
  qed
qed auto

lemma account_start: "dyn_inv d own s \<Longrightarrow> account d own [] s"
  by (auto simp: account_def)

lemma account_all_deleted: "account d own0 [] s \<Longrightarrow> dyn_inv d own0 s"
proof -
  assume "account d own0 [] s"
  then obtain own where o: "dyn_inv d own s" "own0 \<subseteq>\<^sub>m own" "dom own = dom own0" by (auto simp: account_def)
  have "own0 = own" using o(2,3) by (metis map_le_antisym map_le_def)
  then show ?thesis using o(1) by simp
qed

text \<open>No leak: once every created object is deleted, exactly the memory owned at the start is owned.\<close>

theorem run_no_leak:
  assumes "dyn_inv d own s" "list_all (op_valid valid) ops"
  shows "\<exists>L' s'. dyn_run create delete ops ([], s) = Some (L', s') \<and> (L' = [] \<longrightarrow> dyn_inv d own s')"
  using run_accounts[OF account_start[OF assms(1)] assms(2)] account_all_deleted by blast

end

subsection \<open>What a call leaves alone\<close>

text \<open>
  A call that creates or deletes the object at \<open>n\<close> disturbs no other address: objects stand as they did, no list
  head, linked thread or running timer appears, and the other pools stay where they are.
\<close>

definition spares :: "nat \<Rightarrow> dstate \<Rightarrow> dstate \<Rightarrow> bool" where
  "spares n s s' \<longleftrightarrow> (\<forall>m ty. m \<noteq> n \<longrightarrow> stands ty m (krn s) \<longrightarrow> stands ty m (krn s')) \<and>
     (\<forall>m. m \<noteq> n \<longrightarrow> used m (krn s') \<longrightarrow> used m (krn s)) \<and> (\<forall>m. linked m (krn s') \<longrightarrow> linked m (krn s)) \<and>
     (\<forall>q. q_home q \<noteq> None \<longrightarrow> set (tlists (krn s') q) \<subseteq> set (tlists (krn s) q)) \<and>
     set (rt_timer_list (krn s')) \<subseteq> set (rt_timer_list (krn s)) \<and> (\<forall>m. m \<noteq> n \<longrightarrow> pool_of s' m = pool_of s m)"

lemma spares_trans: "spares n s s' \<Longrightarrow> spares n s' s'' \<Longrightarrow> spares n s s''"
  unfolding spares_def by (elim conjE, intro conjI allI impI; (simp; fail)?) (blast dest: subsetD)+

lemma spares_hp [simp]: "spares n s (s'\<lparr>hp := h\<rparr>) = spares n s s'"
  by (simp add: spares_def)

lemma spares_pool_of: "spares n s s' \<Longrightarrow> spares n s (s'\<lparr>pool_of := (pool_of s')(n := p)\<rparr>)"
  by (simp add: spares_def)

lemma spares_wakes: "wakes (krn s) k \<Longrightarrow> spares n s (s\<lparr>krn := k\<rparr>)"
  using wakes_used[of "krn s" k] wakes_stands[of "krn s" k] by (auto simp: spares_def wakes_def)

lemma spares_dressed: "dressed n (krn s) k \<Longrightarrow> spares n s (s\<lparr>krn := k\<rparr>)"
  using dressed_same[of n "krn s" k] by (simp add: spares_def used_def dressed_def)

lemma spares_detach:
  assumes o: "obj_inv (krn s)"
  shows "spares n s (s\<lparr>krn := rt_object_detach (objid_of ty n) (krn s)\<rparr>)"
proof -
  let ?x = "objid_of ty n" and ?k = "rt_object_detach (objid_of ty n) (krn s)"
  have sel: "tlists ?k = tlists (krn s)" "rt_timer_list ?k = rt_timer_list (krn s)" by (simp_all add: rt_object_detach_def)
  have h: "housed m ?k = housed m (krn s) - {?x}" for m unfolding housed_def rt_object_detach_attached[OF o] by blast
  have "stands ty' m ?k" if "m \<noteq> n" "stands ty' m (krn s)" for ty' m
  proof -
    have "objid_of ty' m \<noteq> ?x" using that(1) by (metis obj_home_objid_of)
    then show ?thesis using that h[of m] by (auto simp: stands_def rt_object_detach_def q_remove_def)
  qed
  moreover have "used m ?k \<Longrightarrow> used m (krn s)" for m using h sel by (auto simp: used_def linked_def waited_def timed_def)
  ultimately show ?thesis by (simp add: spares_def sel linked_def)
qed

lemma spares_allocate:
  assumes "dyn_inv d own s" "terminated nm" "rt_object_allocate ty nm s = Some (Some n, s1)"
  shows "spares n s s1"
  using allocate_stands[OF assms(1,2), of ty] assms(3) by (auto simp: spares_def)

text \<open>The call changed nothing, or only what belongs to an address that nobody owned.\<close>

definition apart :: "(u32 \<rightharpoonup> u32) \<Rightarrow> dstate \<Rightarrow> dstate \<Rightarrow> bool" where
  "apart own s s' \<longleftrightarrow> s' = s \<or> (\<exists>n. own (of_nat n) = None \<and> spares n s s')"

text \<open>
  The contract of one kind of object. An object is known by its address, which is one of its blocks, and it is not
  disturbed by a call that spares its blocks.
\<close>

locale dyn_frame =
  fixes create :: "'p \<Rightarrow> dstate \<Rightarrow> (nat option \<times> dstate) option"
    and delete :: "nat \<Rightarrow> dstate \<Rightarrow> (rt_err_t \<times> dstate) option"
    and valid :: "'p \<Rightarrow> bool"
    and made :: "'p \<Rightarrow> nat \<Rightarrow> dstate \<Rightarrow> bool"
    and here :: "nat \<Rightarrow> dstate \<Rightarrow> bool"
    and blocks :: "nat \<Rightarrow> dstate \<Rightarrow> u32 set"
  assumes create_frame: "dyn_inv d own s \<Longrightarrow> valid p \<Longrightarrow> \<exists>r s'. create p s = Some (r, s') \<and> apart own s s' \<and>
      (case r of None \<Rightarrow> dyn_inv d own s'
       | Some n \<Rightarrow> here n s' \<and> made p n s' \<and> \<not> here n s \<and> (\<exists>own'. dyn_inv d own' s' \<and> own \<subseteq>\<^sub>m own' \<and>
            dom own' = dom own \<union> blocks n s' \<and> blocks n s' \<inter> dom own = {}))"
    and delete_frame: "dyn_inv d own s \<Longrightarrow> here n s \<Longrightarrow> blocks n s \<subseteq> dom own \<Longrightarrow> \<exists>s'. delete n s = Some (RT_EOK, s') \<and>
      dyn_inv d (own |` (- blocks n s)) s' \<and> spares n s s'"
    and here_keeps: "spares n s s' \<Longrightarrow> here m s \<Longrightarrow> of_nat n \<notin> blocks m s \<Longrightarrow> here m s' \<and> blocks m s' = blocks m s"
    and home: "of_nat n \<in> blocks n s"
begin

lemma here_apart: "apart own s s' \<Longrightarrow> here m s \<Longrightarrow> blocks m s \<subseteq> dom own \<Longrightarrow> here m s' \<and> blocks m s' = blocks m s"
  unfolding apart_def using here_keeps[of _ s s' m] by blast

end

text \<open>The contract with the frame gives the contract for runs.\<close>

sublocale dyn_frame \<subseteq> dyn_kind create delete valid made here blocks
proof
  fix d own s p
  assume "dyn_inv d own s" "valid p"
  from create_frame[OF this] show "\<exists>r s'. create p s = Some (r, s') \<and>
      (\<forall>m. here m s \<longrightarrow> blocks m s \<subseteq> dom own \<longrightarrow> here m s' \<and> blocks m s' = blocks m s) \<and>
      (case r of None \<Rightarrow> dyn_inv d own s'
       | Some n \<Rightarrow> here n s' \<and> made p n s' \<and> \<not> here n s \<and> (\<exists>own'. dyn_inv d own' s' \<and> own \<subseteq>\<^sub>m own' \<and>
            dom own' = dom own \<union> blocks n s' \<and> blocks n s' \<inter> dom own = {}))"
    using here_apart by blast
next
  fix d own s n
  assume "dyn_inv d own s" "here n s" "blocks n s \<subseteq> dom own"
  from delete_frame[OF this] show "\<exists>s'. delete n s = Some (RT_EOK, s') \<and> dyn_inv d (own |` (- blocks n s)) s' \<and>
      (\<forall>m. m \<noteq> n \<longrightarrow> here m s \<longrightarrow> blocks m s \<inter> blocks n s = {} \<longrightarrow> here m s' \<and> blocks m s' = blocks m s)"
    using here_keeps home by (metis disjoint_iff)
qed

subsection \<open>Objects of one block\<close>

definition sole_block :: "nat \<Rightarrow> dstate \<Rightarrow> u32 set" where
  "sole_block n s = {of_nat n}"

definition ipc_here :: "u8 \<Rightarrow> nat \<Rightarrow> dstate \<Rightarrow> bool" where
  "ipc_here ty n s \<longleftrightarrow> alone ty n (krn s) \<and> tlists (krn s) (Wait_Sender n) = []"

text \<open>The shape of the create functions of semaphores, mutexes and events.\<close>

definition ipc_create :: "u8 \<Rightarrow> (nat \<Rightarrow> kstate \<Rightarrow> kstate) \<Rightarrow> u8 list \<Rightarrow> dstate \<Rightarrow> (nat option \<times> dstate) option" where
  "ipc_create ty dress nm s = do {
     RT_DEBUG_NOT_IN_INTERRUPT (krn s);
     (r, s) \<leftarrow> rt_object_allocate ty nm s;
     case r of None \<Rightarrow> Some (None, s) | Some x \<Rightarrow> Some (Some x, s\<lparr>krn := dress x (krn s)\<rparr>)
   }"

lemma spares_alone: "spares n s s' \<Longrightarrow> m \<noteq> n \<Longrightarrow> alone ty m (krn s) \<Longrightarrow> alone ty m (krn s')"
  by (auto simp: spares_def alone_def timed_def)

lemma spares_senders: "spares n s s' \<Longrightarrow> tlists (krn s) (Wait_Sender m) = [] \<Longrightarrow> tlists (krn s') (Wait_Sender m) = []"
proof -
  assume "spares n s s'"
  then have "set (tlists (krn s') (Wait_Sender m)) \<subseteq> set (tlists (krn s) (Wait_Sender m))" by (simp add: spares_def)
  then show "tlists (krn s) (Wait_Sender m) = [] \<Longrightarrow> tlists (krn s') (Wait_Sender m) = []" by simp
qed

lemma ipc_here_keeps:
  "spares n s s' \<Longrightarrow> ipc_here ty m s \<Longrightarrow> of_nat n \<notin> sole_block m s \<Longrightarrow> ipc_here ty m s' \<and> sole_block m s' = sole_block m s"
  using spares_alone[of n s s' m ty] spares_senders[of n s s' m] by (auto simp: ipc_here_def sole_block_def)

lemma ipc_create_ok:
  assumes i: "dyn_inv d own s" and nm: "terminated nm" and ty: "ty \<noteq> RT_Object_Class_Thread" "ty \<noteq> RT_Object_Class_Timer"
    and dress: "\<And>n k. tlists k (Wait n) = [] \<Longrightarrow> dressed n k (dress n k)"
  shows "\<exists>r s'. ipc_create ty dress nm s = Some (r, s') \<and> apart own s s' \<and>
      (case r of None \<Rightarrow> dyn_inv d own s'
       | Some n \<Rightarrow> ipc_here ty n s' \<and> name_of (krn s') (Obj n) = cstr RT_NAME_MAX nm \<and> tlists (krn s') (Wait n) = [] \<and>
          (\<exists>k. krn s' = dress n k) \<and> \<not> ipc_here ty n s \<and>
          (\<exists>own'. dyn_inv d own' s' \<and> own \<subseteq>\<^sub>m own' \<and> dom own' = dom own \<union> sole_block n s' \<and> sole_block n s' \<inter> dom own = {}))"
proof -
  have nest: "rt_interrupt_nest (krn s) = 0" using i by (simp add: dyn_inv_def)
  obtain r s1 where a: "rt_object_allocate ty nm s = Some (r, s1)" and
    c: "case r of None \<Rightarrow> s1 = s
     | Some n \<Rightarrow> n < 2 ^ 32 \<and> n \<noteq> 0 \<and> own (of_nat n) = None \<and> \<not> used n (krn s) \<and> dyn_inv d (own(of_nat n \<mapsto> object_size s ty)) s1 \<and>
        alone ty n (krn s1) \<and> \<not> waited n (krn s1) \<and> name_of (krn s1) (objid_of ty n) = cstr RT_NAME_MAX nm \<and>
        (\<forall>ty' m. m \<noteq> n \<longrightarrow> stands ty' m (krn s1) = stands ty' m (krn s)) \<and>
        (\<forall>m. linked m (krn s1) = linked m (krn s) \<and> timed m (krn s1) = timed m (krn s) \<and> (used m (krn s1) \<longleftrightarrow> used m (krn s) \<or> m = n)) \<and>
        tlists (krn s1) = tlists (krn s) \<and> rt_timer_list (krn s1) = rt_timer_list (krn s) \<and> rt_interrupt_nest (krn s1) = 0"
    using allocate_stands[OF i nm, of ty] by blast
  have run: "ipc_create ty dress nm s = (case r of None \<Rightarrow> Some (None, s1) | Some x \<Rightarrow> Some (Some x, s1\<lparr>krn := dress x (krn s1)\<rparr>))"
    using a nest by (simp add: ipc_create_def RT_DEBUG_NOT_IN_INTERRUPT_def rt_interrupt_get_nest_def)
  show ?thesis
  proof (cases r)
    case None
    then show ?thesis using run c i by (simp add: apart_def)
  next
    case (Some n)
    then have n: "n < 2 ^ 32" "own (of_nat n) = None" "\<not> used n (krn s)" "dyn_inv d (own(of_nat n \<mapsto> object_size s ty)) s1"
      "alone ty n (krn s1)" "\<not> waited n (krn s1)" "name_of (krn s1) (objid_of ty n) = cstr RT_NAME_MAX nm"
      "\<And>ty' m. m \<noteq> n \<Longrightarrow> stands ty' m (krn s1) = stands ty' m (krn s)" "\<And>m. linked m (krn s1) = linked m (krn s)"
      "\<And>m. timed m (krn s1) = timed m (krn s)" "tlists (krn s1) = tlists (krn s)" using c by auto
    let ?s = "s1\<lparr>krn := dress n (krn s1)\<rparr>"
    have empty: "tlists (krn s1) (Wait n) = []" "tlists (krn s1) (Wait_Sender n) = []"
      using n(6) by (auto simp: waited_def)
    note D = dress[OF empty(1)]
    note S = dressed_same[OF D]
    have x: "objid_of ty n = Obj n" using ty by (simp add: objid_of_def)
    have here: "ipc_here ty n ?s" using n(5) empty(2) S by (simp add: ipc_here_def alone_def)
    have "spares n s ?s"
      using spares_trans[OF spares_allocate[OF i nm] spares_dressed[OF D]] a Some by simp
    then have keep: "apart own s ?s" using n(2) by (auto simp: apart_def)
    have "\<not> ipc_here ty n s" using n(3) by (auto simp: ipc_here_def alone_def stands_def used_def)
    moreover have "dyn_inv d (own(of_nat n \<mapsto> object_size s ty)) ?s" using dyn_inv_dressed[OF n(4)] D by blast
    then have "\<exists>own'. dyn_inv d own' ?s \<and> own \<subseteq>\<^sub>m own' \<and> dom own' = dom own \<union> sole_block n ?s \<and> sole_block n ?s \<inter> dom own = {}"
      using n(2) by (intro exI[of _ "own(of_nat n \<mapsto> object_size s ty)"]) (auto simp: sole_block_def map_le_def)
    moreover have "name_of (krn ?s) (Obj n) = cstr RT_NAME_MAX nm" using n(7) x dressed_obj[OF D] by simp
    ultimately show ?thesis using run Some here keep S(6) empty(1)
      by (intro exI[of _ r] exI[of _ ?s]) (auto simp: sole_block_def)
  qed
qed

text \<open>The shape of their delete functions.\<close>

definition ipc_delete :: "nat \<Rightarrow> dstate \<Rightarrow> (rt_err_t \<times> dstate) option" where
  "ipc_delete x s = do {
     RT_DEBUG_NOT_IN_INTERRUPT (krn s);
     s \<leftarrow> on_krn (rt_ipc_list_resume_all (Wait x)) s;
     s \<leftarrow> rt_object_delete (Obj x) s;
     Some (RT_EOK, s)
   }"

text \<open>Waking the threads of a wait list keeps the invariant and every object.\<close>

lemma wake_list_ok:
  assumes i: "dyn_inv d own s" and q: "is_wait q"
  shows "\<exists>k. on_krn (rt_ipc_list_resume_all q) s = Some (s\<lparr>krn := k\<rparr>) \<and> dyn_inv d own (s\<lparr>krn := k\<rparr>) \<and> wakes (krn s) k \<and>
    tlists k q = [] \<and> (\<forall>q'. is_wait q' \<longrightarrow> q' \<noteq> q \<longrightarrow> tlists k q' = tlists (krn s) q') \<and> woken (set (tlists (krn s) q)) (krn s) k"
proof -
  obtain k where k: "rt_ipc_list_resume_all q (krn s) = Some k" "sys d {} k" "tlists k q = []"
    "\<forall>q'. is_wait q' \<longrightarrow> q' \<noteq> q \<longrightarrow> tlists k q' = tlists (krn s) q'" "woken (set (tlists (krn s) q)) (krn s) k"
    using rt_ipc_list_resume_all_ok[of d "krn s" q] i q by (auto simp: dyn_inv_def)
  then show ?thesis using wake_all_wakes[OF k(1)] dyn_inv_wakes[OF i] by (intro exI[of _ k]) (simp add: on_krn_def)
qed

lemma wakes_alone: "wakes k k' \<Longrightarrow> alone ty n k \<Longrightarrow> alone ty n k'"
  using wakes_stands[of k k'] by (auto simp: alone_def wakes_def timed_def)

lemma detach_same [simp]:
  "tlists (rt_object_detach x k) = tlists k" "rt_timer_list (rt_object_detach x k) = rt_timer_list k" "threads (rt_object_detach x k) = threads k"
  by (simp_all add: rt_object_detach_def)

lemma ipc_delete_ok:
  assumes i: "dyn_inv d own s" and n: "ipc_here ty n s" "sole_block n s \<subseteq> dom own" and ty: "ty AND RT_Object_Class_Static = 0"
      "ty \<noteq> RT_Object_Class_Thread" "ty \<noteq> RT_Object_Class_Timer"
  shows "\<exists>s'. ipc_delete n s = Some (RT_EOK, s') \<and> dyn_inv d (own |` (- sole_block n s)) s' \<and>
    woken (set (tlists (krn s) (Wait n))) (krn s) (krn s') \<and> spares n s s'"
proof -
  have nest: "rt_interrupt_nest (krn s) = 0" using i by (simp add: dyn_inv_def)
  obtain k where k: "on_krn (rt_ipc_list_resume_all (Wait n)) s = Some (s\<lparr>krn := k\<rparr>)" "dyn_inv d own (s\<lparr>krn := k\<rparr>)" "wakes (krn s) k"
    "tlists k (Wait n) = []" "\<forall>q'. is_wait q' \<longrightarrow> q' \<noteq> Wait n \<longrightarrow> tlists k q' = tlists (krn s) q'"
    "woken (set (tlists (krn s) (Wait n))) (krn s) k"
    using wake_list_ok[OF i, of "Wait n"] by auto
  have a: "alone ty n k" using wakes_alone[OF k(3)] n(1) by (simp add: ipc_here_def)
  have w: "\<not> waited n k" unfolding waited_def
  proof (safe)
    fix q t ts assume "q_home q = Some n" "tlists k q \<noteq> []"
    then show False using k(4,5) n(1) by (cases q) (auto simp: ipc_here_def)
  qed
  have x: "objid_of ty n = Obj n" using ty by (simp add: objid_of_def)
  obtain s' where s': "rt_object_delete (Obj n) (s\<lparr>krn := k\<rparr>) = Some s'" "dyn_inv d (own(of_nat n := None)) s'"
    "s' = s\<lparr>krn := rt_object_detach (Obj n) k, hp := hp s'\<rparr>"
  proof -
    have "own (of_nat n) \<noteq> None" using n(2) by (auto simp: sole_block_def)
    then have "\<exists>s'. rt_object_delete (Obj n) (s\<lparr>krn := k\<rparr>) = Some s' \<and> dyn_inv d (own(of_nat n := None)) s' \<and>
        s' = s\<lparr>krn := k\<rparr>\<lparr>krn := rt_object_detach (Obj n) k, hp := hp s'\<rparr>"
      using rt_object_delete_ok[OF k(2), of ty n] a w ty(1) unfolding x alone_def by fastforce
    then show thesis using that by auto
  qed
  have k': "krn s' = rt_object_detach (Obj n) k" by (subst s'(3)) simp
  have "own |` (- sole_block n s) = own(of_nat n := None)" by (auto simp: sole_block_def restrict_map_def)
  moreover have "spares n (s\<lparr>krn := k\<rparr>) s'"
    using spares_detach[of "s\<lparr>krn := k\<rparr>" n ty] k(2) unfolding x by (subst s'(3)) (simp add: dyn_inv_def)
  then have "spares n s s'" by (rule spares_trans[OF spares_wakes[OF k(3)]])
  moreover have "ipc_delete n s = Some (RT_EOK, s')"
    using k(1) s'(1) nest by (simp add: ipc_delete_def RT_DEBUG_NOT_IN_INTERRUPT_def rt_interrupt_get_nest_def)
  ultimately show ?thesis using s'(2) k(6) by (auto simp: sole_block_def woken_def k')
qed

lemma ipc_kind:
  fixes dress :: "'p \<Rightarrow> nat \<Rightarrow> kstate \<Rightarrow> kstate" and nm :: "'p \<Rightarrow> u8 list"
  assumes ty: "ty AND RT_Object_Class_Static = 0" "ty \<noteq> RT_Object_Class_Thread" "ty \<noteq> RT_Object_Class_Timer"
    and dress: "\<And>p n k. tlists k (Wait n) = [] \<Longrightarrow> dressed n k (dress p n k)"
    and made: "\<And>p n k s. krn s = dress p n k \<Longrightarrow> name_of (krn s) (Obj n) = cstr RT_NAME_MAX (nm p) \<Longrightarrow> tlists (krn s) (Wait n) = [] \<Longrightarrow> made p n s"
    and create: "\<And>p. create p = ipc_create ty (dress p) (nm p)" and delete: "delete = ipc_delete"
  shows "dyn_frame create delete (\<lambda>p. terminated (nm p)) made (ipc_here ty) sole_block"
proof
  fix d own s p
  assume i: "dyn_inv d own s" and p: "terminated (nm p)"
  obtain r s' where c: "ipc_create ty (dress p) (nm p) s = Some (r, s')" "apart own s s'" and
      res: "case r of None \<Rightarrow> dyn_inv d own s'
       | Some n \<Rightarrow> ipc_here ty n s' \<and> name_of (krn s') (Obj n) = cstr RT_NAME_MAX (nm p) \<and> tlists (krn s') (Wait n) = [] \<and>
          (\<exists>k. krn s' = dress p n k) \<and> \<not> ipc_here ty n s \<and>
          (\<exists>own'. dyn_inv d own' s' \<and> own \<subseteq>\<^sub>m own' \<and> dom own' = dom own \<union> sole_block n s' \<and> sole_block n s' \<inter> dom own = {})"
    using ipc_create_ok[OF i p ty(2,3), of "dress p"] dress by auto
  have "case r of None \<Rightarrow> dyn_inv d own s' | Some n \<Rightarrow> ipc_here ty n s' \<and> made p n s' \<and> \<not> ipc_here ty n s \<and>
      (\<exists>own'. dyn_inv d own' s' \<and> own \<subseteq>\<^sub>m own' \<and> dom own' = dom own \<union> sole_block n s' \<and> sole_block n s' \<inter> dom own = {})"
    using res made by (cases r) auto
  then show "\<exists>r s'. create p s = Some (r, s') \<and> apart own s s' \<and>
      (case r of None \<Rightarrow> dyn_inv d own s' | Some n \<Rightarrow> ipc_here ty n s' \<and> made p n s' \<and> \<not> ipc_here ty n s \<and>
        (\<exists>own'. dyn_inv d own' s' \<and> own \<subseteq>\<^sub>m own' \<and> dom own' = dom own \<union> sole_block n s' \<and> sole_block n s' \<inter> dom own = {}))"
    unfolding create using c by blast
next
  fix d own s n
  assume i: "dyn_inv d own s" and n: "ipc_here ty n s" "sole_block n s \<subseteq> dom own"
  show "\<exists>s'. delete n s = Some (RT_EOK, s') \<and> dyn_inv d (own |` (- sole_block n s)) s' \<and> spares n s s'"
    using ipc_delete_ok[OF i n ty] unfolding delete by blast
qed (auto simp: sole_block_def dest: ipc_here_keeps)

subsection \<open>Semaphores, mutexes and events\<close>

definition sem_made :: "u8 list \<times> u32 \<times> u8 \<Rightarrow> nat \<Rightarrow> dstate \<Rightarrow> bool" where
  "sem_made p n s \<longleftrightarrow> (case p of (nm, v, flag) \<Rightarrow> sem_value (sems (krn s) n) = ucast v \<and> obj_flag (objects (krn s) (Obj n)) = flag \<and>
     name_of (krn s) (Obj n) = cstr RT_NAME_MAX nm \<and> tlists (krn s) (Wait n) = [])"

definition mutex_made :: "u8 list \<times> u8 \<Rightarrow> nat \<Rightarrow> dstate \<Rightarrow> bool" where
  "mutex_made p n s \<longleftrightarrow> (case p of (nm, flag) \<Rightarrow> mutexes (krn s) n = \<lparr>mutex_value = 1, original_priority = 0xff, hold = 0, owner = None\<rparr> \<and>
     obj_flag (objects (krn s) (Obj n)) = flag \<and> name_of (krn s) (Obj n) = cstr RT_NAME_MAX nm \<and> tlists (krn s) (Wait n) = [])"

definition event_made :: "u8 list \<times> u8 \<Rightarrow> nat \<Rightarrow> dstate \<Rightarrow> bool" where
  "event_made p n s \<longleftrightarrow> (case p of (nm, flag) \<Rightarrow> ev_set (events (krn s) n) = 0 \<and>
     obj_flag (objects (krn s) (Obj n)) = flag \<and> name_of (krn s) (Obj n) = cstr RT_NAME_MAX nm \<and> tlists (krn s) (Wait n) = [])"

lemma q_init_empty: "Q h = [] \<Longrightarrow> q_init h Q = Q"
  by (auto simp: q_init_def)

lemma sem_is_ipc: "rt_sem_create nm v flag = ipc_create RT_Object_Class_Semaphore (\<lambda>x k. upd_object (Obj x) (\<lambda>ob. ob\<lparr>obj_flag := flag\<rparr>)
    (upd_sem x (\<lambda>sm. sm\<lparr>sem_value := ucast v\<rparr>) (rt_ipc_object_init (Wait x) k))) nm" "rt_sem_delete = ipc_delete"
  by (intro ext, unfold rt_sem_create_def ipc_create_def rt_sem_delete_def ipc_delete_def Let_def, (rule refl)+)

lemma mutex_is_ipc: "rt_mutex_create nm flag = ipc_create RT_Object_Class_Mutex (\<lambda>x k. upd_object (Obj x) (\<lambda>ob. ob\<lparr>obj_flag := flag\<rparr>)
    (upd_mutex x (\<lambda>_. \<lparr>mutex_value = 1, original_priority = 0xff, hold = 0, owner = None\<rparr>) (rt_ipc_object_init (Wait x) k))) nm"
    "rt_mutex_delete = ipc_delete"
  by (intro ext, unfold rt_mutex_create_def ipc_create_def rt_mutex_delete_def ipc_delete_def Let_def, (rule refl)+)

lemma event_is_ipc: "rt_event_create nm flag = ipc_create RT_Object_Class_Event (\<lambda>x k. upd_event x (\<lambda>e. e\<lparr>ev_set := 0\<rparr>)
    (rt_ipc_object_init (Wait x) (upd_object (Obj x) (\<lambda>ob. ob\<lparr>obj_flag := flag\<rparr>) k))) nm" "rt_event_delete = ipc_delete"
  by (intro ext, unfold rt_event_create_def ipc_create_def rt_event_delete_def ipc_delete_def Let_def, (rule refl)+)

interpretation sem_dyn: dyn_frame "\<lambda>(nm, v, flag). rt_sem_create nm v flag" rt_sem_delete "\<lambda>p. terminated (fst p)" sem_made
    "ipc_here RT_Object_Class_Semaphore" sole_block
  by (rule ipc_kind[where dress = "\<lambda>(nm, v, flag) x k. upd_object (Obj x) (\<lambda>ob. ob\<lparr>obj_flag := flag\<rparr>)
        (upd_sem x (\<lambda>sm. sm\<lparr>sem_value := ucast v\<rparr>) (rt_ipc_object_init (Wait x) k))"])
    (auto simp: sem_is_ipc dressed_def upd_sem_def rt_ipc_object_init_def q_init_empty sem_made_def split: prod.splits)

interpretation mutex_dyn: dyn_frame "\<lambda>(nm, flag). rt_mutex_create nm flag" rt_mutex_delete "\<lambda>p. terminated (fst p)" mutex_made
    "ipc_here RT_Object_Class_Mutex" sole_block
  by (rule ipc_kind[where dress = "\<lambda>(nm, flag) x k. upd_object (Obj x) (\<lambda>ob. ob\<lparr>obj_flag := flag\<rparr>)
        (upd_mutex x (\<lambda>_. \<lparr>mutex_value = 1, original_priority = 0xff, hold = 0, owner = None\<rparr>) (rt_ipc_object_init (Wait x) k))"])
    (auto simp: mutex_is_ipc dressed_def upd_mutex_def rt_ipc_object_init_def q_init_empty mutex_made_def split: prod.splits)

interpretation event_dyn: dyn_frame "\<lambda>(nm, flag). rt_event_create nm flag" rt_event_delete "\<lambda>p. terminated (fst p)" event_made
    "ipc_here RT_Object_Class_Event" sole_block
  by (rule ipc_kind[where dress = "\<lambda>(nm, flag) x k. upd_event x (\<lambda>e. e\<lparr>ev_set := 0\<rparr>)
    (rt_ipc_object_init (Wait x) (upd_object (Obj x) (\<lambda>ob. ob\<lparr>obj_flag := flag\<rparr>) k))"])
    (auto simp: event_is_ipc dressed_def upd_event_def rt_ipc_object_init_def q_init_empty event_made_def split: prod.splits)

subsection \<open>Objects with a pool\<close>

definition pool_blocks :: "nat \<Rightarrow> dstate \<Rightarrow> u32 set" where
  "pool_blocks n s = {of_nat n, pool_of s n}"

text \<open>\<open>sd\<close> says that the object has a second wait list (a mailbox).\<close>

definition pool_here :: "bool \<Rightarrow> u8 \<Rightarrow> nat \<Rightarrow> dstate \<Rightarrow> bool" where
  "pool_here sd ty n s \<longleftrightarrow> alone ty n (krn s) \<and> (sd \<or> tlists (krn s) (Wait_Sender n) = []) \<and> pool_of s n \<noteq> of_nat n \<and>
     \<not> used (unat (pool_of s n)) (krn s)"

text \<open>
  The shape of their create functions: \<open>dress\<close> writes fields before the pool is allocated, \<open>fin\<close> the rest,
  and \<open>fail\<close> gives the object back if there is no memory for the pool.
\<close>

definition pool_create :: "u8 \<Rightarrow> (nat \<Rightarrow> kstate \<Rightarrow> kstate) \<Rightarrow> u32 \<Rightarrow> (nat \<Rightarrow> dstate \<Rightarrow> dstate option) \<Rightarrow>
    (u32 \<Rightarrow> nat \<Rightarrow> kstate \<Rightarrow> kstate option) \<Rightarrow> u8 list \<Rightarrow> dstate \<Rightarrow> (nat option \<times> dstate) option" where
  "pool_create ty dress psize fail fin nm s = do {
     RT_DEBUG_NOT_IN_INTERRUPT (krn s);
     (r, s) \<leftarrow> rt_object_allocate ty nm s;
     case r of None \<Rightarrow> Some (None, s) | Some x \<Rightarrow> do {
       let s = s\<lparr>krn := dress x (krn s)\<rparr>;
       (p, s) \<leftarrow> RT_KERNEL_MALLOC psize s;
       let s = s\<lparr>pool_of := (pool_of s)(x := p)\<rparr>;
       if p = 0 then do { s \<leftarrow> fail x s; Some (None, s) }
       else do { k \<leftarrow> fin p x (krn s); Some (Some x, s\<lparr>krn := k\<rparr>) }
     }
   }"

lemma dyn_inv_pool_of [simp]: "dyn_inv d own (s\<lparr>pool_of := f\<rparr>) = dyn_inv d own s"
  by (simp add: dyn_inv_def)

lemma used_dressed: "dressed n k k' \<Longrightarrow> used m k' = used m k"
  using dressed_same[of n k k'] by (simp add: used_def)

lemma pool_here_keeps:
  "spares n s s' \<Longrightarrow> pool_here sd ty m s \<Longrightarrow> of_nat n \<notin> pool_blocks m s \<Longrightarrow> pool_here sd ty m s' \<and> pool_blocks m s' = pool_blocks m s"
proof -
  assume k: "spares n s s'" and h: "pool_here sd ty m s" and b: "of_nat n \<notin> pool_blocks m s"
  have "m \<noteq> n" "unat (pool_of s m) \<noteq> n" using b by (auto simp: pool_blocks_def)
  then show ?thesis using k h spares_alone[OF k, of m ty] spares_senders[OF k, of m]
    by (auto simp: pool_here_def pool_blocks_def spares_def)
qed

lemma pool_create_ok:
  assumes i: "dyn_inv d own s" and nm: "terminated nm" and ty: "ty AND RT_Object_Class_Static = 0" "ty \<noteq> RT_Object_Class_Thread" "ty \<noteq> RT_Object_Class_Timer"
    and dress: "\<And>n k. tlists k (Wait n) = [] \<Longrightarrow> dressed n k (dress n k)"
    and fail: "\<And>x s. tlists (krn s) (Wait x) = [] \<Longrightarrow> pool_of s x = 0 \<Longrightarrow> rt_interrupt_nest (krn s) = 0 \<Longrightarrow> fail x s = rt_object_delete (Obj x) s"
    and fin: "\<And>p n k. tlists k (Wait n) = [] \<Longrightarrow> tlists k (Wait_Sender n) = [] \<Longrightarrow> \<exists>k'. fin p n k = Some k' \<and> dressed n k k'"
  shows "\<exists>r s'. pool_create ty dress psize fail fin nm s = Some (r, s') \<and> apart own s s' \<and>
      (case r of None \<Rightarrow> dyn_inv d own s'
       | Some n \<Rightarrow> pool_here sd ty n s' \<and> name_of (krn s') (Obj n) = cstr RT_NAME_MAX nm \<and>
          tlists (krn s') (Wait n) = [] \<and> tlists (krn s') (Wait_Sender n) = [] \<and> psize \<noteq> 0 \<and>
          (\<exists>k. fin (pool_of s' n) n (dress n k) = Some (krn s')) \<and> \<not> pool_here sd ty n s \<and>
          (\<exists>own'. dyn_inv d own' s' \<and> own \<subseteq>\<^sub>m own' \<and> dom own' = dom own \<union> pool_blocks n s' \<and> pool_blocks n s' \<inter> dom own = {}))"
proof -
  have nest: "rt_interrupt_nest (krn s) = 0" using i by (simp add: dyn_inv_def)
  obtain r s1 where a: "rt_object_allocate ty nm s = Some (r, s1)" "pool_of s1 = pool_of s" and
    c: "case r of None \<Rightarrow> s1 = s
     | Some n \<Rightarrow> n < 2 ^ 32 \<and> n \<noteq> 0 \<and> own (of_nat n) = None \<and> \<not> used n (krn s) \<and> dyn_inv d (own(of_nat n \<mapsto> object_size s ty)) s1 \<and>
        alone ty n (krn s1) \<and> \<not> waited n (krn s1) \<and> name_of (krn s1) (objid_of ty n) = cstr RT_NAME_MAX nm \<and>
        (\<forall>ty' m. m \<noteq> n \<longrightarrow> stands ty' m (krn s1) = stands ty' m (krn s)) \<and>
        (\<forall>m. linked m (krn s1) = linked m (krn s) \<and> timed m (krn s1) = timed m (krn s) \<and> (used m (krn s1) \<longleftrightarrow> used m (krn s) \<or> m = n)) \<and>
        tlists (krn s1) = tlists (krn s) \<and> rt_timer_list (krn s1) = rt_timer_list (krn s) \<and> rt_interrupt_nest (krn s1) = 0"
    using allocate_stands[OF i nm, of ty] by blast
  show ?thesis
  proof (cases r)
    case None
    then show ?thesis using a c i nest by (auto simp: pool_create_def apart_def RT_DEBUG_NOT_IN_INTERRUPT_def rt_interrupt_get_nest_def)
  next
    case (Some n)
    let ?own = "own(of_nat n \<mapsto> object_size s ty)"
    have n: "n < 2 ^ 32" "own (of_nat n) = None" "\<not> used n (krn s)" "dyn_inv d ?own s1"
      "alone ty n (krn s1)" "\<not> waited n (krn s1)" "name_of (krn s1) (objid_of ty n) = cstr RT_NAME_MAX nm"
      "\<And>ty' m. m \<noteq> n \<Longrightarrow> stands ty' m (krn s1) = stands ty' m (krn s)" "\<And>m. linked m (krn s1) = linked m (krn s)"
      "\<And>m. timed m (krn s1) = timed m (krn s)" "tlists (krn s1) = tlists (krn s)" "\<And>m. used m (krn s1) \<longleftrightarrow> used m (krn s) \<or> m = n" using c Some by auto
    define s2 where "s2 = s1\<lparr>krn := dress n (krn s1)\<rparr>"
    have empty: "tlists (krn s1) (Wait n) = []" "tlists (krn s1) (Wait_Sender n) = []" using n(6) by (auto simp: waited_def)
    note D = dress[OF empty(1)]
    note S = dressed_same[OF D]
    have x: "objid_of ty n = Obj n" using ty by (simp add: objid_of_def)
    have i2: "dyn_inv d ?own s2" unfolding s2_def by (rule dyn_inv_dressed[OF n(4) D])
    obtain p s3 where m: "RT_KERNEL_MALLOC psize s2 = Some (p, s3)" "dyn_inv d (if p = 0 then ?own else ?own(p \<mapsto> psize)) s3" "s3 = s2\<lparr>hp := hp s3\<rparr>"
      "p = 0 \<longrightarrow> s3 = s2" "p \<noteq> 0 \<longrightarrow> psize \<noteq> 0 \<and> ?own p = None \<and> \<not> used (unat p) (krn s2)"
      using kernel_malloc_ok[OF i2, of psize] by blast
    have k3: "krn s3 = dress n (krn s1)" by (subst m(3)) (simp add: s2_def)
    define s4 where "s4 = s3\<lparr>pool_of := (pool_of s3)(n := p)\<rparr>"
    have p4: "pool_of s4 = (pool_of s)(n := p)" unfolding s4_def by (subst m(3)) (simp add: s2_def a(2))
    have k4: "krn s4 = dress n (krn s1)" by (simp add: s4_def k3)
    have run: "pool_create ty dress psize fail fin nm s = (if p = 0 then do { s \<leftarrow> fail n s4; Some (None, s) }
        else do { k \<leftarrow> fin p n (krn s4); Some (Some n, s4\<lparr>krn := k\<rparr>) })"
      using a nest Some m(1) by (simp add: pool_create_def RT_DEBUG_NOT_IN_INTERRUPT_def rt_interrupt_get_nest_def s2_def s4_def Let_def)
    have "spares n s s2"
      using spares_trans[OF spares_allocate[OF i nm] spares_dressed[OF D]] a(1) Some by (simp add: s2_def)
    then have "spares n s s3" by (subst m(3)) simp
    then have kp: "spares n s s4" unfolding s4_def by (rule spares_pool_of)
    have tl: "tlists (krn s4) = tlists (krn s)" using S(6) n(11) by (simp add: k4)
    show ?thesis
    proof (cases "p = 0")
      case True
      have i4: "dyn_inv d ?own s4" using m(2) True by (simp add: s4_def)
      have free: "stands ty n (krn s4)" "\<not> linked n (krn s4)" "\<not> waited n (krn s4)" "\<not> timed n (krn s4)" using n(5,6) S by (simp_all add: k4 alone_def)
      have "?own (of_nat n) \<noteq> None" by simp
      from rt_object_delete_ok[OF i4 free(1) this ty(1) free(2-4)] obtain s5 where
        s5: "rt_object_delete (Obj n) s4 = Some s5" "dyn_inv d (?own(of_nat n := None)) s5"
          "s5 = s4\<lparr>krn := rt_object_detach (Obj n) (krn s4), hp := hp s5\<rparr>" unfolding x by blast
      have o: "?own(of_nat n := None) = own" using n(2) by (auto simp: fun_eq_iff)
      have "fail n s4 = rt_object_delete (Obj n) s4"
        by (rule fail) (use i4 tl n(11) empty p4 True in \<open>auto simp: dyn_inv_def\<close>)
      then have r: "pool_create ty dress psize fail fin nm s = Some (None, s5)" using run True s5(1) by simp
      have "spares n s4 s5" using spares_detach[of s4 n ty] i4 unfolding x by (subst s5(3)) (simp add: dyn_inv_def)
      then have "apart own s s5" using spares_trans[OF kp] n(2) by (auto simp: apart_def)
      then show ?thesis using r s5(2) o by auto
    next
      case False
      obtain k where k: "fin p n (krn s4) = Some k" "dressed n (krn s4) k" using fin[of "krn s4" n p] tl n(11) empty by auto
      note S' = dressed_same[OF k(2)]
      define s5 where "s5 = s4\<lparr>krn := k\<rparr>"
      have r: "pool_create ty dress psize fail fin nm s = Some (Some n, s5)" using run False k(1) by (simp add: s5_def)
      have p: "p \<noteq> of_nat n" "own p = None" "\<not> used (unat p) (krn s4)" using m(5) False by (auto simp: k4 s2_def split: if_splits)
      have i5: "dyn_inv d (?own(p \<mapsto> psize)) s5" using m(2) False k(2) unfolding s5_def by (intro dyn_inv_dressed) (simp_all add: s4_def)
      have keep: "apart own s s5"
        using spares_trans[OF kp spares_dressed[OF k(2)]] n(2) by (auto simp: apart_def s5_def)
      have here: "pool_here sd ty n s5" using n(5) S S' p used_dressed[OF k(2)] p4 tl n(11) empty
        by (simp add: pool_here_def s5_def alone_def k4)
      have "name_of k (Obj n) = cstr RT_NAME_MAX nm" using n(7) x dressed_obj[OF D] dressed_obj[OF k(2)] by (simp add: k4)
      moreover have "\<not> pool_here sd ty n s" using n(3) by (auto simp: pool_here_def alone_def stands_def used_def)
      moreover have "\<exists>own'. dyn_inv d own' s5 \<and> own \<subseteq>\<^sub>m own' \<and> dom own' = dom own \<union> pool_blocks n s5 \<and> pool_blocks n s5 \<inter> dom own = {}"
        using i5 n(2) p by (intro exI[of _ "?own(p \<mapsto> psize)"]) (auto simp: pool_blocks_def map_le_def s5_def p4)
      moreover have "pool_of s5 n = p" "krn s5 = k" by (simp_all add: s5_def p4)
      moreover have "\<exists>k0. fin p n (dress n k0) = Some k" using k(1) k4 by auto
      ultimately show ?thesis using r keep here m(5) False tl n(11) empty S'(6)
        by (intro exI[of _ "Some n"] exI[of _ s5]) auto
    qed
  qed
qed

text \<open>The shape of their delete functions; \<open>wake\<close> wakes all waiting threads.\<close>

definition pool_delete :: "(nat \<Rightarrow> dstate \<Rightarrow> dstate option) \<Rightarrow> nat \<Rightarrow> dstate \<Rightarrow> (rt_err_t \<times> dstate) option" where
  "pool_delete wake x s = do {
     RT_DEBUG_NOT_IN_INTERRUPT (krn s);
     s \<leftarrow> wake x s;
     s \<leftarrow> RT_KERNEL_FREE (pool_of s x) s;
     s \<leftarrow> rt_object_delete (Obj x) s;
     Some (RT_EOK, s)
   }"

lemma wakes_pool_here:
  assumes w: "wakes (krn s) k" and h: "pool_here sd ty n s"
  shows "pool_here sd ty n (s\<lparr>krn := k\<rparr>)"
proof -
  have "set (tlists k (Wait_Sender n)) \<subseteq> set (tlists (krn s) (Wait_Sender n))" using w by (simp add: wakes_def)
  then show ?thesis using h wakes_alone[OF w] wakes_used[OF w] by (auto simp: pool_here_def)
qed

lemma pool_delete_ok:
  assumes i: "dyn_inv d own s" and n: "pool_here sd ty n s" "pool_blocks n s \<subseteq> dom own" and ty: "ty AND RT_Object_Class_Static = 0"
      "ty \<noteq> RT_Object_Class_Thread" "ty \<noteq> RT_Object_Class_Timer"
    and wake: "\<exists>k. wake n s = Some (s\<lparr>krn := k\<rparr>) \<and> sys d {} k \<and> wakes (krn s) k \<and> tlists k (Wait n) = [] \<and> (sd \<longrightarrow> tlists k (Wait_Sender n) = [])"
  shows "\<exists>s'. pool_delete wake n s = Some (RT_EOK, s') \<and> dyn_inv d (own |` (- pool_blocks n s)) s' \<and> spares n s s'"
proof -
  have nest: "rt_interrupt_nest (krn s) = 0" using i by (simp add: dyn_inv_def)
  obtain k where k: "wake n s = Some (s\<lparr>krn := k\<rparr>)" "sys d {} k" "wakes (krn s) k" "tlists k (Wait n) = []" "sd \<longrightarrow> tlists k (Wait_Sender n) = []"
    using wake by blast
  let ?p = "pool_of s n"
  note i1 = dyn_inv_wakes[OF i k(3,2)]
  have h: "pool_here sd ty n (s\<lparr>krn := k\<rparr>)" by (rule wakes_pool_here[OF k(3) n(1)])
  have "own ?p \<noteq> None" "\<not> used (unat ?p) (krn (s\<lparr>krn := k\<rparr>))" using n(2) h by (auto simp: pool_blocks_def pool_here_def)
  from kernel_free_ok[OF i1 this] obtain s2 where s2: "RT_KERNEL_FREE ?p (s\<lparr>krn := k\<rparr>) = Some s2" "dyn_inv d (own(?p := None)) s2"
    "s2 = s\<lparr>krn := k\<rparr>\<lparr>hp := hp s2\<rparr>" by blast
  have k2: "krn s2 = k" "pool_of s2 = pool_of s" by (subst s2(3), simp)+
  have w: "\<not> waited n k" unfolding waited_def
  proof safe
    fix q assume "q_home q = Some n" "tlists k q \<noteq> []"
    then show False using k(4,5) h by (cases q) (auto simp: pool_here_def)
  qed
  have free: "stands ty n (krn s2)" "\<not> linked n (krn s2)" "\<not> waited n (krn s2)" "\<not> timed n (krn s2)" using h w by (simp_all add: k2 pool_here_def alone_def)
  have "(own(?p := None)) (of_nat n) \<noteq> None" using n by (auto simp: pool_blocks_def pool_here_def)
  from rt_object_delete_ok[OF s2(2) free(1) this ty(1) free(2-4)] obtain s3 where
    s3: "rt_object_delete (objid_of ty n) s2 = Some s3" "dyn_inv d (own(?p := None, of_nat n := None)) s3"
      "s3 = s2\<lparr>krn := rt_object_detach (objid_of ty n) (krn s2), hp := hp s3\<rparr>" by blast
  have x: "objid_of ty n = Obj n" using ty by (simp add: objid_of_def)
  have "own |` (- pool_blocks n s) = own(?p := None, of_nat n := None)" by (auto simp: pool_blocks_def restrict_map_def fun_eq_iff)
  moreover have "spares n s s2" by (subst s2(3)) (simp add: spares_wakes[OF k(3)])
  moreover have "spares n s2 s3" using spares_detach[of s2 n ty] s2(2) by (subst s3(3)) (simp add: dyn_inv_def)
  ultimately have "own |` (- pool_blocks n s) = own(?p := None, of_nat n := None)" "spares n s s3" by (simp_all add: spares_trans[of n s s2 s3])
  moreover have "pool_delete wake n s = Some (RT_EOK, s3)"
    using k(1) s2(1) s3(1) nest x by (simp add: pool_delete_def RT_DEBUG_NOT_IN_INTERRUPT_def rt_interrupt_get_nest_def)
  ultimately show ?thesis using s3(2) by auto
qed

lemma pool_kind:
  fixes dress :: "'p \<Rightarrow> nat \<Rightarrow> kstate \<Rightarrow> kstate" and nm :: "'p \<Rightarrow> u8 list"
  assumes ty: "ty AND RT_Object_Class_Static = 0" "ty \<noteq> RT_Object_Class_Thread" "ty \<noteq> RT_Object_Class_Timer"
    and dress: "\<And>p n k. tlists k (Wait n) = [] \<Longrightarrow> dressed n k (dress p n k)"
    and fail: "\<And>x s. tlists (krn s) (Wait x) = [] \<Longrightarrow> pool_of s x = 0 \<Longrightarrow> rt_interrupt_nest (krn s) = 0 \<Longrightarrow> fail x s = rt_object_delete (Obj x) s"
    and fin: "\<And>p a n k. valid p \<Longrightarrow> tlists k (Wait n) = [] \<Longrightarrow> tlists k (Wait_Sender n) = [] \<Longrightarrow> \<exists>k'. fin p a n k = Some k' \<and> dressed n k k'"
    and nm: "\<And>p. valid p \<Longrightarrow> terminated (nm p)"
    and made: "\<And>p n k s. fin p (pool_of s n) n (dress p n k) = Some (krn s) \<Longrightarrow> psize p \<noteq> 0 \<Longrightarrow>
      name_of (krn s) (Obj n) = cstr RT_NAME_MAX (nm p) \<Longrightarrow> tlists (krn s) (Wait n) = [] \<Longrightarrow> tlists (krn s) (Wait_Sender n) = [] \<Longrightarrow> made p n s"
    and create: "\<And>p. create p = pool_create ty (dress p) (psize p) fail (fin p) (nm p)" and delete: "delete = pool_delete wake"
    and wake: "\<And>d own n s. dyn_inv d own s \<Longrightarrow> \<exists>k. wake n s = Some (s\<lparr>krn := k\<rparr>) \<and> sys d {} k \<and> wakes (krn s) k \<and> tlists k (Wait n) = [] \<and>
      (sd \<longrightarrow> tlists k (Wait_Sender n) = [])"
  shows "dyn_frame create delete valid made (pool_here sd ty) pool_blocks"
proof
  fix d own s p
  assume i: "dyn_inv d own s" and p: "valid p"
  obtain r s' where c: "pool_create ty (dress p) (psize p) fail (fin p) (nm p) s = Some (r, s')" "apart own s s'" and
      res: "case r of None \<Rightarrow> dyn_inv d own s'
       | Some n \<Rightarrow> pool_here sd ty n s' \<and> name_of (krn s') (Obj n) = cstr RT_NAME_MAX (nm p) \<and>
          tlists (krn s') (Wait n) = [] \<and> tlists (krn s') (Wait_Sender n) = [] \<and> psize p \<noteq> 0 \<and>
          (\<exists>k. fin p (pool_of s' n) n (dress p n k) = Some (krn s')) \<and> \<not> pool_here sd ty n s \<and>
          (\<exists>own'. dyn_inv d own' s' \<and> own \<subseteq>\<^sub>m own' \<and> dom own' = dom own \<union> pool_blocks n s' \<and> pool_blocks n s' \<inter> dom own = {})"
    using pool_create_ok[OF i nm[OF p] ty, of "dress p" fail "fin p" "psize p" sd, OF dress fail fin[OF p]] by blast
  have "case r of None \<Rightarrow> dyn_inv d own s' | Some n \<Rightarrow> pool_here sd ty n s' \<and> made p n s' \<and> \<not> pool_here sd ty n s \<and>
      (\<exists>own'. dyn_inv d own' s' \<and> own \<subseteq>\<^sub>m own' \<and> dom own' = dom own \<union> pool_blocks n s' \<and> pool_blocks n s' \<inter> dom own = {})"
    using res made by (cases r) auto
  then show "\<exists>r s'. create p s = Some (r, s') \<and> apart own s s' \<and>
      (case r of None \<Rightarrow> dyn_inv d own s' | Some n \<Rightarrow> pool_here sd ty n s' \<and> made p n s' \<and> \<not> pool_here sd ty n s \<and>
        (\<exists>own'. dyn_inv d own' s' \<and> own \<subseteq>\<^sub>m own' \<and> dom own' = dom own \<union> pool_blocks n s' \<and> pool_blocks n s' \<inter> dom own = {}))"
    unfolding create using c by blast
next
  fix d own s n
  assume i: "dyn_inv d own s" and n: "pool_here sd ty n s" "pool_blocks n s \<subseteq> dom own"
  show "\<exists>s'. delete n s = Some (RT_EOK, s') \<and> dyn_inv d (own |` (- pool_blocks n s)) s' \<and> spares n s s'"
    unfolding delete using wake[OF i, of n] by (rule pool_delete_ok[OF i n ty])
qed (use pool_here_keeps in \<open>auto simp: pool_blocks_def\<close>)

subsection \<open>Mailboxes, message queues and memory pools\<close>

definition mb_made :: "u8 list \<times> u32 \<times> u8 \<Rightarrow> nat \<Rightarrow> dstate \<Rightarrow> bool" where
  "mb_made p n s \<longleftrightarrow> (case p of (nm, sz, flag) \<Rightarrow> mb_inv (mailboxes (krn s) n) \<and> mb_contents (mailboxes (krn s) n) = [] \<and>
     mb_size (mailboxes (krn s) n) = ucast sz \<and> obj_flag (objects (krn s) (Obj n)) = flag \<and>
     name_of (krn s) (Obj n) = cstr RT_NAME_MAX nm \<and> tlists (krn s) (Wait n) = [] \<and> tlists (krn s) (Wait_Sender n) = [])"

definition mb_dress :: "u32 \<Rightarrow> u8 \<Rightarrow> nat \<Rightarrow> kstate \<Rightarrow> kstate" where
  "mb_dress sz flag x k = (let k = rt_ipc_object_init (Wait x) (upd_object (Obj x) (\<lambda>ob. ob\<lparr>obj_flag := flag\<rparr>) k)
     in set_mb x ((mailboxes k x)\<lparr>mb_size := ucast sz\<rparr>) k)"

definition mb_fin :: "u32 \<Rightarrow> u32 \<Rightarrow> nat \<Rightarrow> kstate \<Rightarrow> kstate option" where
  "mb_fin sz p x k = (let k = set_mb x \<lparr>mb_pool = map (\<lambda>i. load32 (memory k) (p + 4 * of_nat i)) [0..<unat (ucast sz :: u16)],
       mb_size = ucast sz, mb_entry = 0, in_offset = 0, out_offset = 0\<rparr> k
     in Some (k\<lparr>tlists := q_init (Wait_Sender x) (tlists k)\<rparr>))"

definition mb_wake :: "nat \<Rightarrow> dstate \<Rightarrow> dstate option" where
  "mb_wake x s = do { s \<leftarrow> on_krn (rt_ipc_list_resume_all (Wait x)) s; on_krn (rt_ipc_list_resume_all (Wait_Sender x)) s }"

lemma mb_is_pool: "rt_mb_create nm sz flag = pool_create RT_Object_Class_MailBox (mb_dress sz flag) (ucast (ucast sz :: u16) * 4)
    (\<lambda>x. rt_object_delete (Obj x)) (mb_fin sz) nm" "rt_mb_delete = pool_delete mb_wake"
proof -
  have e: "mb_size (mailboxes (mb_dress sz flag x k) x) = ucast sz" for x k by (simp add: mb_dress_def set_mb_def Let_def)
  show "rt_mb_create nm sz flag = pool_create RT_Object_Class_MailBox (mb_dress sz flag) (ucast (ucast sz :: u16) * 4)
    (\<lambda>x. rt_object_delete (Obj x)) (mb_fin sz) nm"
    by (intro ext, unfold rt_mb_create_def pool_create_def Let_def mb_fin_def mb_dress_def[symmetric, unfolded Let_def] e bind.bind_lunit, rule refl)
  show "rt_mb_delete = pool_delete mb_wake" by (intro ext) (simp add: rt_mb_delete_def pool_delete_def mb_wake_def)
qed

lemma mb_wake_ok:
  assumes "dyn_inv d own s"
  shows "\<exists>k. mb_wake n s = Some (s\<lparr>krn := k\<rparr>) \<and> sys d {} k \<and> wakes (krn s) k \<and> tlists k (Wait n) = [] \<and> tlists k (Wait_Sender n) = []"
proof -
  obtain k where k: "on_krn (rt_ipc_list_resume_all (Wait n)) s = Some (s\<lparr>krn := k\<rparr>)" "dyn_inv d own (s\<lparr>krn := k\<rparr>)" "wakes (krn s) k"
    "tlists k (Wait n) = []" using wake_list_ok[OF assms, of "Wait n"] by auto
  obtain k' where k': "on_krn (rt_ipc_list_resume_all (Wait_Sender n)) (s\<lparr>krn := k\<rparr>) = Some (s\<lparr>krn := k'\<rparr>)" "dyn_inv d own (s\<lparr>krn := k'\<rparr>)" "wakes k k'"
    "tlists k' (Wait_Sender n) = []" "tlists k' (Wait n) = tlists k (Wait n)" using wake_list_ok[OF k(2), of "Wait_Sender n"] by auto
  have "sys d {} k'" using k'(2) by (simp add: dyn_inv_def)
  then show ?thesis using k k' wakes_trans[OF k(3) k'(3)] by (auto simp: mb_wake_def)
qed

interpretation mb_dyn: dyn_frame "\<lambda>(nm, sz, flag). rt_mb_create nm sz flag" rt_mb_delete "\<lambda>p. terminated (fst p)" mb_made
    "pool_here True RT_Object_Class_MailBox" pool_blocks
proof (rule pool_kind[where dress = "\<lambda>(nm, sz, flag). mb_dress sz flag" and fin = "\<lambda>(nm, sz, flag). mb_fin sz" and nm = fst and
      psize = "\<lambda>(nm, sz, flag). ucast (ucast sz :: u16) * 4" and fail = "\<lambda>x. rt_object_delete (Obj x)" and wake = mb_wake])
  fix p :: "u8 list \<times> u32 \<times> u8" and n and k :: kstate and s :: dstate
  obtain nm sz flag where p: "p = (nm, sz, flag)" by (cases p) auto
  assume a: "(case p of (nm, sz, flag) \<Rightarrow> mb_fin sz) (pool_of s n) n ((case p of (nm, sz, flag) \<Rightarrow> mb_dress sz flag) n k) = Some (krn s)"
    "(case p of (nm, sz, flag) \<Rightarrow> ucast (ucast sz :: u16) * (4 :: u32)) \<noteq> 0" "name_of (krn s) (Obj n) = cstr RT_NAME_MAX (fst p)"
    "tlists (krn s) (Wait n) = []" "tlists (krn s) (Wait_Sender n) = []"
  have "ucast sz \<noteq> (0 :: u16)" using a(2) p by auto
  then have "(0 :: u16) < ucast sz" by (simp add: word_gt_0)
  moreover have "krn s = the (mb_fin sz (pool_of s n) n (mb_dress sz flag n k))" using a(1) p by simp
  ultimately have "mb_inv (mailboxes (krn s) n)" "mb_contents (mailboxes (krn s) n) = []"
    "mb_size (mailboxes (krn s) n) = ucast sz" "obj_flag (objects (krn s) (Obj n)) = flag"
    by (simp_all add: mb_fin_def set_mb_def Let_def mb_inv_def mb_contents_def mb_dress_def rt_ipc_object_init_def)
  then show "mb_made p n s" using p a by (simp add: mb_made_def)
qed (auto simp: mb_is_pool mb_dress_def mb_fin_def dressed_def set_mb_def rt_ipc_object_init_def q_init_empty Let_def split: prod.splits
    dest: mb_wake_ok)

definition mq_made :: "u8 list \<times> u32 \<times> u32 \<times> u8 \<Rightarrow> nat \<Rightarrow> dstate \<Rightarrow> bool" where
  "mq_made p n s \<longleftrightarrow> (case p of (nm, msgsize, maxmsgs, flag) \<Rightarrow> mq_inv (mqs (krn s) n) \<and> mq_contents (mqs (krn s) n) = [] \<and>
     msg_size (mqs (krn s) n) = ucast (RT_ALIGN msgsize 4) \<and> max_msgs (mqs (krn s) n) = ucast maxmsgs \<and>
     obj_flag (objects (krn s) (Obj n)) = flag \<and> name_of (krn s) (Obj n) = cstr RT_NAME_MAX nm \<and> tlists (krn s) (Wait n) = [])"

definition mq_dress :: "u32 \<Rightarrow> u32 \<Rightarrow> u8 \<Rightarrow> nat \<Rightarrow> kstate \<Rightarrow> kstate" where
  "mq_dress msgsize maxmsgs flag x k = (let k = rt_ipc_object_init (Wait x) (upd_object (Obj x) (\<lambda>ob. ob\<lparr>obj_flag := flag\<rparr>) k)
     in set_mq x ((mqs k x)\<lparr>msg_size := ucast (RT_ALIGN msgsize 4), max_msgs := ucast maxmsgs\<rparr>) k)"

definition mq_new :: "(nat \<Rightarrow> u8 list) \<Rightarrow> u16 \<Rightarrow> u16 \<Rightarrow> rt_messagequeue" where
  "mq_new data sz n = (fold mq_release [0..<unat n] \<lparr>mq_next = (\<lambda>_. None), mq_data = data, msg_size = sz, max_msgs = n, mq_entry = 0,
       msg_queue_head = None, msg_queue_tail = None, msg_queue_free = None\<rparr>)\<lparr>mq_entry := 0\<rparr>"

definition mq_fin :: "u32 \<Rightarrow> u32 \<Rightarrow> u32 \<Rightarrow> nat \<Rightarrow> kstate \<Rightarrow> kstate option" where
  "mq_fin msgsize maxmsgs p x k = Some (set_mq x (mq_new
     (\<lambda>b. map (\<lambda>i. memory k (p + of_nat b * (ucast (ucast (RT_ALIGN msgsize 4) :: u16) + 4) + 4 + of_nat i)) [0..<unat (ucast (RT_ALIGN msgsize 4) :: u16)])
     (ucast (RT_ALIGN msgsize 4)) (ucast maxmsgs)) k)"

lemma mq_new_ok:
  assumes "\<And>b. length (data b) = unat sz"
  shows "mq_inv (mq_new data sz n) \<and> mq_contents (mq_new data sz n) = [] \<and> msg_size (mq_new data sz n) = sz \<and> max_msgs (mq_new data sz n) = n"
proof -
  let ?mq = "\<lparr>mq_next = (\<lambda>_. None), mq_data = data, msg_size = sz, max_msgs = n, mq_entry = 0,
               msg_queue_head = None, msg_queue_tail = None, msg_queue_free = None\<rparr>"
  have "mq_rep ?mq [] [] (rev [0..<unat n])" using assms by (auto simp: mq_rep_def atLeast0LessThan)
  from init_blocks_rep[OF this] have r: "mq_rep (fold mq_release [0..<unat n] ?mq) [] (rev [0..<unat n]) []" by simp
  then have "(fold mq_release [0..<unat n] ?mq)\<lparr>mq_entry := 0\<rparr> = fold mq_release [0..<unat n] ?mq" by (simp add: mq_rep_def)
  then have "mq_rep (mq_new data sz n) [] (rev [0..<unat n]) []" using r by (simp add: mq_new_def)
  moreover have "msg_size (fold mq_release bs mq) = msg_size mq \<and> max_msgs (fold mq_release bs mq) = max_msgs mq" for bs mq
    by (induction bs arbitrary: mq) (simp_all add: mq_release_def mq_set_next_def)
  ultimately show ?thesis using mq_contents_rep by (auto simp: mq_inv_def mq_new_def)
qed

lemma mq_is_pool: "rt_mq_create nm msgsize maxmsgs flag = pool_create RT_Object_Class_MessageQueue (mq_dress msgsize maxmsgs flag)
    ((ucast (ucast (RT_ALIGN msgsize 4) :: u16) + 4) * ucast (ucast maxmsgs :: u16)) (\<lambda>x s. map_option snd (rt_mq_delete x s)) (mq_fin msgsize maxmsgs) nm"
    "rt_mq_delete = pool_delete (\<lambda>x. on_krn (rt_ipc_list_resume_all (Wait x)))"
proof -
  have e: "Option.bind (map_option snd a) (\<lambda>s. Some (None, s)) = Option.bind a (\<lambda>(_, s). Some (None, s))" for a :: "(rt_err_t \<times> dstate) option"
    by (cases a) auto
  show "rt_mq_create nm msgsize maxmsgs flag = pool_create RT_Object_Class_MessageQueue (mq_dress msgsize maxmsgs flag)
    ((ucast (ucast (RT_ALIGN msgsize 4) :: u16) + 4) * ucast (ucast maxmsgs :: u16)) (\<lambda>x s. map_option snd (rt_mq_delete x s)) (mq_fin msgsize maxmsgs) nm"
    by (intro ext, unfold rt_mq_create_def pool_create_def Let_def mq_fin_def mq_new_def mq_dress_def e bind.bind_lunit, rule refl)
  show "rt_mq_delete = pool_delete (\<lambda>x. on_krn (rt_ipc_list_resume_all (Wait x)))" by (intro ext) (simp add: rt_mq_delete_def pool_delete_def)
qed

text \<open>Deleting a queue that nobody waits on and that has no pool just deletes the object.\<close>

lemma mq_delete_unused:
  assumes "tlists (krn s) (Wait x) = []" "pool_of s x = 0" "rt_interrupt_nest (krn s) = 0"
  shows "map_option snd (rt_mq_delete x s) = rt_object_delete (Obj x) (s :: dstate)"
proof -
  have "rt_ipc_list_resume_all (Wait x) (krn s) = Some (krn s)" using assms(1) by (simp add: rt_ipc_list_resume_all.simps)
  then show ?thesis using assms(2,3) by (cases "rt_object_delete (Obj x) s")
    (simp_all add: rt_mq_delete_def on_krn_def RT_KERNEL_FREE_def rt_free_def RT_DEBUG_NOT_IN_INTERRUPT_def rt_interrupt_get_nest_def)
qed

lemma list_wake_ok:
  assumes "dyn_inv d own s"
  shows "\<exists>k. on_krn (rt_ipc_list_resume_all (Wait n)) s = Some (s\<lparr>krn := k\<rparr>) \<and> sys d {} k \<and> wakes (krn s) k \<and> tlists k (Wait n) = []"
  using wake_list_ok[OF assms, of "Wait n"] by (auto simp: dyn_inv_def)

interpretation mq_dyn: dyn_frame "\<lambda>(nm, msgsize, maxmsgs, flag). rt_mq_create nm msgsize maxmsgs flag" rt_mq_delete "\<lambda>p. terminated (fst p)" mq_made
    "pool_here False RT_Object_Class_MessageQueue" pool_blocks
proof (rule pool_kind[where dress = "\<lambda>(nm, msgsize, maxmsgs, flag). mq_dress msgsize maxmsgs flag" and fin = "\<lambda>(nm, msgsize, maxmsgs, flag). mq_fin msgsize maxmsgs"
      and nm = fst and psize = "\<lambda>(nm, msgsize, maxmsgs, flag). (ucast (ucast (RT_ALIGN msgsize 4) :: u16) + 4) * ucast (ucast maxmsgs :: u16)"
      and fail = "\<lambda>x s. map_option snd (rt_mq_delete x s)" and wake = "\<lambda>x. on_krn (rt_ipc_list_resume_all (Wait x))"])
  fix p :: "u8 list \<times> u32 \<times> u32 \<times> u8" and n and k :: kstate and s :: dstate
  obtain nm msgsize maxmsgs flag where p: "p = (nm, msgsize, maxmsgs, flag)" by (cases p) auto
  assume a: "(case p of (nm, msgsize, maxmsgs, flag) \<Rightarrow> mq_fin msgsize maxmsgs) (pool_of s n) n
      ((case p of (nm, msgsize, maxmsgs, flag) \<Rightarrow> mq_dress msgsize maxmsgs flag) n k) = Some (krn s)"
    "name_of (krn s) (Obj n) = cstr RT_NAME_MAX (fst p)" "tlists (krn s) (Wait n) = []"
  have s: "krn s = the (mq_fin msgsize maxmsgs (pool_of s n) n (mq_dress msgsize maxmsgs flag n k))" using a(1) p by simp
  have "obj_flag (objects (krn s) (Obj n)) = flag" unfolding s by (simp add: mq_fin_def set_mq_def mq_dress_def Let_def rt_ipc_object_init_def)
  moreover have "mq_inv (mqs (krn s) n) \<and> mq_contents (mqs (krn s) n) = [] \<and> msg_size (mqs (krn s) n) = ucast (RT_ALIGN msgsize 4) \<and> max_msgs (mqs (krn s) n) = ucast maxmsgs"
    unfolding s by (simp add: mq_fin_def set_mq_def mq_new_ok)
  ultimately show "mq_made p n s" using p a by (simp add: mq_made_def)
qed (auto simp: mq_is_pool(1) mq_is_pool(2)[symmetric] mq_delete_unused list_wake_ok mq_dress_def mq_fin_def dressed_def set_mq_def rt_ipc_object_init_def q_init_empty Let_def split: prod.splits)

definition mp_made :: "u8 list \<times> u32 \<times> u32 \<Rightarrow> nat \<Rightarrow> dstate \<Rightarrow> bool" where
  "mp_made p n s \<longleftrightarrow> (case p of (nm, cnt, bs) \<Rightarrow> mp_rep n (mempools (krn s) n) [0..<unat cnt] \<and> block_total_count (mempools (krn s) n) = cnt \<and>
     mp_block_size (mempools (krn s) n) = RT_ALIGN bs 4 \<and> suspend_thread_count (mempools (krn s) n) = 0 \<and>
     name_of (krn s) (Obj n) = cstr RT_NAME_MAX nm \<and> tlists (krn s) (Wait n) = [])"

definition mp_valid :: "u8 list \<times> u32 \<times> u32 \<Rightarrow> bool" where
  "mp_valid p \<longleftrightarrow> (case p of (nm, cnt, bs) \<Rightarrow> terminated nm \<and> unat (RT_ALIGN bs 4 + 4) * unat cnt < 2 ^ 32)"

definition mp_dress :: "u32 \<Rightarrow> u32 \<Rightarrow> nat \<Rightarrow> kstate \<Rightarrow> kstate" where
  "mp_dress cnt bs x k = set_mp x ((mempools k x)\<lparr>mp_block_size := RT_ALIGN bs 4, mp_size := (RT_ALIGN bs 4 + 4) * cnt\<rparr>) k"

definition mp_fin :: "u32 \<Rightarrow> u32 \<Rightarrow> u32 \<Rightarrow> nat \<Rightarrow> kstate \<Rightarrow> kstate option" where
  "mp_fin cnt bs p x k = do { mp \<leftarrow> mp_create_blocks cnt bs; Some (set_mp x mp (k\<lparr>tlists := q_init (Wait x) (tlists k)\<rparr>)) }"

lemma mp_is_pool: "rt_mp_create nm cnt bs = pool_create RT_Object_Class_MemPool (mp_dress cnt bs) ((RT_ALIGN bs 4 + 4) * cnt)
    (\<lambda>x. rt_object_delete (Obj x)) (mp_fin cnt bs) nm" "rt_mp_delete = pool_delete (\<lambda>x. on_krn (mp_wake_all x))"
proof -
  show "rt_mp_create nm cnt bs = pool_create RT_Object_Class_MemPool (mp_dress cnt bs) ((RT_ALIGN bs 4 + 4) * cnt)
    (\<lambda>x. rt_object_delete (Obj x)) (mp_fin cnt bs) nm"
    by (intro ext, unfold rt_mp_create_def pool_create_def Let_def mp_fin_def mp_dress_def bind_assoc bind.bind_lunit, rule refl)
  show "rt_mp_delete = pool_delete (\<lambda>x. on_krn (mp_wake_all x))" by (intro ext) (simp add: rt_mp_delete_def pool_delete_def)
qed

lemma mp_create_blocks_ok:
  assumes "mp_create_blocks cnt bs = Some mp" "cnt \<noteq> 0"
  shows "mp_rep x mp [0..<unat cnt] \<and> block_total_count mp = cnt \<and> mp_block_size mp = RT_ALIGN bs 4 \<and> suspend_thread_count mp = 0"
proof -
  let ?h = "(fold (\<lambda>i h. h(i := Next_Free (Some (i + 1)))) [0..<unat cnt] (\<lambda>_. Next_Free None))(unat cnt - 1 := Next_Free None)"
  have mp: "mp_header_of mp = ?h" "block_list mp = Some 0" "block_total_count mp = cnt" "block_free_count mp = cnt" "suspend_thread_count mp = 0"
    "mp_block_size mp = RT_ALIGN bs 4"
    using assms(1) by (auto simp: mp_create_blocks_def Let_def rt_assert_def split: if_splits)
  have "0 < unat cnt" using assms(2) by (simp add: unat_gt_0)
  then have "mp_chain ?h (Some 0) [0..<unat cnt]" by (intro mp_chain_upt) (auto simp: fold_header)
  then show ?thesis using mp by (auto simp: mp_rep_def)
qed

interpretation mp_dyn: dyn_frame "\<lambda>(nm, cnt, bs). rt_mp_create nm cnt bs" rt_mp_delete mp_valid mp_made "pool_here False RT_Object_Class_MemPool" pool_blocks
proof (rule pool_kind[where dress = "\<lambda>(nm, cnt, bs). mp_dress cnt bs" and fin = "\<lambda>(nm, cnt, bs). mp_fin cnt bs"
      and nm = fst and psize = "\<lambda>(nm, cnt, bs). (RT_ALIGN bs 4 + 4) * cnt" and fail = "\<lambda>x. rt_object_delete (Obj x)" and wake = "\<lambda>x. on_krn (mp_wake_all x)"])
  fix p :: "u8 list \<times> u32 \<times> u32" and n and k :: kstate and s :: dstate
  obtain nm cnt bs where p: "p = (nm, cnt, bs)" by (cases p) auto
  assume a: "(case p of (nm, cnt, bs) \<Rightarrow> mp_fin cnt bs) (pool_of s n) n ((case p of (nm, cnt, bs) \<Rightarrow> mp_dress cnt bs) n k) = Some (krn s)"
    "(case p of (nm, cnt, bs) \<Rightarrow> (RT_ALIGN bs 4 + 4) * cnt) \<noteq> 0" "name_of (krn s) (Obj n) = cstr RT_NAME_MAX (fst p)" "tlists (krn s) (Wait n) = []"
  have "cnt \<noteq> 0" using a(2) p by auto
  moreover obtain mp k' where mp: "mp_create_blocks cnt bs = Some mp" "set_mp n mp k' = krn s" using a(1) p by (auto simp: mp_fin_def bind_eq_Some_conv)
  moreover have "mempools (krn s) n = mp" unfolding mp(2)[symmetric] by simp
  ultimately show "mp_made p n s" using mp_create_blocks_ok[of cnt bs mp n] p a by (simp add: mp_made_def)
next
  fix d own n and s :: dstate
  assume i: "dyn_inv d own s"
  then obtain k where "mp_wake_all n (krn s) = Some k" "sys d {} k" "tlists k (Wait n) = []" using mp_wake_all_ok[of d "krn s" n] by (auto simp: dyn_inv_def)
  then show "\<exists>k. on_krn (mp_wake_all n) s = Some (s\<lparr>krn := k\<rparr>) \<and> sys d {} k \<and> wakes (krn s) k \<and> tlists k (Wait n) = [] \<and> (False \<longrightarrow> tlists k (Wait_Sender n) = [])"
    using mp_wake_all_wakes[of n "krn s" k] by (auto simp: on_krn_def)
next
  fix p :: "u8 list \<times> u32 \<times> u32" and a n and k :: kstate
  assume "mp_valid p" "tlists k (Wait n) = []" "tlists k (Wait_Sender n) = []"
  then show "\<exists>k'. (case p of (nm, cnt, bs) \<Rightarrow> mp_fin cnt bs) a n k = Some k' \<and> dressed n k k'"
    by (auto simp: mp_valid_def mp_fin_def mp_create_blocks_def Let_def rt_assert_def dressed_def set_mp_def q_init_empty split: prod.splits)
qed (auto simp: mp_is_pool mp_dress_def dressed_def set_mp_def mp_valid_def split: prod.splits)

subsection \<open>Timers\<close>

definition timer_here :: "nat \<Rightarrow> dstate \<Rightarrow> bool" where
  "timer_here n s \<longleftrightarrow> stands RT_Object_Class_Timer n (krn s) \<and> \<not> linked n (krn s) \<and> \<not> waited n (krn s) \<and> Thread_Timer n \<notin> set (rt_timer_list (krn s))"

definition timer_made :: "u8 list \<times> timeout_fn \<times> u32 \<times> u8 \<Rightarrow> nat \<Rightarrow> dstate \<Rightarrow> bool" where
  "timer_made p n s \<longleftrightarrow> (case p of (nm, fn, time, flag) \<Rightarrow>
     timers (krn s) (User_Timer n) = \<lparr>timeout_func = fn, tm_init_tick = time, timeout_tick = 0\<rparr> \<and> \<not> timer_active (User_Timer n) (krn s) \<and>
     User_Timer n \<notin> set (rt_timer_list (krn s)) \<and> name_of (krn s) (Obj_Timer (User_Timer n)) = cstr RT_NAME_MAX nm)"

definition timer_valid :: "u8 list \<times> timeout_fn \<times> u32 \<times> u8 \<Rightarrow> bool" where
  "timer_valid p \<longleftrightarrow> (case p of (nm, fn, time, flag) \<Rightarrow> terminated nm \<and> (\<exists>m. fn = User_Timeout m))"

lemma objid_of_timer [simp]: "objid_of RT_Object_Class_Timer n = Obj_Timer (User_Timer n)"
  by (simp add: objid_of_def)

lemma timer_here_keeps:
  "spares n s s' \<Longrightarrow> timer_here m s \<Longrightarrow> of_nat n \<notin> sole_block m s \<Longrightarrow> timer_here m s' \<and> sole_block m s' = sole_block m s"
proof -
  assume k: "spares n s s'" and h: "timer_here m s" and b: "of_nat n \<notin> sole_block m s"
  have q: "q_home q \<noteq> None \<Longrightarrow> set (tlists (krn s') q) \<subseteq> set (tlists (krn s) q)" for q using k by (simp add: spares_def)
  have "waited m (krn s') \<Longrightarrow> waited m (krn s)" unfolding waited_def using q by (metis option.distinct(1) set_empty subset_empty)
  moreover have "m \<noteq> n" using b by (auto simp: sole_block_def)
  ultimately show ?thesis using k h by (auto simp: timer_here_def sole_block_def spares_def)
qed

lemma timer_create_ok:
  assumes i: "dyn_inv d own s" and p: "timer_valid (nm, fn, time, flag)"
  shows "\<exists>r s'. rt_timer_create nm fn time flag s = Some (r, s') \<and> apart own s s' \<and>
      (case r of None \<Rightarrow> dyn_inv d own s'
       | Some n \<Rightarrow> timer_here n s' \<and> timer_made (nm, fn, time, flag) n s' \<and> \<not> timer_here n s \<and>
          (\<exists>own'. dyn_inv d own' s' \<and> own \<subseteq>\<^sub>m own' \<and> dom own' = dom own \<union> sole_block n s' \<and> sole_block n s' \<inter> dom own = {}))"
proof -
  let ?ty = "RT_Object_Class_Timer"
  have nm: "terminated nm" and fn: "\<exists>m. fn = User_Timeout m" using p by (auto simp: timer_valid_def)
  obtain r s1 where a: "rt_object_allocate ?ty nm s = Some (r, s1)" and
    c: "case r of None \<Rightarrow> s1 = s
     | Some n \<Rightarrow> n < 2 ^ 32 \<and> n \<noteq> 0 \<and> own (of_nat n) = None \<and> \<not> used n (krn s) \<and> dyn_inv d (own(of_nat n \<mapsto> object_size s ?ty)) s1 \<and>
        alone ?ty n (krn s1) \<and> \<not> waited n (krn s1) \<and> name_of (krn s1) (objid_of ?ty n) = cstr RT_NAME_MAX nm \<and>
        (\<forall>ty' m. m \<noteq> n \<longrightarrow> stands ty' m (krn s1) = stands ty' m (krn s)) \<and>
        (\<forall>m. linked m (krn s1) = linked m (krn s) \<and> timed m (krn s1) = timed m (krn s) \<and> (used m (krn s1) \<longleftrightarrow> used m (krn s) \<or> m = n)) \<and>
        tlists (krn s1) = tlists (krn s) \<and> rt_timer_list (krn s1) = rt_timer_list (krn s) \<and> rt_interrupt_nest (krn s1) = 0"
    using allocate_stands[OF i nm, of ?ty] by blast
  show ?thesis
  proof (cases r)
    case None
    then show ?thesis using a c i by (auto simp: rt_timer_create_def apart_def)
  next
    case (Some n)
    let ?own = "own(of_nat n \<mapsto> object_size s ?ty)"
    have n: "own (of_nat n) = None" "\<not> used n (krn s)" "dyn_inv d ?own s1" "alone ?ty n (krn s1)" "\<not> waited n (krn s1)"
      "name_of (krn s1) (Obj_Timer (User_Timer n)) = cstr RT_NAME_MAX nm" "\<And>m. m \<noteq> n \<Longrightarrow> stands ?ty m (krn s1) = stands ?ty m (krn s)"
      "tlists (krn s1) = tlists (krn s)" "rt_timer_list (krn s1) = rt_timer_list (krn s)" using c Some by auto
    define k where "k = rt_timer_init_common (User_Timer n) fn time flag (krn s1)"
    have kob: "obj_name (objects k y) = obj_name (objects (krn s1) y) \<and> obj_type (objects k y) = obj_type (objects (krn s1) y)" for y
      by (cases "y = Obj_Timer (User_Timer n)") (simp_all add: k_def rt_timer_init_common_def Let_def)
    have ksel: "threads k = threads (krn s1)" "tlists k = tlists (krn s1)" "rt_timer_list k = rt_timer_list (krn s1)" "rt_tick k = rt_tick (krn s1)"
      "rt_thread_ready_priority_group k = rt_thread_ready_priority_group (krn s1)" "rt_object_container k = rt_object_container (krn s1)"
      "rt_interrupt_nest k = rt_interrupt_nest (krn s1)"
      "timers k = (timers (krn s1))(User_Timer n := \<lparr>timeout_func = fn, tm_init_tick = time, timeout_tick = 0\<rparr>)"
      by (simp_all add: k_def rt_timer_init_common_def Let_def)
    have same: "linked m k = linked m (krn s1)" "waited m k = waited m (krn s1)" "used m k = used m (krn s1)" "stands ty' m k = stands ty' m (krn s1)" for m ty'
      using ksel kob by (simp_all add: used_def linked_def waited_def timed_def housed_def attached_def stands_def)
    have off: "User_Timer n \<notin> set (rt_timer_list (krn s1))" "Thread_Timer n \<notin> set (rt_timer_list (krn s1))"
      using n(4) by (auto simp: alone_def timed_def)
    have "sys d {} k"
    proof (rule sys_idle_timer[OF _ off(1)])
      show "sys d {} (krn s1)" using n(3) by (simp add: dyn_inv_def)
      show "\<And>tm. tm \<noteq> User_Timer n \<Longrightarrow> timers k tm = timers (krn s1) tm \<and> obj_flag (objects k (Obj_Timer tm)) = obj_flag (objects (krn s1) (Obj_Timer tm))"
        by (simp add: k_def rt_timer_init_common_def Let_def)
    qed (use ksel fn in auto)
    moreover have "obj_inv k" using n(3) kob ksel(6) by (simp add: dyn_inv_def obj_inv_def)
    ultimately have "dyn_inv d ?own (s1\<lparr>krn := k\<rparr>)" using n(3) same(3) ksel(7) by (simp add: dyn_inv_def)
    then have ow: "\<exists>own'. dyn_inv d own' (s1\<lparr>krn := k\<rparr>) \<and> own \<subseteq>\<^sub>m own' \<and> dom own' = dom own \<union> sole_block n (s1\<lparr>krn := k\<rparr>) \<and> sole_block n (s1\<lparr>krn := k\<rparr>) \<inter> dom own = {}"
      using n(1) by (intro exI[of _ ?own]) (auto simp: sole_block_def map_le_def)
    have "timer_here n (s1\<lparr>krn := k\<rparr>)" using n(4,5) same off ksel(3) by (simp add: timer_here_def alone_def)
    moreover have "timer_made (nm, fn, time, flag) n (s1\<lparr>krn := k\<rparr>)"
      using n(6) kob ksel off by (simp add: timer_made_def timer_active_def k_def rt_timer_init_common_def Let_def and.assoc)
    moreover have "\<not> timer_here n s" using n(2) by (auto simp: timer_here_def stands_def used_def)
    moreover have "spares n s1 (s1\<lparr>krn := k\<rparr>)" using same ksel by (simp add: spares_def)
    then have "apart own s (s1\<lparr>krn := k\<rparr>)" using spares_trans[OF spares_allocate[OF i nm]] a Some n(1) by (auto simp: apart_def)
    moreover have "rt_timer_create nm fn time flag s = Some (Some n, s1\<lparr>krn := k\<rparr>)" using a Some by (simp add: rt_timer_create_def k_def)
    ultimately show ?thesis using ow by (intro exI[of _ "Some n"] exI[of _ "s1\<lparr>krn := k\<rparr>"]) (simp add: sole_block_def)
  qed
qed

lemma timer_delete_ok:
  assumes i: "dyn_inv d own s" and n: "timer_here n s" "sole_block n s \<subseteq> dom own"
  shows "\<exists>s'. rt_timer_delete n s = Some (RT_EOK, s') \<and> dyn_inv d (own |` (- sole_block n s)) s' \<and> spares n s s'"
proof -
  let ?k = "rt_timer_remove (User_Timer n) (krn s)"
  let ?s = "s\<lparr>krn := ?k\<rparr>"
  have sel: "threads ?k = threads (krn s)" "tlists ?k = tlists (krn s)" "objects ?k = objects (krn s)" "rt_object_container ?k = rt_object_container (krn s)"
    "rt_interrupt_nest ?k = rt_interrupt_nest (krn s)" "rt_timer_list ?k = remove1 (User_Timer n) (rt_timer_list (krn s))" by (simp_all add: rt_timer_remove_def)
  have sub: "set (rt_timer_list ?k) \<subseteq> set (rt_timer_list (krn s))" unfolding sel by (rule set_remove1_subset)
  have same: "linked m ?k = linked m (krn s)" "waited m ?k = waited m (krn s)" "stands ty m ?k = stands ty m (krn s)" for m ty
    by (simp_all add: linked_def waited_def stands_def housed_def attached_def sel)
  have "used m ?k \<Longrightarrow> used m (krn s)" for m using sub same by (auto simp: used_def timed_def housed_def attached_def sel)
  moreover have "sys d {} ?k" using i by (auto simp: dyn_inv_def intro: remove_timer_sys)
  moreover have "obj_inv ?k" using i by (simp add: dyn_inv_def obj_inv_def sel)
  ultimately have i1: "dyn_inv d own ?s" using i by (auto simp: dyn_inv_def sel)
  have dist: "distinct (rt_timer_list (krn s))" using i by (simp add: dyn_inv_def sys_def timer_inv_def)
  have nt: "\<not> timed n ?k"
  proof
    assume "timed n ?k"
    then obtain tm where tm: "tm \<in> set (remove1 (User_Timer n) (rt_timer_list (krn s)))" "obj_home (Obj_Timer tm) = n" by (auto simp: timed_def sel)
    show False by (cases tm) (use tm n(1) dist in \<open>auto simp: timer_here_def\<close>)
  qed
  have "own (of_nat n) \<noteq> None" using n(2) by (auto simp: sole_block_def)
  from rt_object_delete_ok[OF i1, of 8 n, OF _ this] obtain s' where s': "rt_object_delete (Obj_Timer (User_Timer n)) ?s = Some s'"
    "dyn_inv d (own(of_nat n := None)) s'" "s' = ?s\<lparr>krn := rt_object_detach (Obj_Timer (User_Timer n)) ?k, hp := hp s'\<rparr>"
    using n(1) same nt by (auto simp: timer_here_def)
  have "wakes (krn s) ?k" using sub by (simp add: wakes_def sel linked_def)
  from spares_wakes[OF this] have "spares n s ?s" .
  moreover have "spares n ?s s'" using spares_detach[of ?s n RT_Object_Class_Timer] i1 by (subst s'(3)) (simp add: dyn_inv_def)
  ultimately have "spares n s s'" by (rule spares_trans)
  moreover have "own |` (- sole_block n s) = own(of_nat n := None)" by (auto simp: sole_block_def restrict_map_def)
  moreover have "rt_timer_delete n s = Some (RT_EOK, s')" using s'(1) by (simp add: rt_timer_delete_def)
  ultimately show ?thesis using s'(2) by (auto simp: sole_block_def)
qed

interpretation timer_dyn: dyn_frame "\<lambda>(nm, fn, time, flag). rt_timer_create nm fn time flag" rt_timer_delete timer_valid timer_made timer_here sole_block
proof
  fix d own s and p :: "u8 list \<times> timeout_fn \<times> u32 \<times> u8"
  assume a: "dyn_inv d own s" "timer_valid p"
  obtain nm fn time flag where p: "p = (nm, fn, time, flag)" by (cases p) auto
  show "\<exists>r s'. (case p of (nm, fn, time, flag) \<Rightarrow> rt_timer_create nm fn time flag) s = Some (r, s') \<and> apart own s s' \<and>
      (case r of None \<Rightarrow> dyn_inv d own s'
       | Some n \<Rightarrow> timer_here n s' \<and> timer_made p n s' \<and> \<not> timer_here n s \<and>
          (\<exists>own'. dyn_inv d own' s' \<and> own \<subseteq>\<^sub>m own' \<and> dom own' = dom own \<union> sole_block n s' \<and> sole_block n s' \<inter> dom own = {}))"
    using timer_create_ok[OF a(1) a(2)[unfolded p]] unfolding p prod.case .
qed (use timer_delete_ok timer_here_keeps in \<open>auto simp: sole_block_def\<close>)

subsection \<open>Objects are in the container of their class\<close>

definition typed :: "kstate \<Rightarrow> bool" where
  "typed k \<longleftrightarrow> (\<forall>c. \<forall>x \<in> set (rt_object_container k c). obj_type (objects k x) AND NOT RT_Object_Class_Static = c)"

lemma class_bits: "(c :: u8) AND RT_Object_Class_Static = 0 \<Longrightarrow> c AND NOT RT_Object_Class_Static = c"
  "(c :: u8) AND RT_Object_Class_Static = 0 \<Longrightarrow> (c OR RT_Object_Class_Static) AND NOT RT_Object_Class_Static = c"
proof -
  assume a: "c AND RT_Object_Class_Static = 0"
  have "c = (c AND RT_Object_Class_Static) OR (c AND NOT RT_Object_Class_Static)" by (metis bit.conj_disj_distrib bit.disj_cancel_right bit.conj_one_right)
  then show "c AND NOT RT_Object_Class_Static = c" unfolding a by simp
  then show "(c OR RT_Object_Class_Static) AND NOT RT_Object_Class_Static = c" by (simp add: bit.conj_disj_distrib2)
qed

lemma typed_insert:
  assumes "typed k" "\<not> attached x k" "ty AND NOT RT_Object_Class_Static = c"
    "\<And>y. y \<noteq> x \<Longrightarrow> obj_type (objects k' y) = obj_type (objects k y)" "obj_type (objects k' x) = ty"
    "rt_object_container k' = q_insert_after c x (rt_object_container k)"
  shows "typed k'"
  unfolding typed_def
proof (intro allI ballI)
  fix c' y assume y: "y \<in> set (rt_object_container k' c')"
  show "obj_type (objects k' y) AND NOT RT_Object_Class_Static = c'"
  proof (cases "y = x")
    case True
    then have "c' = c" using y assms(2,6) by (auto simp: attached_def q_insert_after_def split: if_splits)
    then show ?thesis using True assms(3,5) by simp
  next
    case False
    then have "y \<in> set (rt_object_container k c')" using y assms(6) by (auto simp: q_insert_after_def split: if_splits)
    then show ?thesis using False assms(1,4) by (simp add: typed_def)
  qed
qed

lemma typed_init:
  assumes "typed k" "\<not> attached x k" "c AND RT_Object_Class_Static = 0" "rt_object_init x c nm k = Some k'"
  shows "typed k'"
proof (rule typed_insert[OF assms(1,2) class_bits(2)[OF assms(3)]])
  show "rt_object_container k' = q_insert_after c x (rt_object_container k)" using assms(4) by (auto simp: rt_object_init_def bind_eq_Some_conv)
qed (use assms(4) in \<open>auto simp: rt_object_init_def bind_eq_Some_conv\<close>)

lemma typed_detach: "typed k \<Longrightarrow> typed (rt_object_detach x k)"
  by (auto simp: typed_def rt_object_detach_def q_remove_def dest: in_set_remove1D)

lemma typed_allocate:
  assumes i: "dyn_inv d own s" "typed (krn s)" "terminated nm" "c AND RT_Object_Class_Static = 0" and r: "rt_object_allocate c nm s = Some (r, s')"
  shows "typed (krn s')"
proof (cases r)
  case None
  then have "s' = s" using rt_object_allocate_ok[OF i(1,3), of c] r by auto
  then show ?thesis using i(2) by simp
next
  case (Some n)
  then obtain nm8 where n: "\<not> used n (krn s)" and
    s': "s' = s\<lparr>krn := (krn s)\<lparr>objects := (objects (krn s))(objid_of c n := \<lparr>obj_name = nm8, obj_type = c, obj_flag = 0\<rparr>),
             rt_object_container := q_insert_after c (objid_of c n) (rt_object_container (krn s))\<rparr>, hp := hp s'\<rparr>"
    using rt_object_allocate_ok[OF i(1,3), of c] r by auto
  have k: "krn s' = (krn s)\<lparr>objects := (objects (krn s))(objid_of c n := \<lparr>obj_name = nm8, obj_type = c, obj_flag = 0\<rparr>),
             rt_object_container := q_insert_after c (objid_of c n) (rt_object_container (krn s))\<rparr>" by (subst s') simp
  have "\<not> attached (objid_of c n) (krn s)" using n by (auto simp: used_def housed_def)
  then show ?thesis by (rule typed_insert[OF i(2) _ class_bits(1)[OF i(4)]]) (auto simp: k)
qed

lemma typed_delete: "typed (krn s) \<Longrightarrow> rt_object_delete x s = Some s' \<Longrightarrow> typed (krn s')"
  by (auto simp: rt_object_delete_def RT_KERNEL_FREE_def bind_eq_Some_conv typed_detach Let_def)

lemma find_by_name_member: "find_by_name f nm xs = Some (Some x) \<Longrightarrow> x \<in> set xs"
  by (induction xs) (auto simp: bind_eq_Some_conv split: if_splits)

lemma typed_find:
  assumes "typed k" "rt_object_find nm c k = Some (Some x, k')"
  shows "obj_type (objects k x) AND NOT RT_Object_Class_Static = c"
proof -
  have "x \<in> set (rt_object_container k c)"
    using assms(2) by (auto simp: rt_object_find_def rt_enter_critical_def bind_eq_Some_conv Let_def dest: find_by_name_member split: option.splits if_splits)
  then show ?thesis using assms(1) by (simp add: typed_def)
qed

end
