(* ===== verification/RT_Reap.thy ===== *)
theory RT_Reap
  imports RT_Dynamic
begin

text \<open>
  The memory of threads: \<^verbatim>\<open>rt_thread_create\<close> takes the control block and the stack from the heap, and the
  idle thread (\<^verbatim>\<open>rt_thread_idle_excute\<close>) gives both back once the thread is on the defunct list.
\<close>

subsection \<open>Creation\<close>

lemma rt_strncpy_full: "n \<le> length src \<Longrightarrow> \<exists>d. rt_strncpy src n = Some d \<and> length d = n"
  by (induction src n rule: rt_strncpy.induct) auto

text \<open>Initialising a thread that is on no list and whose timer does not run.\<close>

lemma thread_init_ok:
  assumes s: "sys d {} k" "obj_inv k" and t: "\<not> linked t k" "Thread_Timer t \<notin> set (rt_timer_list k)" "\<not> attached (Obj_Timer (Thread_Timer t)) k"
    and ob: "attached (Obj_Thread t) k" and pr: "unat priority < 32"
  shows "\<exists>k'. rt_thread_init_common exit_fn t entry param stack_start stksize priority tick k = Some (RT_EOK, k') \<and> sys d {} k' \<and> obj_inv k' \<and>
    stat (threads k' t) = RT_THREAD_INIT \<and> stack_addr (threads k' t) = stack_start \<and> cleanup (threads k' t) = None \<and>
    current_priority (threads k' t) = priority \<and> (\<forall>u. u \<noteq> t \<longrightarrow> threads k' u = threads k u) \<and>
    tlists k' = tlists k \<and> rt_timer_list k' = rt_timer_list k \<and> rt_interrupt_nest k' = rt_interrupt_nest k \<and>
    (\<forall>x. x \<noteq> Obj_Timer (Thread_Timer t) \<longrightarrow> objects k' x = objects k x) \<and>
    rt_object_container k' = q_insert_after RT_Object_Class_Timer (Obj_Timer (Thread_Timer t)) (rt_object_container k)"
proof -
  define x where "x = Obj_Timer (Thread_Timer t)"
  let ?nm = "obj_name (objects k (Obj_Thread t))"
  have "length ?nm = 8" using s(2) ob by (auto simp: obj_inv_def attached_def)
  then obtain nm8 where nm8: "rt_strncpy ?nm 8 = Some nm8" "length nm8 = 8" using rt_strncpy_full[of 8 ?nm] by auto
  define st where "st = rt_hw_stack_init entry param (stack_start + ucast (ucast stksize :: u16) - 4) exit_fn
    (rt_memset stack_start 0x23 (ucast (ucast stksize :: u16)) (memory k))"
  define th where "th = (threads k t)\<lparr>entry_fn := entry, parameter := param, stack_addr := stack_start, stack_size := ucast stksize, sp := fst st,
    init_priority := priority, current_priority := priority, init_tick := tick, remaining_tick := tick, error := 0, stat := 0, cleanup := None, user_data := 0\<rparr>"
  define k1 where "k1 = upd_thread t (\<lambda>_. th) k"
  define k' where "k' = k1\<lparr>memory := snd st, rt_object_container := q_insert_after RT_Object_Class_Timer x (rt_object_container k),
      objects := (objects k)(x := (objects k x)\<lparr>obj_type := RT_Object_Class_Timer OR RT_Object_Class_Static, obj_name := nm8, obj_flag := 0\<rparr>),
      timers := (timers k)(Thread_Timer t := \<lparr>timeout_func = Rt_Thread_Timeout t, tm_init_tick = 0, timeout_tick = 0\<rparr>)\<rparr>"
  have run: "rt_thread_init_common exit_fn t entry param stack_start stksize priority tick k = Some (RT_EOK, k')"
    using nm8(1) pr
    by (simp add: rt_thread_init_common_def rt_timer_init_def rt_object_init_def rt_timer_init_common_def Let_def split_def x_def k'_def k1_def th_def st_def)
  have "sys d {t} k1" unfolding k1_def by (rule sys_upd_out[OF sys_take_out[OF s(1)]]) (use t in \<open>auto simp: linked_def\<close>)
  then have "sys d {t} k'"
    by (rule sys_idle_timer[where tmx = "Thread_Timer t"]) (use t(2) in \<open>auto simp: k'_def k1_def x_def\<close>)
  then have s': "sys d {} k'"
    using kinvx_Diff[of "{t}" k' t] by (simp add: sys_def sleepers_ok_def k'_def k1_def th_def)
       (use t(2) in \<open>auto simp: sys_def sleepers_ok_def\<close>)
  moreover have "obj_inv k'" using s(2) t(3) nm8(2) by (auto simp: obj_inv_def attached_def q_insert_after_def k'_def k1_def x_def)
  ultimately show ?thesis using run by (intro exI[of _ k']) (auto simp: k'_def k1_def th_def x_def)
qed

lemma housed_insert:
  assumes c: "rt_object_container k' = q_insert_after c x (rt_object_container k)"
  shows "housed m k' = (if m = obj_home x then insert x (housed m k) else housed m k)"
proof -
  have e: "set (rt_object_container k' c') = (if c' = c then insert x (set (rt_object_container k c')) else set (rt_object_container k c'))" for c'
    by (simp add: c q_insert_after_def)
  have a: "attached y k' \<longleftrightarrow> attached y k \<or> y = x" for y
  proof
    assume "attached y k'"
    then obtain c' where "y \<in> set (rt_object_container k' c')" by (auto simp: attached_def)
    then have "y = x \<or> y \<in> set (rt_object_container k c')" unfolding e by (cases "c' = c") simp_all
    then show "attached y k \<or> y = x" by (auto simp: attached_def)
  next
    assume "attached y k \<or> y = x"
    then show "attached y k'"
    proof
      assume "attached y k"
      then obtain c' where "y \<in> set (rt_object_container k c')" by (auto simp: attached_def)
      then have "y \<in> set (rt_object_container k' c')" unfolding e by auto
      then show ?thesis by (auto simp: attached_def)
    next
      assume "y = x"
      then have "y \<in> set (rt_object_container k' c)" unfolding e by simp
      then show ?thesis by (auto simp: attached_def)
    qed
  qed
  show ?thesis unfolding housed_def a by (cases "m = obj_home x") (simp_all, blast+)
qed

text \<open>The memory of a thread: its control block and its stack.\<close>

definition thread_blocks :: "tid \<Rightarrow> dstate \<Rightarrow> u32 set" where
  "thread_blocks t s = {of_nat t, stack_addr (threads (krn s) t)}"

definition thread_here :: "tid \<Rightarrow> dstate \<Rightarrow> bool" where
  "thread_here t s \<longleftrightarrow> t < 2 ^ 32 \<and> obj_type (objects (krn s) (Obj_Thread t)) = RT_Object_Class_Thread \<and>
     Obj_Thread t \<in> set (rt_object_container (krn s) RT_Object_Class_Thread) \<and> \<not> waited t (krn s) \<and>
     User_Timer t \<notin> set (rt_timer_list (krn s)) \<and> stack_addr (threads (krn s) t) \<noteq> of_nat t \<and> \<not> used (unat (stack_addr (threads (krn s) t))) (krn s) \<and>
     housed t (krn s) \<subseteq> {Obj_Thread t, Obj_Timer (Thread_Timer t)}"

lemma objid_of_thread [simp]: "objid_of RT_Object_Class_Thread n = Obj_Thread n"
  by (simp add: objid_of_def)

theorem rt_thread_create_ok:
  assumes i: "dyn_inv d own s" and nm: "terminated nm" and pr: "unat priority < 32"
  shows "\<exists>r s'. rt_thread_create exit_fn nm entry param stksize priority tick s = Some (r, s') \<and>
    (case r of None \<Rightarrow> dyn_inv d own s'
     | Some t \<Rightarrow> thread_here t s' \<and> stat (threads (krn s') t) = RT_THREAD_INIT \<and> current_priority (threads (krn s') t) = priority \<and>
         name_of (krn s') (Obj_Thread t) = cstr RT_NAME_MAX nm \<and> (\<forall>u. u \<noteq> t \<longrightarrow> threads (krn s') u = threads (krn s) u) \<and>
         (\<exists>own'. dyn_inv d own' s' \<and> own \<subseteq>\<^sub>m own' \<and> dom own' = dom own \<union> thread_blocks t s' \<and> thread_blocks t s' \<inter> dom own = {}))"
proof -
  obtain r s1 where a: "rt_object_allocate 0 nm s = Some (r, s1)" and
    c: "case r of None \<Rightarrow> s1 = s
     | Some n \<Rightarrow> n < 2 ^ 32 \<and> n \<noteq> 0 \<and> own (of_nat n) = None \<and> \<not> used n (krn s) \<and> dyn_inv d (own(of_nat n \<mapsto> object_size s 0)) s1 \<and>
        alone 0 n (krn s1) \<and> \<not> waited n (krn s1) \<and> name_of (krn s1) (objid_of 0 n) = cstr RT_NAME_MAX nm"
    using allocate_stands[OF i nm, of 0] by (elim exE conjE) (auto split: option.splits)
  have th1: "threads (krn s1) = threads (krn s)" if "r \<noteq> None"
  proof -
    obtain n where "r = Some n" using \<open>r \<noteq> None\<close> by blast
    then show ?thesis using a by (auto simp: rt_object_allocate_def RT_KERNEL_MALLOC_def Let_def bind_eq_Some_conv split: if_splits)
  qed
  show ?thesis
  proof (cases r)
    case None
    then show ?thesis using a c i by (auto simp: rt_thread_create_def)
  next
    case (Some t)
    let ?own = "own(of_nat t \<mapsto> object_size s 0)"
    have n: "t < 2 ^ 32" "own (of_nat t) = None" "\<not> used t (krn s)" "dyn_inv d ?own s1" "alone 0 t (krn s1)" "\<not> waited t (krn s1)"
      "name_of (krn s1) (Obj_Thread t) = cstr RT_NAME_MAX nm" using c Some by auto
    obtain p s2 where m: "RT_KERNEL_MALLOC stksize s1 = Some (p, s2)" "dyn_inv d (if p = 0 then ?own else ?own(p \<mapsto> stksize)) s2" "s2 = s1\<lparr>hp := hp s2\<rparr>"
      "p = 0 \<longrightarrow> s2 = s1" "p \<noteq> 0 \<longrightarrow> ?own p = None \<and> \<not> used (unat p) (krn s1)"
      using kernel_malloc_ok[OF n(4), of stksize] by blast
    have k2: "krn s2 = krn s1" by (subst m(3)) simp
    show ?thesis
    proof (cases "p = 0")
      case True
      have "?own (of_nat t) \<noteq> None" by simp
      from rt_object_delete_ok[OF n(4), of 0 t, OF _ this] obtain s3 where s3: "rt_object_delete (Obj_Thread t) s1 = Some s3" "dyn_inv d (?own(of_nat t := None)) s3"
        using n(5,6) by (auto simp: alone_def)
      have "?own(of_nat t := None) = own" using n(2) by (auto simp: fun_eq_iff)
      then show ?thesis using a Some m(1,4) True s3 by (auto simp: rt_thread_create_def)
    next
      case False
      have p: "p \<noteq> of_nat t" "own p = None" "\<not> used (unat p) (krn s1)" using m(5) False by (auto split: if_splits)
      have st: "stands 0 t (krn s1)" "\<not> linked t (krn s1)" "\<not> timed t (krn s1)" using n(5) by (auto simp: alone_def)
      have hs: "housed t (krn s1) = {Obj_Thread t}" using st(1) by (simp add: stands_def)
      have "attached x (krn s1) \<longleftrightarrow> x \<in> housed t (krn s1)" if "obj_home x = t" for x using that by (simp add: housed_def)
      then have "attached (Obj_Thread t) (krn s1)" "\<not> attached (Obj_Timer (Thread_Timer t)) (krn s1)" unfolding hs by simp_all
      moreover have off: "Thread_Timer t \<notin> set (rt_timer_list (krn s1))" "User_Timer t \<notin> set (rt_timer_list (krn s1))" using st(3) by (auto simp: timed_def)
      moreover have "sys d {} (krn s1)" "obj_inv (krn s1)" using n(4) by (auto simp: dyn_inv_def)
      ultimately obtain k where k: "rt_thread_init_common exit_fn t entry param p stksize priority tick (krn s1) = Some (RT_EOK, k)" "sys d {} k" "obj_inv k"
        "stat (threads k t) = RT_THREAD_INIT" "stack_addr (threads k t) = p" "current_priority (threads k t) = priority"
        "\<forall>u. u \<noteq> t \<longrightarrow> threads k u = threads (krn s1) u" "tlists k = tlists (krn s1)" "rt_timer_list k = rt_timer_list (krn s1)"
        "rt_interrupt_nest k = rt_interrupt_nest (krn s1)" "\<forall>x. x \<noteq> Obj_Timer (Thread_Timer t) \<longrightarrow> objects k x = objects (krn s1) x"
        "rt_object_container k = q_insert_after RT_Object_Class_Timer (Obj_Timer (Thread_Timer t)) (rt_object_container (krn s1))"
        using thread_init_ok[OF _ _ st(2) _ _ _ pr] by metis
      let ?s = "s2\<lparr>krn := k\<rparr>"
      have h: "housed m k = (if m = t then insert (Obj_Timer (Thread_Timer t)) (housed t (krn s1)) else housed m (krn s1))" for m
        using housed_insert[OF k(12), of m] by simp
      have u: "used m k \<longleftrightarrow> used m (krn s1)" for m
        using h[of m] k(8,9) st(1) by (auto simp: used_def linked_def waited_def timed_def stands_def)
      have "dyn_inv d (?own(p \<mapsto> stksize)) ?s" using m(2) False k(2,3,10) u k2 by (simp add: dyn_inv_def)
      then have "\<exists>own'. dyn_inv d own' ?s \<and> own \<subseteq>\<^sub>m own' \<and> dom own' = dom own \<union> thread_blocks t ?s \<and> thread_blocks t ?s \<inter> dom own = {}"
        using n(2) p k(5) by (intro exI[of _ "?own(p \<mapsto> stksize)"]) (auto simp: thread_blocks_def map_le_def)
      moreover have "thread_here t ?s" using n(1,6) st k h[of t] off p u
        by (auto simp: thread_here_def stands_def waited_def q_insert_after_def)
      moreover have "rt_thread_create exit_fn nm entry param stksize priority tick s = Some (Some t, ?s)"
        using a Some m(1) False k(1) k2 by (simp add: rt_thread_create_def)
      ultimately show ?thesis using k n(7) th1 Some by (intro exI[of _ "Some t"] exI[of _ ?s]) auto
    qed
  qed
qed

subsection \<open>The idle thread\<close>

text \<open>Unlinking a closed thread.\<close>

lemma unlink_closed:
  assumes s: "sys d {} k" and t: "t \<in> set (tlists k Defunct)"
  shows "sys d {} (k\<lparr>tlists := q_remove t (tlists k)\<rparr>)" "\<not> linked t (k\<lparr>tlists := q_remove t (tlists k)\<rparr>)"
    "\<And>m. m \<noteq> t \<Longrightarrow> linked m (k\<lparr>tlists := q_remove t (tlists k)\<rparr>) = linked m k"
    "\<And>m. waited m (k\<lparr>tlists := q_remove t (tlists k)\<rparr>) = waited m k" "Thread_Timer t \<notin> set (rt_timer_list k)"
proof -
  let ?k = "k\<lparr>tlists := q_remove t (tlists k)\<rparr>"
  have c: "stat (threads k t) = RT_THREAD_CLOSE" by (rule kinvxD(8)[OF sysD(1)[OF s] t])
  then show nt: "Thread_Timer t \<notin> set (rt_timer_list k)" using sysD(3)[OF s] by (auto simp: sleepers_ok_def)
  have "kinvx {t} ?k" using kinvx_remove_waiting[OF sysD(1)[OF s], of t] c by simp
  then have "kinvx {} ?k" using kinvx_Diff[of "{t}" ?k t] c by simp
  moreover have "timer_inv d ?k" using sysD(2)[OF s] timer_inv_cong[of ?k k d] by (simp add: timer_active_def)
  ultimately show "sys d {} ?k" using sysD(3-6)[OF s] by (auto simp: sys_def sleepers_ok_def timers_ok_def)
  show "\<not> linked t ?k" using kinvxD(1)[OF sysD(1)[OF s]] by (simp add: linked_def q_remove_def)
  show "linked m ?k = linked m k" if "m \<noteq> t" for m using that by (simp add: linked_def q_remove_def)
  have "tlists ?k q = tlists k q" if "q \<noteq> Defunct" for q
  proof -
    have "t \<notin> set (tlists k q)" using kinvxD(2)[OF sysD(1)[OF s] t, of q] that by blast
    then show ?thesis by (simp add: q_remove_def remove1_idem)
  qed
  then show "waited m ?k = waited m k" for m unfolding waited_def by (metis q_home.simps(4) option.distinct(1))
qed

definition reapable :: "(u32 \<rightharpoonup> u32) \<Rightarrow> tid \<Rightarrow> dstate \<Rightarrow> bool" where
  "reapable own t s \<longleftrightarrow> thread_here t s \<and> housed t (krn s) = {Obj_Thread t} \<and> cleanup (threads (krn s) t) = None \<and> thread_blocks t s \<subseteq> dom own"

text \<open>One round of the loop frees the control block and the stack of the first defunct thread.\<close>

lemma reap_one:
  assumes i: "dyn_inv d own s" and t: "tlists (krn s) Defunct = t # ts" "reapable own t s"
  shows "\<exists>s'. rt_thread_idle_excute clean s = rt_thread_idle_excute clean s' \<and> dyn_inv d (own |` (- thread_blocks t s)) s' \<and>
    tlists (krn s') Defunct = ts \<and> threads (krn s') = threads (krn s) \<and>
    (\<forall>u. u \<noteq> t \<longrightarrow> reapable own u s \<longrightarrow> thread_blocks u s \<inter> thread_blocks t s = {} \<longrightarrow> reapable (own |` (- thread_blocks t s)) u s')"
proof -
  let ?stk = "stack_addr (threads (krn s) t)"
  define s1 where "s1 = s\<lparr>krn := (krn s)\<lparr>tlists := q_remove t (tlists (krn s))\<rparr>\<rparr>"
  have sys: "sys d {} (krn s)" and nest: "rt_interrupt_nest (krn s) = 0" using i by (auto simp: dyn_inv_def)
  have td: "t \<in> set (tlists (krn s) Defunct)" using t(1) by simp
  note U = unlink_closed[OF sys td]
  have T: "thread_here t s" "housed t (krn s) = {Obj_Thread t}" "cleanup (threads (krn s) t) = None" "thread_blocks t s \<subseteq> dom own"
    using t(2) by (auto simp: reapable_def)
  have same: "housed m (krn s1) = housed m (krn s)" "timed m (krn s1) = timed m (krn s)" for m by (simp_all add: s1_def housed_def attached_def timed_def)
  have us: "used m (krn s1) \<Longrightarrow> used m (krn s)" for m
    using U(2,3,4) same by (cases "m = t") (auto simp: used_def s1_def)
  have i1: "dyn_inv d own s1" using i U(1) us by (auto simp: dyn_inv_def s1_def obj_inv_def)
  have nt: "\<not> timed t (krn s1)"
  proof
    assume "timed t (krn s1)"
    then obtain tm where tm: "tm \<in> set (rt_timer_list (krn s))" "obj_home (Obj_Timer tm) = t" by (auto simp: timed_def s1_def)
    show False by (cases tm) (use tm U(5) T(1) in \<open>auto simp: thread_here_def\<close>)
  qed
  have "own ?stk \<noteq> None" "\<not> used (unat ?stk) (krn s1)" using T(1,4) us by (auto simp: thread_blocks_def thread_here_def)
  from kernel_free_ok[OF i1 this] obtain s2 where s2: "RT_KERNEL_FREE ?stk s1 = Some s2" "dyn_inv d (own(?stk := None)) s2" "s2 = s1\<lparr>hp := hp s2\<rparr>" by blast
  have k2: "krn s2 = krn s1" by (subst s2(3)) simp
  have st: "stands 0 t (krn s2)" using T(1,2) same(1)[of t] by (auto simp: stands_def thread_here_def k2 s1_def)
  have "(own(?stk := None)) (of_nat t) \<noteq> None" using T(1,4) by (auto simp: thread_blocks_def thread_here_def)
  moreover have "\<not> linked t (krn s2)" "\<not> waited t (krn s2)" "\<not> timed t (krn s2)" using U(2,4) nt T(1) by (simp_all add: k2 s1_def thread_here_def)
  ultimately obtain s3 where s3: "rt_object_delete (Obj_Thread t) s2 = Some s3" "dyn_inv d (own(?stk := None, of_nat t := None)) s3"
    "s3 = s2\<lparr>krn := rt_object_detach (Obj_Thread t) (krn s2), hp := hp s3\<rparr>"
    using rt_object_delete_ok[OF s2(2) st] unfolding objid_of_thread by auto
  have k3: "krn s3 = rt_object_detach (Obj_Thread t) (krn s1)" by (subst s3(3)) (simp add: k2)
  have ow: "own |` (- thread_blocks t s) = own(?stk := None, of_nat t := None)" by (auto simp: thread_blocks_def restrict_map_def fun_eq_iff)
  have "\<not> rt_object_is_systemobject (Obj_Thread t) (krn s1)" using T(1) by (simp add: rt_object_is_systemobject_def thread_here_def s1_def)
  then have run: "rt_thread_idle_excute clean s = rt_thread_idle_excute clean s3"
    using t(1) nest T(3) s2(1) s3(1)
    by (subst rt_thread_idle_excute.simps) (simp add: RT_DEBUG_NOT_IN_INTERRUPT_def rt_interrupt_get_nest_def s1_def)
  have o1: "obj_inv (krn s1)" using i1 by (simp add: dyn_inv_def)
  have u3: "used m (krn s3) \<Longrightarrow> used m (krn s)" for m
    using us[of m] rt_object_detach_attached[OF o1, of _ "Obj_Thread t"] by (auto simp: k3 used_def linked_def waited_def timed_def housed_def)
  have "reapable (own |` (- thread_blocks t s)) u s3" if u: "u \<noteq> t" "reapable own u s" "thread_blocks u s \<inter> thread_blocks t s = {}" for u
  proof -
    have "obj_home y = u \<Longrightarrow> y \<noteq> Obj_Thread t" for y using u(1) by auto
    then have "housed u (krn s3) = housed u (krn s1)" unfolding housed_def k3 rt_object_detach_attached[OF o1] by blast
    moreover have "\<not> waited u (krn s3)" using u(2) U(4) by (simp add: k3 s1_def waited_def reapable_def thread_here_def)
    moreover have "thread_blocks u s3 = thread_blocks u s" by (simp add: thread_blocks_def k3 s1_def)
    ultimately show ?thesis using u u3 same
      by (auto simp: reapable_def thread_here_def k3 s1_def rt_object_detach_def q_remove_def)
  qed
  moreover have "tlists (krn s3) Defunct = ts" using t(1) by (simp add: k3 s1_def q_remove_def)
  ultimately show ?thesis using run s3(2) ow by (intro exI[of _ s3]) (simp add: k3 s1_def)
qed

text \<open>The loop ends with no defunct thread left, and exactly their memory is free again.\<close>

theorem rt_thread_idle_excute_ok:
  assumes "dyn_inv d own s" "\<forall>t \<in> set (tlists (krn s) Defunct). reapable own t s"
    "\<forall>t \<in> set (tlists (krn s) Defunct). \<forall>u \<in> set (tlists (krn s) Defunct). t \<noteq> u \<longrightarrow> thread_blocks t s \<inter> thread_blocks u s = {}"
  shows "\<exists>s'. rt_thread_idle_excute clean s = Some s' \<and> tlists (krn s') Defunct = [] \<and>
    dyn_inv d (own |` (- (\<Union>t \<in> set (tlists (krn s) Defunct). thread_blocks t s))) s'"
  using assms
proof (induction "tlists (krn s) Defunct" arbitrary: s own)
  case Nil
  have "own |` UNIV = own" by (auto simp: restrict_map_def)
  then show ?case using Nil by (intro exI[of _ s]) (simp add: rt_thread_idle_excute.simps)
next
  case (Cons t ts)
  have l: "tlists (krn s) Defunct = t # ts" using Cons.hyps(2) by simp
  have dist: "t \<notin> set ts" using kinvxD(1)[OF sysD(1), of d "{}" "krn s" Defunct] Cons.prems(1) l by (auto simp: dyn_inv_def)
  have "reapable own t s" using Cons.prems(2) l by simp
  from reap_one[OF Cons.prems(1) l this, of clean] obtain s1 where s1: "rt_thread_idle_excute clean s = rt_thread_idle_excute clean s1"
    "dyn_inv d (own |` (- thread_blocks t s)) s1" "tlists (krn s1) Defunct = ts" "threads (krn s1) = threads (krn s)"
    "\<forall>u. u \<noteq> t \<longrightarrow> reapable own u s \<longrightarrow> thread_blocks u s \<inter> thread_blocks t s = {} \<longrightarrow> reapable (own |` (- thread_blocks t s)) u s1" by blast
  have b: "thread_blocks u s1 = thread_blocks u s" for u by (simp add: thread_blocks_def s1(4))
  have "\<forall>u \<in> set ts. reapable (own |` (- thread_blocks t s)) u s1" 
  proof
    fix u assume u: "u \<in> set ts"
    then have "u \<noteq> t" using dist by auto
    then show "reapable (own |` (- thread_blocks t s)) u s1" using s1(5) Cons.prems(2,3) u unfolding l by simp
  qed
  moreover have "\<forall>u \<in> set ts. \<forall>v \<in> set ts. u \<noteq> v \<longrightarrow> thread_blocks u s1 \<inter> thread_blocks v s1 = {}" using Cons.prems(3) l b by simp
  ultimately obtain s' where "rt_thread_idle_excute clean s1 = Some s'" "tlists (krn s') Defunct = []"
    "dyn_inv d ((own |` (- thread_blocks t s)) |` (- (\<Union>u \<in> set ts. thread_blocks u s1))) s'"
    using Cons.hyps(1)[OF s1(3)[symmetric] s1(2)] unfolding s1(3) by blast
  moreover have "(own |` (- thread_blocks t s)) |` (- (\<Union>u \<in> set ts. thread_blocks u s1)) = own |` (- (\<Union>u \<in> set (t # ts). thread_blocks u s))"
    using b by (auto simp: restrict_map_def fun_eq_iff)
  ultimately show ?case using s1(1) l by simp
qed

end
