(* ===== verification/RT_Dyn_All.thy ===== *)
theory RT_Dyn_All
  imports RT_Dynamic
begin

text \<open>
  Objects of all kinds on one heap. The create and delete functions of \<^verbatim>\<open>RT_Create\<close> are put behind one pair of
  functions, with the class of the object in its handle, and this pair keeps the contract \<open>dyn_kind\<close> as well: a call
  for one kind does not disturb the objects of the others. So the account of the memory holds over sequences of calls
  for semaphores, mutexes, events, mailboxes, message queues, memory pools and timers in any order.
\<close>

subsection \<open>All kinds of objects\<close>

datatype dyn_class = Dyn_Sem | Dyn_Mutex | Dyn_Event | Dyn_Mb | Dyn_Mq | Dyn_Mp | Dyn_Timer

type_synonym handle = "dyn_class \<times> nat"

datatype dyn_param = New_Sem "u8 list" u32 u8 | New_Mutex "u8 list" u8 | New_Event "u8 list" u8 | New_Mb "u8 list" u32 u8
  | New_Mq "u8 list" u32 u32 u8 | New_Mp "u8 list" u32 u32 | New_Timer "u8 list" timeout_fn u32 u8

definition tagged :: "dyn_class \<Rightarrow> (nat option \<times> dstate) option \<Rightarrow> (handle option \<times> dstate) option" where
  "tagged c = map_option (\<lambda>(r, s). (map_option (Pair c) r, s))"

fun any_create :: "dyn_param \<Rightarrow> dstate \<Rightarrow> (handle option \<times> dstate) option" where
  "any_create (New_Sem nm v flag) s = tagged Dyn_Sem (rt_sem_create nm v flag s)"
| "any_create (New_Mutex nm flag) s = tagged Dyn_Mutex (rt_mutex_create nm flag s)"
| "any_create (New_Event nm flag) s = tagged Dyn_Event (rt_event_create nm flag s)"
| "any_create (New_Mb nm sz flag) s = tagged Dyn_Mb (rt_mb_create nm sz flag s)"
| "any_create (New_Mq nm msgsize maxmsgs flag) s = tagged Dyn_Mq (rt_mq_create nm msgsize maxmsgs flag s)"
| "any_create (New_Mp nm cnt bs) s = tagged Dyn_Mp (rt_mp_create nm cnt bs s)"
| "any_create (New_Timer nm fn time flag) s = tagged Dyn_Timer (rt_timer_create nm fn time flag s)"

fun any_delete :: "handle \<Rightarrow> dstate \<Rightarrow> (rt_err_t \<times> dstate) option" where
  "any_delete (Dyn_Sem, n) s = rt_sem_delete n s"
| "any_delete (Dyn_Mutex, n) s = rt_mutex_delete n s"
| "any_delete (Dyn_Event, n) s = rt_event_delete n s"
| "any_delete (Dyn_Mb, n) s = rt_mb_delete n s"
| "any_delete (Dyn_Mq, n) s = rt_mq_delete n s"
| "any_delete (Dyn_Mp, n) s = rt_mp_delete n s"
| "any_delete (Dyn_Timer, n) s = rt_timer_delete n s"

text \<open>
  What the arguments must satisfy: a name that ends, a pool whose size does not overflow, and a callback of the
  application for a timer.
\<close>

fun any_valid :: "dyn_param \<Rightarrow> bool" where
  "any_valid (New_Sem nm v flag) = terminated nm"
| "any_valid (New_Mutex nm flag) = terminated nm"
| "any_valid (New_Event nm flag) = terminated nm"
| "any_valid (New_Mb nm sz flag) = terminated nm"
| "any_valid (New_Mq nm msgsize maxmsgs flag) = terminated nm"
| "any_valid (New_Mp nm cnt bs) = mp_valid (nm, cnt, bs)"
| "any_valid (New_Timer nm fn time flag) = timer_valid (nm, fn, time, flag)"

fun any_here :: "handle \<Rightarrow> dstate \<Rightarrow> bool" where
  "any_here (Dyn_Sem, n) s = ipc_here RT_Object_Class_Semaphore n s"
| "any_here (Dyn_Mutex, n) s = ipc_here RT_Object_Class_Mutex n s"
| "any_here (Dyn_Event, n) s = ipc_here RT_Object_Class_Event n s"
| "any_here (Dyn_Mb, n) s = pool_here True RT_Object_Class_MailBox n s"
| "any_here (Dyn_Mq, n) s = pool_here False RT_Object_Class_MessageQueue n s"
| "any_here (Dyn_Mp, n) s = pool_here False RT_Object_Class_MemPool n s"
| "any_here (Dyn_Timer, n) s = timer_here n s"

text \<open>The blocks of an object: its control block, and the pool of a mailbox, a message queue or a memory pool.\<close>

fun any_blocks :: "handle \<Rightarrow> dstate \<Rightarrow> u32 set" where
  "any_blocks (c, n) s = (if c \<in> {Dyn_Mb, Dyn_Mq, Dyn_Mp} then pool_blocks n s else sole_block n s)"

definition any_made :: "dyn_param \<Rightarrow> handle \<Rightarrow> dstate \<Rightarrow> bool" where
  "any_made p h s = (case p of
     New_Sem nm v flag \<Rightarrow> fst h = Dyn_Sem \<and> sem_made (nm, v, flag) (snd h) s
   | New_Mutex nm flag \<Rightarrow> fst h = Dyn_Mutex \<and> mutex_made (nm, flag) (snd h) s
   | New_Event nm flag \<Rightarrow> fst h = Dyn_Event \<and> event_made (nm, flag) (snd h) s
   | New_Mb nm sz flag \<Rightarrow> fst h = Dyn_Mb \<and> mb_made (nm, sz, flag) (snd h) s
   | New_Mq nm msgsize maxmsgs flag \<Rightarrow> fst h = Dyn_Mq \<and> mq_made (nm, msgsize, maxmsgs, flag) (snd h) s
   | New_Mp nm cnt bs \<Rightarrow> fst h = Dyn_Mp \<and> mp_made (nm, cnt, bs) (snd h) s
   | New_Timer nm fn time flag \<Rightarrow> fst h = Dyn_Timer \<and> timer_made (nm, fn, time, flag) (snd h) s)"

subsection \<open>One kind does not disturb another\<close>

lemma any_keeps:
  assumes "spares n s s'" "any_here h s" "of_nat n \<notin> any_blocks h s"
  shows "any_here h s' \<and> any_blocks h s' = any_blocks h s"
proof -
  obtain c m where h: "h = (c, m)" by (cases h)
  show ?thesis using assms unfolding h
    by (cases c) (simp_all add: ipc_here_keeps pool_here_keeps timer_here_keeps)
qed

lemma any_apart: "apart own s s' \<Longrightarrow> any_here h s \<Longrightarrow> any_blocks h s \<subseteq> dom own \<Longrightarrow> any_here h s' \<and> any_blocks h s' = any_blocks h s"
  unfolding apart_def using any_keeps[of _ s s' h] by blast

text \<open>A kind of object that is known under the class \<open>c\<close>.\<close>

context dyn_frame
begin

lemma any_create_kind:
  assumes i: "dyn_inv d own s" and v: "valid q" and c: "\<And>s. any_create p s = tagged c (create q s)"
    and h: "\<And>n s. any_here (c, n) s = here n s" "\<And>n s. any_blocks (c, n) s = blocks n s" "\<And>n s. any_made p (c, n) s = made q n s"
  shows "\<exists>r s'. any_create p s = Some (r, s') \<and>
      (\<forall>h. any_here h s \<longrightarrow> any_blocks h s \<subseteq> dom own \<longrightarrow> any_here h s' \<and> any_blocks h s' = any_blocks h s) \<and>
      (case r of None \<Rightarrow> dyn_inv d own s'
       | Some h \<Rightarrow> any_here h s' \<and> any_made p h s' \<and> \<not> any_here h s \<and> (\<exists>own'. dyn_inv d own' s' \<and> own \<subseteq>\<^sub>m own' \<and>
            dom own' = dom own \<union> any_blocks h s' \<and> any_blocks h s' \<inter> dom own = {}))"
proof -
  obtain r s' where r: "create q s = Some (r, s')" "apart own s s'"
    "case r of None \<Rightarrow> dyn_inv d own s'
       | Some n \<Rightarrow> here n s' \<and> made q n s' \<and> \<not> here n s \<and> (\<exists>own'. dyn_inv d own' s' \<and> own \<subseteq>\<^sub>m own' \<and>
            dom own' = dom own \<union> blocks n s' \<and> blocks n s' \<inter> dom own = {})"
    using create_frame[OF i v] by blast
  have "any_create p s = Some (map_option (Pair c) r, s')" by (simp add: c r(1) tagged_def)
  moreover have "\<forall>h. any_here h s \<longrightarrow> any_blocks h s \<subseteq> dom own \<longrightarrow> any_here h s' \<and> any_blocks h s' = any_blocks h s"
    using any_apart[OF r(2)] by blast
  moreover have "case map_option (Pair c) r of None \<Rightarrow> dyn_inv d own s'
       | Some h \<Rightarrow> any_here h s' \<and> any_made p h s' \<and> \<not> any_here h s \<and> (\<exists>own'. dyn_inv d own' s' \<and> own \<subseteq>\<^sub>m own' \<and>
            dom own' = dom own \<union> any_blocks h s' \<and> any_blocks h s' \<inter> dom own = {})"
    using r(3) h by (cases r) (simp_all del: any_here.simps any_blocks.simps)
  ultimately show ?thesis by blast
qed

lemma any_delete_kind:
  assumes i: "dyn_inv d own s" and n: "any_here (c, n) s" "any_blocks (c, n) s \<subseteq> dom own"
    and c: "\<And>s. any_delete (c, n) s = delete n s"
    and h: "\<And>n s. any_here (c, n) s = here n s" "\<And>n s. any_blocks (c, n) s = blocks n s"
  shows "\<exists>s'. any_delete (c, n) s = Some (RT_EOK, s') \<and> dyn_inv d (own |` (- any_blocks (c, n) s)) s' \<and>
      (\<forall>h. h \<noteq> (c, n) \<longrightarrow> any_here h s \<longrightarrow> any_blocks h s \<inter> any_blocks (c, n) s = {} \<longrightarrow> any_here h s' \<and> any_blocks h s' = any_blocks h s)"
proof -
  obtain s' where s': "delete n s = Some (RT_EOK, s')" "dyn_inv d (own |` (- blocks n s)) s'" "spares n s s'"
    using delete_frame[OF i, of n] n unfolding h by blast
  have "of_nat n \<notin> any_blocks g s" if "any_blocks g s \<inter> any_blocks (c, n) s = {}" for g
    using that home[of n s] unfolding h by blast
  then show ?thesis using s' any_keeps[OF s'(3)] unfolding c h by blast
qed

end

interpretation any_dyn: dyn_kind any_create any_delete any_valid any_made any_here any_blocks
proof
  fix d own s p
  assume i: "dyn_inv d own s" and v: "any_valid p"
  show "\<exists>r s'. any_create p s = Some (r, s') \<and>
      (\<forall>h. any_here h s \<longrightarrow> any_blocks h s \<subseteq> dom own \<longrightarrow> any_here h s' \<and> any_blocks h s' = any_blocks h s) \<and>
      (case r of None \<Rightarrow> dyn_inv d own s'
       | Some h \<Rightarrow> any_here h s' \<and> any_made p h s' \<and> \<not> any_here h s \<and> (\<exists>own'. dyn_inv d own' s' \<and> own \<subseteq>\<^sub>m own' \<and>
            dom own' = dom own \<union> any_blocks h s' \<and> any_blocks h s' \<inter> dom own = {}))"
  proof (cases p)
    case (New_Sem nm w flag)
    then show ?thesis using v by (intro sem_dyn.any_create_kind[OF i, where q = "(nm, w, flag)" and c = Dyn_Sem]) (simp_all add: any_made_def)
  next
    case (New_Mutex nm flag)
    then show ?thesis using v by (intro mutex_dyn.any_create_kind[OF i, where q = "(nm, flag)" and c = Dyn_Mutex]) (simp_all add: any_made_def)
  next
    case (New_Event nm flag)
    then show ?thesis using v by (intro event_dyn.any_create_kind[OF i, where q = "(nm, flag)" and c = Dyn_Event]) (simp_all add: any_made_def)
  next
    case (New_Mb nm sz flag)
    then show ?thesis using v by (intro mb_dyn.any_create_kind[OF i, where q = "(nm, sz, flag)" and c = Dyn_Mb]) (simp_all add: any_made_def)
  next
    case (New_Mq nm msgsize maxmsgs flag)
    then show ?thesis using v
      by (intro mq_dyn.any_create_kind[OF i, where q = "(nm, msgsize, maxmsgs, flag)" and c = Dyn_Mq]) (simp_all add: any_made_def)
  next
    case (New_Mp nm cnt bs)
    then show ?thesis using v by (intro mp_dyn.any_create_kind[OF i, where q = "(nm, cnt, bs)" and c = Dyn_Mp]) (simp_all add: any_made_def)
  next
    case (New_Timer nm fn time flag)
    then show ?thesis using v
      by (intro timer_dyn.any_create_kind[OF i, where q = "(nm, fn, time, flag)" and c = Dyn_Timer]) (simp_all add: any_made_def)
  qed
next
  fix d own s h
  assume i: "dyn_inv d own s" and a: "any_here h s" "any_blocks h s \<subseteq> dom own"
  obtain c n where h: "h = (c, n)" by (cases h)
  show "\<exists>s'. any_delete h s = Some (RT_EOK, s') \<and> dyn_inv d (own |` (- any_blocks h s)) s' \<and>
      (\<forall>g. g \<noteq> h \<longrightarrow> any_here g s \<longrightarrow> any_blocks g s \<inter> any_blocks h s = {} \<longrightarrow> any_here g s' \<and> any_blocks g s' = any_blocks g s)"
  proof (cases c)
    case Dyn_Sem
    then show ?thesis using sem_dyn.any_delete_kind[OF i a[unfolded h]] h by simp
  next
    case Dyn_Mutex
    then show ?thesis using mutex_dyn.any_delete_kind[OF i a[unfolded h]] h by simp
  next
    case Dyn_Event
    then show ?thesis using event_dyn.any_delete_kind[OF i a[unfolded h]] h by simp
  next
    case Dyn_Mb
    then show ?thesis using mb_dyn.any_delete_kind[OF i a[unfolded h]] h by simp
  next
    case Dyn_Mq
    then show ?thesis using mq_dyn.any_delete_kind[OF i a[unfolded h]] h by simp
  next
    case Dyn_Mp
    then show ?thesis using mp_dyn.any_delete_kind[OF i a[unfolded h]] h by simp
  next
    case Dyn_Timer
    then show ?thesis using timer_dyn.any_delete_kind[OF i a[unfolded h]] h by simp
  qed
qed

text \<open>The owned memory after a run: what was owned at the start and the blocks of the live objects.\<close>

lemma any_run_owns:
  assumes "dyn_inv d own s" "list_all (op_valid any_valid) ops"
  shows "\<exists>L s' own'. dyn_run any_create any_delete ops ([], s) = Some (L, s') \<and> dyn_inv d own' s' \<and> own \<subseteq>\<^sub>m own' \<and> distinct L \<and>
    dom own' = dom own \<union> (\<Union>h \<in> set L. any_blocks h s') \<and> (\<forall>h \<in> set L. any_here h s' \<and> any_blocks h s' \<inter> dom own = {}) \<and>
    (\<forall>h \<in> set L. \<forall>g \<in> set L. h \<noteq> g \<longrightarrow> any_blocks h s' \<inter> any_blocks g s' = {}) \<and> (L = [] \<longrightarrow> own' = own)"
proof -
  obtain L s' where r: "dyn_run any_create any_delete ops ([], s) = Some (L, s')" "any_dyn.account d own L s'"
    using any_dyn.run_accounts[OF any_dyn.account_start[OF assms(1)] assms(2)] by blast
  then obtain own' where o: "dyn_inv d own' s'" "own \<subseteq>\<^sub>m own'" "dom own' = dom own \<union> (\<Union>h \<in> set L. any_blocks h s')"
    "\<forall>h \<in> set L. any_here h s' \<and> any_blocks h s' \<inter> dom own = {}" "distinct L"
    "\<forall>h \<in> set L. \<forall>g \<in> set L. h \<noteq> g \<longrightarrow> any_blocks h s' \<inter> any_blocks g s' = {}" unfolding any_dyn.account_def by blast
  have "own' = own" if "L = []" using o(2,3) that by (simp add: map_le_antisym map_le_def)
  then show ?thesis using r(1) o by blast
qed

end
