(* ===== verification/RT_Ringbuffer.thy ===== *)
theory RT_Ringbuffer
  imports RT_Fifo
begin

text \<open>
  The ring buffer of the device drivers (\<^verbatim>\<open>DeviceDrivers/ringbuffer.c\<close> and the inline functions of
  \<^verbatim>\<open>DeviceDrivers/include/rtdevice.h\<close>). The indices are bit fields of 15 bits and the mirrors
  of one bit; the size is a signed 16-bit number. Arithmetic on them is done in \<^verbatim>\<open>int\<close> and
  truncated by the assignment.
\<close>

subsection \<open>State\<close>

record rt_ringbuffer =
  buffer :: "u8 list"
  read_mirror :: "1 word"
  read_index :: "15 word"
  write_mirror :: "1 word"
  write_index :: "15 word"
  buffer_size :: u16

datatype rt_ringbuffer_state = RT_RINGBUFFER_EMPTY | RT_RINGBUFFER_FULL | RT_RINGBUFFER_HALFFULL

text \<open>\<^verbatim>\<open>memcpy\<close> into an array and out of one; a copy outside the array is undefined.\<close>

definition array_write :: "nat \<Rightarrow> u8 list \<Rightarrow> u8 list \<Rightarrow> u8 list option" where
  "array_write i bs xs =
    (if i + length bs \<le> length xs then Some (take i xs @ bs @ drop (i + length bs) xs) else None)"

definition array_read :: "nat \<Rightarrow> nat \<Rightarrow> u8 list \<Rightarrow> u8 list option" where
  "array_read i n xs = (if i + n \<le> length xs then Some (take n (drop i xs)) else None)"

subsection \<open>Operations\<close>

definition rt_ringbuffer_init :: "u8 list \<Rightarrow> u16 \<Rightarrow> rt_ringbuffer option" where
  "rt_ringbuffer_init pool sz = do {
     rt_assert (sint sz > 0);
     Some \<lparr>buffer = pool, read_mirror = 0, read_index = 0, write_mirror = 0, write_index = 0,
           buffer_size = sz AND NOT 3\<rparr>
   }"

definition rt_ringbuffer_get_size :: "rt_ringbuffer \<Rightarrow> u16" where
  "rt_ringbuffer_get_size rb = buffer_size rb"

definition rt_ringbuffer_status :: "rt_ringbuffer \<Rightarrow> rt_ringbuffer_state" where
  "rt_ringbuffer_status rb =
    (if read_index rb = write_index rb then
       if read_mirror rb = write_mirror rb then RT_RINGBUFFER_EMPTY else RT_RINGBUFFER_FULL
     else RT_RINGBUFFER_HALFFULL)"

definition rt_ringbuffer_data_len :: "rt_ringbuffer \<Rightarrow> u16" where
  "rt_ringbuffer_data_len rb =
    (case rt_ringbuffer_status rb of
       RT_RINGBUFFER_EMPTY \<Rightarrow> 0
     | RT_RINGBUFFER_FULL \<Rightarrow> buffer_size rb
     | RT_RINGBUFFER_HALFFULL \<Rightarrow>
         if write_index rb > read_index rb then word_of_int (uint (write_index rb) - uint (read_index rb))
         else word_of_int (sint (buffer_size rb) - (uint (read_index rb) - uint (write_index rb))))"

definition rt_ringbuffer_space_len :: "rt_ringbuffer \<Rightarrow> int" where
  "rt_ringbuffer_space_len rb = sint (buffer_size rb) - uint (rt_ringbuffer_data_len rb)"

text \<open>The results are the number of bytes and the new buffer.\<close>

definition rt_ringbuffer_put :: "rt_ringbuffer \<Rightarrow> u8 list \<Rightarrow> u16 \<Rightarrow> (u16 \<times> rt_ringbuffer) option" where
  "rt_ringbuffer_put rb ptr len = do {
     let sz = (word_of_int (rt_ringbuffer_space_len rb) :: u16);
     if sz = 0 then Some (0, rb)
     else do {
       let len = (if sz < len then sz else len);
       let rest = sint (buffer_size rb) - uint (write_index rb);
       if rest > uint len then do {
         bs \<leftarrow> array_read 0 (unat len) ptr;
         buf \<leftarrow> array_write (unat (write_index rb)) bs (buffer rb);
         Some (len, rb\<lparr>buffer := buf, write_index := word_of_int (uint (write_index rb) + uint len)\<rparr>)
       } else do {
         bs \<leftarrow> array_read 0 (nat rest) ptr;
         buf \<leftarrow> array_write (unat (write_index rb)) bs (buffer rb);
         bs \<leftarrow> array_read (nat rest) (nat (uint len - rest)) ptr;
         buf \<leftarrow> array_write 0 bs buf;
         Some (len, rb\<lparr>buffer := buf, write_mirror := NOT (write_mirror rb), write_index := word_of_int (uint len - rest)\<rparr>)
       }
     }
   }"

definition rt_ringbuffer_put_force :: "rt_ringbuffer \<Rightarrow> u8 list \<Rightarrow> u16 \<Rightarrow> (u16 \<times> rt_ringbuffer) option" where
  "rt_ringbuffer_put_force rb ptr len = do {
     let space_length = (word_of_int (rt_ringbuffer_space_len rb) :: u16);
     let len = (if len > space_length then buffer_size rb else len);
     let rest = sint (buffer_size rb) - uint (write_index rb);
     if rest > uint len then do {
       bs \<leftarrow> array_read 0 (unat len) ptr;
       buf \<leftarrow> array_write (unat (write_index rb)) bs (buffer rb);
       let rb = rb\<lparr>buffer := buf, write_index := word_of_int (uint (write_index rb) + uint len)\<rparr>;
       Some (len, if len > space_length then rb\<lparr>read_index := write_index rb\<rparr> else rb)
     } else do {
       bs \<leftarrow> array_read 0 (nat rest) ptr;
       buf \<leftarrow> array_write (unat (write_index rb)) bs (buffer rb);
       bs \<leftarrow> array_read (nat rest) (nat (uint len - rest)) ptr;
       buf \<leftarrow> array_write 0 bs buf;
       let rb = rb\<lparr>buffer := buf, write_mirror := NOT (write_mirror rb), write_index := word_of_int (uint len - rest)\<rparr>;
       Some (len, if len > space_length then rb\<lparr>read_mirror := NOT (read_mirror rb), read_index := write_index rb\<rparr> else rb)
     }
   }"

text \<open>The second result of the reading functions are the bytes stored through the pointer.\<close>

definition rt_ringbuffer_get :: "rt_ringbuffer \<Rightarrow> u16 \<Rightarrow> (u16 \<times> u8 list \<times> rt_ringbuffer) option" where
  "rt_ringbuffer_get rb len = do {
     let sz = rt_ringbuffer_data_len rb;
     if sz = 0 then Some (0, [], rb)
     else do {
       let len = (if sz < len then sz else len);
       let rest = sint (buffer_size rb) - uint (read_index rb);
       if rest > uint len then do {
         bs \<leftarrow> array_read (unat (read_index rb)) (unat len) (buffer rb);
         Some (len, bs, rb\<lparr>read_index := word_of_int (uint (read_index rb) + uint len)\<rparr>)
       } else do {
         bs1 \<leftarrow> array_read (unat (read_index rb)) (nat rest) (buffer rb);
         bs2 \<leftarrow> array_read 0 (nat (uint len - rest)) (buffer rb);
         Some (len, bs1 @ bs2, rb\<lparr>read_mirror := NOT (read_mirror rb), read_index := word_of_int (uint len - rest)\<rparr>)
       }
     }
   }"

definition rt_ringbuffer_putchar :: "rt_ringbuffer \<Rightarrow> u8 \<Rightarrow> (u16 \<times> rt_ringbuffer) option" where
  "rt_ringbuffer_putchar rb ch =
    (if rt_ringbuffer_space_len rb = 0 then Some (0, rb)
     else do {
       buf \<leftarrow> array_write (unat (write_index rb)) [ch] (buffer rb);
       let rb = rb\<lparr>buffer := buf\<rparr>;
       Some (1, if uint (write_index rb) = sint (buffer_size rb) - 1
                then rb\<lparr>write_mirror := NOT (write_mirror rb), write_index := 0\<rparr>
                else rb\<lparr>write_index := write_index rb + 1\<rparr>)
     })"

definition rt_ringbuffer_putchar_force :: "rt_ringbuffer \<Rightarrow> u8 \<Rightarrow> (u16 \<times> rt_ringbuffer) option" where
  "rt_ringbuffer_putchar_force rb ch = do {
     let old_state = rt_ringbuffer_status rb;
     buf \<leftarrow> array_write (unat (write_index rb)) [ch] (buffer rb);
     let rb = rb\<lparr>buffer := buf\<rparr>;
     Some (1, if uint (write_index rb) = sint (buffer_size rb) - 1
              then let rb = rb\<lparr>write_mirror := NOT (write_mirror rb), write_index := 0\<rparr>
                   in if old_state = RT_RINGBUFFER_FULL
                      then rb\<lparr>read_mirror := NOT (read_mirror rb), read_index := write_index rb\<rparr> else rb
              else let rb = rb\<lparr>write_index := write_index rb + 1\<rparr>
                   in if old_state = RT_RINGBUFFER_FULL then rb\<lparr>read_index := write_index rb\<rparr> else rb)
   }"

definition rt_ringbuffer_getchar :: "rt_ringbuffer \<Rightarrow> (u16 \<times> u8 list \<times> rt_ringbuffer) option" where
  "rt_ringbuffer_getchar rb =
    (if rt_ringbuffer_data_len rb = 0 then Some (0, [], rb)
     else do {
       bs \<leftarrow> array_read (unat (read_index rb)) 1 (buffer rb);
       Some (1, bs, if uint (read_index rb) = sint (buffer_size rb) - 1
                    then rb\<lparr>read_mirror := NOT (read_mirror rb), read_index := 0\<rparr>
                    else rb\<lparr>read_index := read_index rb + 1\<rparr>)
     })"

subsection \<open>Contents\<close>

abbreviation rb_cap :: "rt_ringbuffer \<Rightarrow> nat" where
  "rb_cap rb \<equiv> nat (sint (buffer_size rb))"

abbreviation rb_len :: "rt_ringbuffer \<Rightarrow> nat" where
  "rb_len rb \<equiv> unat (rt_ringbuffer_data_len rb)"

definition rb_contents :: "rt_ringbuffer \<Rightarrow> u8 list" where
  "rb_contents rb = circ (buffer rb) (unat (read_index rb)) (rb_cap rb) (rb_len rb)"

text \<open>
  The indices lie in the buffer, and in the same mirror the write index is not behind the read
  index, in different mirrors not ahead of it.
\<close>

definition rb_inv :: "rt_ringbuffer \<Rightarrow> bool" where
  "rb_inv rb \<longleftrightarrow> 0 < sint (buffer_size rb) \<and> rb_cap rb \<le> length (buffer rb) \<and>
     unat (read_index rb) < rb_cap rb \<and> unat (write_index rb) < rb_cap rb \<and>
     (if read_mirror rb = write_mirror rb then read_index rb \<le> write_index rb else write_index rb \<le> read_index rb)"

lemma mirror_eq: "(m :: 1 word) = m' \<longleftrightarrow> bit m 0 = bit m' 0"
  unfolding bit_eq_iff[of m m'] by (auto simp: less_Suc_eq dest: bit_imp_le_length)

lemma mirror_flip [simp]: "(NOT (m :: 1 word) = m') \<longleftrightarrow> m \<noteq> m'" "(m' = NOT (m :: 1 word)) \<longleftrightarrow> m' \<noteq> m"
  unfolding mirror_eq by (auto simp: bit_not_iff)

lemma sint16: "sint (w :: u16) < 32768" "- 32768 \<le> sint w"
  using sint_range_size[of w] by (simp_all add: word_size)

lemma unat_size: "sint (w :: u16) > 0 \<Longrightarrow> unat w = nat (sint w)"
  using sint16[of w] by (simp add: uint_sint unat_eq_nat_uint take_bit_int_eq_self)

lemma rb_len_eq:
  assumes "rb_inv rb"
  shows "rb_len rb = (if read_mirror rb = write_mirror rb then unat (write_index rb) - unat (read_index rb)
    else rb_cap rb - (unat (read_index rb) - unat (write_index rb)))"
proof -
  let ?r = "uint (read_index rb)" and ?w = "uint (write_index rb)" and ?n = "sint (buffer_size rb)"
  have b: "0 \<le> ?r" "?r < ?n" "0 \<le> ?w" "?w < ?n" "?n < 32768"
    using assms sint16(1)[of "buffer_size rb"] by (simp_all add: rb_inv_def zless_nat_eq_int_zless)
  have n: "unat (buffer_size rb) = rb_cap rb" using assms by (simp add: rb_inv_def unat_size)
  have u: "unat (word_of_int k :: u16) = nat k" if "0 \<le> k" "k < 32768" for k
    using that by (simp add: unat_eq_nat_uint uint_word_of_int)
  have i: "read_index rb = write_index rb \<longleftrightarrow> ?r = ?w" "read_index rb < write_index rb \<longleftrightarrow> ?r < ?w"
    "int (unat (read_index rb)) = ?r" "int (unat (write_index rb)) = ?w"
    by (rule word_uint_eq_iff, rule word_less_def, simp_all)
  have m: "if read_mirror rb = write_mirror rb then ?r \<le> ?w else ?w \<le> ?r"
    using assms by (simp add: rb_inv_def word_le_def split: if_splits)
  consider "?r = ?w" | "?r < ?w" | "?w < ?r" by linarith
  then show ?thesis
  proof cases
    case 1
    then have "read_index rb = write_index rb" using i(1) by blast
    then show ?thesis using n by (simp add: rt_ringbuffer_data_len_def rt_ringbuffer_status_def)
  next
    case 2
    then have "read_index rb \<noteq> write_index rb" "read_index rb < write_index rb" using i(1,2) by linarith+
    then have "rb_len rb = nat (?w - ?r)"
      using u[of "?w - ?r"] b 2 by (simp add: rt_ringbuffer_data_len_def rt_ringbuffer_status_def)
    moreover have "nat (?w - ?r) = unat (write_index rb) - unat (read_index rb)" using i(3,4) b 2 by linarith
    ultimately show ?thesis using 2 m by (simp split: if_splits)
  next
    case 3
    then have "read_index rb \<noteq> write_index rb" "\<not> read_index rb < write_index rb" using i(1,2) by linarith+
    then have "rb_len rb = nat (?n - (?r - ?w))"
      using u[of "?n - (?r - ?w)"] b 3 by (simp add: rt_ringbuffer_data_len_def rt_ringbuffer_status_def)
    moreover have "nat (?n - (?r - ?w)) = rb_cap rb - (unat (read_index rb) - unat (write_index rb))"
      using i(3,4) b 3 by linarith
    ultimately show ?thesis using 3 m by (simp split: if_splits)
  qed
qed

lemma rb_invD:
  assumes "rb_inv rb"
  shows "rb_len rb \<le> rb_cap rb" "unat (write_index rb) = (unat (read_index rb) + rb_len rb) mod rb_cap rb"
    "read_mirror rb = write_mirror rb \<longleftrightarrow> unat (read_index rb) + rb_len rb < rb_cap rb"
    "0 < rb_cap rb" "rb_cap rb < 32768" "rb_cap rb \<le> length (buffer rb)" "unat (read_index rb) < rb_cap rb"
    "unat (write_index rb) < rb_cap rb" "sint (buffer_size rb) = int (rb_cap rb)"
proof -
  have m: "if read_mirror rb = write_mirror rb then unat (read_index rb) \<le> unat (write_index rb)
      else unat (write_index rb) \<le> unat (read_index rb)"
    using assms by (simp add: rb_inv_def word_le_nat_alt split: if_splits)
  show i: "unat (read_index rb) < rb_cap rb" "unat (write_index rb) < rb_cap rb" "0 < rb_cap rb"
    "rb_cap rb \<le> length (buffer rb)" "sint (buffer_size rb) = int (rb_cap rb)"
    using assms by (auto simp: rb_inv_def)
  show "rb_cap rb < 32768" using sint16(1)[of "buffer_size rb"] by linarith
  show "rb_len rb \<le> rb_cap rb" "read_mirror rb = write_mirror rb \<longleftrightarrow> unat (read_index rb) + rb_len rb < rb_cap rb"
    using i m unfolding rb_len_eq[OF assms] by (auto split: if_splits)
  show "unat (write_index rb) = (unat (read_index rb) + rb_len rb) mod rb_cap rb"
    using i m mod_wrap[OF i(1), of "rb_len rb"] unfolding rb_len_eq[OF assms] by (auto split: if_splits)
qed

lemma rb_invI:
  assumes "0 < sint (buffer_size rb)" "rb_cap rb \<le> length (buffer rb)" "unat (read_index rb) < rb_cap rb" "e \<le> rb_cap rb"
    and w: "unat (write_index rb) = (unat (read_index rb) + e) mod rb_cap rb"
    and m: "read_mirror rb = write_mirror rb \<longleftrightarrow> unat (read_index rb) + e < rb_cap rb"
  shows "rb_inv rb \<and> rb_len rb = e"
proof -
  have w': "unat (write_index rb) =
      (if unat (read_index rb) + e < rb_cap rb then unat (read_index rb) + e else unat (read_index rb) + e - rb_cap rb)"
    using w mod_wrap[OF assms(3,4)] by simp
  then have i: "rb_inv rb"
    using assms(1-4) m unfolding rb_inv_def word_le_nat_alt by (auto split: if_splits)
  have "rb_len rb = e"
    unfolding rb_len_eq[OF i] using assms(1-4) m w' by (auto split: if_splits)
  with i show ?thesis by simp
qed

lemma rb_space: "rb_inv rb \<Longrightarrow> rt_ringbuffer_space_len rb = int (rb_cap rb - rb_len rb)"
  using rb_invD(1,9)[of rb] by (simp add: rt_ringbuffer_space_len_def of_nat_diff)

lemma rb_space_zero: "rb_inv rb \<Longrightarrow> rt_ringbuffer_space_len rb = 0 \<longleftrightarrow> \<not> rb_len rb < rb_cap rb"
  by (simp only: rb_space of_nat_eq_0_iff diff_is_0_eq not_less)

lemma rb_full_status:
  assumes "rb_inv rb"
  shows "rt_ringbuffer_status rb = RT_RINGBUFFER_FULL \<longleftrightarrow> \<not> rb_len rb < rb_cap rb"
proof -
  note D = rb_invD[OF assms]
  have "unat (read_index rb) = unat (write_index rb) \<and> read_mirror rb \<noteq> write_mirror rb \<longleftrightarrow> \<not> rb_len rb < rb_cap rb"
    using D(2,3) mod_wrap[OF D(7,1)] D(1,7) by auto
  then show ?thesis by (auto simp: rt_ringbuffer_status_def word_unat_eq_iff)
qed

lemma length_rb_contents [simp]: "length (rb_contents rb) = rb_len rb"
  by (simp add: rb_contents_def)

lemma array_write_nth:
  "array_write i bs xs = Some ys \<Longrightarrow> j < length xs \<Longrightarrow> ys ! j = (if i \<le> j \<and> j < i + length bs then bs ! (j - i) else xs ! j)"
  by (auto simp: array_write_def nth_append min_def split: if_splits)

lemma array_write_length: "array_write i bs xs = Some ys \<Longrightarrow> length ys = length xs"
  by (auto simp: array_write_def split: if_splits)

subsection \<open>Writing\<close>

text \<open>
  The copies at the end of the two writing functions, and the same step over natural numbers:
  the write index moves by the length, and its mirror flips when it passes the end.
\<close>

definition rb_write :: "u16 \<Rightarrow> u8 list \<Rightarrow> rt_ringbuffer \<Rightarrow> rt_ringbuffer option" where
  "rb_write len ptr rb =
    (let rest = sint (buffer_size rb) - uint (write_index rb) in
     if rest > uint len then do {
       bs \<leftarrow> array_read 0 (unat len) ptr;
       buf \<leftarrow> array_write (unat (write_index rb)) bs (buffer rb);
       Some (rb\<lparr>buffer := buf, write_index := word_of_int (uint (write_index rb) + uint len)\<rparr>)
     } else do {
       bs \<leftarrow> array_read 0 (nat rest) ptr;
       buf \<leftarrow> array_write (unat (write_index rb)) bs (buffer rb);
       bs \<leftarrow> array_read (nat rest) (nat (uint len - rest)) ptr;
       buf \<leftarrow> array_write 0 bs buf;
       Some (rb\<lparr>buffer := buf, write_mirror := NOT (write_mirror rb), write_index := word_of_int (uint len - rest)\<rparr>)
     })"

definition rb_append :: "u8 list \<Rightarrow> rt_ringbuffer \<Rightarrow> rt_ringbuffer option" where
  "rb_append bs rb =
    (let w = unat (write_index rb); n = rb_cap rb in
     if w + length bs < n then do {
       buf \<leftarrow> array_write w bs (buffer rb);
       Some (rb\<lparr>buffer := buf, write_index := of_nat (w + length bs)\<rparr>)
     } else do {
       buf \<leftarrow> array_write w (take (n - w) bs) (buffer rb);
       buf \<leftarrow> array_write 0 (drop (n - w) bs) buf;
       Some (rb\<lparr>buffer := buf, write_mirror := NOT (write_mirror rb), write_index := of_nat (w + length bs - n)\<rparr>)
     })"

lemma array_read_split:
  "k \<le> length xs \<Longrightarrow> a \<le> k \<Longrightarrow> array_read 0 a xs = Some (take a (take k xs))"
  "k \<le> length xs \<Longrightarrow> a \<le> k \<Longrightarrow> array_read a (k - a) xs = Some (drop a (take k xs))"
  by (simp_all add: array_read_def min_def drop_take)

lemma rb_write_append:
  assumes inv: "rb_inv rb" and ptr: "unat len \<le> length ptr"
  shows "rb_write len ptr rb = rb_append (take (unat len) ptr) rb"
proof -
  note D = rb_invD[OF inv]
  let ?n = "rb_cap rb" and ?w = "unat (write_index rb)" and ?k = "unat len"
  let ?rest = "sint (buffer_size rb) - uint (write_index rb)"
  have u: "uint len = int ?k" "uint (write_index rb) = int ?w" by simp_all
  have rest: "?rest = int (?n - ?w)" using D(8,9) u(2) by linarith
  have l: "length (take ?k ptr) = ?k" using ptr by simp
  show ?thesis
  proof (cases "?w + ?k < ?n")
    case True
    then have c: "?rest > uint len" unfolding rest u by linarith
    have "uint (write_index rb) + uint len = int (?w + ?k)" by simp
    then have i: "(word_of_int (uint (write_index rb) + uint len) :: 15 word) = of_nat (?w + ?k)"
      by (simp only: of_int_of_nat_eq)
    have "array_read 0 ?k ptr = Some (take ?k ptr)" using ptr by (simp add: array_read_def)
    then show ?thesis unfolding rb_write_def rb_append_def Let_def l i using True c by simp
  next
    case False
    then have c: "\<not> ?rest > uint len" unfolding rest u by linarith
    have d: "uint len - ?rest = int (?w + ?k - ?n)" unfolding rest u using False D(8) by linarith
    have a: "nat ?rest = ?n - ?w" "nat (uint len - ?rest) = ?k - (?n - ?w)" "?n - ?w \<le> ?k"
      using rest d False D(8) by linarith+
    note r = array_read_split[OF ptr a(3)]
    show ?thesis
      unfolding rb_write_def rb_append_def Let_def l a(1,2) unfolding r d of_int_of_nat_eq
      using False c by (simp only: if_False bind.bind_lunit)
  qed
qed

lemma unat15: "k < 32768 \<Longrightarrow> unat (of_nat k :: 15 word) = k"
  by (simp add: unat_of_nat)

lemma rb_append_ok:
  assumes inv: "rb_inv rb" and fit: "length bs + rb_len rb \<le> rb_cap rb"
  shows "\<exists>rb'. rb_append bs rb = Some rb' \<and> rb_inv rb' \<and> rb_contents rb' = rb_contents rb @ bs \<and>
    buffer_size rb' = buffer_size rb"
proof -
  note D = rb_invD[OF inv]
  let ?n = "rb_cap rb" and ?r = "unat (read_index rb)" and ?w = "unat (write_index rb)" and ?e = "rb_len rb"
  have sz: "0 < sint (buffer_size rb)" using D(4) by simp
  have pos: "(?r + ?e + k) mod ?n = (if ?w + k < ?n then ?w + k else ?w + k - ?n)" if "k < ?n" for k
  proof -
    have "(?r + ?e + k) mod ?n = (?w + k) mod ?n" unfolding D(2) by (simp add: mod_simps)
    then show ?thesis using mod_wrap[OF D(8), of k] that by simp
  qed
  show ?thesis
  proof (cases "?w + length bs < ?n")
    case True
    then obtain buf where buf: "array_write ?w bs (buffer rb) = Some buf" using D(6) by (simp add: array_write_def)
    let ?rb = "rb\<lparr>buffer := buf, write_index := of_nat (?w + length bs)\<rparr>"
    have w': "unat (write_index ?rb) = ?w + length bs" using unat15[of "?w + length bs"] True D(5) by (simp del: of_nat_add)
    have "rb_inv ?rb \<and> rb_len ?rb = ?e + length bs"
    proof (rule rb_invI)
      show "unat (write_index ?rb) = (unat (read_index ?rb) + (?e + length bs)) mod rb_cap ?rb"
        using w' True pos[of "length bs"] by (simp add: add.assoc)
      show "read_mirror ?rb = write_mirror ?rb \<longleftrightarrow> unat (read_index ?rb) + (?e + length bs) < rb_cap ?rb"
        using D(2,3) mod_wrap[OF D(7,1)] True fit by (auto split: if_splits)
    qed (use D sz fit array_write_length[OF buf] in auto)
    moreover have "circ buf ?r ?n (?e + length bs) = circ (buffer rb) ?r ?n ?e @ bs"
    proof (rule circ_append)
      show "buf ! ((?r + ?e + k) mod ?n) = bs ! k" if "k < length bs" for k
        using array_write_nth[OF buf, of "?w + k"] True that pos[of k] D(6) by simp
      show "buf ! j = buffer rb ! j" if j: "j < ?n" "\<And>k. k < length bs \<Longrightarrow> j \<noteq> (?r + ?e + k) mod ?n" for j
      proof -
        have "\<not> (?w \<le> j \<and> j < ?w + length bs)"
        proof
          assume a: "?w \<le> j \<and> j < ?w + length bs"
          then have "j - ?w < length bs" "?w + (j - ?w) = j" by linarith+
          then show False using j(2)[of "j - ?w"] pos[of "j - ?w"] True j(1) by simp
        qed
        then show ?thesis using array_write_nth[OF buf, of j] j(1) D(6) by auto
      qed
    qed (use fit in simp)
    ultimately show ?thesis
      using True buf by (auto simp: rb_append_def Let_def rb_contents_def)
  next
    case False
    obtain b1 where b1: "array_write ?w (take (?n - ?w) bs) (buffer rb) = Some b1" using D(6,8) False by (simp add: array_write_def)
    have l1: "length b1 = length (buffer rb)" using b1 by (rule array_write_length)
    have "length bs - (?n - ?w) \<le> length b1" using D(6) fit l1 by linarith
    then obtain buf where buf: "array_write 0 (drop (?n - ?w) bs) b1 = Some buf" by (simp add: array_write_def del: diff_diff_right)
    have nth: "buf ! j = (if j < ?w + length bs - ?n then bs ! (?n - ?w + j) else if ?w \<le> j \<and> j < ?n then bs ! (j - ?w) else buffer rb ! j)"
      if "j < ?n" for j
      using array_write_nth[OF buf, of j] array_write_nth[OF b1, of j] that D(6,8) l1 False
        nth_take[of "j - ?w" "?n - ?w" bs] diff_less_mono[OF that, of ?w] by (auto simp: min_def)
    define w1 where "w1 = ?w + length bs - ?n"
    let ?rb = "rb\<lparr>buffer := buf, write_mirror := NOT (write_mirror rb), write_index := of_nat w1\<rparr>"
    have "w1 < 32768" using fit D(5,8) unfolding w1_def by linarith
    then have "unat (write_index ?rb) = w1" by (simp add: unat15)
    then have w': "unat (write_index ?rb) = ?w + length bs - ?n" unfolding w1_def .
    have wl: "?w + length bs - ?n \<le> ?w" using fit by linarith
    have e: "?r + ?e < ?n" using D(2) mod_wrap[OF D(7,1)] D(7) False fit by (auto split: if_splits)
    then have w: "?w = ?r + ?e" using D(2) by simp
    have "rb_inv ?rb \<and> rb_len ?rb = ?e + length bs"
    proof (rule rb_invI)
      show "unat (write_index ?rb) = (unat (read_index ?rb) + (?e + length bs)) mod rb_cap ?rb"
        using w' w False fit mod_wrap[OF D(7), of "?e + length bs"] by (simp add: add.assoc)
      show "read_mirror ?rb = write_mirror ?rb \<longleftrightarrow> unat (read_index ?rb) + (?e + length bs) < rb_cap ?rb"
        using D(3) e w False by simp
    qed (use D sz fit l1 array_write_length[OF buf] in auto)
    moreover have "circ buf ?r ?n (?e + length bs) = circ (buffer rb) ?r ?n ?e @ bs"
    proof (rule circ_append)
      show "buf ! ((?r + ?e + k) mod ?n) = bs ! k" if "k < length bs" for k
      proof (cases "?w + k < ?n")
        case True
        then show ?thesis using nth[of "?w + k"] that pos[of k] fit wl by auto
      next
        case False
        then have "?w + k - ?n < ?w + length bs - ?n" "?n - ?w + (?w + k - ?n) = k" "?w + k - ?n < ?n"
          using that fit D(8) by linarith+
        then show ?thesis using nth[of "?w + k - ?n"] that pos[of k] fit False by simp
      qed
      show "buf ! j = buffer rb ! j" if j: "j < ?n" "\<And>k. k < length bs \<Longrightarrow> j \<noteq> (?r + ?e + k) mod ?n" for j
      proof -
        have "\<not> ?w \<le> j"
        proof
          assume "?w \<le> j"
          then have "j - ?w < length bs" "?w + (j - ?w) = j" using False j(1) by linarith+
          then show False using j(2)[of "j - ?w"] pos[of "j - ?w"] j(1) by simp
        qed
        moreover have "\<not> j < ?w + length bs - ?n"
        proof
          assume a: "j < ?w + length bs - ?n"
          define k where "k = j + ?n - ?w"
          have "k < length bs" "?w + k = j + ?n" using a D(8) unfolding k_def by linarith+
          then show False using j(2)[of k] pos[of k] fit by simp
        qed
        ultimately show ?thesis using nth[OF j(1)] by simp
      qed
    qed (use fit in simp)
    ultimately show ?thesis
      using False b1 buf unfolding rb_append_def Let_def w1_def[symmetric] by (simp add: rb_contents_def)
  qed
qed

text \<open>\<^verbatim>\<open>rt_ringbuffer_put\<close> writes what fits.\<close>

lemma rb_space_word:
  assumes "rb_inv rb"
  shows "unat (word_of_int (rt_ringbuffer_space_len rb) :: u16) = rb_cap rb - rb_len rb"
  using rb_invD(5)[OF assms] by (simp add: rb_space[OF assms] unat_of_nat)

lemma rt_ringbuffer_put_write:
  "rt_ringbuffer_put rb ptr len =
    (let sp = word_of_int (rt_ringbuffer_space_len rb) :: u16; k = (if sp < len then sp else len)
     in if sp = 0 then Some (0, rb) else map_option (Pair k) (rb_write k ptr rb))"
  unfolding rt_ringbuffer_put_def rb_write_def Let_def
  by (auto simp: map_option_bind o_def)

lemma rt_ringbuffer_put_ok:
  assumes inv: "rb_inv rb" and ptr: "unat len \<le> length ptr"
  shows "\<exists>rb' k. rt_ringbuffer_put rb ptr len = Some (k, rb') \<and> rb_inv rb' \<and> buffer_size rb' = buffer_size rb \<and>
    unat k = min (unat len) (rb_cap rb - rb_len rb) \<and> rb_contents rb' = rb_contents rb @ take (unat k) ptr"
proof -
  let ?sp = "word_of_int (rt_ringbuffer_space_len rb) :: u16"
  let ?k = "if ?sp < len then ?sp else len"
  have k: "unat ?k = min (unat len) (rb_cap rb - rb_len rb)"
    using rb_space_word[OF inv] by (simp add: word_less_nat_alt min_def)
  have "length (take (unat ?k) ptr) + rb_len rb \<le> rb_cap rb" using k rb_invD(1)[OF inv] by simp
  from rb_append_ok[OF inv this] obtain rb' where
    rb': "rb_append (take (unat ?k) ptr) rb = Some rb'" "rb_inv rb'" "rb_contents rb' = rb_contents rb @ take (unat ?k) ptr"
      "buffer_size rb' = buffer_size rb" by blast
  show ?thesis
  proof (cases "?sp = 0")
    case True
    then have "rb_cap rb - rb_len rb = 0" using rb_space_word[OF inv] by simp
    then show ?thesis using inv True by (simp add: rt_ringbuffer_put_def)
  next
    case False
    have "rb_write ?k ptr rb = Some rb'" using rb_write_append[OF inv, of ?k ptr] ptr k rb'(1) by simp
    then have "rt_ringbuffer_put rb ptr len = Some (?k, rb')"
      using False by (simp add: rt_ringbuffer_put_write)
    with rb' k show ?thesis by blast
  qed
qed

subsection \<open>Reading\<close>

definition rb_read :: "u16 \<Rightarrow> rt_ringbuffer \<Rightarrow> (u8 list \<times> rt_ringbuffer) option" where
  "rb_read len rb =
    (let rest = sint (buffer_size rb) - uint (read_index rb) in
     if rest > uint len then do {
       bs \<leftarrow> array_read (unat (read_index rb)) (unat len) (buffer rb);
       Some (bs, rb\<lparr>read_index := word_of_int (uint (read_index rb) + uint len)\<rparr>)
     } else do {
       bs1 \<leftarrow> array_read (unat (read_index rb)) (nat rest) (buffer rb);
       bs2 \<leftarrow> array_read 0 (nat (uint len - rest)) (buffer rb);
       Some (bs1 @ bs2, rb\<lparr>read_mirror := NOT (read_mirror rb), read_index := word_of_int (uint len - rest)\<rparr>)
     })"

definition rb_drop :: "nat \<Rightarrow> rt_ringbuffer \<Rightarrow> rt_ringbuffer" where
  "rb_drop k rb =
    (let r = unat (read_index rb); n = rb_cap rb in
     if r + k < n then rb\<lparr>read_index := of_nat (r + k)\<rparr>
     else rb\<lparr>read_mirror := NOT (read_mirror rb), read_index := of_nat (r + k - n)\<rparr>)"

lemma rb_drop_ok:
  assumes inv: "rb_inv rb" and k: "k \<le> rb_len rb"
  shows "rb_inv (rb_drop k rb)" "rb_contents (rb_drop k rb) = drop k (rb_contents rb)"
    "buffer_size (rb_drop k rb) = buffer_size rb"
proof -
  note D = rb_invD[OF inv]
  let ?n = "rb_cap rb" and ?r = "unat (read_index rb)" and ?e = "rb_len rb"
  define r1 where "r1 = (if ?r + k < ?n then ?r + k else ?r + k - ?n)"
  define m1 where "m1 = (if ?r + k < ?n then read_mirror rb else NOT (read_mirror rb))"
  let ?rb = "rb\<lparr>read_mirror := m1, read_index := of_nat r1\<rparr>"
  have eq: "rb_drop k rb = ?rb" by (simp add: rb_drop_def r1_def m1_def Let_def)
  have kn: "k \<le> ?n" using k D(1) by simp
  have r1: "r1 = (?r + k) mod ?n" using mod_wrap[OF D(7) kn] by (simp add: r1_def)
  moreover have r1n: "r1 < ?n" unfolding r1 using D(4) by (rule mod_less_divisor)
  ultimately have u: "unat (read_index ?rb) = r1" using D(5) by (simp add: unat15)
  have sz: "0 < sint (buffer_size rb)" using D(4) by simp
  have I: "rb_inv ?rb \<and> rb_len ?rb = ?e - k"
  proof (rule rb_invI)
    have "(r1 + (?e - k)) mod ?n = (?r + k + (?e - k)) mod ?n" unfolding r1 by (rule mod_add_left_eq)
    also have "?r + k + (?e - k) = ?r + ?e" using k by simp
    finally have "(r1 + (?e - k)) mod ?n = (?r + ?e) mod ?n" .
    then show "unat (write_index ?rb) = (unat (read_index ?rb) + (?e - k)) mod rb_cap ?rb"
      unfolding u using D(2) by simp
    show "read_mirror ?rb = write_mirror ?rb \<longleftrightarrow> unat (read_index ?rb) + (?e - k) < rb_cap ?rb"
      unfolding u using D(1,3,7) k by (auto simp: r1_def m1_def)
    show "unat (read_index ?rb) < rb_cap ?rb" unfolding u using r1n by simp
  qed (use D sz in auto)
  then show "rb_inv (rb_drop k rb)" unfolding eq by blast
  show "rb_contents (rb_drop k rb) = drop k (rb_contents rb)"
    unfolding eq rb_contents_def u using I circ_take_drop(2)[OF k, of "buffer rb" ?r ?n] by (simp add: r1)
  show "buffer_size (rb_drop k rb) = buffer_size rb" unfolding eq by simp
qed

lemma rb_read_drop:
  assumes inv: "rb_inv rb" and k: "unat len \<le> rb_len rb"
  shows "rb_read len rb = Some (take (unat len) (rb_contents rb), rb_drop (unat len) rb)"
proof -
  note D = rb_invD[OF inv]
  let ?n = "rb_cap rb" and ?r = "unat (read_index rb)" and ?k = "unat len"
  let ?rest = "sint (buffer_size rb) - uint (read_index rb)"
  have u: "uint len = int ?k" "uint (read_index rb) = int ?r" by simp_all
  have rest: "?rest = int (?n - ?r)" using D(7,9) u(2) by linarith
  have t: "take ?k (rb_contents rb) = circ (buffer rb) ?r ?n ?k"
    unfolding rb_contents_def by (rule circ_take_drop(1)[OF k])
  show ?thesis
  proof (cases "?r + ?k < ?n")
    case True
    then have c: "?rest > uint len" unfolding rest u by linarith
    have "uint (read_index rb) + uint len = int (?r + ?k)" by simp
    then have i: "(word_of_int (uint (read_index rb) + uint len) :: 15 word) = of_nat (?r + ?k)"
      by (simp only: of_int_of_nat_eq)
    have "array_read ?r ?k (buffer rb) = Some (take ?k (rb_contents rb))"
      unfolding t using True D(6,7) by (simp add: array_read_def circ_slice)
    then show ?thesis unfolding rb_read_def rb_drop_def Let_def i using True c by simp
  next
    case False
    then have c: "\<not> ?rest > uint len" unfolding rest u by linarith
    have d: "uint len - ?rest = int (?r + ?k - ?n)" unfolding rest u using False D(7) by linarith
    have a: "nat ?rest = ?n - ?r" "nat (uint len - ?rest) = ?k - (?n - ?r)" using rest d False D(7) by linarith+
    have r: "array_read ?r (?n - ?r) (buffer rb) = Some (take (?n - ?r) (drop ?r (buffer rb)))"
      "array_read 0 (?k - (?n - ?r)) (buffer rb) = Some (take (?k - (?n - ?r)) (buffer rb))"
      unfolding array_read_def using D(1,6,7) k by (simp_all del: diff_diff_right)
    have "take ?k (rb_contents rb) = take (?n - ?r) (drop ?r (buffer rb)) @ take (?k - (?n - ?r)) (buffer rb)"
      unfolding t by (rule circ_wrap) (use D False k in auto)
    then show ?thesis
      unfolding rb_read_def rb_drop_def Let_def a unfolding r d of_int_of_nat_eq
      using False c by (simp only: if_False bind.bind_lunit)
  qed
qed

lemma rt_ringbuffer_get_read:
  "rt_ringbuffer_get rb len =
    (let sz = rt_ringbuffer_data_len rb; k = (if sz < len then sz else len)
     in if sz = 0 then Some (0, [], rb) else map_option (Pair k) (rb_read k rb))"
  unfolding rt_ringbuffer_get_def rb_read_def Let_def
  by (auto simp: map_option_bind o_def)

lemma rt_ringbuffer_get_ok:
  assumes inv: "rb_inv rb"
  shows "\<exists>rb' k bs. rt_ringbuffer_get rb len = Some (k, bs, rb') \<and> rb_inv rb' \<and> buffer_size rb' = buffer_size rb \<and>
    unat k = min (unat len) (rb_len rb) \<and> bs = take (unat k) (rb_contents rb) \<and>
    rb_contents rb' = drop (unat k) (rb_contents rb)"
proof (cases "rt_ringbuffer_data_len rb = 0")
  case True
  then show ?thesis using inv by (auto simp: rt_ringbuffer_get_def rb_contents_def)
next
  case False
  let ?k = "if rt_ringbuffer_data_len rb < len then rt_ringbuffer_data_len rb else len"
  have k: "unat ?k = min (unat len) (rb_len rb)" by (simp add: word_less_nat_alt min_def)
  then have "unat ?k \<le> rb_len rb" by simp
  from rb_read_drop[OF inv this] rb_drop_ok[OF inv this] k False show ?thesis
    by (intro exI[of _ "rb_drop (unat ?k) rb"] exI[of _ ?k]) (simp add: rt_ringbuffer_get_read Let_def)
qed

subsection \<open>Single characters\<close>

lemma array_write_Nil [simp]: "array_write 0 [] xs = Some xs"
  by (simp add: array_write_def)

lemma last_index:
  assumes "rb_inv rb" "w = write_index rb \<or> w = read_index rb"
  shows "uint w = sint (buffer_size rb) - 1 \<longleftrightarrow> \<not> unat w + 1 < rb_cap rb" "unat w < rb_cap rb"
proof -
  note D = rb_invD[OF assms(1)]
  show "unat w < rb_cap rb" using assms(2) D(7,8) by auto
  moreover have "uint w = int (unat w)" by simp
  ultimately show "uint w = sint (buffer_size rb) - 1 \<longleftrightarrow> \<not> unat w + 1 < rb_cap rb" using D(9) by linarith
qed

lemma rb_append_single:
  assumes "rb_inv rb"
  shows "rb_append [ch] rb = do {
     buf \<leftarrow> array_write (unat (write_index rb)) [ch] (buffer rb);
     let rb = rb\<lparr>buffer := buf\<rparr>;
     Some (if uint (write_index rb) = sint (buffer_size rb) - 1
           then rb\<lparr>write_mirror := NOT (write_mirror rb), write_index := 0\<rparr>
           else rb\<lparr>write_index := write_index rb + 1\<rparr>)
   }"
proof -
  note L = last_index[OF assms disjI1[OF refl]]
  have "rb_cap rb - unat (write_index rb) = 1" "unat (write_index rb) + 1 - rb_cap rb = 0"
    if "\<not> unat (write_index rb) + 1 < rb_cap rb" using that L(2) by linarith+
  then show ?thesis
    unfolding rb_append_def Let_def rt_ringbuffer.simps using L(1)
    by (cases "unat (write_index rb) + 1 < rb_cap rb") (auto simp: add.commute)
qed

lemma rt_ringbuffer_putchar_ok:
  assumes inv: "rb_inv rb"
  shows "if rb_len rb < rb_cap rb
    then \<exists>rb'. rt_ringbuffer_putchar rb ch = Some (1, rb') \<and> rb_inv rb' \<and> rb_contents rb' = rb_contents rb @ [ch] \<and>
      buffer_size rb' = buffer_size rb
    else rt_ringbuffer_putchar rb ch = Some (0, rb)"
proof (cases "rb_len rb < rb_cap rb")
  case True
  have "rt_ringbuffer_putchar rb ch = map_option (Pair 1) (rb_append [ch] rb)"
    using True rb_space_zero[OF inv]
    by (simp add: rt_ringbuffer_putchar_def rb_append_single[OF inv] map_option_bind o_def Let_def)
  with rb_append_ok[OF inv, of "[ch]"] True show ?thesis by auto
next
  case False
  then show ?thesis using rb_space_zero[OF inv] by (simp add: rt_ringbuffer_putchar_def)
qed

lemma rb_drop_single:
  assumes "rb_inv rb"
  shows "rb_drop 1 rb = (if uint (read_index rb) = sint (buffer_size rb) - 1
      then rb\<lparr>read_mirror := NOT (read_mirror rb), read_index := 0\<rparr> else rb\<lparr>read_index := read_index rb + 1\<rparr>)"
proof -
  note L = last_index[OF assms disjI2[OF refl]]
  have "unat (read_index rb) + 1 - rb_cap rb = 0" if "\<not> unat (read_index rb) + 1 < rb_cap rb" using that L(2) by linarith
  then show ?thesis
    unfolding rb_drop_def Let_def using L(1) by (auto simp: add.commute)
qed

lemma rt_ringbuffer_getchar_ok:
  assumes inv: "rb_inv rb"
  shows "case rb_contents rb of
      [] \<Rightarrow> rt_ringbuffer_getchar rb = Some (0, [], rb)
    | c # cs \<Rightarrow> \<exists>rb'. rt_ringbuffer_getchar rb = Some (1, [c], rb') \<and> rb_inv rb' \<and> rb_contents rb' = cs \<and>
        buffer_size rb' = buffer_size rb"
proof (cases "rb_contents rb")
  case Nil
  then have "rb_len rb = 0" by (metis length_rb_contents list.size(3))
  then show ?thesis using Nil by (simp add: rt_ringbuffer_getchar_def unat_eq_zero)
next
  case (Cons c cs)
  then have e: "1 \<le> rb_len rb" by (metis One_nat_def Suc_le_mono le0 length_Cons length_rb_contents)
  note D = rb_invD[OF inv] and dr = rb_drop_ok[OF inv e]
  have "array_read (unat (read_index rb)) 1 (buffer rb) = Some (circ (buffer rb) (unat (read_index rb)) (rb_cap rb) 1)"
    using D(6,7) circ_slice[of "unat (read_index rb)" 1 "rb_cap rb" "buffer rb"] by (simp add: array_read_def)
  moreover have "circ (buffer rb) (unat (read_index rb)) (rb_cap rb) 1 = [c]"
    using circ_take_drop(1)[OF e, of "buffer rb" "unat (read_index rb)" "rb_cap rb"] Cons by (simp add: rb_contents_def)
  moreover have "rt_ringbuffer_data_len rb \<noteq> 0" using e by auto
  ultimately have "rt_ringbuffer_getchar rb = Some (1, [c], rb_drop 1 rb)"
    by (simp add: rt_ringbuffer_getchar_def rb_drop_single[OF inv, unfolded One_nat_def])
  then show ?thesis using dr Cons by simp
qed

text \<open>A forced write into a full buffer discards the oldest character.\<close>

lemma rt_ringbuffer_putchar_force_ok:
  assumes inv: "rb_inv rb"
  shows "\<exists>rb'. rt_ringbuffer_putchar_force rb ch = Some (1, rb') \<and> rb_inv rb' \<and> buffer_size rb' = buffer_size rb \<and>
    rb_contents rb' = (if rb_len rb < rb_cap rb then rb_contents rb else tl (rb_contents rb)) @ [ch]"
proof (cases "rb_len rb < rb_cap rb")
  case True
  then have "rt_ringbuffer_putchar_force rb ch = map_option (Pair 1) (rb_append [ch] rb)"
    using rb_full_status[OF inv]
    by (cases "uint (write_index rb) = sint (buffer_size rb) - 1")
      (simp_all add: rt_ringbuffer_putchar_force_def rb_append_single[OF inv] map_option_bind o_def Let_def)
  with rb_append_ok[OF inv, of "[ch]"] True show ?thesis by auto
next
  case False
  note D = rb_invD[OF inv]
  have e: "1 \<le> rb_len rb" "rb_len rb = rb_cap rb" using False D(1,4) by linarith+
  note dr = rb_drop_ok[OF inv e(1)]
  have "unat (write_index rb) = unat (read_index rb)" using D(2,7) e(2) by simp
  then have w: "read_index rb = write_index rb" by (simp add: word_unat_eq_iff)
  have "length (rb_contents (rb_drop 1 rb)) < rb_len rb" using dr(2) e(1) by simp
  then have fit: "length [ch] + rb_len (rb_drop 1 rb) \<le> rb_cap (rb_drop 1 rb)" using dr(3) e(2) by simp
  have "rt_ringbuffer_putchar_force rb ch = map_option (Pair 1) (rb_append [ch] (rb_drop 1 rb))"
    unfolding rb_append_single[OF dr(1)] unfolding rb_drop_single[OF inv] w using False rb_full_status[OF inv]
    by (cases "uint (write_index rb) = sint (buffer_size rb) - 1")
      (auto simp: rt_ringbuffer_putchar_force_def map_option_bind o_def Let_def
        intro!: Option.bind_cong rt_ringbuffer.equality)
  with rb_append_ok[OF dr(1) fit] dr(2,3) False show ?thesis by (auto simp: drop_Suc)
qed

subsection \<open>Forced writes of several bytes\<close>

lemma rt_ringbuffer_put_force_write:
  "rt_ringbuffer_put_force rb ptr len =
    (let sp = word_of_int (rt_ringbuffer_space_len rb) :: u16; k = (if len > sp then buffer_size rb else len)
     in map_option (\<lambda>rb'. (k, if k > sp then
            (if sint (buffer_size rb) - uint (write_index rb) > uint k then rb'\<lparr>read_index := write_index rb'\<rparr>
             else rb'\<lparr>read_mirror := NOT (read_mirror rb'), read_index := write_index rb'\<rparr>) else rb'))
          (rb_write k ptr rb))"
  unfolding rt_ringbuffer_put_force_def rb_write_def Let_def
  by (simp add: map_option_bind o_def cong: if_cong)

text \<open>What fits is appended, as by \<^verbatim>\<open>rt_ringbuffer_put\<close>.\<close>

lemma rt_ringbuffer_put_force_fits:
  assumes inv: "rb_inv rb" and ptr: "unat len \<le> length ptr" and fit: "unat len \<le> rb_cap rb - rb_len rb"
  shows "\<exists>rb'. rt_ringbuffer_put_force rb ptr len = Some (len, rb') \<and> rb_inv rb' \<and>
    rb_contents rb' = rb_contents rb @ take (unat len) ptr"
proof -
  have "length (take (unat len) ptr) + rb_len rb \<le> rb_cap rb" using fit rb_invD(1)[OF inv] by simp
  from rb_append_ok[OF inv this] rb_write_append[OF inv ptr] obtain rb' where
    "rb_write len ptr rb = Some rb'" "rb_inv rb'" "rb_contents rb' = rb_contents rb @ take (unat len) ptr" by auto
  moreover have "\<not> len > (word_of_int (rt_ringbuffer_space_len rb) :: u16)"
    using fit rb_space_word[OF inv] by (simp add: word_less_nat_alt)
  ultimately show ?thesis by (auto simp: rt_ringbuffer_put_force_write Let_def)
qed

text \<open>
  What does not fit is replaced by a whole buffer of bytes from \<^verbatim>\<open>ptr\<close>. Both mirrors flip, so a
  buffer that held data in one mirror is empty afterwards: old and new data are lost.
\<close>

lemma rt_ringbuffer_put_force_overflow:
  assumes inv: "rb_inv rb" and over: "unat len > rb_cap rb - rb_len rb" and ne: "rb_contents rb \<noteq> []"
  shows "length ptr < rb_cap rb \<Longrightarrow> rt_ringbuffer_put_force rb ptr len = None"
    "rb_cap rb \<le> length ptr \<Longrightarrow> \<exists>rb'. rt_ringbuffer_put_force rb ptr len = Some (buffer_size rb, rb') \<and>
      rt_ringbuffer_status rb' =
        (if read_mirror rb = write_mirror rb then RT_RINGBUFFER_EMPTY else RT_RINGBUFFER_FULL)"
proof -
  note D = rb_invD[OF inv]
  have k: "unat (buffer_size rb) = rb_cap rb" using D(4) by (simp add: unat_size)
  have e: "0 < rb_len rb" using ne by (metis gr0I length_0_conv length_rb_contents)
  have c: "len > (word_of_int (rt_ringbuffer_space_len rb) :: u16)"
    "buffer_size rb > (word_of_int (rt_ringbuffer_space_len rb) :: u16)"
    using over rb_space_word[OF inv] k e D(1) by (simp_all add: word_less_nat_alt)
  have nr: "\<not> sint (buffer_size rb) - uint (write_index rb) > uint (buffer_size rb)"
  proof -
    have "uint (buffer_size rb) = int (unat (buffer_size rb))" by simp
    then show ?thesis using k D(9) by simp
  qed
  show "rt_ringbuffer_put_force rb ptr len = None" if "length ptr < rb_cap rb"
  proof -
    let ?rest = "sint (buffer_size rb) - uint (write_index rb)"
    have "uint (buffer_size rb) = int (unat (buffer_size rb))" "uint (write_index rb) = int (unat (write_index rb))" by simp_all
    then have "nat ?rest + nat (uint (buffer_size rb) - ?rest) = rb_cap rb" using k D(8,9) by linarith
    then have "array_read (nat ?rest) (nat (uint (buffer_size rb) - ?rest)) ptr = None"
      using that by (simp add: array_read_def)
    then have "rb_write (buffer_size rb) ptr rb = None"
      unfolding rb_write_def Let_def if_not_P[OF nr] by (simp add: bind_eq_None_conv)
    then show ?thesis using c by (simp add: rt_ringbuffer_put_force_write Let_def)
  qed
  show "\<exists>rb'. rt_ringbuffer_put_force rb ptr len = Some (buffer_size rb, rb') \<and>
      rt_ringbuffer_status rb' =
        (if read_mirror rb = write_mirror rb then RT_RINGBUFFER_EMPTY else RT_RINGBUFFER_FULL)"
    if ptr: "rb_cap rb \<le> length ptr"
  proof -
    let ?bs = "take (rb_cap rb) ptr" and ?w = "unat (write_index rb)"
    have "\<exists>buf. rb_append ?bs rb = Some (rb\<lparr>buffer := buf, write_mirror := NOT (write_mirror rb), write_index := write_index rb\<rparr>)"
      using ptr D(6,8) by (auto simp: rb_append_def Let_def array_write_def)
    then obtain buf where "rb_write (buffer_size rb) ptr rb =
        Some (rb\<lparr>buffer := buf, write_mirror := NOT (write_mirror rb), write_index := write_index rb\<rparr>)"
      using rb_write_append[OF inv, of "buffer_size rb" ptr] ptr k by auto
    then show ?thesis
      using c nr by (simp add: rt_ringbuffer_put_force_write Let_def rt_ringbuffer_status_def)
  qed
qed

subsection \<open>The character interface is a bounded queue\<close>

definition rb_put1 :: "u8 \<Rightarrow> rt_ringbuffer \<Rightarrow> rt_ringbuffer option" where
  "rb_put1 ch rb = (case rt_ringbuffer_putchar rb ch of Some (n, rb) \<Rightarrow> if n = 1 then Some rb else None | None \<Rightarrow> None)"

definition rb_get1 :: "rt_ringbuffer \<Rightarrow> (u8 \<times> rt_ringbuffer) option" where
  "rb_get1 rb = (case rt_ringbuffer_getchar rb of Some (n, [c], rb) \<Rightarrow> Some (c, rb) | _ \<Rightarrow> None)"

interpretation rbq: bounded_fifo rb_inv "\<lambda>_ _. True" rb_contents rb_cap rb_put1 rb_get1
proof unfold_locales
  show "\<exists>rb'. rb_put1 v rb = Some rb' \<and> rb_inv rb' \<and> rb_contents rb' = rb_contents rb @ [v] \<and> rb_cap rb' = rb_cap rb \<and>
      (\<lambda>_. True) = (\<lambda>_. True)" if "rb_inv rb" "length (rb_contents rb) < rb_cap rb" for rb v
    using rt_ringbuffer_putchar_ok[OF that(1), of v] that(2) by (auto simp: rb_put1_def)
  show "\<exists>rb'. rb_get1 rb = Some (v, rb') \<and> rb_inv rb' \<and> rb_contents rb' = vs \<and> rb_cap rb' = rb_cap rb \<and>
      (\<lambda>_. True) = (\<lambda>_. True)" if "rb_inv rb" "rb_contents rb = v # vs" for rb v vs
    using rt_ringbuffer_getchar_ok[OF that(1)] that(2) by (auto simp: rb_get1_def)
qed

text \<open>A new buffer of at least four bytes is empty.\<close>

lemma rt_ringbuffer_init_ok:
  assumes "sint (sz AND NOT 3 :: u16) > 0" "sint sz > 0" "nat (sint (sz AND NOT 3)) \<le> length pool"
  shows "\<exists>rb. rt_ringbuffer_init pool sz = Some rb \<and> rb_inv rb \<and> rb_contents rb = [] \<and> buffer_size rb = sz AND NOT 3"
  using assms by (auto simp: rt_ringbuffer_init_def rb_inv_def rb_contents_def rt_ringbuffer_data_len_def rt_ringbuffer_status_def)

end
