(* ===== verification/RT_System.thy ===== *)
theory RT_System
  imports RT_Sem RT_Lifecycle
begin

text \<open>
  The kernel as a whole, with threads that sleep, yield and synchronise by semaphores while the
  clock ticks: every interleaving of the calls of the running thread, of the second halves of
  blocking calls, of releases by interrupt handlers and of tick interrupts. The definitions
  composed here are those of the components; this theory adds the step relation, the invariant
  of all reachable states, and the balance of every semaphore.
\<close>

subsection \<open>What a tick does to threads that wait\<close>

definition only_thread_timers :: "kstate \<Rightarrow> bool" where
  "only_thread_timers s \<longleftrightarrow> (\<forall>tm \<in> set (rt_timer_list s). \<exists>t. tm = Thread_Timer t)"

text \<open>
  Between two states of a tick interrupt: a thread keeps its state and error number, or its time
  is over; the lists of waiting threads lose exactly the threads that no longer wait.
\<close>

definition aged :: "rt_thread \<Rightarrow> rt_thread \<Rightarrow> bool" where
  "aged th th' \<longleftrightarrow> stat th' = stat th \<and> error th' = error th \<or>
     stat th = RT_THREAD_SUSPEND \<and> stat th' = RT_THREAD_READY \<and> error th' = - RT_ETIMEOUT"

lemma aged_trans: "aged a b \<Longrightarrow> aged b c \<Longrightarrow> aged a c"
  by (auto simp: aged_def)

lemma aged_suspended: "aged a b \<Longrightarrow> stat b = RT_THREAD_SUSPEND \<Longrightarrow> stat a = RT_THREAD_SUSPEND"
  by (auto simp: aged_def)

definition time_passes :: "kstate \<Rightarrow> kstate \<Rightarrow> bool" where
  "time_passes s s' \<longleftrightarrow> same_ipc s s' \<and> rt_interrupt_nest s' = rt_interrupt_nest s \<and>
     rt_scheduler_lock_nest s' = rt_scheduler_lock_nest s \<and>
     (\<forall>t. aged (threads s t) (threads s' t)) \<and>
     (\<forall>q t. is_wait q \<longrightarrow> t \<in> set (tlists s' q) \<longleftrightarrow> t \<in> set (tlists s q) \<and> stat (threads s' t) = RT_THREAD_SUSPEND) \<and>
     (rt_scheduler_lock_nest s = 0 \<longrightarrow> rt_current_thread s = top_thread s \<longrightarrow> rt_current_thread s' = top_thread s') \<and>
     (only_thread_timers s \<longrightarrow> only_thread_timers s')"

lemma same_ipc_trans: "same_ipc a b \<Longrightarrow> same_ipc b c \<Longrightarrow> same_ipc a c"
  by (simp add: same_ipc_def)

lemma time_passes_trans:
  assumes ab: "time_passes a b" and bc: "time_passes b c"
  shows "time_passes a c"
proof -
  have g: "aged (threads a t) (threads b t)" "aged (threads b t) (threads c t)" for t
    using ab bc by (simp_all add: time_passes_def)
  have "t \<in> set (tlists c q) \<longleftrightarrow> t \<in> set (tlists a q) \<and> stat (threads c t) = RT_THREAD_SUSPEND" if "is_wait q" for q t
    using ab bc that aged_suspended[OF g(2)] unfolding time_passes_def by blast
  moreover have "same_ipc a c" using ab bc same_ipc_trans unfolding time_passes_def by blast
  moreover have "aged (threads a t) (threads c t)" for t by (rule aged_trans[OF g])
  ultimately show ?thesis using ab bc unfolding time_passes_def by simp
qed

lemma time_passes_refl: "sys d {} s \<Longrightarrow> time_passes s s"
  using kinvxD(7)[OF sysD(1), of d "{}" s] by (auto simp: time_passes_def same_ipc_def aged_def)

text \<open>Changes that neither threads nor their lists notice.\<close>

lemma time_passes_eqI:
  assumes "sys d {} s" "tlists s' = tlists s" "rt_current_thread s' = rt_current_thread s" "same_ipc s s'"
    "rt_interrupt_nest s' = rt_interrupt_nest s" "rt_scheduler_lock_nest s' = rt_scheduler_lock_nest s"
    "set (rt_timer_list s') \<subseteq> set (rt_timer_list s)"
    "\<And>t. stat (threads s' t) = stat (threads s t) \<and> error (threads s' t) = error (threads s t)"
  shows "time_passes s s'"
proof -
  have "t \<in> set (tlists s' q) \<longleftrightarrow> t \<in> set (tlists s q) \<and> stat (threads s' t) = RT_THREAD_SUSPEND" if "is_wait q" for q t
    using kinvxD(7)[OF sysD(1)[OF assms(1)], of t q] that assms(2,8) by auto
  moreover have "aged (threads s t) (threads s' t)" for t using assms(8) by (simp add: aged_def)
  ultimately show ?thesis
    using assms(3-7) top_thread_cong[OF assms(2)] unfolding time_passes_def only_thread_timers_def by auto
qed

lemma timeout_time_passes:
  assumes s: "sys d {} s" and t: "stat (threads s t) = RT_THREAD_SUSPEND" "Thread_Timer t \<notin> set (rt_timer_list s)"
    and run: "rt_thread_timeout t s = Some s'"
  shows "time_passes s s'" "timers s' = timers s" "objects s' = objects s" "sys d {} s'"
proof -
  have R: "sys d {} s'" "threads s' = (threads s)(t := (threads s t)\<lparr>error := - RT_ETIMEOUT, stat := RT_THREAD_READY\<rparr>)"
    "timers s' = timers s" "rt_timer_list s' = rt_timer_list s" "objects s' = objects s" "same_ipc s s'"
    "tlists s' = q_insert_before (Ready (unat (current_priority (threads s t)))) t (q_remove t (tlists s))"
    "rt_scheduler_lock_nest s = 0 \<longrightarrow> rt_current_thread s' = top_thread s'"
    "rt_interrupt_nest s' = rt_interrupt_nest s" "rt_scheduler_lock_nest s' = rt_scheduler_lock_nest s"
    using rt_thread_timeout_ok[OF s t] run by auto
  show "timers s' = timers s" "objects s' = objects s" "sys d {} s'" by (fact R)+
  have "u \<in> set (tlists s' q) \<longleftrightarrow> u \<in> set (tlists s q) \<and> stat (threads s' u) = RT_THREAD_SUSPEND" if q: "is_wait q" for q u
  proof -
    have "tlists s' q = remove1 t (tlists s q)" using R(7) q by (cases q) (auto simp: q_insert_before_def q_remove_def)
    moreover have "distinct (tlists s q)" using kinvxD(1)[OF sysD(1)[OF s]] .
    ultimately show ?thesis using kinvxD(7)[OF sysD(1)[OF s] _ q, of u] R(2) by auto
  qed
  moreover have "aged (threads s u) (threads s' u)" for u using R(2) t by (simp add: aged_def)
  ultimately show "time_passes s s'" using R unfolding time_passes_def only_thread_timers_def by simp
qed

text \<open>The expiry of the timer of a thread, and all expiries of one tick.\<close>

lemma expire_time_passes:
  assumes s: "sys 1 {} s" and o: "only_thread_timers s" and tm: "tm \<in> set (rt_timer_list s)"
    and run: "timer_expire cb tm s = Some s'"
  shows "time_passes s s'"
proof -
  obtain t where t: "tm = Thread_Timer t" using o tm by (auto simp: only_thread_timers_def)
  let ?s = "rt_timer_remove tm s"
  have s1: "sys 1 {} ?s" by (rule remove_timer_sys[OF s])
  have off: "Thread_Timer t \<notin> set (rt_timer_list ?s)" using sysD(2)[OF s] t by (auto simp: timer_inv_def rt_timer_remove_def)
  have susp: "stat (threads ?s t) = RT_THREAD_SUSPEND" using sysD(3)[OF s] tm t by (auto simp: sleepers_ok_def rt_timer_remove_def)
  have fn: "timeout_func (timers ?s tm) = Rt_Thread_Timeout t" using sysD(4)[OF s1] t by (metis fn_matches.simps(1) timers_ok_def)
  have p1: "time_passes s ?s"
    by (rule time_passes_eqI[OF s]) (auto simp: rt_timer_remove_def same_ipc_def t dest: set_remove1_subset[THEN subsetD])
  obtain s2 where s2: "rt_thread_timeout t ?s = Some s2" using rt_thread_timeout_ok[OF s1 susp off] by blast
  note T = timeout_time_passes[OF s1 susp off s2]
  have np: "obj_flag (objects s2 (Obj_Timer tm)) AND RT_TIMER_FLAG_PERIODIC = 0"
    using sysD(4)[OF T(4)] t by (simp add: timers_ok_def)
  have "s' = timer_set_active False tm s2"
    using run fn s2 np by (simp add: timer_expire_def Let_def)
  moreover have "time_passes s2 (timer_set_active False tm s2)"
    by (rule time_passes_eqI[OF T(4)]) (auto simp: timer_set_active_def same_ipc_def t)
  ultimately show ?thesis using time_passes_trans[OF time_passes_trans[OF p1 T(1)]] by simp
qed

lemma check_step:
  assumes IH: "\<And>cb now s s'. f cb now s = Some s' \<Longrightarrow> callbacks_ok cb \<longrightarrow> now = rt_tick_get s \<longrightarrow> sys 1 {} s \<longrightarrow>
      periods_ok s \<longrightarrow> only_thread_timers s \<longrightarrow> time_passes s s'"
    and body: "(case rt_timer_list s of [] \<Rightarrow> Some s
      | tm # x \<Rightarrow> if now - timeout_tick (timers s tm) < RT_TICK_MAX div 2
          then Option.bind (timer_expire cb tm s) (\<lambda>s. f cb (rt_tick_get s) s) else Some s) = Some s'"
  shows "callbacks_ok cb \<longrightarrow> now = rt_tick_get s \<longrightarrow> sys 1 {} s \<longrightarrow> periods_ok s \<longrightarrow> only_thread_timers s \<longrightarrow> time_passes s s'"
proof (intro impI)
  assume cb: "callbacks_ok cb" and now: "now = rt_tick_get s" and s: "sys 1 {} s" "periods_ok s" "only_thread_timers s"
  show "time_passes s s'"
  proof (cases "rt_timer_list s")
    case Nil
    then show ?thesis using body time_passes_refl[OF s(1)] by simp
  next
    case (Cons tm ts)
    show ?thesis
    proof (cases "now - timeout_tick (timers s tm) < 0x7fffffff")
      case True
      then obtain s1 where s1: "timer_expire cb tm s = Some s1" "f cb (rt_tick_get s1) s1 = Some s'"
        using body Cons by (auto simp: bind_eq_Some_conv)
      have "- 1 \<le> remaining s tm" "remaining s tm < 0x7fffffff"
        using sysD(2)[OF s(1)] Cons by (auto simp: timer_inv_def)
      then have "tm \<in> due s" using True due_test[of "timeout_tick (timers s tm)" "rt_tick s"] Cons now
        by (simp add: due_def remaining_def rt_tick_get_def)
      then obtain s1' where E: "timer_expire cb tm s = Some s1'" "sys 1 {} s1'" "periods_ok s1'"
        using timer_expire_ok[OF cb s(1,2)] by blast
      have p: "time_passes s s1" using expire_time_passes[OF s(1,3) _ s1(1)] Cons by simp
      then have "only_thread_timers s1" using s(3) by (simp add: time_passes_def)
      then have "time_passes s1 s'" using IH[OF s1(2)] cb E s1(1) by simp
      then show ?thesis by (rule time_passes_trans[OF p])
    next
      case False
      then show ?thesis using body Cons time_passes_refl[OF s(1)] by simp
    qed
  qed
qed

lemma check_time_passes:
  assumes cb: "callbacks_ok cb" and run: "timer_check_loop cb now s = Some s'" and now: "now = rt_tick_get s"
    and s: "sys 1 {} s" "periods_ok s" "only_thread_timers s"
  shows "time_passes s s'"
proof -
  let ?P = "\<lambda>cb now s s'. callbacks_ok cb \<longrightarrow> now = rt_tick_get s \<longrightarrow> sys 1 {} s \<longrightarrow> periods_ok s \<longrightarrow>
    only_thread_timers s \<longrightarrow> time_passes s s'"
  have "?P cb now s s'" using run
  proof (rule timer_check_loop.raw_induct[of ?P, rotated])
    fix f cb now s s'
    assume IH: "\<And>cb now s s'. f cb now s = Some s' \<Longrightarrow> ?P cb now s s'"
      and body: "(case rt_timer_list s of [] \<Rightarrow> Some s
       | tm # x \<Rightarrow> if now - timeout_tick (timers s tm) < RT_TICK_MAX div 2
           then Option.bind (timer_expire cb tm s) (\<lambda>s. f cb (rt_tick_get s) s) else Some s) = Some s'"
    show "?P cb now s s'" by (rule check_step[of f, OF _ body]) (rule IH)
  qed
  then show ?thesis using assms by blast
qed

lemma yield_time_passes:
  assumes s: "sys d {} s" and t: "rt_current_thread s = Some t" "stat (threads s t) = RT_THREAD_READY"
  shows "\<exists>s'. rt_thread_yield s = Some (RT_EOK, s') \<and> sys d {} s' \<and> timers s' = timers s \<and> objects s' = objects s \<and> time_passes s s'"
proof -
  obtain s' where y: "rt_thread_yield s = Some (RT_EOK, s')" "sys d {} s'" "timers s' = timers s" "objects s' = objects s"
    "threads s' = threads s" "rt_timer_list s' = rt_timer_list s"
    "tlists s' = (tlists s)(Ready (unat (current_priority (threads s t))) :=
      remove1 t (tlists s (Ready (unat (current_priority (threads s t))))) @ [t])"
    "rt_scheduler_lock_nest s = 0 \<longrightarrow> rt_current_thread s = top_thread s \<longrightarrow> rt_current_thread s' = top_thread s'"
    "rt_interrupt_nest s' = rt_interrupt_nest s" "rt_scheduler_lock_nest s' = rt_scheduler_lock_nest s" "same_ipc s s'"
    using rt_thread_yield_ok[OF s t] by blast
  have "u \<in> set (tlists s' q) \<longleftrightarrow> u \<in> set (tlists s q) \<and> stat (threads s' u) = RT_THREAD_SUSPEND" if q: "is_wait q" for q u
    using kinvxD(7)[OF sysD(1)[OF s] _ q, of u] q y(5,7) by (cases q) auto
  then have "time_passes s s'"
    using y unfolding time_passes_def only_thread_timers_def by (simp add: aged_def)
  then show ?thesis using y by blast
qed

lemma tick_time_passes:
  assumes cb: "callbacks_ok cb" and s: "sys 0 {} s" "periods_ok s" "only_thread_timers s"
    and t: "rt_current_thread s = Some t" "stat (threads s t) = RT_THREAD_READY"
  shows "\<exists>s'. rt_tick_increase cb s = Some s' \<and> sys 0 {} s' \<and> periods_ok s' \<and> rt_tick s' = rt_tick s + 1 \<and> time_passes s s'"
proof -
  let ?s1 = "s\<lparr>rt_tick := rt_tick s + 1\<rparr>"
  let ?s2 = "upd_thread t (\<lambda>th. th\<lparr>remaining_tick := remaining_tick th - 1\<rparr>) ?s1"
  let ?s3 = "upd_thread t (\<lambda>th. th\<lparr>remaining_tick := init_tick th\<rparr>) ?s2"
  obtain s' where R: "rt_tick_increase cb s = Some s'" "sys 0 {} s'" "periods_ok s'" "rt_tick s' = rt_tick s + 1"
    using tick_ok[OF cb s(1,2) t] by blast
  have s2: "sys 1 {} ?s2" by (subst sys_upd_same) (simp_all add: sched_same_def advance_sys[OF s(1)])
  then have s3: "sys 1 {} ?s3" by (subst sys_upd_same) (simp_all add: sched_same_def)
  have p2: "time_passes s ?s2" and p3: "time_passes s ?s3"
    by (rule time_passes_eqI[OF s(1)]; simp add: same_ipc_def)+
  have per: "periods_ok ?s2" "periods_ok ?s3" using s(2) by (simp_all add: periods_ok_def)
  obtain s4 where y: "rt_thread_yield ?s3 = Some (RT_EOK, s4)" "sys 1 {} s4" "timers s4 = timers ?s3" "objects s4 = objects ?s3"
    "time_passes ?s3 s4" using yield_time_passes[OF s3, of t] t by auto
  let ?s5 = "if remaining_tick (threads ?s2 t) = 0 then s4 else ?s2"
  have five: "sys 1 {} ?s5" "periods_ok ?s5" "time_passes s ?s5"
    using y s2 per p2 time_passes_trans[OF p3 y(5)] by (auto simp: periods_ok_def)
  have "rt_tick_increase cb s = rt_timer_check cb ?s5"
    using t y(1) unfolding rt_tick_increase_def by (simp add: rt_thread_self_def Let_def)
  then have "timer_check_loop cb (rt_tick_get ?s5) ?s5 = Some s'" using R(1) by (simp only: rt_timer_check_def)
  moreover have "only_thread_timers ?s5" using five(3) s(3) by (simp only: time_passes_def)
  ultimately have "time_passes ?s5 s'" using check_time_passes[OF cb _ refl five(1,2)] by blast
  then show ?thesis using R time_passes_trans[OF five(3)] by blast
qed

subsection \<open>The system and its steps\<close>

datatype pending = In_Sem_Take oid | In_Sleep

text \<open>
  The kernel, the blocking call each thread has not returned from, and two counters per
  semaphore: the calls of \<^verbatim>\<open>rt_sem_take\<close> that returned \<^verbatim>\<open>RT_EOK\<close>, and the calls of \<^verbatim>\<open>rt_sem_release\<close>.
\<close>

record system =
  kern :: kstate
  pend :: "tid \<Rightarrow> pending option"
  takes :: "oid \<Rightarrow> nat"
  gives :: "oid \<Rightarrow> nat"

definition count_take :: "oid \<Rightarrow> rt_err_t option \<Rightarrow> (oid \<Rightarrow> nat) \<Rightarrow> oid \<Rightarrow> nat" where
  "count_take x r f = (if r = Some RT_EOK then f(x := f x + 1) else f)"

text \<open>The thread \<open>idle\<close> does not block; the clock may tick and semaphores may be released at any time.\<close>

inductive sys_step :: "callbacks \<Rightarrow> tid \<Rightarrow> system \<Rightarrow> system \<Rightarrow> bool" for cb idle where
  take: "rt_current_thread (kern w) = Some t \<Longrightarrow> t \<noteq> idle \<Longrightarrow> pend w t = None \<Longrightarrow> (sint time > 0 \<longrightarrow> time < 0x7fffffff) \<Longrightarrow>
    rt_sem_take x time (kern w) = Some (r, s') \<Longrightarrow>
    sys_step cb idle w (w\<lparr>kern := s', pend := (if r = None then (pend w)(t \<mapsto> In_Sem_Take x) else pend w),
      takes := count_take x r (takes w)\<rparr>)"
| take_resume: "rt_current_thread (kern w) = Some t \<Longrightarrow> pend w t = Some (In_Sem_Take x) \<Longrightarrow>
    sys_step cb idle w (w\<lparr>pend := (pend w)(t := None), takes := count_take x (Some (rt_sem_take_resume t (kern w))) (takes w)\<rparr>)"
| release: "rt_sem_release x (kern w) = Some (r, s') \<Longrightarrow>
    sys_step cb idle w (w\<lparr>kern := s', gives := (gives w)(x := gives w x + 1)\<rparr>)"
| sleep: "rt_current_thread (kern w) = Some t \<Longrightarrow> t \<noteq> idle \<Longrightarrow> pend w t = None \<Longrightarrow> tick < 0x7fffffff \<Longrightarrow>
    rt_thread_sleep tick (kern w) = Some s' \<Longrightarrow>
    sys_step cb idle w (w\<lparr>kern := s', pend := (pend w)(t \<mapsto> In_Sleep)\<rparr>)"
| sleep_resume: "rt_current_thread (kern w) = Some t \<Longrightarrow> pend w t = Some In_Sleep \<Longrightarrow>
    sys_step cb idle w (w\<lparr>kern := snd (rt_thread_sleep_resume t (kern w)), pend := (pend w)(t := None)\<rparr>)"
| yield: "rt_current_thread (kern w) = Some t \<Longrightarrow> pend w t = None \<Longrightarrow> rt_thread_yield (kern w) = Some (r, s') \<Longrightarrow>
    sys_step cb idle w (w\<lparr>kern := s'\<rparr>)"
| tick: "rt_tick_increase cb (kern w) = Some s' \<Longrightarrow> sys_step cb idle w (w\<lparr>kern := s'\<rparr>)"

definition sys_run :: "callbacks \<Rightarrow> tid \<Rightarrow> system \<Rightarrow> system \<Rightarrow> bool" where
  "sys_run cb idle = (sys_step cb idle)\<^sup>*\<^sup>*"

subsection \<open>The invariant\<close>

definition kernel_ok :: "tid \<Rightarrow> kstate \<Rightarrow> bool" where
  "kernel_ok idle s \<longleftrightarrow> sys 0 {} s \<and> periods_ok s \<and> only_thread_timers s \<and> sem_inv s \<and> (\<forall>x. valid_flag s x) \<and>
     rt_current_thread s = top_thread s \<and> rt_interrupt_nest s = 0 \<and> rt_scheduler_lock_nest s = 0 \<and>
     stat (threads s idle) = RT_THREAD_READY"

definition waits_ok :: "kstate \<Rightarrow> (tid \<Rightarrow> pending option) \<Rightarrow> bool" where
  "waits_ok s p \<longleftrightarrow> (\<forall>t x. t \<in> set (tlists s (Wait x)) \<longleftrightarrow> p t = Some (In_Sem_Take x) \<and> stat (threads s t) = RT_THREAD_SUSPEND) \<and>
     (\<forall>t x. t \<in> set (tlists s (Wait x)) \<longrightarrow> error (threads s t) = RT_EOK) \<and> finite (dom p)"

text \<open>The threads to which a token was handed and that have not returned from \<^verbatim>\<open>rt_sem_take\<close> yet.\<close>

definition granted :: "kstate \<Rightarrow> (tid \<Rightarrow> pending option) \<Rightarrow> oid \<Rightarrow> tid set" where
  "granted s p x = {t. p t = Some (In_Sem_Take x) \<and> stat (threads s t) \<noteq> RT_THREAD_SUSPEND \<and> error (threads s t) = RT_EOK}"

definition balance :: "system \<Rightarrow> oid \<Rightarrow> u16" where
  "balance w x = sem_value (sems (kern w) x) + of_nat (takes w x) + of_nat (card (granted (kern w) (pend w) x)) - of_nat (gives w x)"

definition system_ok :: "tid \<Rightarrow> (oid \<Rightarrow> u16) \<Rightarrow> system \<Rightarrow> bool" where
  "system_ok idle b w \<longleftrightarrow> kernel_ok idle (kern w) \<and> waits_ok (kern w) (pend w) \<and> (\<forall>x. balance w x = b x)"

lemma running_ready:
  assumes "kernel_ok idle s"
  obtains t where "rt_current_thread s = Some t" "stat (threads s t) = RT_THREAD_READY"
proof -
  have k: "sys 0 {} s" "rt_current_thread s = top_thread s" "stat (threads s idle) = RT_THREAD_READY"
    using assms by (simp_all add: kernel_ok_def)
  have "some_ready s" using kinvxD(6)[OF sysD(1)[OF k(1)] _ k(3)] unfolding some_ready_def by (metis empty_iff empty_set)
  from top_thread_ready[OF k(1) this] that k(2) show thesis by metis
qed

lemma running_is_ready: "kernel_ok idle s \<Longrightarrow> rt_current_thread s = Some t \<Longrightarrow> stat (threads s t) = RT_THREAD_READY"
  using running_ready[of idle s] by (metis option.inject)

lemma granted_finite [simp]: "finite (dom p) \<Longrightarrow> finite (granted s p x)"
  by (rule finite_subset[of _ "dom p"]) (auto simp: granted_def)

lemma kernel_may_block: "kernel_ok idle s \<Longrightarrow> rt_current_thread s = Some t \<Longrightarrow> t \<noteq> idle \<Longrightarrow>
  (sint time > 0 \<longrightarrow> time < 0x7fffffff) \<Longrightarrow> may_block t time s"
  using running_is_ready[of idle s t] by (auto simp: may_block_def kernel_ok_def other_ready_def)

lemma positive_time:
  assumes "time \<noteq> (0x7fffffff :: u32)" "sint time > 0"
  shows "time < 0x7fffffff"
proof -
  have "sint time < 2 ^ 31" using sint_lt[of time] by simp
  then have "uint time = sint time" using assms(2) by (simp add: uint_sint take_bit_eq_mod)
  moreover have "uint time \<noteq> 0x7fffffff" using assms(1) by (auto simp: word_uint_eq_iff)
  ultimately show ?thesis using \<open>sint time < 2 ^ 31\<close> by (simp add: word_less_def)
qed

text \<open>\<^const>\<open>periods_ok\<close> only depends on the timers of the application.\<close>

lemma periods_ok_same: "same_ipc s s' \<Longrightarrow> sys d {} s' \<Longrightarrow> periods_ok s \<Longrightarrow> periods_ok s'"
proof -
  assume a: "same_ipc s s'" "sys d {} s'" "periods_ok s"
  show ?thesis unfolding periods_ok_def
  proof (intro allI impI)
    fix tm assume p: "obj_flag (objects s' (Obj_Timer tm)) AND RT_TIMER_FLAG_PERIODIC \<noteq> 0"
    then obtain u where "tm = User_Timer u" using sysD(4)[OF a(2)] by (cases tm) (auto simp: timers_ok_def)
    then show "0 < tm_init_tick (timers s' tm) \<and> tm_init_tick (timers s' tm) < 0x7fffffff"
      using a(1,3) p by (auto simp: same_ipc_def periods_ok_def)
  qed
qed

lemma valid_flag_same: "same_ipc s s' \<Longrightarrow> valid_flag s' x = valid_flag s x"
  by (simp add: same_ipc_def valid_flag_def)

lemma only_thread_same: "same_ipc s s' \<Longrightarrow> only_thread_timers s \<Longrightarrow> only_thread_timers s'"
  unfolding only_thread_timers_def same_ipc_def by (metis timer_id.exhaust)

lemma kernel_ok_same:
  assumes "kernel_ok idle s" "sys 0 {} s'" "same_ipc s s'" "sem_inv s'" "rt_current_thread s' = top_thread s'"
    "rt_interrupt_nest s' = 0" "rt_scheduler_lock_nest s' = 0" "stat (threads s' idle) = RT_THREAD_READY"
  shows "kernel_ok idle s'"
  using assms periods_ok_same[OF assms(3,2)] only_thread_same[OF assms(3)] valid_flag_same[OF assms(3)]
  by (simp add: kernel_ok_def)

lemma kernel_ok_upd_sem:
  assumes "kernel_ok idle s" "sem_inv (upd_sem x f s)"
  shows "kernel_ok idle (upd_sem x f s)"
proof -
  have "top_thread (upd_sem x f s) = top_thread s" by (rule top_thread_cong) simp
  then show ?thesis using assms
    by (simp add: kernel_ok_def periods_ok_def only_thread_timers_def valid_flag_def upd_sem_def[of x f s])
      (use upd_sem_sys[of 0 "{}" x f s] in \<open>simp add: upd_sem_def\<close>)
qed

subsection \<open>Every step keeps the invariant\<close>

lemma take_keeps:
  assumes i: "system_ok idle b w" and t: "rt_current_thread (kern w) = Some t" "t \<noteq> idle" "pend w t = None"
    and time: "sint time > 0 \<longrightarrow> time < 0x7fffffff"
  shows "\<exists>r s'. rt_sem_take x time (kern w) = Some (r, s') \<and>
    system_ok idle b (w\<lparr>kern := s', pend := (if r = None then (pend w)(t \<mapsto> In_Sem_Take x) else pend w), takes := count_take x r (takes w)\<rparr>)"
proof -
  let ?s = "kern w" and ?p = "pend w"
  have k: "kernel_ok idle ?s" and wt: "waits_ok ?s ?p" and bal: "\<And>y. balance w y = b y" using i by (auto simp: system_ok_def)
  have s: "sys 0 {} ?s" "sem_inv ?s" "valid_flag ?s x" using k by (auto simp: kernel_ok_def)
  consider "sem_value (sems ?s x) > 0" | "sem_value (sems ?s x) = 0" "time = 0" | "sem_value (sems ?s x) = 0" "time \<noteq> 0"
    by (cases "sem_value (sems ?s x) = 0") (auto simp: word_gt_0)
  then show ?thesis
  proof cases
    case 1
    let ?s' = "upd_sem x (\<lambda>sm. sm\<lparr>sem_value := sem_value sm - 1\<rparr>) ?s"
    have "sem_inv ?s'" using s(2) 1 by (auto simp: sem_inv_def)
    then have "kernel_ok idle ?s'" by (rule kernel_ok_upd_sem[OF k])
    moreover have "waits_ok ?s' ?p" using wt by (simp add: waits_ok_def)
    moreover have "granted ?s' ?p y = granted ?s ?p y" for y by (simp add: granted_def)
    then have "balance (w\<lparr>kern := ?s', takes := count_take x (Some RT_EOK) (takes w)\<rparr>) y = b y" for y
      using bal[of y] by (auto simp: balance_def count_take_def)
    moreover have "rt_sem_take x time ?s = Some (Some RT_EOK, ?s')" by (rule rt_sem_take_available[OF 1])
    ultimately show ?thesis by (auto simp: system_ok_def)
  next
    case 2
    then have "rt_sem_take x time ?s = Some (Some (- RT_ETIMEOUT), ?s)" by (simp add: rt_sem_take_def)
    moreover have "balance (w\<lparr>kern := ?s, pend := ?p, takes := count_take x (Some (- RT_ETIMEOUT)) (takes w)\<rparr>) y = b y" for y
      using bal[of y] by (simp add: balance_def count_take_def)
    ultimately show ?thesis using k wt by (auto simp: system_ok_def)
  next
    case 3
    let ?u = "upd_thread t (\<lambda>th. th\<lparr>error := RT_EOK\<rparr>) ?s" and ?p' = "?p(t \<mapsto> In_Sem_Take x)"
    have mb: "may_block t time ?s" by (rule kernel_may_block[OF k t(1,2) time])
    obtain s' where s': "rt_sem_take x time ?s = Some (None, s')" "sys 0 {} s'" "sem_inv s'"
      "blocked_on (Wait x) (obj_flag (objects ?s (Obj x))) t time ?u s'"
      using rt_sem_take_blocks[OF s(1,2) mb s(3) 3] by blast
    have B: "threads s' = (threads ?s)(t := (threads ?s t)\<lparr>error := RT_EOK, stat := RT_THREAD_SUSPEND\<rparr>)"
      "rt_current_thread s' = top_thread s'" "rt_interrupt_nest s' = 0" "rt_scheduler_lock_nest s' = 0" "same_ipc ?s s'"
      using s'(4) k by (auto simp: blocked_on_def kernel_ok_def same_ipc_def)
    have rd: "stat (threads ?s t) = RT_THREAD_READY" by (rule running_is_ready[OF k t(1)])
    have su: "sys 0 {} ?u" using s(1) by (subst sys_upd_same) (simp_all add: sched_same_def)
    have wx: "set (tlists s' (Wait x)) = insert t (set (tlists ?s (Wait x)))"
      using s'(4) s(3) by (auto simp: blocked_on_def wait_insert_def valid_flag_def)
    have wy: "tlists s' (Wait y) = tlists ?s (Wait y)" if "y \<noteq> x" for y
      using blocked_on_waits[OF s'(4) su _ _, of "Wait y"] rd that by simp
    have k': "kernel_ok idle s'" by (rule kernel_ok_same[OF k s'(2) B(5) s'(3) B(2-4)]) (use B(1) k t(2) in \<open>simp add: kernel_ok_def\<close>)
    have out: "t \<notin> set (tlists ?s (Wait y))" for y using wt t(3) by (auto simp: waits_ok_def)
    have "waits_ok s' ?p'" unfolding waits_ok_def
    proof (intro conjI allI)
      fix u y
      show "u \<in> set (tlists s' (Wait y)) \<longleftrightarrow> ?p' u = Some (In_Sem_Take y) \<and> stat (threads s' u) = RT_THREAD_SUSPEND"
        using wt out[of y] wx wy[of y] B(1) by (cases "u = t"; cases "y = x") (auto simp: waits_ok_def)
      show "u \<in> set (tlists s' (Wait y)) \<longrightarrow> error (threads s' u) = RT_EOK"
        using wt wx wy[of y] B(1) by (cases "y = x") (auto simp: waits_ok_def)
    qed (use wt in \<open>simp add: waits_ok_def\<close>)
    moreover have "granted s' ?p' y = granted ?s ?p y" for y using B(1) t(3) by (auto simp: granted_def)
    then have "balance (w\<lparr>kern := s', pend := ?p', takes := count_take x None (takes w)\<rparr>) y = b y" for y
      using bal[of y] B(5) by (simp add: balance_def count_take_def same_ipc_def)
    ultimately show ?thesis using s'(1) k' by (auto simp: system_ok_def)
  qed
qed

lemma resume_keeps:
  assumes i: "system_ok idle b w" and t: "rt_current_thread (kern w) = Some t" "pend w t = Some (In_Sem_Take x)"
  shows "system_ok idle b (w\<lparr>pend := (pend w)(t := None), takes := count_take x (Some (rt_sem_take_resume t (kern w))) (takes w)\<rparr>)"
proof -
  let ?s = "kern w" and ?p = "pend w"
  have k: "kernel_ok idle ?s" and wt: "waits_ok ?s ?p" and bal: "\<And>y. balance w y = b y" using i by (auto simp: system_ok_def)
  have rd: "stat (threads ?s t) = RT_THREAD_READY" by (rule running_is_ready[OF k t(1)])
  have f: "finite (granted ?s ?p y)" for y using wt by (simp add: waits_ok_def)
  have "waits_ok ?s (?p(t := None))" using wt rd by (auto simp: waits_ok_def)
  moreover have g: "granted ?s (?p(t := None)) y = granted ?s ?p y - {t}" for y using t(2) by (auto simp: granted_def)
  have "t \<in> granted ?s ?p y \<longleftrightarrow> y = x \<and> error (threads ?s t) = RT_EOK" for y using t(2) rd by (auto simp: granted_def)
  then have "card (granted ?s ?p y) = card (granted ?s (?p(t := None)) y) + (if y = x \<and> error (threads ?s t) = RT_EOK then 1 else 0)" for y
    unfolding g using f[of y] card_Suc_Diff1[of "granted ?s ?p y" t] by (auto simp: Diff_insert_absorb)
  then have "balance (w\<lparr>pend := ?p(t := None), takes := count_take x (Some (rt_sem_take_resume t ?s)) (takes w)\<rparr>) y = b y" for y
    using bal[of y] by (auto simp: balance_def count_take_def rt_sem_take_resume_def algebra_simps)
  ultimately show ?thesis using k by (simp add: system_ok_def)
qed

lemma release_keeps:
  assumes i: "system_ok idle b w"
  shows "\<exists>r s'. rt_sem_release x (kern w) = Some (r, s') \<and> system_ok idle b (w\<lparr>kern := s', gives := (gives w)(x := gives w x + 1)\<rparr>)"
proof -
  let ?s = "kern w" and ?p = "pend w"
  have k: "kernel_ok idle ?s" and wt: "waits_ok ?s ?p" and bal: "\<And>y. balance w y = b y" using i by (auto simp: system_ok_def)
  have s: "sys 0 {} ?s" "sem_inv ?s" using k by (auto simp: kernel_ok_def)
  show ?thesis
  proof (cases "tlists ?s (Wait x)")
    case Nil
    let ?s' = "upd_sem x (\<lambda>sm. sm\<lparr>sem_value := sem_value sm + 1\<rparr>) ?s"
    have "sem_inv ?s'" using s(2) Nil by (auto simp: sem_inv_def)
    then have "kernel_ok idle ?s'" by (rule kernel_ok_upd_sem[OF k])
    moreover have "waits_ok ?s' ?p" using wt by (simp add: waits_ok_def)
    moreover have "granted ?s' ?p y = granted ?s ?p y" for y by (simp add: granted_def)
    then have "balance (w\<lparr>kern := ?s', gives := (gives w)(x := gives w x + 1)\<rparr>) y = b y" for y
      using bal[of y] by (auto simp: balance_def algebra_simps)
    ultimately show ?thesis using rt_sem_release_free[OF Nil] by (auto simp: system_ok_def)
  next
    case (Cons u ts)
    obtain s' where s': "rt_sem_release x ?s = Some (RT_EOK, s')" "sys 0 {} s'" "sem_inv s'" "woke_first (Wait x) u ?s s'"
      using rt_sem_release_waiting[OF s Cons] by blast
    have W: "threads s' = (threads ?s)(u := (threads ?s u)\<lparr>stat := RT_THREAD_READY\<rparr>)" "tlists s' (Wait x) = ts"
      "rt_current_thread s' = top_thread s'" "rt_interrupt_nest s' = 0" "rt_scheduler_lock_nest s' = 0" "same_ipc ?s s'"
      using s'(4) k Cons by (auto simp: woke_first_def kernel_ok_def)
    have wy: "tlists s' (Wait y) = tlists ?s (Wait y)" if "y \<noteq> x" for y
      using woke_first_waits[OF s'(4) s(1), of "Wait y"] that Cons by simp
    have "u \<in> set (tlists ?s (Wait x))" using Cons by simp
    then have u: "?p u = Some (In_Sem_Take x)" "stat (threads ?s u) = RT_THREAD_SUSPEND" "error (threads ?s u) = RT_EOK"
      using wt unfolding waits_ok_def by blast+
    have k': "kernel_ok idle s'" by (rule kernel_ok_same[OF k s'(2) W(6) s'(3) W(3-5)]) (use W(1) k in \<open>simp add: kernel_ok_def\<close>)
    have d: "u \<notin> set ts" using kinvxD(1)[OF sysD(1)[OF s(1)], of "Wait x"] Cons by simp
    have "waits_ok s' ?p" unfolding waits_ok_def
    proof (intro conjI allI)
      fix v y
      have m: "v \<in> set (tlists ?s (Wait y)) \<longleftrightarrow> ?p v = Some (In_Sem_Take y) \<and> stat (threads ?s v) = RT_THREAD_SUSPEND"
        using wt by (simp add: waits_ok_def)
      show "v \<in> set (tlists s' (Wait y)) \<longleftrightarrow> ?p v = Some (In_Sem_Take y) \<and> stat (threads s' v) = RT_THREAD_SUSPEND"
        using m Cons W(1,2) d u(1) wy[of y] by (cases "y = x"; cases "v = u") auto
      show "v \<in> set (tlists s' (Wait y)) \<longrightarrow> error (threads s' v) = RT_EOK"
      proof -
        have "v \<in> set (tlists ?s (Wait y)) \<longrightarrow> error (threads ?s v) = RT_EOK" using wt unfolding waits_ok_def by blast
        then show ?thesis using Cons W(1,2) wy[of y] by (cases "y = x") auto
      qed
    qed (use wt in \<open>simp add: waits_ok_def\<close>)
    moreover have g: "granted s' ?p y = (if y = x then insert u (granted ?s ?p x) else granted ?s ?p y)" for y
      using W(1) u by (auto simp: granted_def)
    moreover have "u \<notin> granted ?s ?p x" using u by (simp add: granted_def)
    moreover have "finite (granted ?s ?p y)" for y using wt by (simp add: waits_ok_def)
    ultimately have "waits_ok s' ?p" "balance (w\<lparr>kern := s', gives := (gives w)(x := gives w x + 1)\<rparr>) y = b y" for y
      using bal[of y] W(6) by (auto simp: balance_def same_ipc_def algebra_simps)
    then show ?thesis using s'(1) k' by (auto simp: system_ok_def)
  qed
qed

lemma sleep_keeps:
  assumes i: "system_ok idle b w" and t: "rt_current_thread (kern w) = Some t" "t \<noteq> idle" "pend w t = None" "tick < 0x7fffffff"
  shows "\<exists>s'. rt_thread_sleep tick (kern w) = Some s' \<and> system_ok idle b (w\<lparr>kern := s', pend := (pend w)(t \<mapsto> In_Sleep)\<rparr>)"
proof -
  let ?s = "kern w" and ?p = "pend w"
  have k: "kernel_ok idle ?s" and wt: "waits_ok ?s ?p" and bal: "\<And>y. balance w y = b y" using i by (auto simp: system_ok_def)
  have s: "sys 0 {} ?s" "sem_inv ?s" using k by (auto simp: kernel_ok_def)
  have rd: "stat (threads ?s t) = RT_THREAD_READY" by (rule running_is_ready[OF k t(1)])
  have o: "other_ready t ?s" using k t(2) by (auto simp: other_ready_def kernel_ok_def)
  obtain s' where s': "rt_thread_sleep tick ?s = Some s'" "sys 0 {} s'"
    "threads s' = (threads ?s)(t := (threads ?s t)\<lparr>stat := RT_THREAD_SUSPEND\<rparr>)"
    "rt_current_thread s' = top_thread s'" "\<forall>q. is_wait q \<longrightarrow> tlists s' q = tlists ?s q"
    "rt_interrupt_nest s' = 0" "rt_scheduler_lock_nest s' = 0" "same_ipc ?s s'"
    using rt_thread_sleep_ok[OF s(1) t(1) rd o t(4)] k unfolding kernel_ok_def by auto
  have "sem_inv s'" using s(2) s'(5,8) by (simp add: sem_inv_def same_ipc_def)
  then have k': "kernel_ok idle s'" using kernel_ok_same[OF k s'(2,8) _ s'(4,6,7)] s'(3) k t(2) by (simp add: kernel_ok_def)
  have "waits_ok s' (?p(t \<mapsto> In_Sleep))" using wt s'(3,5) t(3) by (auto simp: waits_ok_def)
  moreover have "granted s' (?p(t \<mapsto> In_Sleep)) y = granted ?s ?p y" for y using s'(3) t(3) by (auto simp: granted_def)
  then have "balance (w\<lparr>kern := s', pend := ?p(t \<mapsto> In_Sleep)\<rparr>) y = b y" for y
    using bal[of y] s'(8) by (simp add: balance_def same_ipc_def)
  ultimately show ?thesis using s'(1) k' by (auto simp: system_ok_def)
qed

lemma sleep_resume_keeps:
  assumes i: "system_ok idle b w" and t: "rt_current_thread (kern w) = Some t" "pend w t = Some In_Sleep"
  shows "system_ok idle b (w\<lparr>kern := snd (rt_thread_sleep_resume t (kern w)), pend := (pend w)(t := None)\<rparr>)"
proof -
  let ?s = "kern w" and ?p = "pend w"
  let ?s' = "snd (rt_thread_sleep_resume t ?s)"
  have k: "kernel_ok idle ?s" and wt: "waits_ok ?s ?p" and bal: "\<And>y. balance w y = b y" using i by (auto simp: system_ok_def)
  have s: "sys 0 {} ?s" "sem_inv ?s" using k by (auto simp: kernel_ok_def)
  have th: "stat (threads ?s' u) = stat (threads ?s u)" "u \<noteq> t \<Longrightarrow> threads ?s' u = threads ?s u" for u
    by (auto simp: rt_thread_sleep_resume_def)
  have fr: "tlists ?s' = tlists ?s" "rt_current_thread ?s' = rt_current_thread ?s" "same_ipc ?s ?s'"
    "rt_interrupt_nest ?s' = rt_interrupt_nest ?s" "rt_scheduler_lock_nest ?s' = rt_scheduler_lock_nest ?s"
    by (auto simp: rt_thread_sleep_resume_def same_ipc_def)
  have "sys 0 {} ?s'"
    using s(1) sys_upd_same[of "\<lambda>th. th\<lparr>error := RT_EOK\<rparr>" 0 "{}" t ?s] by (auto simp: rt_thread_sleep_resume_def sched_same_def)
  moreover have "sem_inv ?s'" using s(2) fr by (simp add: sem_inv_def same_ipc_def)
  ultimately have k': "kernel_ok idle ?s'"
    using kernel_ok_same[OF k _ fr(3)] fr top_thread_cong[OF fr(1)] k th(1)[of idle] by (simp add: kernel_ok_def)
  have out: "t \<notin> set (tlists ?s (Wait y))" for y using wt t(2) by (auto simp: waits_ok_def)
  have "waits_ok ?s' (?p(t := None))" unfolding waits_ok_def
  proof (intro conjI allI)
    fix u y
    show "u \<in> set (tlists ?s' (Wait y)) \<longleftrightarrow> (?p(t := None)) u = Some (In_Sem_Take y) \<and> stat (threads ?s' u) = RT_THREAD_SUSPEND"
      using wt out[of y] fr(1) th(1)[of u] by (cases "u = t") (auto simp: waits_ok_def)
    show "u \<in> set (tlists ?s' (Wait y)) \<longrightarrow> error (threads ?s' u) = RT_EOK"
      using wt out[of y] fr(1) th(2)[of u] by (cases "u = t") (auto simp: waits_ok_def)
  qed (use wt in \<open>simp add: waits_ok_def\<close>)
  moreover have "granted ?s' (?p(t := None)) y = granted ?s ?p y" for y
  proof -
    have "u \<in> granted ?s' (?p(t := None)) y \<longleftrightarrow> u \<in> granted ?s ?p y" for u
      using t(2) th(2)[of u] by (cases "u = t") (auto simp: granted_def)
    then show ?thesis by blast
  qed
  then have "balance (w\<lparr>kern := ?s', pend := ?p(t := None)\<rparr>) y = b y" for y
    using bal[of y] fr(3) by (simp add: balance_def same_ipc_def)
  ultimately show ?thesis using k' by (simp add: system_ok_def)
qed

lemma time_keeps:
  assumes i: "system_ok idle b w" and s': "sys 0 {} s'" "time_passes (kern w) s'"
  shows "system_ok idle b (w\<lparr>kern := s'\<rparr>)"
proof -
  let ?s = "kern w" and ?p = "pend w"
  have k: "kernel_ok idle ?s" and wt: "waits_ok ?s ?p" and bal: "\<And>y. balance w y = b y" using i by (auto simp: system_ok_def)
  have T: "same_ipc ?s s'" "rt_interrupt_nest s' = 0" "rt_scheduler_lock_nest s' = 0" "rt_current_thread s' = top_thread s'"
    "\<And>t. aged (threads ?s t) (threads s' t)"
    "\<And>x t. t \<in> set (tlists s' (Wait x)) \<longleftrightarrow> t \<in> set (tlists ?s (Wait x)) \<and> stat (threads s' t) = RT_THREAD_SUSPEND"
    using s'(2) k unfolding time_passes_def kernel_ok_def by auto
  have "tlists s' (Wait x) = []" if "sem_value (sems s' x) > 0" for x
  proof -
    have "tlists ?s (Wait x) = []" using k that T(1) by (simp add: kernel_ok_def sem_inv_def same_ipc_def)
    then show ?thesis using T(6)[of _ x] by (metis empty_iff empty_set list.set_sel(1))
  qed
  then have "sem_inv s'" by (simp add: sem_inv_def)
  moreover have "stat (threads s' idle) = RT_THREAD_READY" using T(5)[of idle] k by (auto simp: aged_def kernel_ok_def)
  ultimately have k': "kernel_ok idle s'" using kernel_ok_same[OF k s'(1) T(1) _ T(4,2,3)] by blast
  have "waits_ok s' ?p" unfolding waits_ok_def
  proof (intro conjI allI)
    fix t x
    have m: "t \<in> set (tlists ?s (Wait x)) \<longleftrightarrow> ?p t = Some (In_Sem_Take x) \<and> stat (threads ?s t) = RT_THREAD_SUSPEND"
      using wt by (simp add: waits_ok_def)
    show "t \<in> set (tlists s' (Wait x)) \<longleftrightarrow> ?p t = Some (In_Sem_Take x) \<and> stat (threads s' t) = RT_THREAD_SUSPEND"
      using m T(6)[of t x] aged_suspended[OF T(5)[of t]] by blast
    show "t \<in> set (tlists s' (Wait x)) \<longrightarrow> error (threads s' t) = RT_EOK"
      using wt T(6)[of t x] T(5)[of t] by (auto simp: waits_ok_def aged_def)
  qed (use wt in \<open>simp add: waits_ok_def\<close>)
  moreover have "granted s' ?p x = granted ?s ?p x" for x
  proof -
    have "t \<in> granted s' ?p x \<longleftrightarrow> t \<in> granted ?s ?p x" for t using T(5)[of t] by (auto simp: granted_def aged_def)
    then show ?thesis by blast
  qed
  then have "balance (w\<lparr>kern := s'\<rparr>) y = b y" for y using bal[of y] T(1) by (simp add: balance_def same_ipc_def)
  ultimately show ?thesis using k' by (simp add: system_ok_def)
qed

lemma yield_keeps:
  assumes i: "system_ok idle b w" and t: "rt_current_thread (kern w) = Some t"
  shows "\<exists>r s'. rt_thread_yield (kern w) = Some (r, s') \<and> system_ok idle b (w\<lparr>kern := s'\<rparr>)"
proof -
  have k: "kernel_ok idle (kern w)" using i by (simp add: system_ok_def)
  then have "sys 0 {} (kern w)" by (simp add: kernel_ok_def)
  from yield_time_passes[OF this t running_is_ready[OF k t]] show ?thesis using time_keeps[OF i] by blast
qed

lemma tick_keeps:
  assumes i: "system_ok idle b w" and cb: "callbacks_ok cb"
  shows "\<exists>s'. rt_tick_increase cb (kern w) = Some s' \<and> rt_tick s' = rt_tick (kern w) + 1 \<and> system_ok idle b (w\<lparr>kern := s'\<rparr>)"
proof -
  have k: "kernel_ok idle (kern w)" using i by (simp add: system_ok_def)
  then obtain t where t: "rt_current_thread (kern w) = Some t" "stat (threads (kern w) t) = RT_THREAD_READY" by (rule running_ready)
  have "sys 0 {} (kern w)" "periods_ok (kern w)" "only_thread_timers (kern w)" using k by (simp_all add: kernel_ok_def)
  from tick_time_passes[OF cb this t] show ?thesis using time_keeps[OF i] by blast
qed

lemma step_keeps: "sys_step cb idle w w' \<Longrightarrow> callbacks_ok cb \<Longrightarrow> system_ok idle b w \<Longrightarrow> system_ok idle b w'"
proof (induction rule: sys_step.induct)
  case (take w t time x r s')
  then show ?case using take_keeps[of idle b w t time x] by auto
next
  case (take_resume w t x)
  then show ?case using resume_keeps by blast
next
  case (release x w r s')
  then show ?case using release_keeps[of idle b w x] by auto
next
  case (sleep w t tick s')
  then show ?case using sleep_keeps[of idle b w t tick] by auto
next
  case (sleep_resume w t)
  then show ?case using sleep_resume_keeps by blast
next
  case (yield w t r s')
  then show ?case using yield_keeps[of idle b w t] by auto
next
  case (tick w s')
  then show ?case using tick_keeps[of idle b w cb] by auto
qed

theorem run_keeps:
  assumes "sys_run cb idle w w'" "callbacks_ok cb" "system_ok idle b w"
  shows "system_ok idle b w'"
  using assms unfolding sys_run_def by (induction rule: rtranclp_induct) (auto intro: step_keeps)

text \<open>A system that starts: no call was counted, and no token is under way.\<close>

definition system_start :: "tid \<Rightarrow> system \<Rightarrow> bool" where
  "system_start idle w \<longleftrightarrow> kernel_ok idle (kern w) \<and> waits_ok (kern w) (pend w) \<and>
     takes w = (\<lambda>_. 0) \<and> gives w = (\<lambda>_. 0) \<and> (\<forall>x. granted (kern w) (pend w) x = {})"

lemma start_ok: "system_start idle w \<Longrightarrow> system_ok idle (\<lambda>x. sem_value (sems (kern w) x)) w"
  by (simp add: system_start_def system_ok_def balance_def)

end
