(* ===== verification/RT_Printf.thy ===== *)
theory RT_Printf
  imports RT_Kservice RT_Memory
begin

text \<open>
  Formatted output of \<^verbatim>\<open>Kernel/kservice.c\<close>: \<^verbatim>\<open>divide\<close>, \<^verbatim>\<open>skip_atoi\<close>, \<^verbatim>\<open>print_number\<close>, \<^verbatim>\<open>rt_vsnprintf\<close> and the
  functions on top of it, in the variant that is compiled: with the precision (\<^verbatim>\<open>RT_PRINTF_PRECISION\<close> is defined at
  the top of the file), without long long and without the \<^verbatim>\<open>0x\<close> prefix (their macros are defined nowhere).
  A format or a string argument is the list of the bytes from its address on, as in the other
  string functions; the arguments are a list, and taking one that is not there or has the wrong
  kind is \<^term>\<open>None\<close>. The buffer is a part of the memory; strings the call reads do not overlap it.
  C's \<^verbatim>\<open>int\<close> is \<^typ>\<open>int\<close> where overflow would be undefined (field widths, precisions).
\<close>

subsection \<open>Numbers\<close>

definition divide :: "u32 \<Rightarrow> u32 \<Rightarrow> u32 \<times> u32" where
  "divide n base = (if base = 10 then (n mod 10, n div 10) else (n mod 16, n div 16))"

abbreviation (input) ZEROPAD :: u8 where "ZEROPAD \<equiv> 0x01"
abbreviation (input) SIGN :: u8 where "SIGN \<equiv> 0x02"
abbreviation (input) PLUS :: u8 where "PLUS \<equiv> 0x04"
abbreviation (input) SPACE :: u8 where "SPACE \<equiv> 0x08"
abbreviation (input) LEFT :: u8 where "LEFT \<equiv> 0x10"
abbreviation (input) SPECIAL :: u8 where "SPECIAL \<equiv> 0x20"
abbreviation (input) LARGE :: u8 where "LARGE \<equiv> 0x40"

definition small_digits :: "u8 list" where
  "small_digits = [48, 49, 50, 51, 52, 53, 54, 55, 56, 57, 97, 98, 99, 100, 101, 102]"

definition large_digits :: "u8 list" where
  "large_digits = [48, 49, 50, 51, 52, 53, 54, 55, 56, 57, 65, 66, 67, 68, 69, 70]"

text \<open>The output position and the memory; \<^verbatim>\<open>if (str <= end) *str = c; ++str\<close>.\<close>

type_synonym out = "u32 \<times> mem"

fun put :: "u32 \<Rightarrow> u8 \<Rightarrow> out \<Rightarrow> out" where
  "put lim c (str, m) = (str + 1, if str \<le> lim then m(str := c) else m)"

text \<open>\<^verbatim>\<open>while (size-- > 0)\<close> with the character \<open>c\<close>, and \<^verbatim>\<open>while (--field_width > 0)\<close> with a space.\<close>

function fill :: "u32 \<Rightarrow> u8 \<Rightarrow> int \<Rightarrow> out \<Rightarrow> int \<times> out" where
  "fill lim c sz o1 = (if sz > 0 then fill lim c (sz - 1) (put lim c o1) else (sz - 1, o1))"
  by pat_completeness auto
termination by (relation "measure (\<lambda>(_, _, sz, _). nat sz)") auto

function fill_pre :: "u32 \<Rightarrow> int \<Rightarrow> out \<Rightarrow> int \<times> out" where
  "fill_pre lim w o1 = (if w - 1 > 0 then fill_pre lim (w - 1) (put lim 32 o1) else (w - 1, o1))"
  by pat_completeness auto
termination by (relation "measure (\<lambda>(_, w, _). nat w)") auto

declare fill.simps [simp del] fill_pre.simps [simp del]

text \<open>The digits of a number, the last one first: \<^verbatim>\<open>while (num != 0) tmp[i++] = digits[divide(&num, base)]\<close>.\<close>

function num_digits :: "u8 list \<Rightarrow> u32 \<Rightarrow> u32 \<Rightarrow> u8 list" where
  "num_digits digits base num =
    (if num \<noteq> 0 then digits ! unat (fst (divide num base)) # num_digits digits base (snd (divide num base)) else [])"
  by pat_completeness auto
termination
proof (relation "measure (\<lambda>(_, _, num). unat num)")
  fix digits :: "u8 list" and base num :: u32
  assume "num \<noteq> 0"
  then have "0 < unat num" by (simp add: unat_gt_0)
  then show "((digits, base, snd (divide num base)), digits, base, num) \<in> measure (\<lambda>(_, _, num). unat num)"
    by (simp add: divide_def unat_div)
qed simp

declare num_digits.simps [simp del]

definition print_number :: "u32 \<Rightarrow> u32 \<Rightarrow> u32 \<Rightarrow> int \<Rightarrow> int \<Rightarrow> u8 \<Rightarrow> out \<Rightarrow> out" where
  "print_number lim num base s precision type o1 =
    (let digits = (if type AND LARGE \<noteq> 0 then large_digits else small_digits);
         type = (if type AND LEFT \<noteq> 0 then type AND NOT ZEROPAD else type);
         c = (if type AND ZEROPAD \<noteq> 0 then 48 else 32);
         (sign, num) = (if type AND SIGN \<noteq> 0 then
             if sint num < 0 then (45, - num)
             else if type AND PLUS \<noteq> 0 then (43, num)
             else if type AND SPACE \<noteq> 0 then (32, num)
             else (0, num)
           else (0, num));
         tmp = (if num = 0 then [48] else num_digits digits base num);
         precision = (if int (length tmp) > precision then int (length tmp) else precision);
         sz = s - precision;
         (sz, o1) = (if type AND (ZEROPAD OR LEFT) = 0
           then fill lim 32 (if sign \<noteq> 0 \<and> sz > 0 then sz - 1 else sz) o1 else (sz, o1));
         (sz, o1) = (if sign \<noteq> 0 then (if fst o1 \<le> lim then sz - 1 else sz, put lim sign o1) else (sz, o1));
         (sz, o1) = (if type AND LEFT = 0 then fill lim c sz o1 else (sz, o1));
         o1 = snd (fill lim 48 (precision - int (length tmp)) o1);
         o1 = fold (put lim) (rev tmp) o1
     in snd (fill lim 32 sz o1))"

subsection \<open>The format\<close>

definition isdigit :: "u8 \<Rightarrow> bool" where
  "isdigit c \<longleftrightarrow> (ucast c :: u32) - 48 < 10"

fun skip_atoi :: "int \<Rightarrow> u8 list \<Rightarrow> (int \<times> u8 list) option" where
  "skip_atoi i [] = None"
| "skip_atoi i (c # cs) = (if isdigit c then skip_atoi (i * 10 + uint c - 48) cs else Some (i, c # cs))"

fun get_flags :: "u8 \<Rightarrow> u8 list \<Rightarrow> (u8 \<times> u8 list) option" where
  "get_flags flags [] = None"
| "get_flags flags (c # cs) =
    (if c = 45 then get_flags (flags OR LEFT) cs
     else if c = 43 then get_flags (flags OR PLUS) cs
     else if c = 32 then get_flags (flags OR SPACE) cs
     else if c = 35 then get_flags (flags OR SPECIAL) cs
     else if c = 48 then get_flags (flags OR ZEROPAD) cs
     else Some (flags, c # cs))"

datatype varg = Word_Arg u32 | Str_Arg "u8 list option"

fun arg_word :: "varg list \<Rightarrow> (u32 \<times> varg list) option" where
  "arg_word (Word_Arg w # args) = Some (w, args)"
| "arg_word _ = None"

fun arg_str :: "varg list \<Rightarrow> (u8 list option \<times> varg list) option" where
  "arg_str (Str_Arg s # args) = Some (s, args)"
| "arg_str _ = None"

text \<open>Field width: digits, a star (the next argument), or none (-1).\<close>

definition get_width :: "u8 \<Rightarrow> u8 list \<Rightarrow> varg list \<Rightarrow> (u8 \<times> int \<times> u8 list \<times> varg list) option" where
  "get_width flags fmt args = (case fmt of [] \<Rightarrow> None | c # cs \<Rightarrow>
     if isdigit c then do { (i, fmt) \<leftarrow> skip_atoi 0 fmt; Some (flags, i, fmt, args) }
     else if c = 42 then do {
       (w, args) \<leftarrow> arg_word args;
       if sint w < 0 then Some (flags OR LEFT, - sint w, cs, args) else Some (flags, sint w, cs, args)
     } else Some (flags, - 1, fmt, args))"

text \<open>Precision, behind a dot: digits, a star (the next argument), or none; without a dot it is -1.\<close>

definition get_precision :: "u8 list \<Rightarrow> varg list \<Rightarrow> (int \<times> u8 list \<times> varg list) option" where
  "get_precision fmt args = (case fmt of [] \<Rightarrow> None | c # cs \<Rightarrow>
     if c \<noteq> 46 then Some (- 1, fmt, args)
     else do {
       (precision, fmt, args) \<leftarrow> (case cs of [] \<Rightarrow> None | d # ds \<Rightarrow>
          if isdigit d then do { (i, fmt) \<leftarrow> skip_atoi 0 cs; Some (i, fmt, args) }
          else if d = 42 then do { (w, args) \<leftarrow> arg_word args; Some (sint w, ds, args) }
          else Some (- 1, cs, args));
       Some (if precision < 0 then 0 else precision, fmt, args)
     })"

definition get_qualifier :: "u8 list \<Rightarrow> (u8 \<times> u8 list) option" where
  "get_qualifier fmt = (case fmt of [] \<Rightarrow> None | c # cs \<Rightarrow>
     if c = 104 \<or> c = 108 then Some (c, cs) else Some (0, fmt))"

text \<open>The argument of a numeric conversion, narrowed by the qualifier \<open>h\<close>.\<close>

definition narrow :: "u8 \<Rightarrow> u8 \<Rightarrow> u32 \<Rightarrow> u32" where
  "narrow qualifier flags w =
    (if qualifier = 104 then
       if flags AND SIGN \<noteq> 0 then scast (ucast w :: u16) else ucast (ucast w :: u16)
     else w)"

definition null_text :: "u8 list" where
  "null_text = [40, 78, 85, 76, 76, 41, 0]"

text \<open>The \<^verbatim>\<open>switch\<close>: one conversion character with its flags, width, precision and qualifier.\<close>

definition print_string :: "u32 \<Rightarrow> u8 \<Rightarrow> int \<Rightarrow> int \<Rightarrow> u8 list \<Rightarrow> out \<Rightarrow> out option" where
  "print_string lim flags w precision s o1 = do {
     len \<leftarrow> rt_strlen s;
     let len = (if precision > 0 \<and> int len > precision then nat precision else len);
     let (w, o1) = (if flags AND LEFT = 0
        then (let (k, o1) = fill lim 32 (w - int len) o1 in (k + int len, o1)) else (w, o1));
     let o1 = fold (put lim) (take len s) o1;
     Some (snd (fill lim 32 (w - int len) o1))
   }"

definition convert :: "u32 \<Rightarrow> u8 \<Rightarrow> int \<Rightarrow> int \<Rightarrow> u8 \<Rightarrow> u8 \<Rightarrow> varg list \<Rightarrow> out \<Rightarrow> (varg list \<times> out) option" where
  "convert lim flags w precision qualifier c args o1 =
    (if c = 99 then do {
       let (w, o1) = (if flags AND LEFT = 0 then fill_pre lim w o1 else (w, o1));
       (a, args) \<leftarrow> arg_word args;
       let o1 = put lim (ucast a) o1;
       Some (args, snd (fill_pre lim w o1))
     } else if c = 115 then do {
       (s, args) \<leftarrow> arg_str args;
       o1 \<leftarrow> print_string lim flags w precision (case s of None \<Rightarrow> null_text | Some s \<Rightarrow> s) o1;
       Some (args, o1)
     } else if c = 112 then do {
       let (w, flags) = (if w = - 1 then (8, flags OR ZEROPAD) else (w, flags));
       (a, args) \<leftarrow> arg_word args;
       Some (args, print_number lim a 16 w precision flags o1)
     } else if c = 37 then Some (args, put lim 37 o1)
     else if c \<in> {111, 88, 120, 100, 105, 117} then do {
       let base = (if c = 111 then 8 else if c = 88 \<or> c = 120 then 16 else 10);
       let flags = (if c = 88 then flags OR LARGE else if c = 100 \<or> c = 105 then flags OR SIGN else flags);
       (a, args) \<leftarrow> arg_word args;
       Some (args, print_number lim (narrow qualifier flags a) base w precision flags o1)
     } else do {
       let o1 = put lim 37 o1;
       Some (args, if c \<noteq> 0 then put lim c o1 else o1)
     })"

text \<open>After the conversion the format continues behind its character; a format that ends there ends.\<close>

definition convert_spec :: "u32 \<Rightarrow> u8 list \<Rightarrow> varg list \<Rightarrow> out \<Rightarrow> (u8 list \<times> varg list \<times> out) option" where
  "convert_spec lim fmt args o1 = do {
     (flags, fmt) \<leftarrow> get_flags 0 fmt;
     (flags, w, fmt, args) \<leftarrow> get_width flags fmt args;
     (precision, fmt, args) \<leftarrow> get_precision fmt args;
     (qualifier, fmt) \<leftarrow> get_qualifier fmt;
     case fmt of [] \<Rightarrow> None | c # cs \<Rightarrow> do {
       (args, o1) \<leftarrow> convert lim flags w precision qualifier c args o1;
       Some (if c = 0 then fmt else cs, args, o1)
     }
   }"

lemma skip_atoi_length: "skip_atoi i fmt = Some (j, rest) \<Longrightarrow> length rest \<le> length fmt"
  by (induction i fmt rule: skip_atoi.induct) (auto split: if_splits)

lemma get_flags_length: "get_flags f fmt = Some (g, rest) \<Longrightarrow> length rest \<le> length fmt"
  by (induction f fmt rule: get_flags.induct) (auto split: if_splits)

lemma get_width_length: "get_width f fmt args = Some (g, w, rest, args') \<Longrightarrow> length rest \<le> length fmt"
  by (auto simp: get_width_def bind_eq_Some_conv dest: skip_atoi_length split: list.splits if_splits)

lemma get_precision_length: "get_precision fmt args = Some (p, rest, args') \<Longrightarrow> length rest \<le> length fmt"
  by (auto simp: get_precision_def bind_eq_Some_conv dest!: skip_atoi_length split: list.splits if_splits)

lemma get_qualifier_length: "get_qualifier fmt = Some (q, rest) \<Longrightarrow> length rest \<le> length fmt"
  by (auto simp: get_qualifier_def split: list.splits if_splits)

lemma convert_spec_length:
  assumes "convert_spec lim fmt args o1 = Some (rest, args', o2)"
  shows "length rest \<le> length fmt"
proof -
  obtain f fmt1 where 1: "get_flags 0 fmt = Some (f, fmt1)" using assms by (auto simp: convert_spec_def bind_eq_Some_conv)
  obtain g w fmt2 args1 where 2: "get_width f fmt1 args = Some (g, w, fmt2, args1)"
    using assms 1 by (auto simp: convert_spec_def bind_eq_Some_conv)
  obtain p fmt3 args2 where 3: "get_precision fmt2 args1 = Some (p, fmt3, args2)"
    using assms 1 2 by (auto simp: convert_spec_def bind_eq_Some_conv)
  obtain q fmt4 where 4: "get_qualifier fmt3 = Some (q, fmt4)" using assms 1 2 3 by (auto simp: convert_spec_def bind_eq_Some_conv)
  have "length rest \<le> length fmt4"
    using assms 1 2 3 4 by (cases fmt4) (auto simp: convert_spec_def bind_eq_Some_conv split: if_splits)
  then show ?thesis
    using get_flags_length[OF 1] get_width_length[OF 2] get_precision_length[OF 3] get_qualifier_length[OF 4] by linarith
qed

text \<open>The loop over the format.\<close>

function format_loop :: "u32 \<Rightarrow> u8 list \<Rightarrow> varg list \<Rightarrow> out \<Rightarrow> out option" where
  "format_loop lim fmt args o1 = (case fmt of [] \<Rightarrow> None | c # cs \<Rightarrow>
     if c = 0 then Some o1
     else if c \<noteq> 37 then format_loop lim cs args (put lim c o1)
     else (case convert_spec lim cs args o1 of None \<Rightarrow> None
           | Some (fmt, args, o1) \<Rightarrow> format_loop lim fmt args o1))"
  by pat_completeness auto
termination
  by (relation "measure (\<lambda>(_, fmt, _, _). length fmt)") (auto dest: convert_spec_length)

declare format_loop.simps [simp del]

definition rt_vsnprintf :: "u32 \<Rightarrow> u32 \<Rightarrow> u8 list \<Rightarrow> varg list \<Rightarrow> mem \<Rightarrow> (u32 \<times> mem) option" where
  "rt_vsnprintf buf sz fmt args m = do {
     let lim = buf + sz - 1;
     let lim = (if lim < buf then 0xffffffff else lim);
     (str, m) \<leftarrow> format_loop lim fmt args (buf, m);
     Some (str - buf, if str \<le> lim then m(str := 0) else m(lim := 0))
   }"

definition rt_snprintf :: "u32 \<Rightarrow> u32 \<Rightarrow> u8 list \<Rightarrow> varg list \<Rightarrow> mem \<Rightarrow> (u32 \<times> mem) option" where
  "rt_snprintf buf sz fmt args m = rt_vsnprintf buf sz fmt args m"

definition rt_vsprintf :: "u32 \<Rightarrow> u8 list \<Rightarrow> varg list \<Rightarrow> mem \<Rightarrow> (u32 \<times> mem) option" where
  "rt_vsprintf buf fmt args m = rt_vsnprintf buf (- 1) fmt args m"

definition rt_sprintf :: "u32 \<Rightarrow> u8 list \<Rightarrow> varg list \<Rightarrow> mem \<Rightarrow> (u32 \<times> mem) option" where
  "rt_sprintf buf fmt args m = rt_vsprintf buf fmt args m"

subsection \<open>What the output loops write\<close>

lemma fill_eq:
  "fill lim c sz o1 = (if sz > 0 then - 1 else sz - 1, fold (put lim) (replicate (nat sz) c) o1)"
proof (induction lim c sz o1 rule: fill.induct)
  case (1 lim c sz o1)
  show ?case
  proof (cases "sz > 0")
    case True
    then have "nat sz = Suc (nat (sz - 1))" by simp
    then show ?thesis using 1 True by (simp add: fill.simps[of lim c sz])
  qed (simp add: fill.simps)
qed

lemma fill_pre_eq:
  "fill_pre lim w o1 = (if w > 1 then 0 else w - 1, fold (put lim) (replicate (nat (w - 1)) 32) o1)"
proof (induction lim w o1 rule: fill_pre.induct)
  case (1 lim w o1)
  show ?case
  proof (cases "w > 1")
    case True
    then have "nat (w - 1) = Suc (nat (w - 1 - 1))" by simp
    then show ?thesis using 1 True by (simp add: fill_pre.simps[of lim w])
  qed (simp add: fill_pre.simps)
qed

lemma fold_put_pos: "fst (fold (put lim) xs (str, m)) = str + of_nat (length xs)"
  by (induction xs arbitrary: str m) (auto simp: algebra_simps)

lemma fold_put_mem:
  assumes "unat str + length xs \<le> 2 ^ 32"
  shows "snd (fold (put lim) xs (str, m)) a =
    (if unat str \<le> unat a \<and> unat a < unat str + length xs \<and> a \<le> lim then xs ! (unat a - unat str) else m a)"
  using assms
proof (induction xs arbitrary: str m)
  case (Cons x xs)
  show ?case
  proof (cases xs)
    case Nil
    have "unat str = unat a \<longleftrightarrow> str = a" by (simp add: word_unat_eq_iff)
    then show ?thesis using Nil by auto
  next
    case (Cons y ys)
    then have s: "unat (str + 1) = unat str + 1" using Cons.prems by (simp add: unat_word_ariths)
    let ?m = "if str \<le> lim then m(str := x) else m"
    have IH: "snd (fold (put lim) xs (str + 1, ?m)) a =
        (if unat str + 1 \<le> unat a \<and> unat a < unat str + 1 + length xs \<and> a \<le> lim then xs ! (unat a - (unat str + 1)) else ?m a)"
      using Cons.IH[of "str + 1" ?m] Cons.prems s by simp
    show ?thesis
    proof (cases "unat a = unat str")
      case True
      then have "a = str" by (simp add: word_unat_eq_iff)
      then show ?thesis using IH by simp
    next
      case False
      then have "a \<noteq> str" "unat str + 1 \<le> unat a \<longleftrightarrow> unat str \<le> unat a" by auto
      moreover have "(x # xs) ! (unat a - unat str) = xs ! (unat a - (unat str + 1))" if "unat str + 1 \<le> unat a"
        using that by (simp add: nth_Cons' diff_diff_left)
      ultimately show ?thesis using IH by auto
    qed
  qed
qed auto

subsection \<open>A reference for the output\<close>

text \<open>
  The characters of each conversion. In \<open>number_text\<close> the flag \<open>fits\<close> says that the sign was still inside the
  buffer; if it is not, the code forgets to count it in the field width.
\<close>

definition sign_text :: "u8 \<Rightarrow> u32 \<Rightarrow> u8 list" where
  "sign_text flags num = (if flags AND SIGN = 0 then [] else if sint num < 0 then [45]
     else if flags AND PLUS \<noteq> 0 then [43] else if flags AND SPACE \<noteq> 0 then [32] else [])"

definition magnitude :: "u8 \<Rightarrow> u32 \<Rightarrow> u32" where
  "magnitude flags num = (if flags AND SIGN \<noteq> 0 \<and> sint num < 0 then - num else num)"

definition digit_text :: "u8 \<Rightarrow> u32 \<Rightarrow> u32 \<Rightarrow> u8 list" where
  "digit_text flags base num = (if num = 0 then [48]
     else rev (num_digits (if flags AND LARGE \<noteq> 0 then large_digits else small_digits) base num))"

text \<open>At least \<open>p\<close> digits.\<close>

definition padded_digits :: "int \<Rightarrow> u8 list \<Rightarrow> u8 list" where
  "padded_digits p ds = replicate (nat (p - int (length ds))) 48 @ ds"

lemma padded_digits_length [simp]: "int (length (padded_digits p ds)) = max p (int (length ds))"
  by (simp add: padded_digits_def max_def)

definition number_text :: "bool \<Rightarrow> u32 \<Rightarrow> u32 \<Rightarrow> int \<Rightarrow> int \<Rightarrow> u8 \<Rightarrow> u8 list" where
  "number_text fits num base w p flags =
    (let sg = sign_text flags num; ds = padded_digits p (digit_text flags base (magnitude flags num));
         pad = nat (w - int (length ds) - (if fits then int (length sg) else 0))
     in if flags AND LEFT \<noteq> 0 then sg @ ds @ replicate pad 32
        else if flags AND ZEROPAD \<noteq> 0 then sg @ replicate pad 48 @ ds
        else replicate (nat (w - int (length ds) - int (length sg))) 32 @ sg @ ds)"

definition string_text :: "u8 \<Rightarrow> int \<Rightarrow> u8 list \<Rightarrow> u8 list" where
  "string_text flags w s = (if flags AND LEFT \<noteq> 0 then s @ replicate (nat (w - int (length s))) 32
     else replicate (nat (w - int (length s))) 32 @ s)"

lemma flag_either: "(f :: u8) AND (ZEROPAD OR LEFT) = 0 \<longleftrightarrow> f AND ZEROPAD = 0 \<and> f AND LEFT = 0"
  unfolding bit.conj_disj_distrib or_eq_0_iff ..

lemma fold_put_append: "fold (put lim) (xs @ ys) o1 = fold (put lim) ys (fold (put lim) xs o1)"
  by simp

lemma nat_diff_le [simp]: "nat (- 1) = 0" by simp

text \<open>\<^verbatim>\<open>print_number\<close> prints the reference text; where the sign comes first, it counts if it fits.\<close>

lemma print_number_text:
  "print_number lim num base w p flags o1 =
    fold (put lim) (number_text (flags AND (ZEROPAD OR LEFT) = 0 \<or> fst o1 \<le> lim) num base w p flags) o1"
proof -
  define ty where "ty = (if flags AND LEFT \<noteq> 0 then flags AND NOT ZEROPAD else flags)"
  define sg where "sg = sign_text flags num"
  define ds where "ds = digit_text flags base (magnitude flags num)"
  have ty: "ty AND SIGN = flags AND SIGN" "ty AND PLUS = flags AND PLUS" "ty AND SPACE = flags AND SPACE" "ty AND LEFT = flags AND LEFT"
    "ty AND ZEROPAD \<noteq> 0 \<longleftrightarrow> flags AND ZEROPAD \<noteq> 0 \<and> flags AND LEFT = 0"
    by (simp_all add: ty_def and.assoc)
  have pair: "(if ty AND SIGN \<noteq> 0 then if sint num < 0 then (45, - num) else if ty AND PLUS \<noteq> 0 then (43, num)
      else if ty AND SPACE \<noteq> 0 then (32, num) else (0, num) else (0, num)) =
    (case sg of [] \<Rightarrow> 0 | c # _ \<Rightarrow> c, magnitude flags num)"
    unfolding ty sg_def sign_text_def magnitude_def by simp
  have tmp: "(if magnitude flags num = 0 then [48] else num_digits (if flags AND LARGE \<noteq> 0 then large_digits else small_digits) base (magnitude flags num)) = rev ds"
    by (simp add: ds_def digit_text_def)
  have sg: "sg = [] \<or> (\<exists>c. sg = [c] \<and> c \<noteq> 0)" by (auto simp: sg_def sign_text_def)
  have z: "ty AND (ZEROPAD OR LEFT) = 0 \<longleftrightarrow> flags AND ZEROPAD = 0 \<and> flags AND LEFT = 0"
    unfolding flag_either using ty(4,5) by auto
  define pds where "pds = padded_digits p ds"
  have prec: "(if int (length (rev ds)) > p then int (length (rev ds)) else p) = int (length pds)" by (simp add: pds_def)
  have zeros: "fold (put lim) (rev (rev ds)) (snd (fill lim 48 (int (length pds) - int (length (rev ds))) o2)) = fold (put lim) pds o2" for o2
    by (simp add: pds_def fill_eq max_def) (simp add: padded_digits_def)
  have P: "print_number lim num base w p flags o1 =
    (let sign = (case sg of [] \<Rightarrow> 0 | c # _ \<Rightarrow> c); sz = w - int (length pds);
         (sz, o1) = (if flags AND ZEROPAD = 0 \<and> flags AND LEFT = 0
           then fill lim 32 (if sign \<noteq> 0 \<and> sz > 0 then sz - 1 else sz) o1 else (sz, o1));
         (sz, o1) = (if sign \<noteq> 0 then (if fst o1 \<le> lim then sz - 1 else sz, put lim sign o1) else (sz, o1));
         (sz, o1) = (if flags AND LEFT = 0 then fill lim (if ty AND ZEROPAD \<noteq> 0 then 48 else 32) sz o1 else (sz, o1));
         o1 = fold (put lim) pds o1
     in snd (fill lim 32 sz o1))"
    unfolding print_number_def ty_def[symmetric] Let_def pair prod.case fst_conv snd_conv tmp z ty(4) prec zeros
    by (rule refl)
  show ?thesis
    using sg unfolding P number_text_def Let_def sg_def[symmetric] ds_def[symmetric] pds_def[symmetric] flag_either ty(5)
    by (cases "flags AND LEFT = 0"; cases "flags AND ZEROPAD = 0"; cases "fst o1 \<le> lim") (auto simp: fill_eq algebra_simps)
qed

definition conv_text :: "bool \<Rightarrow> u8 \<Rightarrow> int \<Rightarrow> int \<Rightarrow> u8 \<Rightarrow> u8 \<Rightarrow> varg list \<Rightarrow> (varg list \<times> u8 list) option" where
  "conv_text fits flags w p q c args =
    (if c = 99 then map_option (\<lambda>(a, args). (args, string_text flags w [ucast a])) (arg_word args)
     else if c = 115 then do {
       (s, args) \<leftarrow> arg_str args;
       let s = (case s of None \<Rightarrow> null_text | Some s \<Rightarrow> s);
       len \<leftarrow> rt_strlen s;
       Some (args, string_text flags w (take (if p > 0 then min len (nat p) else len) s))
     } else if c = 112 then map_option (\<lambda>(a, args). (args,
         if w = - 1 then number_text fits a 16 8 p (flags OR ZEROPAD) else number_text fits a 16 w p flags)) (arg_word args)
     else if c = 37 then Some (args, [37])
     else if c \<in> {111, 88, 120, 100, 105, 117} then
       (let base = (if c = 111 then 8 else if c = 88 \<or> c = 120 then 16 else 10);
            flags = (if c = 88 then flags OR LARGE else if c = 100 \<or> c = 105 then flags OR SIGN else flags)
        in map_option (\<lambda>(a, args). (args, number_text fits (narrow q flags a) base w p flags)) (arg_word args))
     else Some (args, if c = 0 then [37] else [37, c]))"

lemma number_text_cong: "flags AND (ZEROPAD OR LEFT) = 0 \<Longrightarrow> number_text f num base w p flags = number_text g num base w p flags"
  unfolding flag_either by (simp add: number_text_def)

lemma print_number_conv:
  "print_number lim num base w p flags o1 = fold (put lim) (number_text (fst o1 \<le> lim) num base w p flags) o1"
  unfolding print_number_text using number_text_cong[of flags True num base w p "fst o1 \<le> lim"]
  by (cases "flags AND (ZEROPAD OR LEFT) = 0") simp_all

lemma strlen_le: "rt_strlen s = Some len \<Longrightarrow> len \<le> length s"
  by (induction s arbitrary: len) (auto split: if_splits)

lemma print_string_text:
  "print_string lim flags w p s o1 =
    map_option (\<lambda>len. fold (put lim) (string_text flags w (take (if p > 0 then min len (nat p) else len) s)) o1) (rt_strlen s)"
proof (cases "rt_strlen s")
  case (Some len)
  define k where "k = (if p > 0 then min len (nat p) else len)"
  have k: "(if p > 0 \<and> int len > p then nat p else len) = k" by (auto simp: k_def)
  have "length (take k s) = k" using strlen_le[OF Some] by (simp add: k_def min_def)
  then show ?thesis using Some by (simp add: print_string_def string_text_def fill_eq Let_def k flip: k_def)
qed (simp add: print_string_def)

lemma convert_text:
  "convert lim flags w p q c args o1 =
    map_option (\<lambda>(args, xs). (args, fold (put lim) xs o1)) (conv_text (fst o1 \<le> lim) flags w p q c args)"
proof -
  have ch: "(let (w, o2) = (if flags AND LEFT = 0 then fill_pre lim w o1 else (w, o1))
      in Some (args, snd (fill_pre lim w (put lim a o2)))) = Some (args, fold (put lim) (string_text flags w [a]) o1)" for a args
    by (simp add: fill_pre_eq string_text_def)
  consider "c = 99" | "c = 115" | "c = 112" | "c = 37" | "c \<in> {111, 88, 120, 100, 105, 117}"
    | "c \<notin> {99, 115, 112, 37, 111, 88, 120, 100, 105, 117}" by blast
  then show ?thesis
  proof cases
    case 1
    then show ?thesis using ch by (cases "arg_word args") (auto simp: convert_def conv_text_def split_def Let_def)
  next
    case 2
    show ?thesis
    proof (cases "arg_str args")
      case None
      then show ?thesis using 2 by (simp add: convert_def conv_text_def)
    next
      case (Some sa)
      then obtain s args' where sa: "arg_str args = Some (s, args')" by (cases sa) auto
      show ?thesis
        by (cases "rt_strlen (case s of None \<Rightarrow> null_text | Some s \<Rightarrow> s)")
          (simp_all add: 2 sa convert_def conv_text_def print_string_text Let_def)
    qed
  next
    case 3
    then show ?thesis by (cases "arg_word args") (auto simp: convert_def conv_text_def print_number_conv split_def Let_def)
  next
    case 4
    then show ?thesis by (simp add: convert_def conv_text_def)
  next
    case 5
    then show ?thesis by (cases "arg_word args") (auto simp: convert_def conv_text_def print_number_conv split_def Let_def)
  next
    case 6
    then show ?thesis by (auto simp: convert_def conv_text_def)
  qed
qed

text \<open>The text of a conversion, and of a whole format whose output fits.\<close>

definition spec_text :: "bool \<Rightarrow> u8 list \<Rightarrow> varg list \<Rightarrow> (u8 list \<times> varg list \<times> u8 list) option" where
  "spec_text fits fmt args = do {
     (flags, fmt) \<leftarrow> get_flags 0 fmt;
     (flags, w, fmt, args) \<leftarrow> get_width flags fmt args;
     (p, fmt, args) \<leftarrow> get_precision fmt args;
     (q, fmt) \<leftarrow> get_qualifier fmt;
     case fmt of [] \<Rightarrow> None | c # cs \<Rightarrow> do {
       (args, xs) \<leftarrow> conv_text fits flags w p q c args;
       Some (if c = 0 then fmt else cs, args, xs)
     }
   }"

lemma convert_spec_text:
  "convert_spec lim fmt args o1 =
    map_option (\<lambda>(fmt, args, xs). (fmt, args, fold (put lim) xs o1)) (spec_text (fst o1 \<le> lim) fmt args)"
  unfolding convert_spec_def spec_text_def convert_text
  by (auto simp: map_option_case split: Option.bind_splits list.splits option.splits prod.splits)

lemma spec_text_length: "spec_text True fmt args = Some (rest, args', xs) \<Longrightarrow> length rest \<le> length fmt"
  using convert_spec_length[of "0xffffffff" fmt args "(0, \<lambda>_. 0)"] convert_spec_text[of "0xffffffff" fmt args "(0, \<lambda>_. 0)"] by simp

function format_text :: "u8 list \<Rightarrow> varg list \<Rightarrow> u8 list option" where
  "format_text fmt args = (case fmt of [] \<Rightarrow> None | c # cs \<Rightarrow>
     if c = 0 then Some []
     else if c \<noteq> 37 then map_option ((#) c) (format_text cs args)
     else (case spec_text True cs args of None \<Rightarrow> None
           | Some (fmt, args, xs) \<Rightarrow> map_option ((@) xs) (format_text fmt args)))"
  by pat_completeness auto
termination
  by (relation "measure (\<lambda>(fmt, _). length fmt)") (auto dest: spec_text_length)

declare format_text.simps [simp del]

text \<open>As long as the output stays inside the buffer, the loop writes the reference text.\<close>

lemma format_loop_text:
  assumes "format_text fmt args = Some xs" "unat (fst o1) + length xs \<le> unat lim"
  shows "format_loop lim fmt args o1 = Some (fold (put lim) xs o1)"
  using assms
proof (induction fmt args arbitrary: o1 xs rule: format_text.induct)
  case (1 fmt args)
  then obtain c cs where fmt: "fmt = c # cs" by (cases fmt) (auto simp: format_text.simps)
  have le: "fst o1 \<le> lim" using 1(4) by (simp add: word_le_nat_alt)
  have step: "unat (fst (fold (put lim) ys o1)) = unat (fst o1) + length ys" if "length ys \<le> length xs" for ys
  proof -
    have l: "unat (fst o1) + length ys < 2 ^ 32" using that 1(4) unat_u32_less[of lim] by simp
    have "fst (fold (put lim) ys o1) = fst o1 + of_nat (length ys)" using fold_put_pos[of lim ys "fst o1" "snd o1"] by simp
    moreover have "unat (of_nat (length ys) :: u32) = length ys" using l by (simp add: unat_of_nat)
    ultimately show ?thesis using l by (simp add: unat_word_ariths)
  qed
  consider "c = 0" | "c \<noteq> 0" "c \<noteq> 37" | "c = 37" by auto
  then show ?case
  proof cases
    case 1
    then show ?thesis using "1.prems" fmt by (simp add: format_loop.simps format_text.simps)
  next
    case 2
    then obtain ys where ys: "format_text cs args = Some ys" "xs = c # ys" using "1.prems"(1) fmt by (auto simp: format_text.simps[of "c # cs"])
    have "unat (fst (put lim c o1)) + length ys \<le> unat lim" using step[of "[c]"] "1.prems"(2) ys(2) by simp
    then show ?thesis using "1.IH"(1)[OF fmt 2 ys(1)] 2 fmt ys(2) by (simp add: format_loop.simps[of lim "c # cs"])
  next
    case 3
    then obtain fmt' args' ys zs where s: "spec_text True cs args = Some (fmt', args', ys)" "format_text fmt' args' = Some zs" "xs = ys @ zs"
      using "1.prems"(1) fmt by (auto simp: format_text.simps[of "37 # cs"] split: option.splits)
    have "unat (fst (fold (put lim) ys o1)) + length zs \<le> unat lim" using step[of ys] "1.prems"(2) s(3) by simp
    then have "format_loop lim fmt' args' (fold (put lim) ys o1) = Some (fold (put lim) zs (fold (put lim) ys o1))"
      using "1.IH"(2)[OF fmt] 3 s by simp
    then show ?thesis using 3 fmt s convert_spec_text[of lim cs args o1] le by (simp add: format_loop.simps[of lim "37 # cs"])
  qed
qed

text \<open>The text followed by a zero at \<open>buf\<close>, and nothing else changed.\<close>

definition writes :: "u32 \<Rightarrow> u8 list \<Rightarrow> mem \<Rightarrow> mem" where
  "writes buf xs m = (\<lambda>a. if unat buf \<le> unat a \<and> unat a < unat buf + length xs then xs ! (unat a - unat buf) else m a)"

lemma buffer_end:
  fixes buf size' :: u32
  assumes "unat buf + unat size' \<le> 2 ^ 32" "0 < size'"
  shows "unat (buf + size' - 1) = unat buf + unat size' - 1" "buf \<le> buf + size' - 1"
proof -
  have p: "0 < unat size'" using assms(2) by (simp add: unat_gt_0 word_gt_0)
  have s: "unat (size' - 1) = unat size' - 1" using p by (subst unat_sub) (simp_all add: word_le_nat_alt)
  have e: "buf + size' - 1 = buf + (size' - 1)" by simp
  have "unat buf + unat (size' - 1) < 2 ^ 32" using assms(1) p s by simp
  then have u: "unat (buf + (size' - 1)) = unat buf + unat (size' - 1)" by (simp add: unat_word_ariths)
  show "unat (buf + size' - 1) = unat buf + unat size' - 1" unfolding e u s using p by simp
  show "buf \<le> buf + size' - 1" unfolding e using u by (simp add: word_le_nat_alt)
qed

lemma rt_vsnprintf_text:
  assumes f: "format_text fmt args = Some xs" and b: "unat buf + unat sz \<le> 2 ^ 32" "length xs < unat sz"
  shows "rt_vsnprintf buf sz fmt args m = Some (of_nat (length xs), writes buf (xs @ [0]) m)"
proof -
  define lim where "lim = buf + sz - 1"
  have "0 < sz" using b(2) by (auto simp: word_gt_0)
  note L = buffer_end[OF b(1) this, folded lim_def]
  have fit: "unat buf + length xs \<le> unat lim" using L(1) b(2) by simp
  have run: "format_loop lim fmt args (buf, m) = Some (fold (put lim) xs (buf, m))"
    by (rule format_loop_text[OF f]) (use fit in simp)
  obtain str m' where o': "fold (put lim) xs (buf, m) = (str, m')" by fastforce
  have lx: "length xs < 2 ^ 32" using fit unat_u32_less[of lim] by simp
  have str: "str = buf + of_nat (length xs)" using fold_put_pos[of lim xs buf m] o' by simp
  have ul: "unat (of_nat (length xs) :: u32) = length xs" using lx by (simp add: unat_of_nat)
  have us: "unat str = unat buf + length xs"
    unfolding str using fit unat_u32_less[of lim] ul by (simp add: unat_word_ariths)
  have m': "m' a = (if unat buf \<le> unat a \<and> unat a < unat buf + length xs then xs ! (unat a - unat buf) else m a)" for a
    using fold_put_mem[of buf xs lim m a] o' fit unat_u32_less[of lim] by (auto simp: word_le_nat_alt)
  have "m'(str := 0) = writes buf (xs @ [0]) m"
  proof
    fix a
    have "a = str \<longleftrightarrow> unat a = unat buf + length xs" using us by (simp add: word_unat_eq_iff)
    then show "(m'(str := 0)) a = writes buf (xs @ [0]) m a" by (auto simp: m' writes_def nth_append)
  qed
  moreover have "str \<le> lim" using us fit by (simp add: word_le_nat_alt)
  moreover have "\<not> lim < buf" using L(2) by simp
  ultimately show ?thesis using run o' str
    by (simp add: rt_vsnprintf_def lim_def[symmetric] Let_def)
qed

subsection \<open>The buffer is never left\<close>

text \<open>
  A conversion that starts beyond the buffer has the text of one that fits, but for a sign that is not counted in
  the width: then there is one padding character more.
\<close>

lemma number_text_near:
  "length (number_text True n base w p f) \<le> length (number_text b n base w p f) \<and>
   length (number_text b n base w p f) \<le> length (number_text True n base w p f) + 1"
proof (cases b)
  case False
  have "length (sign_text f n) \<le> 1" by (simp add: sign_text_def)
  then show ?thesis by (auto simp: number_text_def Let_def)
qed simp

definition near :: "(varg list \<times> u8 list) option \<Rightarrow> (varg list \<times> u8 list) option \<Rightarrow> bool" where
  "near r s = (case (r, s) of (Some (args, xs), Some (args', ys)) \<Rightarrow>
       args = args' \<and> length xs \<le> length ys \<and> length ys \<le> length xs + 1
     | (r, s) \<Rightarrow> r = None \<and> s = None)"

lemma near_refl: "near r r"
  by (cases r) (auto simp: near_def)

lemma conv_text_near: "near (conv_text True f w p q c args) (conv_text b f w p q c args)"
proof -
  have n: "near (map_option (\<lambda>(a, args). (args, number_text True (g a) base w' p f')) r)
     (map_option (\<lambda>(a, args). (args, number_text b (g a) base w' p f')) r)" for g base w' f' and r :: "(u32 \<times> varg list) option"
    using number_text_near by (cases r) (auto simp: near_def)
  consider "c = 112" "w = - 1" | "c = 112" "w \<noteq> - 1" | "c \<in> {111, 88, 120, 100, 105, 117}"
    | "c \<notin> {112, 111, 88, 120, 100, 105, 117}" by blast
  then show ?thesis
  proof cases
    case 1
    then show ?thesis using n[of "\<lambda>a. a"] by (simp add: conv_text_def)
  next
    case 2
    then show ?thesis using n[of "\<lambda>a. a"] by (simp add: conv_text_def)
  next
    case 3
    then have "c \<noteq> 99" "c \<noteq> 115" "c \<noteq> 112" "c \<noteq> 37" by auto
    then show ?thesis using 3 by (simp add: conv_text_def Let_def n)
  next
    case 4
    then have "conv_text True f w p q c args = conv_text b f w p q c args" by (auto simp: conv_text_def)
    then show ?thesis by (simp add: near_refl)
  qed
qed

lemma spec_text_near:
  "spec_text True fmt args = None \<Longrightarrow> spec_text b fmt args = None"
  "spec_text True fmt args = Some (rest, args', xs) \<Longrightarrow>
    \<exists>ys. spec_text b fmt args = Some (rest, args', ys) \<and> length xs \<le> length ys \<and> length ys \<le> length xs + 1"
proof -
  have n: "conv_text True f w p q c args = None \<Longrightarrow> conv_text b f w p q c args = None"
    "conv_text True f w p q c args = Some (args', xs) \<Longrightarrow> \<exists>ys. conv_text b f w p q c args = Some (args', ys) \<and>
      length xs \<le> length ys \<and> length ys \<le> length xs + 1" for f w p q c args args' xs
    using conv_text_near[of f w p q c args b] by (auto simp: near_def split: option.splits prod.splits)
  show "spec_text True fmt args = None \<Longrightarrow> spec_text b fmt args = None"
    unfolding spec_text_def
    by (auto simp: bind_eq_None_conv split: list.splits prod.splits dest!: n)
  assume s: "spec_text True fmt args = Some (rest, args', xs)"
  obtain f fmt1 g w fmt2 args1 where 1: "get_flags 0 fmt = Some (f, fmt1)" "get_width f fmt1 args = Some (g, w, fmt2, args1)"
    using s by (auto simp: spec_text_def bind_eq_Some_conv)
  obtain p fmt3 args2 q fmt4 where 2: "get_precision fmt2 args1 = Some (p, fmt3, args2)" "get_qualifier fmt3 = Some (q, fmt4)"
    using s 1 by (auto simp: spec_text_def bind_eq_Some_conv)
  obtain c cs where 3: "fmt4 = c # cs" using s 1 2 by (cases fmt4) (auto simp: spec_text_def)
  have "conv_text True g w p q c args2 = Some (args', xs)" and r: "rest = (if c = 0 then fmt4 else cs)"
    using s 1 2 3 by (auto simp: spec_text_def bind_eq_Some_conv)
  then show "\<exists>ys. spec_text b fmt args = Some (rest, args', ys) \<and> length xs \<le> length ys \<and> length ys \<le> length xs + 1"
    using n(2)[of g w p q c args2 args' xs] 1 2 3 by (auto simp: spec_text_def)
qed

text \<open>
  The loop fails exactly if the reference does; otherwise what it writes inside the buffer is the reference text,
  and its output is longer by at most one character for each conversion.
\<close>

definition loop_writes :: "u32 \<Rightarrow> out \<Rightarrow> u8 list \<Rightarrow> nat \<Rightarrow> u8 list \<Rightarrow> bool" where
  "loop_writes lim o1 xs d ys \<longleftrightarrow> length xs \<le> length ys \<and> length ys \<le> length xs + d \<and>
    (unat (fst o1) + length ys < 2 ^ 32 \<longrightarrow>
      take (Suc (unat lim) - unat (fst o1)) ys = take (Suc (unat lim) - unat (fst o1)) xs)"

lemma loop_writes_append:
  assumes r: "loop_writes lim (fold (put lim) us o1) xs d ys"
    and u: "length vs \<le> length us" "length us \<le> length vs + 1" "fst o1 \<le> lim \<Longrightarrow> us = vs"
  shows "loop_writes lim o1 (vs @ xs) (Suc d) (us @ ys)"
proof -
  define s where "s = unat (fst o1)"
  have "take (Suc (unat lim) - s) (us @ ys) = take (Suc (unat lim) - s) (vs @ xs)" if w: "s + length (us @ ys) < 2 ^ 32"
  proof (cases "fst o1 \<le> lim")
    case True
    have "fst (fold (put lim) us o1) = fst o1 + of_nat (length us)" using fold_put_pos[of lim us "fst o1" "snd o1"] by simp
    then have p: "unat (fst (fold (put lim) us o1)) = s + length us"
      using w by (simp add: unat_word_ariths unat_of_nat s_def)
    have "take (Suc (unat lim) - (s + length us)) ys = take (Suc (unat lim) - (s + length us)) xs"
      using r w unfolding loop_writes_def p by simp
    then show ?thesis using u(3)[OF True] by (simp add: diff_diff_left)
  next
    case False
    then have "Suc (unat lim) - s = 0" by (simp add: s_def word_le_nat_alt)
    then show ?thesis by simp
  qed
  then show ?thesis using r u(1,2) unfolding loop_writes_def s_def by simp
qed

lemma format_loop_writes:
  "case format_text fmt args of None \<Rightarrow> format_loop lim fmt args o1 = None
   | Some xs \<Rightarrow> \<exists>ys. format_loop lim fmt args o1 = Some (fold (put lim) ys o1) \<and> loop_writes lim o1 xs (length fmt) ys"
proof (induction fmt args arbitrary: o1 rule: format_text.induct)
  case (1 fmt args)
  show ?case
  proof (cases fmt)
    case Nil
    then show ?thesis by (simp add: format_text.simps format_loop.simps)
  next
    case fmt: (Cons c cs)
    consider "c = 0" | "c \<noteq> 0" "c \<noteq> 37" | "c = 37" by auto
    then show ?thesis
    proof cases
      case 1
      have "loop_writes lim o1 [] (length fmt) []" by (simp add: loop_writes_def)
      then show ?thesis using 1 fmt by (auto simp: format_loop.simps format_text.simps intro: exI[of _ "[]"])
    next
      case 2
      have l: "loop_writes lim (put lim c o1) xs (length cs) ys \<Longrightarrow> loop_writes lim o1 (c # xs) (length fmt) (c # ys)" for xs ys
        using loop_writes_append[of lim "[c]" o1 xs "length cs" ys "[c]"] fmt by simp
      have e: "\<exists>zs. fold (put lim) ys (put lim c o1) = fold (put lim) zs o1 \<and> loop_writes lim o1 (c # xs) (length fmt) zs"
        if "loop_writes lim (put lim c o1) xs (length cs) ys" for xs ys
        using l[OF that] by (intro exI[of _ "c # ys"]) simp
      show ?thesis using "1.IH"(1)[OF fmt 2, of "put lim c o1"] 2 fmt e
        by (auto simp: format_loop.simps[of lim "c # cs"] format_text.simps[of "c # cs"] split: option.splits)
    next
      case 3
      show ?thesis
      proof (cases "spec_text True cs args")
        case None
        then show ?thesis using 3 fmt spec_text_near(1)[OF None] convert_spec_text[of lim cs args o1]
          by (simp add: format_loop.simps[of lim "37 # cs"] format_text.simps[of "37 # cs"])
      next
        case (Some r)
        then obtain fmt' args' vs where s: "spec_text True cs args = Some (fmt', args', vs)" by (cases r) auto
        obtain us where us: "spec_text (fst o1 \<le> lim) cs args = Some (fmt', args', us)" "length vs \<le> length us" "length us \<le> length vs + 1"
          using spec_text_near(2)[OF s, of "fst o1 \<le> lim"] by auto
        have same: "fst o1 \<le> lim \<Longrightarrow> us = vs" using s us(1) by simp
        have L: "format_loop lim fmt args o1 = format_loop lim fmt' args' (fold (put lim) us o1)"
          using 3 fmt us(1) convert_spec_text[of lim cs args o1] by (simp add: format_loop.simps[of lim "37 # cs"])
        have T: "format_text fmt args = map_option ((@) vs) (format_text fmt' args')"
          using 3 fmt s by (simp add: format_text.simps[of "37 # cs"])
        have IH: "case format_text fmt' args' of None \<Rightarrow> format_loop lim fmt' args' (fold (put lim) us o1) = None
           | Some xs \<Rightarrow> \<exists>ys. format_loop lim fmt' args' (fold (put lim) us o1) = Some (fold (put lim) ys (fold (put lim) us o1)) \<and>
               loop_writes lim (fold (put lim) us o1) xs (length fmt') ys"
          using "1.IH"(2)[OF fmt] 3 s by simp
        show ?thesis
        proof (cases "format_text fmt' args'")
          case None
          then show ?thesis using IH L T by simp
        next
          case (Some xs)
          then obtain ys where ys: "format_loop lim fmt args o1 = Some (fold (put lim) (us @ ys) o1)"
            "loop_writes lim (fold (put lim) us o1) xs (length fmt') ys" using IH L by auto
          have "loop_writes lim o1 (vs @ xs) (Suc (length fmt')) (us @ ys)" using loop_writes_append[OF ys(2) us(2,3) same] by simp
          then have "loop_writes lim o1 (vs @ xs) (length fmt) (us @ ys)"
            using spec_text_length[OF s] fmt by (simp add: loop_writes_def)
          then show ?thesis unfolding T Some option.map option.case using ys(1) by blast
        qed
      qed
    qed
  qed
qed

lemma rt_vsnprintf_bounds:
  assumes f: "format_text fmt args = Some xs" and b: "unat buf + unat sz \<le> 2 ^ 32" "0 < sz"
  shows "\<exists>k m'. rt_vsnprintf buf sz fmt args m = Some (of_nat (length xs + k), m') \<and> k \<le> length fmt \<and> (length xs < unat sz \<longrightarrow> k = 0) \<and>
    (unat buf + length xs + k < 2 ^ 32 \<longrightarrow> m' = writes buf (take (unat sz - 1) xs @ [0]) m)"
proof (cases "length xs < unat sz")
  case True
  then show ?thesis using rt_vsnprintf_text[OF f b(1) True, of m] by (intro exI[of _ 0] exI) auto
next
  case False
  define lim where "lim = buf + sz - 1"
  note L = buffer_end[OF b, folded lim_def]
  have nl: "\<not> lim < buf" using L(2) by simp
  have p: "0 < unat sz" using b(2) by (simp add: unat_gt_0 word_gt_0)
  have cut: "Suc (unat lim) - unat buf = unat sz" using L(1) p by simp
  obtain ys where ys: "format_loop lim fmt args (buf, m) = Some (fold (put lim) ys (buf, m))" "loop_writes lim (buf, m) xs (length fmt) ys"
    using format_loop_writes[of lim fmt args "(buf, m)"] f by auto
  obtain str m1 where o1: "fold (put lim) ys (buf, m) = (str, m1)" by fastforce
  define m' where "m' = (if str \<le> lim then m1(str := 0) else m1(lim := 0))"
  have str: "str = buf + of_nat (length ys)" using fold_put_pos[of lim ys buf m] o1 by simp
  have run: "rt_vsnprintf buf sz fmt args m = Some (of_nat (length ys), m')"
    using ys(1) o1 nl str by (simp add: rt_vsnprintf_def lim_def[symmetric] Let_def m'_def)
  obtain k where k: "length ys = length xs + k" "k \<le> length fmt" using ys(2) by (auto simp: loop_writes_def dest!: le_Suc_ex)
  have "m' = writes buf (take (unat sz - 1) xs @ [0]) m" if nw: "unat buf + length ys < 2 ^ 32"
  proof
    fix a
    have "take (unat sz) ys = take (unat sz) xs" using ys(2) nw cut by (simp add: loop_writes_def)
    then have nth: "i < unat sz \<Longrightarrow> ys ! i = xs ! i" for i by (metis nth_take)
    have us: "unat str = unat buf + length ys" unfolding str using nw by (simp add: unat_word_ariths unat_of_nat)
    have m1: "m1 a = (if unat buf \<le> unat a \<and> unat a < unat buf + length ys \<and> a \<le> lim then ys ! (unat a - unat buf) else m a)"
      using fold_put_mem[of buf ys lim m a] o1 nw by simp
    have le: "a \<le> lim \<longleftrightarrow> unat a < unat buf + unat sz" "\<not> str \<le> lim"
      unfolding word_le_nat_alt L(1) us using p False k(1) by linarith+
    have eq: "a = lim \<longleftrightarrow> unat a = unat buf + unat sz - 1" using L(1) by (simp add: word_unat_eq_iff)
    have len: "length (take (unat sz - 1) xs) = unat sz - 1" using False by simp
    show "m' a = writes buf (take (unat sz - 1) xs @ [0]) m a"
      using False k(1) eq le m1 nth p len by (auto simp: writes_def nth_append m'_def)
  qed
  then show ?thesis using run k False by auto
qed

lemma rt_vsnprintf_fails:
  "format_text fmt args = None \<Longrightarrow> rt_vsnprintf buf sz fmt args m = None"
  using format_loop_writes[of _ fmt args "(buf, m)"] by (simp add: rt_vsnprintf_def Let_def)

subsection \<open>Numbers can be read back\<close>

lemma small_digit: "d < 10 \<Longrightarrow> uint (small_digits ! d) = 48 + int d" "d < 10 \<Longrightarrow> isdigit (small_digits ! d)"
proof -
  assume "d < 10"
  then have "d \<in> {0, 1, 2, 3, 4, 5, 6, 7, 8, 9}" by auto
  then show "uint (small_digits ! d) = 48 + int d" "isdigit (small_digits ! d)"
    by (auto simp: small_digits_def isdigit_def)
qed

abbreviation (input) eat :: "int \<Rightarrow> u8 \<Rightarrow> int" where "eat i c \<equiv> i * 10 + uint c - 48"

lemma num_digits_value:
  "foldl eat 0 (rev (num_digits small_digits 10 n)) = int (unat n) \<and> list_all isdigit (num_digits small_digits 10 n)"
proof (induction "unat n" arbitrary: n rule: less_induct)
  case less
  show ?case
  proof (cases "n = 0")
    case True
    then show ?thesis by (simp add: num_digits.simps)
  next
    case False
    define d q where "d = unat (n mod 10)" and "q = n div 10"
    have "unat q < unat n" using False by (simp add: q_def unat_div unat_gt_0)
    note IH = less(1)[OF this]
    have d: "d < 10" by (simp add: d_def unat_mod)
    have "unat q * 10 + d = unat n" by (simp add: d_def q_def unat_mod unat_div)
    then have v: "int (unat q) * 10 + int d = int (unat n)" by linarith
    have "num_digits small_digits 10 n = small_digits ! d # num_digits small_digits 10 q"
      using False by (simp add: num_digits.simps[of small_digits 10 n] divide_def d_def q_def)
    then show ?thesis using IH small_digit[OF d] v by simp
  qed
qed

lemma num_digits_length:
  "unat n < (if base = 10 then 10 else 16) ^ k \<Longrightarrow> length (num_digits ds base n) \<le> k"
proof (induction k arbitrary: n)
  case 0
  then show ?case by (simp add: num_digits.simps unat_eq_0)
next
  case (Suc k)
  have "unat (snd (divide n base)) < (if base = 10 then 10 else 16) ^ k"
    using Suc.prems by (auto simp: divide_def unat_div less_mult_imp_div_less mult.commute)
  then show ?case using Suc.IH by (simp add: num_digits.simps[of ds base n])
qed

lemma skip_atoi_digits:
  "list_all isdigit ds \<Longrightarrow> skip_atoi i (ds @ 0 # rest) = Some (foldl eat i ds, 0 # rest)"
  by (induction ds arbitrary: i) (simp_all add: isdigit_def)

text \<open>Reading a decimal number with an optional minus sign, by the scanner of the format itself.\<close>

definition read_int :: "u8 list \<Rightarrow> int option" where
  "read_int s = (case s of [] \<Rightarrow> None | c # cs \<Rightarrow>
     if c = 45 then map_option (\<lambda>(i, _). - i) (skip_atoi 0 cs) else map_option fst (skip_atoi 0 s))"

definition decimal_text :: "int \<Rightarrow> u32 \<Rightarrow> u8 list" where
  "decimal_text p n = (if sint n < 0 then 45 # padded_digits p (digit_text 0 10 (- n)) else padded_digits p (digit_text 0 10 n))"

lemma digit_text_value:
  "foldl eat 0 (digit_text 0 10 n) = int (unat n)" "list_all isdigit (digit_text 0 10 n)" "length (digit_text 0 10 n) \<le> 10"
  "digit_text 0 10 n \<noteq> []"
proof -
  show "foldl eat 0 (digit_text 0 10 n) = int (unat n)"
    using num_digits_value[of n] by (simp add: digit_text_def)
  show "list_all isdigit (digit_text 0 10 n)"
    using num_digits_value[of n] by (simp add: digit_text_def isdigit_def list_all_iff)
  have "unat n < 10 ^ 10" using unat_u32_less[of n] by simp
  then have "length (num_digits small_digits 10 n) \<le> 10" using num_digits_length[of n 10 10] by simp
  then show "length (digit_text 0 10 n) \<le> 10" by (simp add: digit_text_def)
  show "digit_text 0 10 n \<noteq> []" by (simp add: digit_text_def num_digits.simps[of _ _ n])
qed

lemma padded_digits_value:
  "foldl eat 0 (padded_digits p (digit_text 0 10 n)) = int (unat n)" "list_all isdigit (padded_digits p (digit_text 0 10 n))"
  "padded_digits p (digit_text 0 10 n) \<noteq> []"
proof -
  have "foldl eat 0 (replicate k 48) = 0" for k by (induction k) simp_all
  then show "foldl eat 0 (padded_digits p (digit_text 0 10 n)) = int (unat n)"
    using digit_text_value(1)[of n] by (simp add: padded_digits_def)
  show "list_all isdigit (padded_digits p (digit_text 0 10 n))"
    using digit_text_value(2)[of n] by (auto simp: padded_digits_def isdigit_def list_all_iff)
  show "padded_digits p (digit_text 0 10 n) \<noteq> []"
    using digit_text_value(4)[of n] by (simp add: padded_digits_def)
qed

lemma decimal_text_length: "p \<le> int (length (decimal_text p n))" "int (length (decimal_text p n)) \<le> max p 10 + 1"
  using digit_text_value(3)[of n] digit_text_value(3)[of "- n"] by (auto simp: decimal_text_def)

lemma sint_unat: "sint (n :: u32) = (if unat n < 2 ^ 31 then int (unat n) else int (unat n) - 2 ^ 32)"
proof (cases "unat n < 2 ^ 31")
  case True
  then show ?thesis using sint_small[of n] by simp
next
  case False
  define k where "k = int (unat n)"
  have "2147483648 \<le> unat n" using False by simp
  then have k: "2147483648 \<le> k" "k < 4294967296" unfolding k_def using unat_u32_less[of n] by linarith+
  have "sint n = signed_take_bit 31 k" by (simp add: sint_uint k_def)
  also have "\<dots> = signed_take_bit 31 (k - 2 ^ 32)"
    unfolding signed_take_bit_eq_iff_take_bit_eq by (simp add: take_bit_eq_mod)
  also have "\<dots> = k - 2 ^ 32" by (rule signed_take_bit_int_eq_self) (use k in simp_all)
  finally show ?thesis using False by (simp add: k_def)
qed

lemma neg_magnitude: "sint (n :: u32) < 0 \<Longrightarrow> int (unat (- n)) = - sint n"
proof -
  assume a: "sint n < 0"
  then have "n \<noteq> 0" by auto
  then have "unat (- n) = 4294967296 - unat n" using unat_sub_if'[of 0 n] by simp
  moreover have "sint n = int (unat n) - 4294967296" using a sint_unat[of n] by (simp split: if_splits)
  ultimately show ?thesis using unat_u32_less[of n] by linarith
qed

lemma read_decimal: "read_int (decimal_text p n @ [0]) = Some (sint n)"
proof (cases "sint n < 0")
  case True
  then show ?thesis
    using skip_atoi_digits[OF padded_digits_value(2)[of p "- n"], of 0 "[]"] padded_digits_value(1)[of p "- n"] neg_magnitude[OF True]
    by (simp add: read_int_def decimal_text_def)
next
  case False
  have "sint n = int (unat n)"
  proof (cases "unat n < 2 ^ 31")
    case ge: False
    then have "sint n = int (unat n) - 4294967296" using sint_unat[of n] by simp
    then show ?thesis using False unat_u32_less[of n] by linarith
  qed (simp add: sint_unat)
  obtain c cs where c: "padded_digits p (digit_text 0 10 n) = c # cs"
    using padded_digits_value(3) by (cases "padded_digits p (digit_text 0 10 n)") auto
  then have "c \<noteq> 45" using padded_digits_value(2)[of p n] by (auto simp: isdigit_def)
  then show ?thesis
    using skip_atoi_digits[OF padded_digits_value(2)[of p n], of 0 "[]"] padded_digits_value(1)[of p n] False c \<open>sint n = int (unat n)\<close>
    by (simp add: read_int_def decimal_text_def)
qed

lemma conv_decimal: "conv_text True 0 (- 1) p 0 100 [Word_Arg n] = Some ([], decimal_text p n)"
proof -
  have "nat (- 1 - max p (int k) - int l) = 0" for k l by simp
  then show ?thesis
    by (simp add: conv_text_def narrow_def number_text_def sign_text_def magnitude_def decimal_text_def digit_text_def Let_def)
qed

text \<open>The formats \<^verbatim>\<open>%d\<close> and \<^verbatim>\<open>%.*d\<close>.\<close>

lemma format_decimal: "format_text [37, 100, 0] [Word_Arg n] = Some (decimal_text (- 1) n)"
proof -
  have "spec_text True [100, 0] [Word_Arg n] = Some ([0], [], decimal_text (- 1) n)"
    by (simp add: spec_text_def get_width_def get_precision_def get_qualifier_def isdigit_def conv_decimal)
  then show ?thesis by (simp add: format_text.simps)
qed

lemma format_decimal_precision:
  "format_text [37, 46, 42, 100, 0] [Word_Arg p, Word_Arg n] = Some (decimal_text (max 0 (sint p)) n)"
proof -
  have "spec_text True [46, 42, 100, 0] [Word_Arg p, Word_Arg n] = Some ([0], [], decimal_text (max 0 (sint p)) n)"
    by (simp add: spec_text_def get_width_def get_precision_def get_qualifier_def isdigit_def conv_decimal max_def)
  then show ?thesis by (simp add: format_text.simps)
qed

text \<open>Three defects: octal output uses the digits of base 16, a precision of 0 does not limit a string, and a
  buffer of size 0 is unbounded.\<close>

lemma octal_prints_hex: "convert lim flags w p q 111 args o1 = convert lim flags w p q 120 args o1"
proof -
  have "num_digits ds 8 n = num_digits ds 16 n" for ds n
    by (induction ds "16 :: u32" n rule: num_digits.induct) (simp add: num_digits.simps divide_def)
  then have "digit_text f 8 n = digit_text f 16 n" for f n by (simp add: digit_text_def)
  then have "number_text b n 8 w p f = number_text b n 16 w p f" for b n f by (simp add: number_text_def)
  then show ?thesis by (simp add: convert_text conv_text_def)
qed

lemma zero_precision_prints_all: "print_string lim flags w 0 s o1 = print_string lim flags w (- 1) s o1"
  by (simp add: print_string_text)

lemma size_zero_unbounded: "0 < buf \<Longrightarrow> rt_vsnprintf buf 0 fmt args m = rt_vsnprintf buf (- buf) fmt args m"
proof -
  assume "0 < buf"
  then have "buf - 1 < buf" by (simp add: word_less_nat_alt unat_sub word_le_nat_alt)
  moreover have e: "(0xffffffff :: u32) = - 1" by simp
  ultimately show ?thesis unfolding rt_vsnprintf_def Let_def e by simp
qed

end
