(* ===== verification/RT_Example.thy ===== *)
theory RT_Example
  imports RT_Reap RT_Dyn_All RT_Ringbuffer RT_System RT_Printf
begin

text \<open>
  A concrete state of the kernel, used to apply the theorems: thread 0 is the idle thread,
  thread 1 runs at priority 5, and thread 2 (priority 3) waits on object 7. The semaphores
  are empty, and mutex 7 is held by thread 1. Mailboxes and message queues have room for
  three messages and are empty.
\<close>

definition ex_thread :: "u8 \<Rightarrow> u8 \<Rightarrow> rt_thread" where
  "ex_thread p st = \<lparr>sp = 0x20000140, entry_fn = 0x08000101, parameter = 0, stack_addr = 0x20000100,
     stack_size = 512, error = 0, stat = st, current_priority = p, init_priority = p,
     number_mask = push_bit (unat p) 1, event_set = 0, event_info = 0, init_tick = 10, remaining_tick = 10,
     cleanup = None, user_data = 0\<rparr>"

fun ex_timeout :: "timer_id \<Rightarrow> timeout_fn" where
  "ex_timeout (Thread_Timer t) = Rt_Thread_Timeout t"
| "ex_timeout (User_Timer x) = User_Timeout x"

definition ex_state :: kstate where
  "ex_state = \<lparr>
     threads = (\<lambda>_. ex_thread 0 RT_THREAD_INIT)
       (0 := ex_thread 31 RT_THREAD_READY, 1 := ex_thread 5 RT_THREAD_READY, 2 := ex_thread 3 RT_THREAD_SUSPEND),
     tlists = (\<lambda>_. [])(Ready 31 := [0], Ready 5 := [1], Wait 7 := [2]),
     timers = (\<lambda>tm. \<lparr>timeout_func = ex_timeout tm, tm_init_tick = 0, timeout_tick = 0\<rparr>),
     rt_timer_list = [], random_nr = 0,
     objects = (\<lambda>_. \<lparr>obj_name = replicate 8 0, obj_type = 0x80, obj_flag = 0\<rparr>),
     rt_object_container = (\<lambda>_. []),
     rt_thread_ready_priority_group = 0x80000020,
     rt_current_thread = Some 1, rt_current_priority = 5, rt_scheduler_lock_nest = 0,
     rt_interrupt_nest = 0, rt_tick = 100, rt_errno = 0, memory = (\<lambda>_. 0),
     sems = (\<lambda>_. \<lparr>sem_value = 0\<rparr>),
     mutexes = (\<lambda>_. \<lparr>mutex_value = 1, original_priority = 0xff, hold = 0, owner = None\<rparr>)
       (7 := \<lparr>mutex_value = 0, original_priority = 5, hold = 1, owner = Some 1\<rparr>),
     events = (\<lambda>_. \<lparr>ev_set = 0\<rparr>),
     mailboxes = (\<lambda>_. \<lparr>mb_pool = [0, 0, 0], mb_size = 3, mb_entry = 0, in_offset = 0, out_offset = 0\<rparr>),
     mqs = (\<lambda>_. mq_init_blocks (\<lambda>_. [0, 0, 0, 0]) 4 24),
     mempools = (\<lambda>x. \<lparr>mp_size = 16, mp_block_size = 4,
       mp_header_of = (\<lambda>i. if i = 0 then Next_Free (Some 1) else Next_Free None),
       block_list = Some 0, block_total_count = 2, block_free_count = 2, suspend_thread_count = 0\<rparr>)\<rparr>"

lemma ex_thread_sel [simp]: "stat (ex_thread p st) = st" "current_priority (ex_thread p st) = p"
  by (simp_all add: ex_thread_def)

lemma ex_state_sel [simp]:
  "threads ex_state 0 = ex_thread 31 RT_THREAD_READY" "threads ex_state 1 = ex_thread 5 RT_THREAD_READY"
  "threads ex_state (Suc 0) = ex_thread 5 RT_THREAD_READY" "threads ex_state 2 = ex_thread 3 RT_THREAD_SUSPEND"
  "tlists ex_state = (\<lambda>_. [])(Ready 31 := [0], Ready 5 := [1], Wait 7 := [2])"
  "rt_current_thread ex_state = Some 1" "rt_scheduler_lock_nest ex_state = 0" "rt_interrupt_nest ex_state = 0"
  "rt_tick ex_state = 100" "sem_value (sems ex_state x) = 0" "rt_timer_list ex_state = []"
  "mutexes ex_state 7 = \<lparr>mutex_value = 0, original_priority = 5, hold = 1, owner = Some 1\<rparr>"
  "mutexes ex_state 8 = \<lparr>mutex_value = 1, original_priority = 0xff, hold = 0, owner = None\<rparr>"
  "obj_flag (objects ex_state y) = 0"
  by (simp_all add: ex_state_def)

lemma ex_ready_cases: "stat (threads ex_state t) = RT_THREAD_READY \<Longrightarrow> t = 0 \<or> t = 1"
  by (auto simp: ex_state_def split: if_splits)

lemma ex_runnable: "unat p < 32 \<Longrightarrow> runnable_fields (ex_thread p st)"
  by (simp add: runnable_fields_def ex_thread_def rt_scheduler_stack_check_def)

lemma ex_group: "bit (0x80000020 :: u32) p \<longleftrightarrow> p = 31 \<or> p = 5"
proof -
  have "(0x80000020 :: u32) = push_bit 31 1 OR push_bit 5 1" by simp
  then show ?thesis by (simp only: bit_or_iff bit_push_bit_iff) (auto simp: bit_1_iff)
qed

lemma ex_kinv: "kinv ex_state"
proof -
  have "stat_inv {} ex_state"
    by (rule stat_invI) (auto simp: ex_state_def ex_runnable split: if_splits)
  moreover have "group_inv ex_state" unfolding group_inv_def ex_state_def kstate.simps ex_group by auto
  moreover have "lists_inv {} ex_state" by (auto simp: lists_inv_def ex_state_def)
  ultimately show ?thesis by (simp add: kinvx_def)
qed

lemma ex_fn_matches: "fn_matches tm (ex_timeout tm)"
  by (cases tm) auto

lemma ex_sys: "sys 0 {} ex_state"
proof -
  have "timer_inv 0 ex_state" by (simp add: timer_inv_def ex_state_def)
  then show ?thesis
    using ex_kinv by (simp add: sys_def sleepers_ok_def timers_ok_def ex_fn_matches) (simp add: ex_state_def ex_fn_matches)
qed

lemma ex_may_block: "may_block 1 time ex_state" if "sint time > 0 \<longrightarrow> time < 0x7fffffff"
  using that by (auto simp: may_block_def ex_state_def other_ready_def ex_thread_def intro: exI[of _ 0])

lemma ex_valid_flag: "valid_flag ex_state x"
  by (simp add: valid_flag_def ex_state_def)

lemma ex_sem_inv: "sem_inv ex_state"
  by (simp add: sem_inv_def ex_state_def)

lemma ex_mutex_inv: "mutex_inv {7, 8} ex_state"
  by (simp add: mutex_inv_def mutex_ok_def ex_state_def)

lemma ex_periods: "periods_ok ex_state"
  by (simp add: periods_ok_def ex_state_def)

lemma ex_mailbox: "mb_inv (mailboxes ex_state x)" "mb_contents (mailboxes ex_state x) = []" "mb_cap (mailboxes ex_state x) = 3"
  by (simp_all add: mb_inv_def mb_contents_def mb_cap_def ex_state_def)

lemma ex_mq: "mq_inv (mqs ex_state x)" "mq_contents (mqs ex_state x) = []" "mq_cap (mqs ex_state x) = 3"
  "msg_size (mqs ex_state x) = 4"
proof -
  have z: "(ucast (RT_ALIGN 4 4) :: u16) = 4" by (simp add: RT_ALIGN_def)
  show "mq_inv (mqs ex_state x)" "mq_contents (mqs ex_state x) = []"
    using mq_init_blocks_ok[of "\<lambda>_. [0, 0, 0, 0]" 4 24] z by (simp_all add: ex_state_def)
  have "msg_size (fold mq_release bs mq) = msg_size mq \<and> max_msgs (fold mq_release bs mq) = max_msgs mq" for bs mq
    by (induction bs arbitrary: mq) simp_all
  then show "mq_cap (mqs ex_state x) = 3" "msg_size (mqs ex_state x) = 4"
    using z by (simp_all add: ex_state_def mq_cap_def mq_init_blocks_def Let_def)
qed

lemma ex_obj_inv: "obj_inv ex_state" and ex_unattached: "\<not> attached x ex_state"
  by (simp_all add: obj_inv_def attached_def ex_state_def)

lemma ex_some_ready: "some_ready ex_state"
  unfolding some_ready_def by (rule exI[of _ 5]) simp

lemma ex_mempool: "mp_rep 7 (mempools ex_state 7) [0, 1]"
  by (auto simp: mp_rep_def ex_state_def dest: less_2_cases)

text \<open>The pool 7 with both blocks in use, and thread 2 waiting for one.\<close>

definition ex_pool_state :: kstate where
  "ex_pool_state = set_mp 7 \<lparr>mp_size = 16, mp_block_size = 4, mp_header_of = (\<lambda>_. Owner_Pool 7), block_list = None,
     block_total_count = 2, block_free_count = 0, suspend_thread_count = 1\<rparr> ex_state"

lemma ex_pool: "sys 0 {} ex_pool_state" "mp_rep 7 (mempools ex_pool_state 7) []" "mp_waiters_ok 7 ex_pool_state"
  by (simp_all add: ex_pool_state_def set_mp_sys ex_sys mp_rep_def mp_waiters_ok_def)

lemma ex_pool_sel:
  "tlists ex_pool_state (Wait 7) = [2]" "rt_timer_list ex_pool_state = []"
  "block_total_count (mempools ex_pool_state 7) = 2"
  by (simp_all add: ex_pool_state_def)

text \<open>A ring buffer of four bytes, empty and with one byte.\<close>

definition ex_ring :: rt_ringbuffer where
  "ex_ring = \<lparr>buffer = [0, 0, 0, 0], read_mirror = 0, read_index = 0, write_mirror = 0, write_index = 0, buffer_size = 4\<rparr>"

definition ex_ring1 :: rt_ringbuffer where
  "ex_ring1 = \<lparr>buffer = [1, 0, 0, 0], read_mirror = 0, read_index = 0, write_mirror = 0, write_index = 1, buffer_size = 4\<rparr>"

lemma ex_ring: "rb_inv ex_ring" "rb_contents ex_ring = []" "rb_cap ex_ring = 4" "rb_len ex_ring = 0"
  by (simp_all add: ex_ring_def rb_inv_def rb_contents_def rt_ringbuffer_data_len_def rt_ringbuffer_status_def)

lemma ex_ring1:
  "rb_inv ex_ring1" "rb_contents ex_ring1 \<noteq> []" "read_mirror ex_ring1 = write_mirror ex_ring1"
  "rt_ringbuffer_putchar ex_ring 1 = Some (1, ex_ring1)" "rb_cap ex_ring1 = 4" "buffer_size ex_ring1 = 4" "rb_len ex_ring1 = 1"
  by (simp_all add: ex_ring1_def ex_ring_def rb_inv_def rb_contents_def rt_ringbuffer_data_len_def rt_ringbuffer_status_def
      rt_ringbuffer_putchar_def rt_ringbuffer_space_len_def array_write_def circ_def)

subsection \<open>A system in which thread 2 is inside a call of rt_sem_take\<close>

definition ex_system :: system where
  "ex_system = \<lparr>kern = ex_state, pend = [2 \<mapsto> In_Sem_Take 7], takes = (\<lambda>_. 0), gives = (\<lambda>_. 0)\<rparr>"

lemma ex_callbacks: "callbacks_ok (\<lambda>_. Some)"
  by (simp add: callbacks_ok_def)

lemma ex_top: "top_thread ex_state = Some 1"
  by (simp add: top_thread_def ex_state_def upt_rec[of _ "32"])

lemma ex_kernel_ok: "kernel_ok 0 ex_state"
  using ex_sys ex_periods ex_valid_flag ex_sem_inv ex_top by (simp add: kernel_ok_def only_thread_timers_def)

lemma ex_system_start: "system_start 0 ex_system"
proof -
  have "waits_ok ex_state [2 \<mapsto> In_Sem_Take 7]"
    by (auto simp: waits_ok_def ex_state_def ex_thread_def)
  moreover have "granted ex_state [2 \<mapsto> In_Sem_Take 7] x = {}" for x
    by (auto simp: granted_def)
  ultimately show ?thesis using ex_kernel_ok by (simp add: system_start_def ex_system_def)
qed

lemma ex_release: "\<exists>w'. sys_run (\<lambda>_. Some) 0 ex_system w' \<and> gives w' 7 = 1 \<and> system_ok 0 (\<lambda>_. 0) w'"
proof -
  have i: "system_ok 0 (\<lambda>_. 0) ex_system" using start_ok[OF ex_system_start] by (simp add: ex_system_def)
  from release_keeps[OF i, of 7] obtain r s' where
    r: "rt_sem_release 7 (kern ex_system) = Some (r, s')"
    "system_ok 0 (\<lambda>_. 0) (ex_system\<lparr>kern := s', gives := (gives ex_system)(7 := gives ex_system 7 + 1)\<rparr>)" by blast
  from sys_step.release[OF r(1), of "\<lambda>_. Some" 0] r(2) show ?thesis unfolding sys_run_def
    by (intro exI[of _ "ex_system\<lparr>kern := s', gives := (gives ex_system)(7 := gives ex_system 7 + 1)\<rparr>"])
      (simp add: ex_system_def)
qed

subsection \<open>A heap of 256 bytes\<close>

definition ex_boot :: heap where
  "ex_boot = \<lparr>heap_ptr = 0, hdr = (\<lambda>_. \<lparr>hm_magic = 0, hm_used = 0, hm_next = 0, hm_prev = 0\<rparr>), heap_end = 0, lfree = 0,
     heap_sem = 0, mem_size_aligned = 0, used_mem = 0, max_mem = 0\<rparr>"

lemma ex_heap_reach:
  "\<exists>h. rt_system_heap_init 0 0x20000000 0x20000100 ex_boot = Some h \<and> heap_reach h Map.empty \<and>
    mem_size_aligned h = 232 \<and> heap_ptr h = 0x20000000 \<and> heap_end h = 244 \<and> lfree h = 0 \<and>
    hdr h 0 = \<lparr>hm_magic = HEAP_MAGIC, hm_used = 0, hm_next = 244, hm_prev = 0\<rparr>"
proof -
  have b: "unat (RT_ALIGN 0x20000000 4) + 36 \<le> unat (RT_ALIGN_DOWN 0x20000100 4)" by (simp add: RT_ALIGN_def RT_ALIGN_DOWN_def)
  obtain h where h: "rt_system_heap_init 0 0x20000000 0x20000100 ex_boot = Some h" using rt_system_heap_init_ok[OF b] by blast
  have "heap_reach h Map.empty" by (rule heap_reach.start[OF h _ b]) (simp add: ex_boot_def)
  then show ?thesis using h by (auto simp: rt_system_heap_init_def ex_boot_def RT_ALIGN_def RT_ALIGN_DOWN_def upd_hdr_def Let_def)
qed

text \<open>A client then gets ten bytes.\<close>

lemma ex_malloc_step:
  assumes h: "lfree h = l" "mem_size_aligned h = 232" "heap_ptr h = 0x20000000" "heap_end h = 244" "heap_sem h = 1"
    "hdr h l = \<lparr>hm_magic = HEAP_MAGIC, hm_used = 0, hm_next = 244, hm_prev = 0\<rparr>" and l: "l = 0 \<or> l = 24"
  shows "\<exists>h'. rt_malloc 0 10 h = Some (0x2000000c + l, h') \<and> lfree h' = l + 24 \<and> mem_size_aligned h' = 232 \<and> heap_ptr h' = 0x20000000 \<and> heap_end h' = 244 \<and>
    hdr h' (l + 24) = \<lparr>hm_magic = HEAP_MAGIC, hm_used = 0, hm_next = 244, hm_prev = l\<rparr>"
  using l
proof
  assume "l = 0"
  then show ?thesis using h
    by (simp add: rt_malloc_def heap_take_def malloc_scan.simps RT_ALIGN_def addr_def heap_release_def rt_assert_def Let_def
        malloc_take_def count_used_def upd_hdr_def skip_used.simps)
next
  assume "l = 24"
  then show ?thesis using h
    by (simp add: rt_malloc_def heap_take_def malloc_scan.simps RT_ALIGN_def addr_def heap_release_def rt_assert_def Let_def
        malloc_take_def count_used_def upd_hdr_def skip_used.simps)
qed

lemma ex_heap_sem: "heap_reach h own \<Longrightarrow> heap_sem h = 1"
  using heap_reach_inv[of h own] by (auto simp: heap_run_inv_def heap_ok_def)

lemma ex_malloc_first:
  assumes "heap_reach h own" "lfree h = 0" "mem_size_aligned h = 232" "heap_ptr h = 0x20000000" "heap_end h = 244"
    "hdr h 0 = \<lparr>hm_magic = HEAP_MAGIC, hm_used = 0, hm_next = 244, hm_prev = 0\<rparr>"
  shows "\<exists>h'. rt_malloc 0 10 h = Some (0x2000000c, h') \<and> heap_reach h' (own(0x2000000c \<mapsto> 10))"
proof -
  obtain h' where h': "rt_malloc 0 10 h = Some (0x2000000c, h')" using ex_malloc_step[OF assms(2-5) ex_heap_sem[OF assms(1)] assms(6)] by auto
  then show ?thesis using heap_reach.malloc[OF assms(1) h'] by simp
qed

text \<open>The output of \<^verbatim>\<open>%.3d\<close> for 7.\<close>

lemma ex_printf: "format_text [37, 46, 51, 100, 0] [Word_Arg 7] = Some [48, 48, 55]"
  by code_simp

lemma ex_malloc_second:
  assumes "heap_reach h own" "lfree h = 0" "mem_size_aligned h = 232" "heap_ptr h = 0x20000000" "heap_end h = 244"
    "hdr h 0 = \<lparr>hm_magic = HEAP_MAGIC, hm_used = 0, hm_next = 244, hm_prev = 0\<rparr>"
  shows "\<exists>h2. heap_reach h2 (own(0x2000000c \<mapsto> 10, 0x20000024 \<mapsto> 10)) \<and> heap_ptr h2 = 0x20000000"
proof -
  obtain h1 where h1: "rt_malloc 0 10 h = Some (0x2000000c, h1)" "lfree h1 = 24" "mem_size_aligned h1 = 232" "heap_ptr h1 = 0x20000000" "heap_end h1 = 244"
    "hdr h1 24 = \<lparr>hm_magic = HEAP_MAGIC, hm_used = 0, hm_next = 244, hm_prev = 0\<rparr>"
    using ex_malloc_step[OF assms(2-5) ex_heap_sem[OF assms(1)] assms(6)] by auto
  have r1: "heap_reach h1 (own(0x2000000c \<mapsto> 10))" using heap_reach.malloc[OF assms(1) h1(1)] by simp
  obtain h2 where h2: "rt_malloc 0 10 h1 = Some (0x20000024, h2)" "heap_ptr h2 = 0x20000000"
    using ex_malloc_step[OF h1(2-5) ex_heap_sem[OF r1] h1(6)] by auto
  then show ?thesis using heap_reach.malloc[OF r1 h2(1)] by auto
qed

text \<open>The kernel with a fresh heap, and with a defunct thread whose control block and stack are in the heap.\<close>

definition ex_dstate :: "heap \<Rightarrow> dstate" where
  "ex_dstate h = \<lparr>krn = ex_state, hp = h, pool_of = (\<lambda>_. 0), object_size = (\<lambda>_. 32)\<rparr>"

lemma ex_used: "used n ex_state \<Longrightarrow> n < 8"
  by (auto simp: used_def linked_def waited_def timed_def housed_def ex_unattached split: if_splits)

lemma ex_dyn: "\<exists>s. dyn_inv 0 Map.empty s \<and> krn s = ex_state"
proof -
  obtain h where h: "heap_reach h Map.empty" "heap_ptr h = 0x20000000" using ex_heap_reach by blast
  obtain ps where "heap_run_inv h ps Map.empty" using heap_reach_inv[OF h(1)] by blast
  then have "dyn_inv 0 Map.empty (ex_dstate h)" using ex_sys ex_obj_inv h(2) ex_used by (auto simp: dyn_inv_def ex_dstate_def dest!: ex_used)
  then show ?thesis by (auto simp: ex_dstate_def)
qed

abbreviation ex_dead :: tid where "ex_dead \<equiv> 0x2000000c"

definition ex_dead_state :: kstate where
  "ex_dead_state = ex_state\<lparr>
     threads := (threads ex_state)(ex_dead := (ex_thread 9 RT_THREAD_CLOSE)\<lparr>stack_addr := 0x20000024\<rparr>),
     tlists := (tlists ex_state)(Defunct := [ex_dead]),
     objects := (objects ex_state)(Obj_Thread ex_dead := \<lparr>obj_name = replicate 8 0, obj_type = RT_Object_Class_Thread, obj_flag = 0\<rparr>),
     rt_object_container := (rt_object_container ex_state)(RT_Object_Class_Thread := [Obj_Thread ex_dead])\<rparr>"

lemma ex_dead_sys: "sys 0 {} ex_dead_state"
proof -
  have "sys 0 {ex_dead} ex_state"
    using sys_take_out[OF ex_sys, of ex_dead] by simp
  then have "sys 0 {ex_dead} (upd_thread ex_dead (\<lambda>_. (ex_thread 9 RT_THREAD_CLOSE)\<lparr>stack_addr := 0x20000024\<rparr>) ex_state)" (is "sys _ _ ?k")
    by (rule sys_upd_out) simp
  then have "sys 0 {} (?k\<lparr>tlists := q_insert_after Defunct ex_dead (tlists ?k)\<rparr>)"
    using sys_closed(2)[of 0 "{ex_dead}" ?k ex_dead] by (simp add: ex_thread_def)
  then show ?thesis by (rule sys_eqI) (auto simp: ex_dead_state_def q_insert_after_def)
qed

lemma ex_dead_attached: "attached x ex_dead_state \<longleftrightarrow> x = Obj_Thread ex_dead"
  by (auto simp: attached_def ex_dead_state_def ex_state_def)

lemma ex_dead_sel [simp]:
  "tlists ex_dead_state = (\<lambda>_. [])(Ready 31 := [0], Ready 5 := [1], Wait 7 := [2], Defunct := [ex_dead])" "rt_timer_list ex_dead_state = []"
  "rt_interrupt_nest ex_dead_state = 0" "threads ex_dead_state ex_dead = (ex_thread 9 RT_THREAD_CLOSE)\<lparr>stack_addr := 0x20000024\<rparr>"
  "obj_type (objects ex_dead_state (Obj_Thread ex_dead)) = RT_Object_Class_Thread" "rt_object_container ex_dead_state RT_Object_Class_Thread = [Obj_Thread ex_dead]"
  by (simp_all add: ex_dead_state_def)

lemma ex_dead_used: "used n ex_dead_state \<Longrightarrow> n < 8 \<or> n = ex_dead"
  by (auto simp: used_def linked_def waited_def timed_def housed_def ex_dead_attached split: if_splits)

lemma ex_reap:
  "\<exists>s own. dyn_inv 0 own s \<and> krn s = ex_dead_state \<and> dom own = {0x2000000c, 0x20000024} \<and> reapable own ex_dead s \<and> thread_blocks ex_dead s = dom own"
proof -
  obtain h where h: "heap_reach h Map.empty" "mem_size_aligned h = 232" "heap_ptr h = 0x20000000" "heap_end h = 244" "lfree h = 0"
    "hdr h 0 = \<lparr>hm_magic = HEAP_MAGIC, hm_used = 0, hm_next = 244, hm_prev = 0\<rparr>" using ex_heap_reach by blast
  obtain h2 where h2: "heap_reach h2 [0x2000000c \<mapsto> 10, 0x20000024 \<mapsto> 10]" "heap_ptr h2 = 0x20000000"
    using ex_malloc_second[OF h(1,5,2,3,4,6)] by auto
  obtain ps where ps: "heap_run_inv h2 ps [0x2000000c \<mapsto> 10, 0x20000024 \<mapsto> 10]" using heap_reach_inv[OF h2(1)] by blast
  define s where "s = \<lparr>krn = ex_dead_state, hp = h2, pool_of = (\<lambda>_. 0), object_size = (\<lambda>_. 32)\<rparr>"
  define own :: "u32 \<rightharpoonup> u32" where "own = [0x2000000c \<mapsto> 10, 0x20000024 \<mapsto> 10]"
  have "obj_inv ex_dead_state" using ex_dead_attached by (auto simp: obj_inv_def ex_dead_state_def ex_state_def)
  then have d: "dyn_inv 0 own s" unfolding dyn_inv_def s_def own_def
    using ps ex_dead_sys h2(2) by (auto dest!: ex_dead_used)
  have b: "thread_blocks ex_dead s = dom own" by (auto simp: thread_blocks_def s_def own_def)
  have "housed ex_dead ex_dead_state = {Obj_Thread ex_dead}" by (auto simp: housed_def ex_dead_attached)
  moreover have "\<not> used 0x20000024 ex_dead_state" using ex_dead_used[of "0x20000024"] by auto
  ultimately have "reapable own ex_dead s" unfolding reapable_def b
    by (auto simp: thread_here_def s_def waited_def ex_thread_def split: if_splits)
  then show ?thesis using d b by (intro exI[of _ s] exI[of _ own]) (auto simp: s_def own_def)
qed

end
