(* ===== verification/RT_Finsh_Vm.thy ===== *)
theory RT_Finsh_Vm
  imports RT_Memory "HOL-Library.Signed_Division"
begin

text \<open>
  The virtual machine of the finsh shell: \<^verbatim>\<open>Finsh/finsh_ops.c\<close> (one definition per operation and the
  table that numbers them) and the loop of \<^verbatim>\<open>Finsh/finsh_vm.c\<close>. The stack is an array of 4-byte
  unions, of which an operation on a narrow type writes only the low bytes; the text segment is an
  array of bytes; the variables live in the byte memory of \<^verbatim>\<open>RT_Memory\<close>, apart from both arrays. An
  operation that leaves an array, divides by zero or shifts by a bad distance is \<^term>\<open>None\<close>. The
  functions that a script can call are not part of the shell: they are the parameter \<open>sysc\<close>, which maps
  an address, the arguments and the memory to a result and a memory.
\<close>

subsection \<open>Values of the stack\<close>

abbreviation (input) FINSH_STACK_MAX :: nat where "FINSH_STACK_MAX \<equiv> 64"
abbreviation (input) FINSH_TEXT_MAX :: nat where "FINSH_TEXT_MAX \<equiv> 128"

text \<open>The members of \<^verbatim>\<open>union finsh_value\<close>; \<^verbatim>\<open>char\<close> is unsigned on this target.\<close>

definition char_value :: "u32 \<Rightarrow> u8" where "char_value v = ucast v"
definition short_value :: "u32 \<Rightarrow> u16" where "short_value v = ucast v"

definition set_char_value :: "u8 \<Rightarrow> u32 \<Rightarrow> u32" where
  "set_char_value c v = (v AND NOT 0xff) OR ucast c"

definition set_short_value :: "u16 \<Rightarrow> u32 \<Rightarrow> u32" where
  "set_short_value h v = (v AND NOT 0xffff) OR ucast h"

definition load16 :: "mem \<Rightarrow> u32 \<Rightarrow> u16" where
  "load16 m p = ucast (m p) OR push_bit 8 (ucast (m (p + 1)))"

definition store16 :: "u32 \<Rightarrow> u16 \<Rightarrow> mem \<Rightarrow> mem" where
  "store16 p h m = m(p := ucast h, p + 1 := ucast (drop_bit 8 h))"

text \<open>The C operators on the promoted operands; \<^term>\<open>None\<close> where C leaves the result undefined.\<close>

definition c_add :: "int \<Rightarrow> int \<Rightarrow> int option" where "c_add a b = Some (a + b)"
definition c_sub :: "int \<Rightarrow> int \<Rightarrow> int option" where "c_sub a b = Some (a - b)"
definition c_mul :: "int \<Rightarrow> int \<Rightarrow> int option" where "c_mul a b = Some (a * b)"
definition c_and :: "int \<Rightarrow> int \<Rightarrow> int option" where "c_and a b = Some (a AND b)"
definition c_or :: "int \<Rightarrow> int \<Rightarrow> int option" where "c_or a b = Some (a OR b)"
definition c_xor :: "int \<Rightarrow> int \<Rightarrow> int option" where "c_xor a b = Some (a XOR b)"

definition c_div :: "int \<Rightarrow> int \<Rightarrow> int option" where
  "c_div a b = (if b = 0 \<or> (a = - (2 ^ 31) \<and> b = - 1) then None else Some (a sdiv b))"

definition c_mod :: "int \<Rightarrow> int \<Rightarrow> int option" where
  "c_mod a b = (if b = 0 \<or> (a = - (2 ^ 31) \<and> b = - 1) then None else Some (a smod b))"

definition c_shl :: "int \<Rightarrow> int \<Rightarrow> int option" where
  "c_shl a b = (if 0 \<le> b \<and> b < 32 then Some (a * 2 ^ nat b) else None)"

definition c_shr :: "int \<Rightarrow> int \<Rightarrow> int option" where
  "c_shr a b = (if 0 \<le> b \<and> b < 32 then Some (a div 2 ^ nat b) else None)"

subsection \<open>The machine\<close>

record vm =
  finsh_vm_stack :: "u32 list"
  text_segment :: "u8 list"
  finsh_sp :: nat
  finsh_pc :: nat
  data_mem :: mem

text \<open>Reading and writing \<^verbatim>\<open>finsh_sp[-k]\<close> and pushing a slot; the new slot keeps what was there.\<close>

definition peek :: "nat \<Rightarrow> vm \<Rightarrow> u32 option" where
  "peek k s = (if k \<le> finsh_sp s \<and> finsh_sp s - k < length (finsh_vm_stack s)
     then Some (finsh_vm_stack s ! (finsh_sp s - k)) else None)"

definition poke :: "nat \<Rightarrow> u32 \<Rightarrow> vm \<Rightarrow> vm" where
  "poke k v s = s\<lparr>finsh_vm_stack := (finsh_vm_stack s)[finsh_sp s - k := v]\<rparr>"

definition sp_dec :: "vm \<Rightarrow> vm option" where
  "sp_dec s = (if finsh_sp s = 0 then None else Some (s\<lparr>finsh_sp := finsh_sp s - 1\<rparr>))"

definition sp_inc :: "vm \<Rightarrow> vm" where
  "sp_inc s = s\<lparr>finsh_sp := finsh_sp s + 1\<rparr>"

definition text_byte :: "nat \<Rightarrow> vm \<Rightarrow> u8 option" where
  "text_byte i s = (if finsh_pc s + i < length (text_segment s)
     then Some (text_segment s ! (finsh_pc s + i)) else None)"

definition pc_inc :: "nat \<Rightarrow> vm \<Rightarrow> vm" where
  "pc_inc n s = s\<lparr>finsh_pc := finsh_pc s + n\<rparr>"

definition FINSH_GET16 :: "vm \<Rightarrow> u16 option" where
  "FINSH_GET16 s = do {
     a \<leftarrow> text_byte 0 s; b \<leftarrow> text_byte 1 s;
     Some (ucast a OR push_bit 8 (ucast b)) }"

definition FINSH_GET32 :: "vm \<Rightarrow> u32 option" where
  "FINSH_GET32 s = do {
     a \<leftarrow> text_byte 0 s; b \<leftarrow> text_byte 1 s; c \<leftarrow> text_byte 2 s; d \<leftarrow> text_byte 3 s;
     Some (ucast a OR push_bit 8 (ucast b) OR push_bit 16 (ucast c) OR push_bit 24 (ucast d)) }"

text \<open>The bytes that \<^verbatim>\<open>FINSH_SET16\<close> and \<^verbatim>\<open>FINSH_SET32\<close> write, low byte first.\<close>

definition FINSH_SET16 :: "u16 \<Rightarrow> u8 list" where
  "FINSH_SET16 v = [ucast (v AND 0xff), ucast (drop_bit 8 v)]"

definition FINSH_SET32 :: "u32 \<Rightarrow> u8 list" where
  "FINSH_SET32 v = [ucast (v AND 0xff), ucast (drop_bit 8 v AND 0xff), ucast (drop_bit 16 v AND 0xff),
     ucast (drop_bit 24 v)]"

subsection \<open>The operations\<close>

definition OP_BIN_BYTE :: "(int \<Rightarrow> int \<Rightarrow> int option) \<Rightarrow> vm \<Rightarrow> vm option" where
  "OP_BIN_BYTE x s = do {
     a \<leftarrow> peek 2 s; b \<leftarrow> peek 1 s;
     r \<leftarrow> x (uint (char_value a)) (uint (char_value b));
     sp_dec (poke 2 (set_char_value (word_of_int r) a) s) }"

definition OP_BIN_WORD :: "(int \<Rightarrow> int \<Rightarrow> int option) \<Rightarrow> vm \<Rightarrow> vm option" where
  "OP_BIN_WORD x s = do {
     a \<leftarrow> peek 2 s; b \<leftarrow> peek 1 s;
     r \<leftarrow> x (sint (short_value a)) (sint (short_value b));
     sp_dec (poke 2 (set_short_value (word_of_int r) a) s) }"

definition OP_BIN_DWORD :: "(int \<Rightarrow> int \<Rightarrow> int option) \<Rightarrow> vm \<Rightarrow> vm option" where
  "OP_BIN_DWORD x s = do {
     a \<leftarrow> peek 2 s; b \<leftarrow> peek 1 s;
     r \<leftarrow> x (sint a) (sint b);
     sp_dec (poke 2 (word_of_int r) s) }"

definition OP_no_op :: "vm \<Rightarrow> vm option" where "OP_no_op s = Some s"

definition OP_add_byte :: "vm \<Rightarrow> vm option" where "OP_add_byte = OP_BIN_BYTE c_add"
definition OP_add_word :: "vm \<Rightarrow> vm option" where "OP_add_word = OP_BIN_WORD c_add"
definition OP_add_dword :: "vm \<Rightarrow> vm option" where "OP_add_dword = OP_BIN_DWORD c_add"
definition OP_sub_byte :: "vm \<Rightarrow> vm option" where "OP_sub_byte = OP_BIN_BYTE c_sub"
definition OP_sub_word :: "vm \<Rightarrow> vm option" where "OP_sub_word = OP_BIN_WORD c_sub"
definition OP_sub_dword :: "vm \<Rightarrow> vm option" where "OP_sub_dword = OP_BIN_DWORD c_sub"
definition OP_div_byte :: "vm \<Rightarrow> vm option" where "OP_div_byte = OP_BIN_BYTE c_div"
definition OP_div_word :: "vm \<Rightarrow> vm option" where "OP_div_word = OP_BIN_WORD c_div"
definition OP_div_dword :: "vm \<Rightarrow> vm option" where "OP_div_dword = OP_BIN_DWORD c_div"
definition OP_mod_byte :: "vm \<Rightarrow> vm option" where "OP_mod_byte = OP_BIN_BYTE c_mod"
definition OP_mod_word :: "vm \<Rightarrow> vm option" where "OP_mod_word = OP_BIN_WORD c_mod"
definition OP_mod_dword :: "vm \<Rightarrow> vm option" where "OP_mod_dword = OP_BIN_DWORD c_mod"
definition OP_mul_byte :: "vm \<Rightarrow> vm option" where "OP_mul_byte = OP_BIN_BYTE c_mul"
definition OP_mul_word :: "vm \<Rightarrow> vm option" where "OP_mul_word = OP_BIN_WORD c_mul"
definition OP_mul_dword :: "vm \<Rightarrow> vm option" where "OP_mul_dword = OP_BIN_DWORD c_mul"
definition OP_and_byte :: "vm \<Rightarrow> vm option" where "OP_and_byte = OP_BIN_BYTE c_and"
definition OP_and_word :: "vm \<Rightarrow> vm option" where "OP_and_word = OP_BIN_WORD c_and"
definition OP_and_dword :: "vm \<Rightarrow> vm option" where "OP_and_dword = OP_BIN_DWORD c_and"
definition OP_or_byte :: "vm \<Rightarrow> vm option" where "OP_or_byte = OP_BIN_BYTE c_or"
definition OP_or_word :: "vm \<Rightarrow> vm option" where "OP_or_word = OP_BIN_WORD c_or"
definition OP_or_dword :: "vm \<Rightarrow> vm option" where "OP_or_dword = OP_BIN_DWORD c_or"
definition OP_xor_byte :: "vm \<Rightarrow> vm option" where "OP_xor_byte = OP_BIN_BYTE c_xor"
definition OP_xor_word :: "vm \<Rightarrow> vm option" where "OP_xor_word = OP_BIN_WORD c_xor"
definition OP_xor_dword :: "vm \<Rightarrow> vm option" where "OP_xor_dword = OP_BIN_DWORD c_xor"

definition OP_bw_byte :: "vm \<Rightarrow> vm option" where
  "OP_bw_byte s = do { a \<leftarrow> peek 1 s; Some (poke 1 (set_char_value (NOT (char_value a)) a) s) }"

definition OP_bw_word :: "vm \<Rightarrow> vm option" where
  "OP_bw_word s = do { a \<leftarrow> peek 1 s; Some (poke 1 (set_short_value (NOT (short_value a)) a) s) }"

definition OP_bw_dword :: "vm \<Rightarrow> vm option" where
  "OP_bw_dword s = do { a \<leftarrow> peek 1 s; Some (poke 1 (NOT a) s) }"

definition OP_shl_byte :: "vm \<Rightarrow> vm option" where "OP_shl_byte = OP_BIN_BYTE c_shl"
definition OP_shl_word :: "vm \<Rightarrow> vm option" where "OP_shl_word = OP_BIN_WORD c_shl"
definition OP_shl_dword :: "vm \<Rightarrow> vm option" where "OP_shl_dword = OP_BIN_DWORD c_shl"
definition OP_shr_byte :: "vm \<Rightarrow> vm option" where "OP_shr_byte = OP_BIN_BYTE c_shr"
definition OP_shr_word :: "vm \<Rightarrow> vm option" where "OP_shr_word = OP_BIN_WORD c_shr"
definition OP_shr_dword :: "vm \<Rightarrow> vm option" where "OP_shr_dword = OP_BIN_DWORD c_shr"

definition OP_ld_byte :: "vm \<Rightarrow> vm option" where
  "OP_ld_byte s = do {
     a \<leftarrow> peek 0 s; c \<leftarrow> text_byte 0 s;
     Some (pc_inc 1 (sp_inc (poke 0 (set_char_value c a) s))) }"

definition OP_ld_word :: "vm \<Rightarrow> vm option" where
  "OP_ld_word s = do {
     a \<leftarrow> peek 0 s; h \<leftarrow> FINSH_GET16 s;
     Some (pc_inc 2 (sp_inc (poke 0 (set_short_value h a) s))) }"

definition OP_ld_dword :: "vm \<Rightarrow> vm option" where
  "OP_ld_dword s = do {
     _ \<leftarrow> peek 0 s; l \<leftarrow> FINSH_GET32 s;
     Some (pc_inc 4 (sp_inc (poke 0 l s))) }"

definition OP_ld_value_byte :: "vm \<Rightarrow> vm option" where
  "OP_ld_value_byte s = do {
     a \<leftarrow> peek 0 s; c \<leftarrow> FINSH_GET32 s;
     Some (pc_inc 4 (sp_inc (poke 0 (set_char_value (data_mem s c) a) s))) }"

definition OP_ld_value_byte_stack :: "vm \<Rightarrow> vm option" where
  "OP_ld_value_byte_stack s = do {
     a \<leftarrow> peek 1 s;
     Some (poke 1 (set_char_value (data_mem s a) a) s) }"

definition OP_ld_value_word :: "vm \<Rightarrow> vm option" where
  "OP_ld_value_word s = do {
     a \<leftarrow> peek 0 s; p \<leftarrow> FINSH_GET32 s;
     Some (pc_inc 4 (sp_inc (poke 0 (set_short_value (load16 (data_mem s) p) a) s))) }"

definition OP_ld_value_word_stack :: "vm \<Rightarrow> vm option" where
  "OP_ld_value_word_stack s = do {
     a \<leftarrow> peek 1 s;
     Some (poke 1 (set_short_value (load16 (data_mem s) a) a) s) }"

definition OP_ld_value_dword :: "vm \<Rightarrow> vm option" where
  "OP_ld_value_dword s = do {
     _ \<leftarrow> peek 0 s; p \<leftarrow> FINSH_GET32 s;
     Some (pc_inc 4 (sp_inc (poke 0 (load32 (data_mem s) p) s))) }"

definition OP_ld_value_dword_stack :: "vm \<Rightarrow> vm option" where
  "OP_ld_value_dword_stack s = do {
     a \<leftarrow> peek 1 s;
     Some (poke 1 (load32 (data_mem s) a) s) }"

definition OP_st_byte :: "vm \<Rightarrow> vm option" where
  "OP_st_byte s = do {
     p \<leftarrow> peek 2 s; v \<leftarrow> peek 1 s;
     sp_dec (s\<lparr>data_mem := (data_mem s)(p := char_value v)\<rparr>) }"

definition OP_st_word :: "vm \<Rightarrow> vm option" where
  "OP_st_word s = do {
     p \<leftarrow> peek 2 s; v \<leftarrow> peek 1 s;
     sp_dec (s\<lparr>data_mem := store16 p (short_value v) (data_mem s)\<rparr>) }"

definition OP_st_dword :: "vm \<Rightarrow> vm option" where
  "OP_st_dword s = do {
     p \<leftarrow> peek 2 s; v \<leftarrow> peek 1 s;
     sp_dec (s\<lparr>data_mem := store32 p v (data_mem s)\<rparr>) }"

definition OP_pop :: "vm \<Rightarrow> vm option" where "OP_pop s = sp_dec s"

text \<open>
  The loop of \<^verbatim>\<open>OP_call\<close> that fills \<^verbatim>\<open>parameterv\<close> from the last parameter to the first: after it the
  stack pointer is at the function's address.
\<close>

fun call_args :: "nat \<Rightarrow> u32 list \<Rightarrow> vm \<Rightarrow> (u32 list \<times> vm) option" where
  "call_args 0 as s = Some (as, s)"
| "call_args (Suc n) as s = do { a \<leftarrow> peek 0 s; s \<leftarrow> sp_dec s; call_args n (a # as) s }"

type_synonym syscalls = "u32 \<Rightarrow> u32 list \<Rightarrow> mem \<Rightarrow> (u32 \<times> mem) option"

definition OP_call :: "syscalls \<Rightarrow> vm \<Rightarrow> vm option" where
  "OP_call sysc s = do {
     parameters \<leftarrow> text_byte 0 s;
     s \<leftarrow> sp_dec (pc_inc 1 s);
     if unat parameters > 16 then None
     else do {
       (as, s) \<leftarrow> call_args (unat parameters) [] s;
       f \<leftarrow> peek 0 s;
       (r, m) \<leftarrow> sysc f as (data_mem s);
       Some (sp_inc (poke 0 r (s\<lparr>data_mem := m\<rparr>))) } }"

definition op_table :: "syscalls \<Rightarrow> (vm \<Rightarrow> vm option) list" where
  "op_table sysc = [
     OP_no_op, OP_add_byte, OP_add_word, OP_add_dword, OP_sub_byte, OP_sub_word,
     OP_sub_dword, OP_div_byte, OP_div_word, OP_div_dword, OP_mod_byte, OP_mod_word,
     OP_mod_dword, OP_mul_byte, OP_mul_word, OP_mul_dword, OP_and_byte, OP_and_word,
     OP_and_dword, OP_or_byte, OP_or_word, OP_or_dword, OP_xor_byte, OP_xor_word,
     OP_xor_dword, OP_bw_byte, OP_bw_word, OP_bw_dword, OP_shl_byte, OP_shl_word,
     OP_shl_dword, OP_shr_byte, OP_shr_word, OP_shr_dword, OP_ld_byte, OP_ld_word,
     OP_ld_dword, OP_ld_value_byte, OP_ld_value_word, OP_ld_value_dword, OP_st_byte, OP_st_word,
     OP_st_dword, OP_pop, OP_call sysc, OP_ld_value_byte_stack, OP_ld_value_word_stack, OP_ld_value_dword_stack]"

text \<open>One turn of the loop of \<^verbatim>\<open>finsh_vm_run\<close>; an entry past the table is no operation.\<close>

definition vm_step :: "syscalls \<Rightarrow> vm \<Rightarrow> vm option" where
  "vm_step sysc s = do {
     op \<leftarrow> text_byte 0 s;
     if unat op < length (op_table sysc) then (op_table sysc ! unat op) (pc_inc 1 s) else None }"

text \<open>
  No operation moves the program counter back, writes the text segment or changes the length of
  the stack, so the loop ends.
\<close>

definition fwd :: "(vm \<Rightarrow> vm option) \<Rightarrow> bool" where
  "fwd f \<longleftrightarrow> (\<forall>s s'. f s = Some s' \<longrightarrow> finsh_pc s \<le> finsh_pc s' \<and> text_segment s' = text_segment s \<and>
     length (finsh_vm_stack s') = length (finsh_vm_stack s))"

lemmas vm_prim_defs = peek_def poke_def sp_dec_def sp_inc_def text_byte_def pc_inc_def

named_theorems fwd_ops

lemma fwd_bin [fwd_ops]: "fwd (OP_BIN_BYTE x)" "fwd (OP_BIN_WORD x)" "fwd (OP_BIN_DWORD x)"
  by (auto simp: fwd_def OP_BIN_BYTE_def OP_BIN_WORD_def OP_BIN_DWORD_def vm_prim_defs
      split: Option.bind_splits if_splits)

lemma fwd_bw [fwd_ops]: "fwd OP_bw_byte" "fwd OP_bw_word" "fwd OP_bw_dword" "fwd OP_no_op" "fwd OP_pop"
  by (auto simp: fwd_def OP_bw_byte_def OP_bw_word_def OP_bw_dword_def OP_no_op_def OP_pop_def vm_prim_defs
      split: Option.bind_splits if_splits)

lemma fwd_ld [fwd_ops]: "fwd OP_ld_byte" "fwd OP_ld_word" "fwd OP_ld_dword"
  by (auto simp: fwd_def OP_ld_byte_def OP_ld_word_def OP_ld_dword_def vm_prim_defs
      split: Option.bind_splits if_splits)

lemma fwd_ld_value [fwd_ops]: "fwd OP_ld_value_byte" "fwd OP_ld_value_word" "fwd OP_ld_value_dword"
  by (auto simp: fwd_def OP_ld_value_byte_def OP_ld_value_word_def OP_ld_value_dword_def vm_prim_defs
      split: Option.bind_splits if_splits)

lemma fwd_ld_stack [fwd_ops]:
  "fwd OP_ld_value_byte_stack" "fwd OP_ld_value_word_stack" "fwd OP_ld_value_dword_stack"
  by (auto simp: fwd_def OP_ld_value_byte_stack_def OP_ld_value_word_stack_def OP_ld_value_dword_stack_def
      vm_prim_defs split: Option.bind_splits if_splits)

lemma fwd_st [fwd_ops]: "fwd OP_st_byte" "fwd OP_st_word" "fwd OP_st_dword"
  by (auto simp: fwd_def OP_st_byte_def OP_st_word_def OP_st_dword_def vm_prim_defs
      split: Option.bind_splits if_splits)

lemma call_args_keeps:
  "call_args n as s = Some (bs, s') \<Longrightarrow> finsh_pc s' = finsh_pc s \<and> text_segment s' = text_segment s \<and>
     finsh_vm_stack s' = finsh_vm_stack s"
  by (induction n as s rule: call_args.induct) (auto simp: sp_dec_def split: Option.bind_splits if_splits)

lemma fwd_call [fwd_ops]: "fwd (OP_call sysc)"
  by (auto simp: fwd_def OP_call_def vm_prim_defs dest!: call_args_keeps split: Option.bind_splits if_splits)

lemma op_table_fwd: "list_all fwd (op_table sysc)"
  by (simp add: op_table_def fwd_ops OP_add_byte_def OP_add_word_def OP_add_dword_def OP_sub_byte_def
      OP_sub_word_def OP_sub_dword_def OP_div_byte_def OP_div_word_def OP_div_dword_def OP_mod_byte_def
      OP_mod_word_def OP_mod_dword_def OP_mul_byte_def OP_mul_word_def OP_mul_dword_def OP_and_byte_def
      OP_and_word_def OP_and_dword_def OP_or_byte_def OP_or_word_def OP_or_dword_def OP_xor_byte_def
      OP_xor_word_def OP_xor_dword_def OP_shl_byte_def OP_shl_word_def OP_shl_dword_def OP_shr_byte_def
      OP_shr_word_def OP_shr_dword_def)

lemma vm_step_fwd:
  assumes "vm_step sysc s = Some s'"
  shows "finsh_pc s < finsh_pc s'" "text_segment s' = text_segment s"
    "length (finsh_vm_stack s') = length (finsh_vm_stack s)"
proof -
  from assms obtain i where i: "i < length (op_table sysc)" "(op_table sysc ! i) (pc_inc 1 s) = Some s'"
    by (auto simp: vm_step_def split: Option.bind_splits if_splits)
  with op_table_fwd[of sysc] have "fwd (op_table sysc ! i)" by (simp add: list_all_length)
  with i(2) show "finsh_pc s < finsh_pc s'" "text_segment s' = text_segment s"
    "length (finsh_vm_stack s') = length (finsh_vm_stack s)"
    by (fastforce simp: fwd_def pc_inc_def)+
qed

function vm_loop :: "syscalls \<Rightarrow> vm \<Rightarrow> vm option" where
  "vm_loop sysc s =
    (if finsh_pc s < FINSH_TEXT_MAX then
       (case vm_step sysc s of None \<Rightarrow> None | Some s' \<Rightarrow> vm_loop sysc s')
     else Some s)"
  by auto
termination
  by (relation "measure (\<lambda>(sysc, s). FINSH_TEXT_MAX - finsh_pc s)") (auto dest: vm_step_fwd(1))

declare vm_loop.simps [simp del]

definition finsh_vm_run :: "syscalls \<Rightarrow> vm \<Rightarrow> vm option" where
  "finsh_vm_run sysc s = vm_loop sysc (s\<lparr>finsh_sp := 0, finsh_pc := 0\<rparr>)"

lemma vm_loop_step: "finsh_pc s < FINSH_TEXT_MAX \<Longrightarrow> vm_step sysc s = Some s' \<Longrightarrow> vm_loop sysc s = vm_loop sysc s'"
  by (simp add: vm_loop.simps[of sysc s])

end
