(* ===== verification/RT_Finsh_Exec.thy ===== *)
theory RT_Finsh_Exec
  imports RT_Finsh_Vm
begin

text \<open>
  What a piece of byte code does: the effect of each operation of the machine on the slots of the
  stack that are in use and on the memory, for the proof of the compiler.
\<close>

subsection \<open>Facts on the slots\<close>

lemma bit_u8_bound: "bit (c :: u8) n \<Longrightarrow> n < 8"
  using bit_imp_le_length[of c n] by simp

lemma bit_u16_bound: "bit (h :: u16) n \<Longrightarrow> n < 16"
  using bit_imp_le_length[of h n] by simp

lemma mask_u32: "(0xff :: u32) = mask 8" "(0xffff :: u32) = mask 16"
  by (simp_all add: mask_eq_exp_minus_1)

lemma char_value_set [simp]: "char_value (set_char_value c v) = c"
  by (rule bit_word_eqI) (auto simp: char_value_def set_char_value_def mask_u32 bit_simps)

lemma short_value_set [simp]: "short_value (set_short_value h v) = h"
  by (rule bit_word_eqI) (auto simp: short_value_def set_short_value_def mask_u32 bit_simps)

lemma take_bit_set_char: "take_bit 8 (set_char_value c v) = ucast c"
  by (rule bit_word_eqI) (auto simp: set_char_value_def mask_u32 bit_simps dest: bit_u8_bound)

lemma take_bit_set_short: "take_bit 16 (set_short_value h v) = ucast h"
  by (rule bit_word_eqI) (auto simp: set_short_value_def mask_u32 bit_simps dest: bit_u16_bound)

lemma char_value_take_bit: "8 \<le> n \<Longrightarrow> char_value (take_bit n v) = char_value v"
  by (rule bit_word_eqI) (auto simp: char_value_def bit_simps)

lemma short_value_take_bit: "16 \<le> n \<Longrightarrow> short_value (take_bit n v) = short_value v"
  by (rule bit_word_eqI) (auto simp: short_value_def bit_simps)

lemma take_bit_32 [simp]: "take_bit 32 (v :: u32) = v"
  by (rule bit_word_eqI) (simp add: bit_simps)

lemma load16_store16 [simp]: "load16 (store16 p h m) p = h"
  by (rule bit_word_eqI) (auto simp: load16_def store16_def bit_simps dest: bit_u16_bound)

lemma split_u32: "(ucast (ucast w :: u8) :: u32) OR push_bit 8 (ucast (ucast (drop_bit 8 w) :: u8)) OR
    push_bit 16 (ucast (ucast (drop_bit 16 w) :: u8)) OR push_bit 24 (ucast (ucast (drop_bit 24 w) :: u8)) = w"
proof (rule bit_word_eqI)
  fix n assume "n < LENGTH(32)"
  then consider "n < 8" | "8 \<le> n" "n < 16" | "16 \<le> n" "n < 24" | "24 \<le> n" "n < 32" by force
  then show "bit ((ucast (ucast w :: u8) :: u32) OR push_bit 8 (ucast (ucast (drop_bit 8 w) :: u8)) OR
    push_bit 16 (ucast (ucast (drop_bit 16 w) :: u8)) OR push_bit 24 (ucast (ucast (drop_bit 24 w) :: u8))) n = bit w n"
    by cases (auto simp: bit_simps)
qed

lemma load32_store32 [simp]: "load32 (store32 p w m) p = w"
  by (simp add: load32_def store32_def split_u32)

subsection \<open>Runs over a piece of code\<close>

text \<open>The bytes \<open>c\<close> stand in the text segment at \<open>pc\<close>.\<close>

definition code_at :: "u8 list \<Rightarrow> nat \<Rightarrow> u8 list \<Rightarrow> bool" where
  "code_at t pc c \<longleftrightarrow> pc + length c \<le> length t \<and> (\<forall>i < length c. t ! (pc + i) = c ! i)"

lemma code_at_Nil [simp]: "code_at t pc [] \<longleftrightarrow> pc \<le> length t"
  by (simp add: code_at_def)

lemma code_at_Cons [simp]: "code_at t pc (x # c) \<longleftrightarrow> pc < length t \<and> t ! pc = x \<and> code_at t (pc + 1) c"
  by (auto simp: code_at_def nth_Cons split: nat.splits)

lemma code_at_le: "code_at t pc c \<Longrightarrow> pc \<le> length t"
  by (simp add: code_at_def)

lemma code_at_append [simp]: "code_at t pc (c @ d) \<longleftrightarrow> code_at t pc c \<and> code_at t (pc + length c) d"
  by (induction c arbitrary: pc) (auto dest: code_at_le)

text \<open>
  A configuration: the machine runs the text \<open>t\<close> at \<open>pc\<close>, the slots under the stack pointer hold
  \<open>st\<close> (the last is the top), and the memory is \<open>m\<close>. Nothing is said of the slots above.
\<close>

definition conf :: "u8 list \<Rightarrow> vm \<Rightarrow> nat \<Rightarrow> u32 list \<Rightarrow> mem \<Rightarrow> bool" where
  "conf t s pc st m \<longleftrightarrow> text_segment s = t \<and> length t = FINSH_TEXT_MAX \<and>
     length (finsh_vm_stack s) = FINSH_STACK_MAX \<and> length st \<le> FINSH_STACK_MAX \<and>
     finsh_pc s = pc \<and> finsh_sp s = length st \<and> take (length st) (finsh_vm_stack s) = st \<and> data_mem s = m"

definition goes :: "syscalls \<Rightarrow> vm \<Rightarrow> vm \<Rightarrow> bool" where
  "goes sysc s s' \<longleftrightarrow> vm_loop sysc s = vm_loop sysc s'"

lemma goes_refl [simp]: "goes sysc s s"
  by (simp add: goes_def)

lemma goes_trans [trans]: "goes sysc s s' \<Longrightarrow> goes sysc s' s'' \<Longrightarrow> goes sysc s s''"
  by (simp add: goes_def)

lemma conf_pc_inc: "conf t s pc st m \<Longrightarrow> conf t (pc_inc n s) (pc + n) st m"
  by (simp add: conf_def pc_inc_def)

lemma goes_step:
  assumes "conf t s pc st m" "code_at t pc (op # c)" "unat op < length (op_table sysc)"
    "(op_table sysc ! unat op) (pc_inc 1 s) = Some s'"
  shows "goes sysc s s'"
proof -
  have "vm_step sysc s = Some s'" using assms by (auto simp: vm_step_def text_byte_def conf_def)
  moreover have "finsh_pc s < FINSH_TEXT_MAX" using assms by (auto simp: conf_def)
  ultimately show ?thesis by (simp add: goes_def vm_loop_step)
qed

lemma conf_stack:
  assumes "conf t s pc st m"
  shows "i < length st \<Longrightarrow> finsh_vm_stack s ! i = st ! i" "finsh_sp s = length st"
    "length (finsh_vm_stack s) = FINSH_STACK_MAX" "length st \<le> FINSH_STACK_MAX"
  using assms by (auto simp: conf_def) (metis nth_take)

lemma conf_peek1: "conf t s pc (st @ [a]) m \<Longrightarrow> peek (Suc 0) s = Some a"
  using conf_stack(1)[of t s pc "st @ [a]" m "length st"] conf_stack(4)[of t s pc "st @ [a]" m]
  by (simp add: peek_def conf_stack)

lemma conf_peek2:
  assumes "conf t s pc (st @ [a, b]) m"
  shows "peek 2 s = Some a" "peek (Suc 0) s = Some b"
  using conf_stack(1)[OF assms, of "length st"] conf_stack(1)[OF assms, of "Suc (length st)"] conf_stack[OF assms]
  by (auto simp: peek_def nth_append)

lemma conf_peek0: "conf t s pc st m \<Longrightarrow> length st < FINSH_STACK_MAX \<Longrightarrow> \<exists>a. peek 0 s = Some a"
  by (simp add: peek_def conf_stack)

lemma conf_poke1: "conf t s pc (st @ [a]) m \<Longrightarrow> conf t (poke (Suc 0) v s) pc (st @ [v]) m"
  by (auto simp: conf_def poke_def take_Suc_conv_app_nth)

lemma conf_push: "conf t s pc st m \<Longrightarrow> length st < FINSH_STACK_MAX \<Longrightarrow> conf t (sp_inc (poke 0 v s)) pc (st @ [v]) m"
  by (auto simp: conf_def poke_def sp_inc_def take_Suc_conv_app_nth)

lemma conf_drop:
  assumes "conf t s pc (st @ [a]) m"
  shows "\<exists>s'. sp_dec s = Some s' \<and> conf t s' pc st m"
  using assms by (auto simp: conf_def sp_dec_def take_Suc_conv_app_nth)

lemma conf_poke2:
  assumes "conf t s pc (st @ [a, b]) m"
  shows "\<exists>s'. sp_dec (poke 2 v s) = Some s' \<and> conf t s' pc (st @ [v]) m"
  using assms by (auto simp: conf_def sp_dec_def poke_def take_Suc_conv_app_nth)

lemma conf_mem: "conf t s pc st m \<Longrightarrow> conf t (s\<lparr>data_mem := m'\<rparr>) pc st m'"
  by (simp add: conf_def)

lemma conf_data: "conf t s pc st m \<Longrightarrow> data_mem s = m"
  by (simp add: conf_def)

subsection \<open>Operations by width\<close>

text \<open>Widths as \<^verbatim>\<open>finsh_node.h\<close> numbers them: 1 a byte, 2 a half word, 3 a word.\<close>

definition nbits :: "u8 \<Rightarrow> nat" where
  "nbits w = (if w = 1 then 8 else if w = 2 then 16 else if w = 3 then 32 else 0)"

definition is_width :: "u8 \<Rightarrow> bool" where "is_width w \<longleftrightarrow> w = 1 \<or> w = 2 \<or> w = 3"

lemma is_width_cases [consumes 1, case_names byte word dword]:
  "is_width w \<Longrightarrow> (w = 1 \<Longrightarrow> P) \<Longrightarrow> (w = 2 \<Longrightarrow> P) \<Longrightarrow> (w = 3 \<Longrightarrow> P) \<Longrightarrow> P"
  by (auto simp: is_width_def)

text \<open>A slot read as a C integer of a width, and an integer cut to a width.\<close>

definition cval :: "u8 \<Rightarrow> u32 \<Rightarrow> int" where
  "cval w v = (if w = 1 then uint (char_value v) else if w = 2 then sint (short_value v) else sint v)"

definition cres :: "u8 \<Rightarrow> int \<Rightarrow> u32" where
  "cres w r = (if w = 1 then ucast (word_of_int r :: u8) else if w = 2 then ucast (word_of_int r :: u16)
     else word_of_int r)"

definition loadw :: "u8 \<Rightarrow> mem \<Rightarrow> u32 \<Rightarrow> u32" where
  "loadw w m p = (if w = 1 then ucast (m p) else if w = 2 then ucast (load16 m p) else load32 m p)"

definition storew :: "u8 \<Rightarrow> u32 \<Rightarrow> u32 \<Rightarrow> mem \<Rightarrow> mem" where
  "storew w p v m = (if w = 1 then m(p := char_value v) else if w = 2 then store16 p (short_value v) m
     else store32 p v m)"

lemma cval_take_bit: "nbits w \<le> n \<Longrightarrow> is_width w \<Longrightarrow> cval w (take_bit n v) = cval w v"
  by (cases rule: is_width_cases[of w])
    (simp_all add: cval_def nbits_def char_value_take_bit short_value_take_bit take_bit_word_eq_self)

lemma storew_take_bit: "nbits w \<le> n \<Longrightarrow> is_width w \<Longrightarrow> storew w p (take_bit n v) m = storew w p v m"
  by (cases rule: is_width_cases[of w])
    (simp_all add: storew_def nbits_def char_value_take_bit short_value_take_bit take_bit_word_eq_self)

lemma take_bit_loadw: "is_width w \<Longrightarrow> take_bit (nbits w) (loadw w m p) = loadw w m p"
  by (cases rule: is_width_cases[of w])
    (auto simp: nbits_def loadw_def bit_eq_iff bit_simps dest: bit_u8_bound bit_u16_bound)

lemma ucast_values: "(ucast (char_value v) :: u32) = take_bit 8 v" "(ucast (short_value v) :: u32) = take_bit 16 v"
  by (rule bit_word_eqI; auto simp: char_value_def short_value_def bit_simps)+

lemma loadw_storew: "is_width w \<Longrightarrow> loadw w (storew w p v m) p = take_bit (nbits w) v"
  by (cases rule: is_width_cases[of w]) (simp_all add: nbits_def loadw_def storew_def ucast_values)

lemma take_bit_cres: "is_width w \<Longrightarrow> take_bit (nbits w) (cres w r) = cres w r"
  by (cases rule: is_width_cases[of w])
    (auto simp: nbits_def cres_def bit_eq_iff bit_simps dest: bit_u8_bound bit_u16_bound)

datatype bop = Add | Sub | Div | Mod | Mul | And | Or | Xor | Shl | Shr

fun bop_fun :: "bop \<Rightarrow> int \<Rightarrow> int \<Rightarrow> int option" where
  "bop_fun Add = c_add" | "bop_fun Sub = c_sub" | "bop_fun Div = c_div" | "bop_fun Mod = c_mod"
| "bop_fun Mul = c_mul" | "bop_fun And = c_and" | "bop_fun Or = c_or" | "bop_fun Xor = c_xor"
| "bop_fun Shl = c_shl" | "bop_fun Shr = c_shr"

fun bop_code :: "bop \<Rightarrow> u8" where
  "bop_code Add = 0" | "bop_code Sub = 3" | "bop_code Div = 6" | "bop_code Mod = 9"
| "bop_code Mul = 12" | "bop_code And = 15" | "bop_code Or = 18" | "bop_code Xor = 21"
| "bop_code Shl = 27" | "bop_code Shr = 30"

lemmas OP_bin_defs = OP_add_byte_def OP_add_word_def OP_add_dword_def OP_sub_byte_def
  OP_sub_word_def OP_sub_dword_def OP_div_byte_def OP_div_word_def OP_div_dword_def OP_mod_byte_def
  OP_mod_word_def OP_mod_dword_def OP_mul_byte_def OP_mul_word_def OP_mul_dword_def OP_and_byte_def
  OP_and_word_def OP_and_dword_def OP_or_byte_def OP_or_word_def OP_or_dword_def OP_xor_byte_def
  OP_xor_word_def OP_xor_dword_def OP_shl_byte_def OP_shl_word_def OP_shl_dword_def OP_shr_byte_def
  OP_shr_word_def OP_shr_dword_def

lemma op_table_length [simp]: "length (op_table sysc) = 48"
  by (simp add: op_table_def)

lemma op_table_bop:
  "op_table sysc ! unat (bop_code x + 1) = OP_BIN_BYTE (bop_fun x)"
  "op_table sysc ! unat (bop_code x + 2) = OP_BIN_WORD (bop_fun x)"
  "op_table sysc ! unat (bop_code x + 3) = OP_BIN_DWORD (bop_fun x)"
  by (cases x; simp add: op_table_def OP_bin_defs)+

lemma unat_bop_code: "w = 1 \<or> w = 2 \<or> w = 3 \<Longrightarrow> unat (bop_code x + w) < 48"
  by (cases x) auto

lemma exec_bop:
  assumes c: "conf t s pc (st @ [a, b]) m" "code_at t pc ((bop_code x + w) # cs)" and w: "is_width w"
    and r: "bop_fun x (cval w a) (cval w b) = Some r"
  shows "\<exists>s' v. goes sysc s s' \<and> conf t s' (pc + 1) (st @ [v]) m \<and> take_bit (nbits w) v = cres w r"
proof -
  let ?s = "pc_inc 1 s"
  note c' = conf_pc_inc[OF c(1), of 1]
  note p = conf_peek2[OF c'] conf_poke2[OF c']
  have "\<exists>s' v. (op_table sysc ! unat (bop_code x + w)) ?s = Some s' \<and> conf t s' (pc + 1) (st @ [v]) m \<and>
      take_bit (nbits w) v = cres w r"
    using w
  proof (cases rule: is_width_cases)
    case byte
    from p(3)[of "set_char_value (word_of_int r) a"] r byte p(1,2) show ?thesis
      by (auto simp: op_table_bop OP_BIN_BYTE_def cval_def nbits_def cres_def take_bit_set_char
          intro!: exI[of _ "set_char_value (word_of_int r) a"])
  next
    case word
    from p(3)[of "set_short_value (word_of_int r) a"] r word p(1,2) show ?thesis
      by (auto simp: op_table_bop OP_BIN_WORD_def cval_def nbits_def cres_def take_bit_set_short
          intro!: exI[of _ "set_short_value (word_of_int r) a"])
  next
    case dword
    from p(3)[of "word_of_int r"] r dword p(1,2) show ?thesis
      by (auto simp: op_table_bop OP_BIN_DWORD_def cval_def nbits_def cres_def)
  qed
  then show ?thesis using goes_step[OF c] unat_bop_code[of w x] w by (auto simp: is_width_def)
qed

text \<open>Loads push a slot, of which the bits above the width are whatever the slot held before.\<close>

definition pushes :: "syscalls \<Rightarrow> u8 list \<Rightarrow> vm \<Rightarrow> nat \<Rightarrow> u32 list \<Rightarrow> mem \<Rightarrow> nat \<Rightarrow> u32 \<Rightarrow> bool" where
  "pushes sysc t s pc st m n x \<longleftrightarrow> (\<exists>s' v. goes sysc s s' \<and> conf t s' pc (st @ [v]) m \<and> take_bit n v = x)"

lemma pushesI: "goes sysc s s' \<Longrightarrow> conf t s' pc (st @ [v]) m \<Longrightarrow> take_bit n v = x \<Longrightarrow> pushes sysc t s pc st m n x"
  by (auto simp: pushes_def)

lemma pushes_goes: "goes sysc s s' \<Longrightarrow> pushes sysc t s' pc st m n x \<Longrightarrow> pushes sysc t s pc st m n x"
  by (auto simp: pushes_def intro: goes_trans)

lemma exec_push:
  assumes c: "conf t s pc st m" "code_at t pc (op # cs)" and l: "length st < FINSH_STACK_MAX"
    and op: "unat op < 48" "(op_table sysc ! unat op) (pc_inc 1 s) = Some (pc_inc k (sp_inc (poke 0 v (pc_inc 1 s))))"
    and x: "take_bit n v = x" "pc' = pc + 1 + k"
  shows "pushes sysc t s pc' st m n x"
proof (rule pushesI)
  show "goes sysc s (pc_inc k (sp_inc (poke 0 v (pc_inc 1 s))))" using goes_step[OF c _ op(2)] op(1) by simp
  show "conf t (pc_inc k (sp_inc (poke 0 v (pc_inc 1 s)))) pc' (st @ [v]) m"
    using conf_pc_inc[OF conf_push[OF conf_pc_inc[OF c(1), of 1] l], of k] x(2) by simp
qed (fact x(1))

lemma exec_ld_byte:
  assumes c: "conf t s pc st m" "code_at t pc (34 # b # cs)" and l: "length st < FINSH_STACK_MAX"
  shows "pushes sysc t s (pc + 2) st m 8 (ucast b)"
proof -
  note c' = conf_pc_inc[OF c(1), of 1]
  obtain a where a: "peek 0 (pc_inc 1 s) = Some a" using conf_peek0[OF c' l] by blast
  have "text_byte 0 (pc_inc 1 s) = Some b" using c' c(2) by (auto simp: text_byte_def conf_def)
  with a have "(op_table sysc ! unat (34 :: u8)) (pc_inc 1 s) =
      Some (pc_inc 1 (sp_inc (poke 0 (set_char_value b a) (pc_inc 1 s))))"
    by (simp add: op_table_def OP_ld_byte_def)
  from exec_push[OF c l _ this take_bit_set_char] show ?thesis by simp
qed

lemma exec_ld_word:
  assumes c: "conf t s pc st m" "code_at t pc (35 # a # b # cs)" and l: "length st < FINSH_STACK_MAX"
  shows "pushes sysc t s (pc + 3) st m 16 (ucast (ucast a OR push_bit 8 (ucast b) :: u16))"
proof -
  let ?h = "ucast a OR push_bit 8 (ucast b) :: u16"
  note c' = conf_pc_inc[OF c(1), of 1]
  obtain v where v: "peek 0 (pc_inc 1 s) = Some v" using conf_peek0[OF c' l] by blast
  have "FINSH_GET16 (pc_inc 1 s) = Some ?h"
    using c' c(2) by (auto simp: FINSH_GET16_def text_byte_def conf_def)
  with v have "(op_table sysc ! unat (35 :: u8)) (pc_inc 1 s) =
      Some (pc_inc 2 (sp_inc (poke 0 (set_short_value ?h v) (pc_inc 1 s))))"
    by (simp add: op_table_def OP_ld_word_def)
  from exec_push[OF c l _ this take_bit_set_short, of "pc + 3"] show ?thesis by simp
qed

lemma GET32_dword:
  assumes "conf t s pc st m" "code_at t pc [a, b, c, d]"
  shows "FINSH_GET32 s = Some (ucast a OR push_bit 8 (ucast b) OR push_bit 16 (ucast c) OR push_bit 24 (ucast d))"
  using assms by (auto simp: FINSH_GET32_def text_byte_def conf_def eval_nat_numeral)

lemma GET32_SET32:
  assumes "conf t s pc st m" "code_at t pc (FINSH_SET32 x)"
  shows "FINSH_GET32 s = Some x"
proof -
  have m: "(ucast (y AND 0xff) :: u8) = ucast y" for y :: u32
    by (rule bit_word_eqI) (auto simp: mask_u32 bit_simps)
  show ?thesis
    using GET32_dword[OF assms(1) assms(2)[unfolded FINSH_SET32_def]]
    by (simp only: m split_u32)
qed

lemma exec_ld_dword:
  assumes c: "conf t s pc st m" "code_at t pc (36 # FINSH_SET32 x @ cs)" and l: "length st < FINSH_STACK_MAX"
  shows "pushes sysc t s (pc + 5) st m 32 x"
proof -
  note c' = conf_pc_inc[OF c(1), of 1]
  obtain v where v: "peek 0 (pc_inc 1 s) = Some v" using conf_peek0[OF c' l] by blast
  have "FINSH_GET32 (pc_inc 1 s) = Some x" using GET32_SET32[OF c'] c(2) by auto
  with v have "(op_table sysc ! unat (36 :: u8)) (pc_inc 1 s) = Some (pc_inc 4 (sp_inc (poke 0 x (pc_inc 1 s))))"
    by (simp add: op_table_def OP_ld_dword_def)
  from exec_push[OF c l _ this take_bit_32, of "pc + 5"] show ?thesis by simp
qed

lemma exec_ld_value:
  assumes c: "conf t s pc st m" "code_at t pc ((36 + w) # FINSH_SET32 p @ cs)" and l: "length st < FINSH_STACK_MAX"
    and w: "is_width w"
  shows "pushes sysc t s (pc + 5) st m (nbits w) (loadw w m p)"
proof -
  note c' = conf_pc_inc[OF c(1), of 1]
  obtain v where v: "peek 0 (pc_inc 1 s) = Some v" using conf_peek0[OF c' l] by blast
  have g: "FINSH_GET32 (pc_inc 1 s) = Some p" using GET32_SET32[OF c'] c(2) by auto
  note d = conf_data[OF c']
  from w show ?thesis
  proof (cases rule: is_width_cases)
    case byte
    have "(op_table sysc ! unat (36 + w)) (pc_inc 1 s) =
        Some (pc_inc 4 (sp_inc (poke 0 (set_char_value (m p) v) (pc_inc 1 s))))"
      using v g d byte by (simp add: op_table_def OP_ld_value_byte_def)
    from exec_push[OF c l _ this take_bit_set_char, of "pc + 5"] byte show ?thesis by (simp add: nbits_def loadw_def)
  next
    case word
    have "(op_table sysc ! unat (36 + w)) (pc_inc 1 s) =
        Some (pc_inc 4 (sp_inc (poke 0 (set_short_value (load16 m p) v) (pc_inc 1 s))))"
      using v g d word by (simp add: op_table_def OP_ld_value_word_def)
    from exec_push[OF c l _ this take_bit_set_short, of "pc + 5"] word show ?thesis by (simp add: nbits_def loadw_def)
  next
    case dword
    have "(op_table sysc ! unat (36 + w)) (pc_inc 1 s) =
        Some (pc_inc 4 (sp_inc (poke 0 (load32 m p) (pc_inc 1 s))))"
      using v g d dword by (simp add: op_table_def OP_ld_value_dword_def)
    from exec_push[OF c l _ this take_bit_32, of "pc + 5"] dword show ?thesis by (simp add: nbits_def loadw_def)
  qed
qed

lemma op_table_lookup:
  "op_table sysc ! unat (24 + w) = (if w = 1 then OP_bw_byte else if w = 2 then OP_bw_word else OP_bw_dword)"
  "op_table sysc ! unat (39 + w) = (if w = 1 then OP_st_byte else if w = 2 then OP_st_word else OP_st_dword)"
  "op_table sysc ! unat (44 + w) = (if w = 1 then OP_ld_value_byte_stack else if w = 2 then OP_ld_value_word_stack
     else OP_ld_value_dword_stack)"
  if "is_width w" for w :: u8
  using that by (cases rule: is_width_cases; simp add: op_table_def)+

lemma width_code: "is_width w \<Longrightarrow> unat (24 + w) < 48" "is_width w \<Longrightarrow> unat (39 + w) < 48" "is_width w \<Longrightarrow> unat (44 + w) < 48"
  by (auto simp: is_width_def)

lemma exec_ld_stack:
  assumes c: "conf t s pc (st @ [p]) m" "code_at t pc ((44 + w) # cs)" and w: "is_width w"
  shows "pushes sysc t s (pc + 1) st m (nbits w) (loadw w m p)"
proof -
  note c' = conf_pc_inc[OF c(1), of 1]
  let ?v = "if w = 1 then set_char_value (m p) p else if w = 2 then set_short_value (load16 m p) p else load32 m p"
  have "(op_table sysc ! unat (44 + w)) (pc_inc 1 s) = Some (poke 1 ?v (pc_inc 1 s))"
    using w conf_peek1[OF c'] conf_data[OF c']
    by (simp add: op_table_lookup OP_ld_value_byte_stack_def OP_ld_value_word_stack_def OP_ld_value_dword_stack_def)
  from goes_step[OF c _ this] conf_poke1[OF c', of ?v] w show ?thesis
    by (auto simp: width_code nbits_def loadw_def take_bit_set_char take_bit_set_short is_width_def intro!: pushesI)
qed

lemma exec_bw:
  assumes c: "conf t s pc (st @ [a]) m" "code_at t pc ((24 + w) # cs)" and w: "is_width w"
  shows "pushes sysc t s (pc + 1) st m (nbits w) (take_bit (nbits w) (NOT a))"
proof -
  note c' = conf_pc_inc[OF c(1), of 1]
  let ?v = "if w = 1 then set_char_value (NOT (char_value a)) a else if w = 2 then set_short_value (NOT (short_value a)) a
    else NOT a"
  have n: "(ucast (NOT (char_value a)) :: u32) = take_bit 8 (NOT a)"
    "(ucast (NOT (short_value a)) :: u32) = take_bit 16 (NOT a)"
    by (rule bit_word_eqI; auto simp: char_value_def short_value_def bit_simps)+
  have "(op_table sysc ! unat (24 + w)) (pc_inc 1 s) = Some (poke 1 ?v (pc_inc 1 s))"
    using w conf_peek1[OF c'] by (simp add: op_table_lookup OP_bw_byte_def OP_bw_word_def OP_bw_dword_def)
  from goes_step[OF c _ this] conf_poke1[OF c', of ?v] w show ?thesis
    by (auto simp: width_code nbits_def n take_bit_set_char take_bit_set_short is_width_def intro!: pushesI)
qed

lemma exec_st:
  assumes c: "conf t s pc (st @ [p, v]) m" "code_at t pc ((39 + w) # cs)" and w: "is_width w"
  shows "\<exists>s'. goes sysc s s' \<and> conf t s' (pc + 1) (st @ [p]) (storew w p v m)"
proof -
  note c' = conf_pc_inc[OF c(1), of 1]
  let ?s = "(pc_inc 1 s)\<lparr>data_mem := storew w p v m\<rparr>"
  have "(op_table sysc ! unat (39 + w)) (pc_inc 1 s) = sp_dec ?s"
    using w conf_peek2[OF c'] conf_data[OF c']
    by (simp add: op_table_lookup OP_st_byte_def OP_st_word_def OP_st_dword_def storew_def)
  moreover obtain s' where "sp_dec ?s = Some s'" "conf t s' (pc + 1) (st @ [p]) (storew w p v m)"
    using conf_drop[of t ?s "pc + 1" "st @ [p]" v] conf_mem[OF c', of "storew w p v m"] by auto
  ultimately show ?thesis using goes_step[OF c] w by (auto simp: width_code)
qed

lemma exec_pop:
  assumes c: "conf t s pc (st @ [v]) m" "code_at t pc (43 # cs)"
  shows "\<exists>s'. goes sysc s s' \<and> conf t s' (pc + 1) st m"
proof -
  obtain s' where "sp_dec (pc_inc 1 s) = Some s'" "conf t s' (pc + 1) st m"
    using conf_drop[OF conf_pc_inc[OF c(1), of 1]] by auto
  then show ?thesis using goes_step[OF c, of sysc s'] by (auto simp: op_table_def OP_pop_def)
qed

lemma exec_noop:
  assumes c: "conf t s pc st m" "code_at t pc (0 # cs)"
  shows "\<exists>s'. goes sysc s s' \<and> conf t s' (pc + 1) st m"
  using goes_step[OF c, of sysc "pc_inc 1 s"] conf_pc_inc[OF c(1), of 1] by (auto simp: op_table_def OP_no_op_def)

text \<open>The arguments of a call lie on the stack above the address of the function, in their order.\<close>

lemma call_args_run:
  "k + n < length (finsh_vm_stack s) \<Longrightarrow> finsh_sp s = k + n \<Longrightarrow>
     call_args n bs s = Some (map ((!) (finsh_vm_stack s)) [Suc k..<Suc (k + n)] @ bs, s\<lparr>finsh_sp := k\<rparr>)"
proof (induction n arbitrary: bs s)
  case (Suc n)
  let ?s = "s\<lparr>finsh_sp := k + n\<rparr>"
  have "call_args (Suc n) bs s = call_args n (finsh_vm_stack s ! (k + Suc n) # bs) ?s"
    using Suc.prems by (simp add: peek_def sp_dec_def)
  also have "\<dots> = Some (map ((!) (finsh_vm_stack s)) [Suc k..<Suc (k + n)] @ finsh_vm_stack s ! (k + Suc n) # bs,
      s\<lparr>finsh_sp := k\<rparr>)"
    using Suc.IH[of ?s] Suc.prems by simp
  finally show ?case by simp
qed simp

lemma exec_call:
  assumes c: "conf t s pc (st @ f # as) m" "code_at t pc (44 # of_nat (length as) # cs)" and n: "length as \<le> 16"
    and r: "sysc f as m = Some (x, m')"
  shows "pushes sysc t s (pc + 2) st m' 32 x"
proof -
  let ?k = "length st" and ?n = "length as"
  let ?s1 = "pc_inc 1 (pc_inc 1 s)"
  note c1 = conf_pc_inc[OF conf_pc_inc[OF c(1), of 1], of 1]
  note c' = conf_stack[OF c1]
  let ?s2 = "?s1\<lparr>finsh_sp := ?k + ?n\<rparr>" and ?s3 = "?s1\<lparr>finsh_sp := ?k\<rparr>"
  have sp: "sp_dec ?s1 = Some ?s2" using c'(2) by (simp add: sp_dec_def)
  have "map ((!) (finsh_vm_stack ?s2)) [Suc ?k..<Suc (?k + ?n)] = as"
    using c'(1,3,4) by (intro nth_equalityI) (auto simp: nth_append simp del: upt_Suc)
  with call_args_run[of ?k ?n ?s2 "[]"] c'(3,4)
  have ca: "call_args ?n [] ?s2 = Some (as, ?s3)" by simp
  have f: "peek 0 ?s3 = Some f" using c'(1)[of ?k] c'(3,4) by (simp add: peek_def)
  have tb: "text_byte 0 (pc_inc 1 s) = Some (of_nat ?n)"
    using c(2) c(1) by (auto simp: text_byte_def conf_def pc_inc_def)
  have un: "unat (of_nat ?n :: u8) = ?n" using n by (simp add: unat_of_nat)
  let ?s4 = "sp_inc (poke 0 x (?s3\<lparr>data_mem := m'\<rparr>))"
  have "(op_table sysc ! unat (44 :: u8)) (pc_inc 1 s) = Some ?s4"
    using sp ca f tb un n r conf_data[OF c1] by (simp add: op_table_def OP_call_def)
  note g = goes_step[OF c _ this]
  have "conf t ?s3 (pc + 2) st m"
    using c1 by (auto simp: conf_def take_append dest: arg_cong[where f = "take ?k"])
  from conf_push[OF conf_mem[OF this]] c'(4) have "conf t ?s4 (pc + 2) (st @ [x]) m'" by simp
  with g show ?thesis by (auto intro!: pushesI)
qed

text \<open>Past the code the text segment is zero: the machine runs to its end and stops.\<close>

lemma exec_tail:
  "conf t s pc st m \<Longrightarrow> (\<forall>i < FINSH_TEXT_MAX. pc \<le> i \<longrightarrow> t ! i = 0) \<Longrightarrow>
     \<exists>s'. vm_loop sysc s = Some s' \<and> conf t s' (max pc FINSH_TEXT_MAX) st m"
proof (induction "FINSH_TEXT_MAX - pc" arbitrary: s pc)
  case 0
  then show ?case by (auto simp: vm_loop.simps[of sysc s] conf_def)
next
  case (Suc d)
  then have pc: "pc < FINSH_TEXT_MAX" by linarith
  with Suc.prems have "code_at t pc [0]" by (auto simp: conf_def)
  from exec_noop[OF Suc.prems(1) this] obtain s' where s': "goes sysc s s'" "conf t s' (pc + 1) st m" by blast
  have "max (pc + 1) FINSH_TEXT_MAX = max pc FINSH_TEXT_MAX" "d = FINSH_TEXT_MAX - (pc + 1)"
    using pc Suc.hyps(2) by simp_all
  with s' Suc.hyps(1)[of "pc + 1" s'] Suc.prems(2) show ?case by (simp add: goes_def)
qed

end
