(* ===== verification/RT_Finsh_Compiler.thy ===== *)
theory RT_Finsh_Compiler
  imports RT_Finsh_Vm
begin

text \<open>
  The compiler of the finsh shell, \<^verbatim>\<open>Finsh/finsh_compiler.c\<close>: it marks a syntax tree with widths and
  with what is an address (\<^verbatim>\<open>finsh_type_check\<close>) and writes byte code into the text segment
  (\<^verbatim>\<open>finsh_compile\<close>). A tree is linked by child and sibling pointers; each node has one parent, so it is
  a datatype here. Identifiers are pointers to the symbol tables of \<^verbatim>\<open>Finsh/finsh_var.c\<close> and
  \<^verbatim>\<open>Finsh/finsh_vm.c\<close>. A write past the text segment is \<^term>\<open>None\<close>.
\<close>

subsection \<open>Symbols\<close>

datatype finsh_type =
    finsh_type_unknown | finsh_type_void | finsh_type_voidp | finsh_type_char | finsh_type_uchar
  | finsh_type_charp | finsh_type_short | finsh_type_ushort | finsh_type_shortp | finsh_type_int
  | finsh_type_uint | finsh_type_intp | finsh_type_long | finsh_type_ulong | finsh_type_longp

record finsh_var =
  fv_name :: string
  fv_type :: finsh_type

record finsh_sysvar =
  sv_name :: string
  sv_type :: finsh_type
  sv_var :: u32

record finsh_syscall =
  sc_name :: string
  sc_func :: u32

text \<open>
  The symbol tables: the variables of the shell, and the exported variables and functions, first
  the table the linker collects and then the list that grows at run time, each with its address.
\<close>

record fenv =
  global_variable :: "finsh_var list"
  gv_addr :: u32
  sysvar_table :: "(u32 \<times> finsh_sysvar) list"
  global_sysvar_list :: "(u32 \<times> finsh_sysvar) list"
  syscall_table :: "(u32 \<times> finsh_syscall) list"
  global_syscall_list :: "(u32 \<times> finsh_syscall) list"

text \<open>\<^verbatim>\<open>struct finsh_var\<close> is 24 bytes: the name (17), the type (1), padding and the value at offset 20.\<close>

definition var_addr :: "fenv \<Rightarrow> nat \<Rightarrow> u32" where
  "var_addr env i = gv_addr env + of_nat (24 * i)"

definition value_addr :: "u32 \<Rightarrow> u32" where "value_addr p = p + 20"

definition var_at :: "fenv \<Rightarrow> u32 \<Rightarrow> finsh_var option" where
  "var_at env p = map_of (zip (map (var_addr env) [0..<length (global_variable env)]) (global_variable env)) p"

definition sysvar_at :: "fenv \<Rightarrow> u32 \<Rightarrow> finsh_sysvar option" where
  "sysvar_at env p = map_of (sysvar_table env @ global_sysvar_list env) p"

definition syscall_at :: "fenv \<Rightarrow> u32 \<Rightarrow> finsh_syscall option" where
  "syscall_at env p = map_of (syscall_table env @ global_syscall_list env) p"

subsection \<open>Nodes\<close>

datatype node_type =
    FINSH_NODE_UNKNOWN | FINSH_NODE_ID
  | FINSH_NODE_VALUE_CHAR | FINSH_NODE_VALUE_INT | FINSH_NODE_VALUE_LONG | FINSH_NODE_VALUE_STRING | FINSH_NODE_VALUE_NULL
  | FINSH_NODE_SYS_ADD | FINSH_NODE_SYS_SUB | FINSH_NODE_SYS_MUL | FINSH_NODE_SYS_DIV | FINSH_NODE_SYS_MOD
  | FINSH_NODE_SYS_AND | FINSH_NODE_SYS_OR | FINSH_NODE_SYS_XOR | FINSH_NODE_SYS_BITWISE
  | FINSH_NODE_SYS_SHL | FINSH_NODE_SYS_SHR | FINSH_NODE_SYS_FUNC | FINSH_NODE_SYS_ASSIGN | FINSH_NODE_SYS_CAST
  | FINSH_NODE_SYS_PREINC | FINSH_NODE_SYS_PREDEC | FINSH_NODE_SYS_INC | FINSH_NODE_SYS_DEC
  | FINSH_NODE_SYS_GETVALUE | FINSH_NODE_SYS_GETADDR | FINSH_NODE_SYS_NULL

abbreviation (input) FINSH_DATA_TYPE_VOID :: u8 where "FINSH_DATA_TYPE_VOID \<equiv> 0"
abbreviation (input) FINSH_DATA_TYPE_BYTE :: u8 where "FINSH_DATA_TYPE_BYTE \<equiv> 1"
abbreviation (input) FINSH_DATA_TYPE_WORD :: u8 where "FINSH_DATA_TYPE_WORD \<equiv> 2"
abbreviation (input) FINSH_DATA_TYPE_DWORD :: u8 where "FINSH_DATA_TYPE_DWORD \<equiv> 3"

abbreviation (input) FINSH_IDTYPE_VAR :: u8 where "FINSH_IDTYPE_VAR \<equiv> 1"
abbreviation (input) FINSH_IDTYPE_SYSVAR :: u8 where "FINSH_IDTYPE_SYSVAR \<equiv> 2"
abbreviation (input) FINSH_IDTYPE_SYSCALL :: u8 where "FINSH_IDTYPE_SYSCALL \<equiv> 4"
abbreviation (input) FINSH_IDTYPE_ADDRESS :: u8 where "FINSH_IDTYPE_ADDRESS \<equiv> 8"

abbreviation (input) FINSH_ERROR_UNKNOWN_TYPE :: u8 where "FINSH_ERROR_UNKNOWN_TYPE \<equiv> 3"
abbreviation (input) FINSH_ERROR_UNKNOWN_NODE :: u8 where "FINSH_ERROR_UNKNOWN_NODE \<equiv> 8"

text \<open>\<^verbatim>\<open>struct finsh_node\<close>: the fields, then the two links; \<open>nd_value\<close> is the union of four bytes.\<close>

record node_data =
  node_type :: node_type
  data_type :: u8
  idtype :: u8
  nd_value :: u32
  nd_id :: u32

datatype finsh_node = NULL_node | Node (node_fields: node_data) (node_child: finsh_node) (node_sibling: finsh_node)

subsection \<open>Widths and addresses\<close>

text \<open>The width that \<^verbatim>\<open>finsh_type_check\<close> gives a type; the last branch reports an error.\<close>

fun type_width :: "finsh_type \<Rightarrow> u8 option" where
  "type_width finsh_type_void = Some FINSH_DATA_TYPE_VOID"
| "type_width finsh_type_char = Some FINSH_DATA_TYPE_BYTE"
| "type_width finsh_type_uchar = Some FINSH_DATA_TYPE_BYTE"
| "type_width finsh_type_short = Some FINSH_DATA_TYPE_WORD"
| "type_width finsh_type_ushort = Some FINSH_DATA_TYPE_WORD"
| "type_width finsh_type_unknown = None"
| "type_width _ = Some FINSH_DATA_TYPE_DWORD"

definition set_width :: "finsh_type \<Rightarrow> node_data \<Rightarrow> u8 \<Rightarrow> node_data \<times> u8" where
  "set_width ty n err =
    (case type_width ty of Some w \<Rightarrow> (n\<lparr>data_type := w\<rparr>, err) | None \<Rightarrow> (n, FINSH_ERROR_UNKNOWN_TYPE))"

definition leaf_type :: "fenv \<Rightarrow> node_data \<Rightarrow> u8 \<Rightarrow> (node_data \<times> u8) option" where
  "leaf_type env n err =
    (case node_type n of
       FINSH_NODE_ID \<Rightarrow>
         if idtype n AND FINSH_IDTYPE_VAR \<noteq> 0 then
           (if nd_id n \<noteq> 0 then do { v \<leftarrow> var_at env (nd_id n); Some (set_width (fv_type v) n err) }
            else Some (n, err))
         else if idtype n AND FINSH_IDTYPE_SYSVAR \<noteq> 0 then
           (if nd_id n \<noteq> 0 then do { v \<leftarrow> sysvar_at env (nd_id n); Some (set_width (sv_type v) n err) }
            else Some (n, err))
         else Some (n, err)
     | FINSH_NODE_VALUE_CHAR \<Rightarrow> Some (n\<lparr>data_type := FINSH_DATA_TYPE_BYTE\<rparr>, err)
     | FINSH_NODE_VALUE_INT \<Rightarrow> Some (n\<lparr>data_type := FINSH_DATA_TYPE_DWORD\<rparr>, err)
     | FINSH_NODE_VALUE_LONG \<Rightarrow> Some (n\<lparr>data_type := FINSH_DATA_TYPE_DWORD\<rparr>, err)
     | FINSH_NODE_VALUE_STRING \<Rightarrow> Some (n\<lparr>data_type := FINSH_DATA_TYPE_DWORD\<rparr>, err)
     | FINSH_NODE_VALUE_NULL \<Rightarrow> Some (n\<lparr>data_type := FINSH_DATA_TYPE_DWORD\<rparr>, err)
     | _ \<Rightarrow> Some (n, err))"

text \<open>Whether the child of a node is wanted as an address.\<close>

definition child_addr :: "node_type \<Rightarrow> u8 \<Rightarrow> u8" where
  "child_addr t is_addr =
    (if t \<in> {FINSH_NODE_SYS_ASSIGN, FINSH_NODE_SYS_PREINC, FINSH_NODE_SYS_PREDEC, FINSH_NODE_SYS_GETADDR}
     then FINSH_IDTYPE_ADDRESS
     else if t = FINSH_NODE_SYS_GETVALUE \<and> is_addr \<noteq> 0 then 0 else is_addr)"

fun finsh_type_check :: "fenv \<Rightarrow> finsh_node \<Rightarrow> u8 \<Rightarrow> u8 \<Rightarrow> (finsh_node \<times> u8) option" where
  "finsh_type_check env NULL_node is_addr err = Some (NULL_node, err)"
| "finsh_type_check env (Node n ch sib) is_addr err = do {
     (ch, err) \<leftarrow> finsh_type_check env ch (child_addr (node_type n) is_addr) err;
     (sib, err) \<leftarrow> finsh_type_check env sib 0 err;
     let n = (if idtype n \<noteq> FINSH_IDTYPE_SYSCALL then n\<lparr>idtype := idtype n OR is_addr\<rparr> else n);
     case ch of
       Node c _ _ \<Rightarrow> Some (Node (n\<lparr>data_type := data_type c\<rparr>) ch sib, err)
     | NULL_node \<Rightarrow> do { (n, err) \<leftarrow> leaf_type env n err; Some (Node n ch sib, err) } }"

subsection \<open>Writing code\<close>

record cstate =
  code_seg :: "u8 list"
  finsh_compile_pc :: nat
  global_errno :: u8

definition finsh_error_set :: "u8 \<Rightarrow> cstate \<Rightarrow> cstate" where
  "finsh_error_set e s = s\<lparr>global_errno := e\<rparr>"

definition finsh_code_byte :: "u8 \<Rightarrow> cstate \<Rightarrow> cstate option" where
  "finsh_code_byte x s =
    (if finsh_compile_pc s < length (code_seg s)
     then Some (s\<lparr>code_seg := (code_seg s)[finsh_compile_pc s := x], finsh_compile_pc := finsh_compile_pc s + 1\<rparr>)
     else None)"

fun code_bytes :: "u8 list \<Rightarrow> cstate \<Rightarrow> cstate option" where
  "code_bytes [] s = Some s"
| "code_bytes (x # xs) s = do { s \<leftarrow> finsh_code_byte x s; code_bytes xs s }"

abbreviation (input) FINSH_OP_ADD_BYTE :: u8 where "FINSH_OP_ADD_BYTE \<equiv> 1"
abbreviation (input) FINSH_OP_ADD_WORD :: u8 where "FINSH_OP_ADD_WORD \<equiv> 2"
abbreviation (input) FINSH_OP_ADD_DWORD :: u8 where "FINSH_OP_ADD_DWORD \<equiv> 3"
abbreviation (input) FINSH_OP_SUB_BYTE :: u8 where "FINSH_OP_SUB_BYTE \<equiv> 4"
abbreviation (input) FINSH_OP_SUB_WORD :: u8 where "FINSH_OP_SUB_WORD \<equiv> 5"
abbreviation (input) FINSH_OP_SUB_DWORD :: u8 where "FINSH_OP_SUB_DWORD \<equiv> 6"
abbreviation (input) FINSH_OP_DIV_BYTE :: u8 where "FINSH_OP_DIV_BYTE \<equiv> 7"
abbreviation (input) FINSH_OP_DIV_WORD :: u8 where "FINSH_OP_DIV_WORD \<equiv> 8"
abbreviation (input) FINSH_OP_DIV_DWORD :: u8 where "FINSH_OP_DIV_DWORD \<equiv> 9"
abbreviation (input) FINSH_OP_MOD_BYTE :: u8 where "FINSH_OP_MOD_BYTE \<equiv> 10"
abbreviation (input) FINSH_OP_MOD_WORD :: u8 where "FINSH_OP_MOD_WORD \<equiv> 11"
abbreviation (input) FINSH_OP_MOD_DWORD :: u8 where "FINSH_OP_MOD_DWORD \<equiv> 12"
abbreviation (input) FINSH_OP_MUL_BYTE :: u8 where "FINSH_OP_MUL_BYTE \<equiv> 13"
abbreviation (input) FINSH_OP_MUL_WORD :: u8 where "FINSH_OP_MUL_WORD \<equiv> 14"
abbreviation (input) FINSH_OP_MUL_DWORD :: u8 where "FINSH_OP_MUL_DWORD \<equiv> 15"
abbreviation (input) FINSH_OP_AND_BYTE :: u8 where "FINSH_OP_AND_BYTE \<equiv> 16"
abbreviation (input) FINSH_OP_AND_WORD :: u8 where "FINSH_OP_AND_WORD \<equiv> 17"
abbreviation (input) FINSH_OP_AND_DWORD :: u8 where "FINSH_OP_AND_DWORD \<equiv> 18"
abbreviation (input) FINSH_OP_OR_BYTE :: u8 where "FINSH_OP_OR_BYTE \<equiv> 19"
abbreviation (input) FINSH_OP_OR_WORD :: u8 where "FINSH_OP_OR_WORD \<equiv> 20"
abbreviation (input) FINSH_OP_OR_DWORD :: u8 where "FINSH_OP_OR_DWORD \<equiv> 21"
abbreviation (input) FINSH_OP_XOR_BYTE :: u8 where "FINSH_OP_XOR_BYTE \<equiv> 22"
abbreviation (input) FINSH_OP_XOR_WORD :: u8 where "FINSH_OP_XOR_WORD \<equiv> 23"
abbreviation (input) FINSH_OP_XOR_DWORD :: u8 where "FINSH_OP_XOR_DWORD \<equiv> 24"
abbreviation (input) FINSH_OP_BITWISE_BYTE :: u8 where "FINSH_OP_BITWISE_BYTE \<equiv> 25"
abbreviation (input) FINSH_OP_BITWISE_WORD :: u8 where "FINSH_OP_BITWISE_WORD \<equiv> 26"
abbreviation (input) FINSH_OP_BITWISE_DWORD :: u8 where "FINSH_OP_BITWISE_DWORD \<equiv> 27"
abbreviation (input) FINSH_OP_SHL_BYTE :: u8 where "FINSH_OP_SHL_BYTE \<equiv> 28"
abbreviation (input) FINSH_OP_SHL_WORD :: u8 where "FINSH_OP_SHL_WORD \<equiv> 29"
abbreviation (input) FINSH_OP_SHL_DWORD :: u8 where "FINSH_OP_SHL_DWORD \<equiv> 30"
abbreviation (input) FINSH_OP_SHR_BYTE :: u8 where "FINSH_OP_SHR_BYTE \<equiv> 31"
abbreviation (input) FINSH_OP_SHR_WORD :: u8 where "FINSH_OP_SHR_WORD \<equiv> 32"
abbreviation (input) FINSH_OP_SHR_DWORD :: u8 where "FINSH_OP_SHR_DWORD \<equiv> 33"
abbreviation (input) FINSH_OP_LD_BYTE :: u8 where "FINSH_OP_LD_BYTE \<equiv> 34"
abbreviation (input) FINSH_OP_LD_WORD :: u8 where "FINSH_OP_LD_WORD \<equiv> 35"
abbreviation (input) FINSH_OP_LD_DWORD :: u8 where "FINSH_OP_LD_DWORD \<equiv> 36"
abbreviation (input) FINSH_OP_LD_VALUE_BYTE :: u8 where "FINSH_OP_LD_VALUE_BYTE \<equiv> 37"
abbreviation (input) FINSH_OP_LD_VALUE_WORD :: u8 where "FINSH_OP_LD_VALUE_WORD \<equiv> 38"
abbreviation (input) FINSH_OP_LD_VALUE_DWORD :: u8 where "FINSH_OP_LD_VALUE_DWORD \<equiv> 39"
abbreviation (input) FINSH_OP_ST_BYTE :: u8 where "FINSH_OP_ST_BYTE \<equiv> 40"
abbreviation (input) FINSH_OP_ST_WORD :: u8 where "FINSH_OP_ST_WORD \<equiv> 41"
abbreviation (input) FINSH_OP_ST_DWORD :: u8 where "FINSH_OP_ST_DWORD \<equiv> 42"
abbreviation (input) FINSH_OP_POP :: u8 where "FINSH_OP_POP \<equiv> 43"
abbreviation (input) FINSH_OP_SYSCALL :: u8 where "FINSH_OP_SYSCALL \<equiv> 44"
abbreviation (input) FINSH_OP_LD_VALUE_BYTE_STACK :: u8 where "FINSH_OP_LD_VALUE_BYTE_STACK \<equiv> 45"
abbreviation (input) FINSH_OP_LD_VALUE_WORD_STACK :: u8 where "FINSH_OP_LD_VALUE_WORD_STACK \<equiv> 46"
abbreviation (input) FINSH_OP_LD_VALUE_DWORD_STACK :: u8 where "FINSH_OP_LD_VALUE_DWORD_STACK \<equiv> 47"

text \<open>What a node adds to the code: bytes, or an error and no bytes.\<close>

datatype emission = Bytes "u8 list" | Failed u8

definition by_width :: "u8 \<Rightarrow> u8 list \<Rightarrow> u8 list \<Rightarrow> u8 list \<Rightarrow> u8 list" where
  "by_width w b h l =
    (if w = FINSH_DATA_TYPE_BYTE then b
     else if w = FINSH_DATA_TYPE_WORD then h
     else if w = FINSH_DATA_TYPE_DWORD then l
     else [])"

subsubsection \<open>Identifiers\<close>

definition is_address :: "node_data \<Rightarrow> bool" where
  "is_address n \<longleftrightarrow> idtype n AND FINSH_IDTYPE_ADDRESS \<noteq> 0"

text \<open>The code that loads a variable of a type, or its address; no branch of the code is for
  \<^verbatim>\<open>finsh_type_voidp\<close>, \<^verbatim>\<open>finsh_type_void\<close> or \<^verbatim>\<open>finsh_type_unknown\<close>.\<close>

fun load_var :: "finsh_type \<Rightarrow> bool \<Rightarrow> u32 \<Rightarrow> u8 list" where
  "load_var finsh_type_void _ _ = []"
| "load_var finsh_type_voidp _ _ = []"
| "load_var finsh_type_unknown _ _ = []"
| "load_var finsh_type_char adr p = (if adr then FINSH_OP_LD_DWORD else FINSH_OP_LD_VALUE_BYTE) # FINSH_SET32 p"
| "load_var finsh_type_uchar adr p = (if adr then FINSH_OP_LD_DWORD else FINSH_OP_LD_VALUE_BYTE) # FINSH_SET32 p"
| "load_var finsh_type_short adr p = (if adr then FINSH_OP_LD_DWORD else FINSH_OP_LD_VALUE_WORD) # FINSH_SET32 p"
| "load_var finsh_type_ushort adr p = (if adr then FINSH_OP_LD_DWORD else FINSH_OP_LD_VALUE_WORD) # FINSH_SET32 p"
| "load_var _ adr p = (if adr then FINSH_OP_LD_DWORD else FINSH_OP_LD_VALUE_DWORD) # FINSH_SET32 p"

definition compile_syscall_id :: "fenv \<Rightarrow> node_data \<Rightarrow> u8 list option" where
  "compile_syscall_id env n = do {
     c \<leftarrow> syscall_at env (nd_id n);
     Some (FINSH_OP_LD_DWORD # FINSH_SET32 (sc_func c)) }"

definition compile_sysvar_id :: "fenv \<Rightarrow> node_data \<Rightarrow> u8 list option" where
  "compile_sysvar_id env n =
    (if nd_id n \<noteq> 0 then do {
       v \<leftarrow> sysvar_at env (nd_id n);
       Some (load_var (sv_type v) (is_address n) (sv_var v)) }
     else Some [])"

definition compile_var_id :: "fenv \<Rightarrow> node_data \<Rightarrow> u8 list option" where
  "compile_var_id env n =
    (if nd_id n \<noteq> 0 then do {
       v \<leftarrow> var_at env (nd_id n);
       Some (load_var (fv_type v) (is_address n) (value_addr (nd_id n))) }
     else Some [])"

definition compile_id :: "fenv \<Rightarrow> node_data \<Rightarrow> u8 list option" where
  "compile_id env n =
    (if idtype n AND FINSH_IDTYPE_SYSCALL \<noteq> 0 then compile_syscall_id env n
     else if idtype n AND FINSH_IDTYPE_SYSVAR \<noteq> 0 then compile_sysvar_id env n
     else compile_var_id env n)"

subsubsection \<open>Calls and assignments\<close>

fun siblings :: "finsh_node \<Rightarrow> nat" where
  "siblings NULL_node = 0"
| "siblings (Node n ch sib) = Suc (siblings sib)"

definition compile_func :: "finsh_node \<Rightarrow> u8 list" where
  "compile_func ch =
    (case ch of NULL_node \<Rightarrow> []
     | Node _ _ sib \<Rightarrow> [FINSH_OP_SYSCALL, of_nat (siblings sib)])"

definition store_code :: "u8 \<Rightarrow> emission" where
  "store_code w =
    (if w = FINSH_DATA_TYPE_BYTE then Bytes [FINSH_OP_ST_BYTE, FINSH_OP_LD_VALUE_BYTE_STACK]
     else if w = FINSH_DATA_TYPE_WORD then Bytes [FINSH_OP_ST_WORD, FINSH_OP_LD_VALUE_WORD_STACK]
     else if w = FINSH_DATA_TYPE_DWORD then Bytes [FINSH_OP_ST_DWORD, FINSH_OP_LD_VALUE_DWORD_STACK]
     else Failed FINSH_ERROR_UNKNOWN_TYPE)"

definition compile_assign :: "finsh_node \<Rightarrow> emission option" where
  "compile_assign ch =
    (case ch of NULL_node \<Rightarrow> None
     | Node c _ _ \<Rightarrow>
         if node_type c = FINSH_NODE_ID then Some (store_code (data_type c))
         else if node_type c = FINSH_NODE_SYS_GETVALUE then Some (store_code (data_type c AND 0x0f))
         else Some (Bytes []))"

subsubsection \<open>Increments\<close>

text \<open>
  The operand is the variable the child names; its value is taken at the offset it has in
  \<^verbatim>\<open>struct finsh_var\<close>, also when the child names a variable of the other table.
\<close>

definition id_child :: "finsh_node \<Rightarrow> u32 option" where
  "id_child ch =
    (case ch of Node c _ _ \<Rightarrow> if node_type c = FINSH_NODE_ID then Some (value_addr (nd_id c)) else None
     | NULL_node \<Rightarrow> None)"

definition compile_preinc :: "u8 \<Rightarrow> finsh_node \<Rightarrow> u8 list" where
  "compile_preinc w ch =
    (case id_child ch of None \<Rightarrow> []
     | Some p \<Rightarrow> by_width w
         (FINSH_OP_LD_VALUE_BYTE # FINSH_SET32 p @ [FINSH_OP_LD_BYTE, 1] @
           [FINSH_OP_ADD_BYTE, FINSH_OP_ST_BYTE, FINSH_OP_LD_VALUE_DWORD_STACK])
         (FINSH_OP_LD_VALUE_WORD # FINSH_SET32 p @ FINSH_OP_LD_WORD # FINSH_SET16 1 @
           [FINSH_OP_ADD_WORD, FINSH_OP_ST_WORD, FINSH_OP_LD_VALUE_DWORD_STACK])
         (FINSH_OP_LD_VALUE_DWORD # FINSH_SET32 p @ FINSH_OP_LD_DWORD # FINSH_SET32 1 @
           [FINSH_OP_ADD_DWORD, FINSH_OP_ST_DWORD, FINSH_OP_LD_VALUE_DWORD_STACK]))"

definition compile_predec :: "u8 \<Rightarrow> finsh_node \<Rightarrow> u8 list" where
  "compile_predec w ch =
    (case id_child ch of None \<Rightarrow> []
     | Some p \<Rightarrow> by_width w
         (FINSH_OP_LD_VALUE_BYTE # FINSH_SET32 p @ [FINSH_OP_LD_BYTE, 1] @
           [FINSH_OP_SUB_BYTE, FINSH_OP_ST_BYTE, FINSH_OP_LD_VALUE_DWORD_STACK])
         (FINSH_OP_LD_VALUE_WORD # FINSH_SET32 p @ FINSH_OP_LD_WORD # FINSH_SET16 1 @
           [FINSH_OP_SUB_WORD, FINSH_OP_ST_WORD, FINSH_OP_LD_VALUE_DWORD_STACK])
         (FINSH_OP_LD_VALUE_DWORD # FINSH_SET32 p @ FINSH_OP_LD_DWORD # FINSH_SET32 1 @
           [FINSH_OP_SUB_DWORD, FINSH_OP_ST_DWORD, FINSH_OP_LD_VALUE_DWORD_STACK]))"

definition compile_inc :: "u8 \<Rightarrow> finsh_node \<Rightarrow> u8 list" where
  "compile_inc w ch =
    (case id_child ch of None \<Rightarrow> []
     | Some p \<Rightarrow> by_width w
         (FINSH_OP_LD_DWORD # FINSH_SET32 p @ FINSH_OP_LD_VALUE_BYTE # FINSH_SET32 p @
           [FINSH_OP_LD_BYTE, 1] @ [FINSH_OP_ADD_BYTE, FINSH_OP_ST_BYTE, FINSH_OP_POP])
         (FINSH_OP_LD_DWORD # FINSH_SET32 p @ FINSH_OP_LD_VALUE_WORD # FINSH_SET32 p @
           FINSH_OP_LD_WORD # FINSH_SET16 1 @ [FINSH_OP_ADD_WORD, FINSH_OP_ST_WORD, FINSH_OP_POP])
         (FINSH_OP_LD_DWORD # FINSH_SET32 p @ FINSH_OP_LD_VALUE_DWORD # FINSH_SET32 p @
           FINSH_OP_LD_DWORD # FINSH_SET32 1 @ [FINSH_OP_ADD_DWORD, FINSH_OP_ST_DWORD, FINSH_OP_POP]))"

definition compile_dec :: "u8 \<Rightarrow> finsh_node \<Rightarrow> u8 list" where
  "compile_dec w ch =
    (case id_child ch of None \<Rightarrow> []
     | Some p \<Rightarrow> by_width w
         (FINSH_OP_LD_DWORD # FINSH_SET32 p @ FINSH_OP_LD_VALUE_BYTE # FINSH_SET32 p @
           [FINSH_OP_LD_BYTE, 1] @ [FINSH_OP_SUB_BYTE, FINSH_OP_ST_BYTE, FINSH_OP_POP])
         (FINSH_OP_LD_DWORD # FINSH_SET32 p @ FINSH_OP_LD_VALUE_WORD # FINSH_SET32 p @
           FINSH_OP_LD_WORD # FINSH_SET16 1 @ [FINSH_OP_SUB_WORD, FINSH_OP_ST_WORD, FINSH_OP_POP])
         (FINSH_OP_LD_DWORD # FINSH_SET32 p @ FINSH_OP_LD_VALUE_DWORD # FINSH_SET32 p @
           FINSH_OP_LD_DWORD # FINSH_SET32 1 @ [FINSH_OP_SUB_DWORD, FINSH_OP_ST_DWORD, FINSH_OP_POP]))"

subsubsection \<open>The switch over the node types\<close>

definition compile_getvalue :: "node_data \<Rightarrow> u8 list" where
  "compile_getvalue n =
    (if is_address n then []
     else by_width (data_type n) [FINSH_OP_LD_VALUE_BYTE_STACK] [FINSH_OP_LD_VALUE_WORD_STACK]
            [FINSH_OP_LD_VALUE_DWORD_STACK])"

definition compile_node :: "fenv \<Rightarrow> node_data \<Rightarrow> finsh_node \<Rightarrow> emission option" where
  "compile_node env n ch =
    (let w = data_type n; arith = (\<lambda>b h l. Some (Bytes (by_width w [b] [h] [l]))) in
     case node_type n of
       FINSH_NODE_ID \<Rightarrow> map_option Bytes (compile_id env n)
     | FINSH_NODE_VALUE_CHAR \<Rightarrow> Some (Bytes [FINSH_OP_LD_BYTE, char_value (nd_value n)])
     | FINSH_NODE_VALUE_INT \<Rightarrow> Some (Bytes (FINSH_OP_LD_DWORD # FINSH_SET32 (nd_value n)))
     | FINSH_NODE_VALUE_LONG \<Rightarrow> Some (Bytes (FINSH_OP_LD_DWORD # FINSH_SET32 (nd_value n)))
     | FINSH_NODE_VALUE_NULL \<Rightarrow> Some (Bytes (FINSH_OP_LD_DWORD # FINSH_SET32 (nd_value n)))
     | FINSH_NODE_VALUE_STRING \<Rightarrow> Some (Bytes (FINSH_OP_LD_DWORD # FINSH_SET32 (nd_value n)))
     | FINSH_NODE_SYS_ADD \<Rightarrow> arith FINSH_OP_ADD_BYTE FINSH_OP_ADD_WORD FINSH_OP_ADD_DWORD
     | FINSH_NODE_SYS_SUB \<Rightarrow> arith FINSH_OP_SUB_BYTE FINSH_OP_SUB_WORD FINSH_OP_SUB_DWORD
     | FINSH_NODE_SYS_MUL \<Rightarrow> arith FINSH_OP_MUL_BYTE FINSH_OP_MUL_WORD FINSH_OP_MUL_DWORD
     | FINSH_NODE_SYS_DIV \<Rightarrow> arith FINSH_OP_DIV_BYTE FINSH_OP_DIV_WORD FINSH_OP_DIV_DWORD
     | FINSH_NODE_SYS_MOD \<Rightarrow> arith FINSH_OP_MOD_BYTE FINSH_OP_MOD_WORD FINSH_OP_MOD_DWORD
     | FINSH_NODE_SYS_AND \<Rightarrow> arith FINSH_OP_AND_BYTE FINSH_OP_AND_WORD FINSH_OP_AND_DWORD
     | FINSH_NODE_SYS_OR \<Rightarrow> arith FINSH_OP_OR_BYTE FINSH_OP_OR_WORD FINSH_OP_OR_DWORD
     | FINSH_NODE_SYS_XOR \<Rightarrow> arith FINSH_OP_XOR_BYTE FINSH_OP_XOR_WORD FINSH_OP_XOR_DWORD
     | FINSH_NODE_SYS_BITWISE \<Rightarrow> arith FINSH_OP_BITWISE_BYTE FINSH_OP_BITWISE_WORD FINSH_OP_BITWISE_DWORD
     | FINSH_NODE_SYS_SHL \<Rightarrow> arith FINSH_OP_SHL_BYTE FINSH_OP_SHL_WORD FINSH_OP_SHL_DWORD
     | FINSH_NODE_SYS_SHR \<Rightarrow> arith FINSH_OP_SHR_BYTE FINSH_OP_SHR_WORD FINSH_OP_SHR_DWORD
     | FINSH_NODE_SYS_FUNC \<Rightarrow> Some (Bytes (compile_func ch))
     | FINSH_NODE_SYS_ASSIGN \<Rightarrow> compile_assign ch
     | FINSH_NODE_SYS_PREINC \<Rightarrow> Some (Bytes (compile_preinc w ch))
     | FINSH_NODE_SYS_PREDEC \<Rightarrow> Some (Bytes (compile_predec w ch))
     | FINSH_NODE_SYS_INC \<Rightarrow> Some (Bytes (compile_inc w ch))
     | FINSH_NODE_SYS_DEC \<Rightarrow> Some (Bytes (compile_dec w ch))
     | FINSH_NODE_SYS_NULL \<Rightarrow> Some (Bytes (FINSH_SET32 0))
     | FINSH_NODE_SYS_GETVALUE \<Rightarrow> Some (Bytes (compile_getvalue n))
     | FINSH_NODE_SYS_GETADDR \<Rightarrow> Some (Bytes [])
     | FINSH_NODE_UNKNOWN \<Rightarrow> Some (Failed FINSH_ERROR_UNKNOWN_NODE)
     | FINSH_NODE_SYS_CAST \<Rightarrow> Some (Failed FINSH_ERROR_UNKNOWN_NODE))"

definition emit :: "emission \<Rightarrow> cstate \<Rightarrow> cstate option" where
  "emit x s = (case x of Bytes bs \<Rightarrow> code_bytes bs s | Failed e \<Rightarrow> Some (finsh_error_set e s))"

fun finsh_compile :: "fenv \<Rightarrow> finsh_node \<Rightarrow> cstate \<Rightarrow> cstate option" where
  "finsh_compile env NULL_node s = Some s"
| "finsh_compile env (Node n ch sib) s = do {
     s \<leftarrow> finsh_compile env ch s;
     x \<leftarrow> compile_node env n ch;
     s \<leftarrow> emit x s;
     finsh_compile env sib s }"

text \<open>The loop of \<^verbatim>\<open>finsh_compiler_run\<close> over the statements.\<close>

fun compile_statements :: "fenv \<Rightarrow> finsh_node \<Rightarrow> cstate \<Rightarrow> cstate option" where
  "compile_statements env NULL_node s = Some s"
| "compile_statements env (Node n ch sib) s = do {
     s \<leftarrow> finsh_compile env (Node n ch NULL_node) s;
     s \<leftarrow> (if sib \<noteq> NULL_node then finsh_code_byte FINSH_OP_POP s else Some s);
     compile_statements env sib s }"

text \<open>
  The compiler: the text segment is cleared; of the stack only the first slot is
  (\<^verbatim>\<open>sizeof(finsh_vm_stack[0])\<close>).
\<close>

definition finsh_compiler_run :: "fenv \<Rightarrow> finsh_node \<Rightarrow> vm \<Rightarrow> u8 \<Rightarrow> (vm \<times> u8) option" where
  "finsh_compiler_run env node s err = do {
     (node, err) \<leftarrow> finsh_type_check env node 0 err;
     c \<leftarrow> compile_statements env node
       \<lparr>code_seg = replicate FINSH_TEXT_MAX 0, finsh_compile_pc = 0, global_errno = err\<rparr>;
     Some (s\<lparr>text_segment := code_seg c, finsh_vm_stack := (finsh_vm_stack s)[0 := 0]\<rparr>, global_errno c) }"

end
