(* ===== verification/RT_Finsh_Lang.thy ===== *)
theory RT_Finsh_Lang
  imports RT_Finsh_Exec RT_Finsh_Compiler
begin

text \<open>
  The language of the finsh shell. \<open>fexpr\<close> is the language of expressions whose trees the parser
  builds, with a meaning (\<open>eval\<close>) that knows neither stack nor byte code; \<open>tree\<close> gives the syntax tree
  of an expression as the parser leaves it, and \<open>code\<close> the bytes the compiler writes for it.
\<close>

subsection \<open>Expressions\<close>

text \<open>A variable, by its pointer: of the shell, or exported to it.\<close>

datatype fsym = Var u32 | Sysvar u32

datatype fexpr =
    Char u8 | Num u32 | Long u32 | Str u32 | Null u32
  | Ident fsym | AddrOf fsym
  | Bin bop fexpr fexpr | Bnot fexpr
  | Assign fsym fexpr | AssignAt fexpr fexpr | Deref fexpr
  | PreInc u32 | PreDec u32 | Inc u32 | Dec u32
  | Call u32 "fexpr list"

definition mk :: "node_type \<Rightarrow> u8 \<Rightarrow> u8 \<Rightarrow> u32 \<Rightarrow> u32 \<Rightarrow> node_data" where
  "mk t w i v p = \<lparr>node_type = t, data_type = w, idtype = i, nd_value = v, nd_id = p\<rparr>"

fun sym_node :: "fsym \<Rightarrow> node_data" where
  "sym_node (Var p) = mk FINSH_NODE_ID 0 FINSH_IDTYPE_VAR 0 p"
| "sym_node (Sysvar p) = mk FINSH_NODE_ID 0 FINSH_IDTYPE_SYSVAR 0 p"

fun bop_node :: "bop \<Rightarrow> node_type" where
  "bop_node Add = FINSH_NODE_SYS_ADD" | "bop_node Sub = FINSH_NODE_SYS_SUB" | "bop_node Div = FINSH_NODE_SYS_DIV"
| "bop_node Mod = FINSH_NODE_SYS_MOD" | "bop_node Mul = FINSH_NODE_SYS_MUL" | "bop_node And = FINSH_NODE_SYS_AND"
| "bop_node Or = FINSH_NODE_SYS_OR" | "bop_node Xor = FINSH_NODE_SYS_XOR" | "bop_node Shl = FINSH_NODE_SYS_SHL"
| "bop_node Shr = FINSH_NODE_SYS_SHR"

text \<open>The tree of an expression; the second argument is its sibling.\<close>

fun tree :: "fexpr \<Rightarrow> finsh_node \<Rightarrow> finsh_node" and trees :: "fexpr list \<Rightarrow> finsh_node" where
  "tree (Char c) sib = Node (mk FINSH_NODE_VALUE_CHAR 0 0 (ucast c) 0) NULL_node sib"
| "tree (Num v) sib = Node (mk FINSH_NODE_VALUE_INT 0 0 v 0) NULL_node sib"
| "tree (Long v) sib = Node (mk FINSH_NODE_VALUE_LONG 0 0 v 0) NULL_node sib"
| "tree (Str v) sib = Node (mk FINSH_NODE_VALUE_STRING 0 0 v 0) NULL_node sib"
| "tree (Null v) sib = Node (mk FINSH_NODE_VALUE_NULL 0 0 v 0) NULL_node sib"
| "tree (Ident x) sib = Node (sym_node x) NULL_node sib"
| "tree (AddrOf x) sib = Node (mk FINSH_NODE_SYS_GETADDR 0 0 0 0) (Node (sym_node x) NULL_node NULL_node) sib"
| "tree (Bin b e f) sib = Node (mk (bop_node b) 0 0 0 0) (tree e (tree f NULL_node)) sib"
| "tree (Bnot e) sib = Node (mk FINSH_NODE_SYS_BITWISE 0 0 0 0) (tree e NULL_node) sib"
| "tree (Assign x e) sib = Node (mk FINSH_NODE_SYS_ASSIGN 0 0 0 0) (Node (sym_node x) NULL_node (tree e NULL_node)) sib"
| "tree (AssignAt p e) sib =
     Node (mk FINSH_NODE_SYS_ASSIGN 0 0 0 0)
       (Node (mk FINSH_NODE_SYS_GETVALUE 0 0 0 0) (tree p NULL_node) (tree e NULL_node)) sib"
| "tree (Deref e) sib = Node (mk FINSH_NODE_SYS_GETVALUE 0 0 0 0) (tree e NULL_node) sib"
| "tree (PreInc p) sib = Node (mk FINSH_NODE_SYS_PREINC 0 0 0 0) (Node (sym_node (Var p)) NULL_node NULL_node) sib"
| "tree (PreDec p) sib = Node (mk FINSH_NODE_SYS_PREDEC 0 0 0 0) (Node (sym_node (Var p)) NULL_node NULL_node) sib"
| "tree (Inc p) sib = Node (mk FINSH_NODE_SYS_INC 0 0 0 0) (Node (sym_node (Var p)) NULL_node NULL_node) sib"
| "tree (Dec p) sib = Node (mk FINSH_NODE_SYS_DEC 0 0 0 0) (Node (sym_node (Var p)) NULL_node NULL_node) sib"
| "tree (Call f as) sib =
     Node (mk FINSH_NODE_SYS_FUNC 0 0 0 0) (Node (mk FINSH_NODE_ID 0 FINSH_IDTYPE_SYSCALL 0 f) NULL_node (trees as)) sib"
| "trees [] = NULL_node"
| "trees (e # es) = tree e (trees es)"

subsection \<open>Types\<close>

fun sym_type :: "fenv \<Rightarrow> fsym \<Rightarrow> finsh_type option" where
  "sym_type env (Var p) = (if p = 0 then None else map_option fv_type (var_at env p))"
| "sym_type env (Sysvar p) = (if p = 0 then None else map_option sv_type (sysvar_at env p))"

fun sym_addr :: "fenv \<Rightarrow> fsym \<Rightarrow> u32" where
  "sym_addr env (Var p) = value_addr p"
| "sym_addr env (Sysvar p) = (case sysvar_at env p of Some v \<Rightarrow> sv_var v | None \<Rightarrow> 0)"

text \<open>The types of which a value can be loaded, and their widths.\<close>

fun load_width :: "finsh_type \<Rightarrow> u8" where
  "load_width finsh_type_char = 1" | "load_width finsh_type_uchar = 1"
| "load_width finsh_type_short = 2" | "load_width finsh_type_ushort = 2"
| "load_width finsh_type_void = 0" | "load_width finsh_type_voidp = 0" | "load_width finsh_type_unknown = 0"
| "load_width _ = 3"

definition sym_width :: "fenv \<Rightarrow> fsym \<Rightarrow> u8" where
  "sym_width env x = (case sym_type env x of Some ety \<Rightarrow> load_width ety | None \<Rightarrow> 0)"

definition sym_ok :: "fenv \<Rightarrow> fsym \<Rightarrow> bool" where "sym_ok env x \<longleftrightarrow> is_width (sym_width env x)"

text \<open>The width the compiler gives an expression: that of its leftmost leaf.\<close>

fun ety :: "fenv \<Rightarrow> fexpr \<Rightarrow> u8" where
  "ety env (Char c) = 1"
| "ety env (Num v) = 3" | "ety env (Long v) = 3" | "ety env (Str v) = 3" | "ety env (Null v) = 3"
| "ety env (Ident x) = sym_width env x"
| "ety env (AddrOf x) = sym_width env x"
| "ety env (Bin b e f) = ety env e"
| "ety env (Bnot e) = ety env e"
| "ety env (Assign x e) = sym_width env x"
| "ety env (AssignAt p e) = ety env p"
| "ety env (Deref e) = ety env e"
| "ety env (PreInc p) = sym_width env (Var p)" | "ety env (PreDec p) = sym_width env (Var p)"
| "ety env (Inc p) = sym_width env (Var p)" | "ety env (Dec p) = sym_width env (Var p)"
| "ety env (Call f as) = 0"

text \<open>How many bits of its slot an expression defines: an address and a result are a whole word.\<close>

definition vbits :: "fenv \<Rightarrow> fexpr \<Rightarrow> nat" where
  "vbits env e = (case e of AddrOf x \<Rightarrow> 32 | Call f as \<Rightarrow> 32 | _ \<Rightarrow> nbits (ety env e))"

text \<open>
  Well-typed: an operand defines at least the bits its operator reads. (The compiler does not ask
  for it: see \<open>finsh_mixed_widths\<close>.)
\<close>

fun wt :: "fenv \<Rightarrow> fexpr \<Rightarrow> bool" where
  "wt env (Char c) = True"
| "wt env (Num v) = True" | "wt env (Long v) = True" | "wt env (Str v) = True" | "wt env (Null v) = True"
| "wt env (Ident x) = sym_ok env x"
| "wt env (AddrOf x) = sym_ok env x"
| "wt env (Bin b e f) = (wt env e \<and> wt env f \<and> is_width (ety env e) \<and> nbits (ety env e) \<le> vbits env f)"
| "wt env (Bnot e) = (wt env e \<and> is_width (ety env e))"
| "wt env (Assign x e) = (sym_ok env x \<and> wt env e \<and> nbits (sym_width env x) \<le> vbits env e)"
| "wt env (AssignAt p e) = (wt env p \<and> wt env e \<and> is_width (ety env p) \<and> vbits env p = 32 \<and>
     nbits (ety env p) \<le> vbits env e)"
| "wt env (Deref e) = (wt env e \<and> is_width (ety env e) \<and> vbits env e = 32)"
| "wt env (PreInc p) = sym_ok env (Var p)" | "wt env (PreDec p) = sym_ok env (Var p)"
| "wt env (Inc p) = sym_ok env (Var p)" | "wt env (Dec p) = sym_ok env (Var p)"
| "wt env (Call f as) = (syscall_at env f \<noteq> None \<and> length as \<le> 16 \<and> (\<forall>a \<in> set as. wt env a \<and> vbits env a = 32))"

subsection \<open>Meaning\<close>

definition bop_val :: "bop \<Rightarrow> u8 \<Rightarrow> u32 \<Rightarrow> u32 \<Rightarrow> u32 option" where
  "bop_val b w x y = map_option (cres w) (bop_fun b (cval w x) (cval w y))"

text \<open>A step of one: the value before and after, and the memory after.\<close>

definition bump :: "bop \<Rightarrow> u8 \<Rightarrow> u32 \<Rightarrow> mem \<Rightarrow> (u32 \<times> u32 \<times> mem) option" where
  "bump b w p m = do { let x = loadw w m p; y \<leftarrow> bop_val b w x 1; Some (x, y, storew w p y m) }"

fun eval :: "fenv \<Rightarrow> syscalls \<Rightarrow> fexpr \<Rightarrow> mem \<Rightarrow> (u32 \<times> mem) option"
  and evals :: "fenv \<Rightarrow> syscalls \<Rightarrow> fexpr list \<Rightarrow> mem \<Rightarrow> (u32 list \<times> mem) option" where
  "eval env sysc (Char c) m = Some (ucast c, m)"
| "eval env sysc (Num v) m = Some (v, m)"
| "eval env sysc (Long v) m = Some (v, m)"
| "eval env sysc (Str v) m = Some (v, m)"
| "eval env sysc (Null v) m = Some (v, m)"
| "eval env sysc (Ident x) m = Some (loadw (sym_width env x) m (sym_addr env x), m)"
| "eval env sysc (AddrOf x) m = Some (sym_addr env x, m)"
| "eval env sysc (Bin b e f) m = do {
     (x, m) \<leftarrow> eval env sysc e m;
     (y, m) \<leftarrow> eval env sysc f m;
     z \<leftarrow> bop_val b (ety env e) x y;
     Some (z, m) }"
| "eval env sysc (Bnot e) m = do {
     (x, m) \<leftarrow> eval env sysc e m;
     Some (take_bit (nbits (ety env e)) (NOT x), m) }"
| "eval env sysc (Assign x e) m = do {
     (v, m) \<leftarrow> eval env sysc e m;
     let w = sym_width env x;
     Some (take_bit (nbits w) v, storew w (sym_addr env x) v m) }"
| "eval env sysc (AssignAt p e) m = do {
     (a, m) \<leftarrow> eval env sysc p m;
     (v, m) \<leftarrow> eval env sysc e m;
     Some (take_bit (nbits (ety env p)) v, storew (ety env p) a v m) }"
| "eval env sysc (Deref e) m = do {
     (a, m) \<leftarrow> eval env sysc e m;
     Some (loadw (ety env e) m a, m) }"
| "eval env sysc (PreInc p) m = do {
     (x, y, m) \<leftarrow> bump Add (sym_width env (Var p)) (value_addr p) m;
     Some (y, m) }"
| "eval env sysc (PreDec p) m = do {
     (x, y, m) \<leftarrow> bump Sub (sym_width env (Var p)) (value_addr p) m;
     Some (y, m) }"
| "eval env sysc (Inc p) m = do {
     (x, y, m) \<leftarrow> bump Add (sym_width env (Var p)) (value_addr p) m;
     Some (x, m) }"
| "eval env sysc (Dec p) m = do {
     (x, y, m) \<leftarrow> bump Sub (sym_width env (Var p)) (value_addr p) m;
     Some (x, m) }"
| "eval env sysc (Call f as) m = do {
     (vs, m) \<leftarrow> evals env sysc as m;
     c \<leftarrow> syscall_at env f;
     sysc (sc_func c) vs m }"
| "evals env sysc [] m = Some ([], m)"
| "evals env sysc (e # es) m = do {
     (v, m) \<leftarrow> eval env sysc e m;
     (vs, m) \<leftarrow> evals env sysc es m;
     Some (v # vs, m) }"

subsection \<open>The code of an expression\<close>

definition bump_code :: "u8 \<Rightarrow> u8 \<Rightarrow> u32 \<Rightarrow> u8 list" where
  "bump_code op w p = (36 + w) # FINSH_SET32 p @
     by_width w [34, 1] (35 # FINSH_SET16 1) (36 # FINSH_SET32 1) @ [op + w, 39 + w]"

fun code :: "fenv \<Rightarrow> fexpr \<Rightarrow> u8 list" and codes :: "fenv \<Rightarrow> fexpr list \<Rightarrow> u8 list" where
  "code env (Char c) = [34, c]"
| "code env (Num v) = 36 # FINSH_SET32 v"
| "code env (Long v) = 36 # FINSH_SET32 v"
| "code env (Str v) = 36 # FINSH_SET32 v"
| "code env (Null v) = 36 # FINSH_SET32 v"
| "code env (Ident x) = (36 + sym_width env x) # FINSH_SET32 (sym_addr env x)"
| "code env (AddrOf x) = 36 # FINSH_SET32 (sym_addr env x)"
| "code env (Bin b e f) = code env e @ code env f @ [bop_code b + ety env e]"
| "code env (Bnot e) = code env e @ [24 + ety env e]"
| "code env (Assign x e) = 36 # FINSH_SET32 (sym_addr env x) @ code env e @ [39 + sym_width env x, 44 + sym_width env x]"
| "code env (AssignAt p e) = code env p @ code env e @ [39 + ety env p, 44 + ety env p]"
| "code env (Deref e) = code env e @ [44 + ety env e]"
| "code env (PreInc p) = 36 # FINSH_SET32 (value_addr p) @ bump_code 0 (sym_width env (Var p)) (value_addr p) @ [47]"
| "code env (PreDec p) = 36 # FINSH_SET32 (value_addr p) @ bump_code 3 (sym_width env (Var p)) (value_addr p) @ [47]"
| "code env (Inc p) = (36 + sym_width env (Var p)) # FINSH_SET32 (value_addr p) @
     36 # FINSH_SET32 (value_addr p) @ bump_code 0 (sym_width env (Var p)) (value_addr p) @ [43]"
| "code env (Dec p) = (36 + sym_width env (Var p)) # FINSH_SET32 (value_addr p) @
     36 # FINSH_SET32 (value_addr p) @ bump_code 3 (sym_width env (Var p)) (value_addr p) @ [43]"
| "code env (Call f as) =
     36 # FINSH_SET32 (case syscall_at env f of Some c \<Rightarrow> sc_func c | None \<Rightarrow> 0) @ codes env as @ [44, of_nat (length as)]"
| "codes env [] = []"
| "codes env (e # es) = code env e @ codes env es"

subsection \<open>Checking and compiling a tree\<close>

lemma is_width_simps [simp]: "\<not> is_width 0" "is_width 1" "is_width 2" "is_width 3"
  by (simp_all add: is_width_def)

lemma code_bytes_append: "code_bytes (xs @ ys) s = code_bytes xs s \<bind> code_bytes ys"
  by (induction xs arbitrary: s) (auto split: Option.bind_splits)

lemma finsh_compile_NULL [simp]: "finsh_compile env NULL_node = Some"
  by (rule ext) simp

declare finsh_compile.simps(2) [simp del]

lemma mk_simps [simp]:
  "node_type (mk t w i v p) = t" "data_type (mk t w i v p) = w" "idtype (mk t w i v p) = i"
  "nd_value (mk t w i v p) = v" "nd_id (mk t w i v p) = p"
  "(mk t w i v p)\<lparr>data_type := w'\<rparr> = mk t w' i v p" "(mk t w i v p)\<lparr>idtype := i'\<rparr> = mk t w i' v p"
  by (simp_all add: mk_def)

text \<open>The tree of \<open>e\<close> becomes the node \<open>n\<close> over \<open>ch\<close>, of its width, for which its code is written.\<close>

definition becomes :: "fenv \<Rightarrow> fexpr \<Rightarrow> node_data \<times> finsh_node \<Rightarrow> bool" where
  "becomes env e = (\<lambda>(n, ch).
     (\<forall>sib err. finsh_type_check env (tree e sib) 0 err =
        (finsh_type_check env sib 0 err \<bind> (\<lambda>(sib', err'). Some (Node n ch sib', err')))) \<and>
     data_type n = ety env e \<and>
     (\<forall>X. finsh_compile env (Node n ch X) = (\<lambda>s. code_bytes (code env e) s \<bind> finsh_compile env X)))"

definition chain :: "(node_data \<times> finsh_node) list \<Rightarrow> finsh_node" where
  "chain ps = foldr (\<lambda>(n, ch) X. Node n ch X) ps NULL_node"

lemma chain_simps [simp]: "chain [] = NULL_node" "chain (p # ps) = Node (fst p) (snd p) (chain ps)"
  by (auto simp: chain_def split: prod.splits)

lemma siblings_chain [simp]: "siblings (chain ps) = length ps"
  by (induction ps) auto

lemma becomes_chain:
  assumes "list_all2 (becomes env) es ps"
  shows "finsh_type_check env (trees es) 0 err = Some (chain ps, err)"
    and "finsh_compile env (chain ps) = code_bytes (codes env es)"
  using assms
  by (induction es ps rule: list_all2_induct) (auto simp: becomes_def code_bytes_append split: prod.splits intro!: ext)

text \<open>How a node with no child, and one with a child, become what they are.\<close>

lemma leaf_becomes:
  assumes "\<And>sib. tree e sib = Node k NULL_node sib" "\<And>err. leaf_type env k err = Some (n, err)"
    "compile_node env n NULL_node = Some (Bytes (code env e))" "data_type n = ety env e"
  shows "becomes env e (n, NULL_node)"
  using assms by (auto simp: becomes_def emit_def finsh_compile.simps(2) split: Option.bind_splits intro!: ext)

lemma node_becomes:
  assumes t: "\<And>sib. tree e sib = Node k C sib"
    and c: "\<And>err. finsh_type_check env C (child_addr (node_type k) 0) err = Some (Node c cc cs, err)"
    and d: "data_type c = ety env e"
    and x: "finsh_compile env (Node c cc cs) = code_bytes xs"
    and y: "compile_node env (k\<lparr>data_type := data_type c\<rparr>) (Node c cc cs) = Some (Bytes ys)"
    and e: "code env e = xs @ ys"
  shows "becomes env e (k\<lparr>data_type := data_type c\<rparr>, Node c cc cs)"
proof -
  have "finsh_compile env (Node (k\<lparr>data_type := data_type c\<rparr>) (Node c cc cs) X) =
      (\<lambda>s. code_bytes (code env e) s \<bind> finsh_compile env X)" for X
    using x y e by (auto simp: code_bytes_append emit_def finsh_compile.simps(2)[of _ "k\<lparr>data_type := data_type c\<rparr>"])
  moreover have "finsh_type_check env (tree e sib) 0 err =
      (finsh_type_check env sib 0 err \<bind> (\<lambda>(sib', err'). Some (Node (k\<lparr>data_type := data_type c\<rparr>) (Node c cc cs) sib', err')))"
    for sib err using t c by (auto split: Option.bind_splits prod.splits)
  ultimately show ?thesis using d by (simp add: becomes_def)
qed

subsubsection \<open>Variables\<close>

definition sym_mark :: "fenv \<Rightarrow> fsym \<Rightarrow> u8 \<Rightarrow> node_data" where
  "sym_mark env x adr = (sym_node x)\<lparr>data_type := sym_width env x, idtype := idtype (sym_node x) OR adr\<rparr>"

lemma type_width_load: "is_width (load_width y) \<Longrightarrow> type_width y = Some (load_width y)"
  by (cases y) (auto simp: is_width_def)

lemma load_var_code:
  "is_width (load_width y) \<Longrightarrow> load_var y adr p = (if adr then 36 else 36 + load_width y) # FINSH_SET32 p"
  by (cases y) (auto simp: is_width_def)

lemma sym_mark_fields [simp]:
  "node_type (sym_mark env x adr) = FINSH_NODE_ID" "data_type (sym_mark env x adr) = sym_width env x"
  "nd_id (sym_mark env (Var p) adr) = p"
  by (cases x; simp add: sym_mark_def mk_def)+

lemma sym_leaf:
  assumes "sym_ok env x" "adr = 0 \<or> adr = 8"
  shows "leaf_type env ((sym_node x)\<lparr>idtype := idtype (sym_node x) OR adr\<rparr>) err = Some (sym_mark env x adr, err)"
  using assms
  by (cases x)
    (auto simp: sym_ok_def sym_width_def leaf_type_def mk_def sym_mark_def set_width_def type_width_load
      split: option.splits if_splits)

lemma sym_check:
  assumes "sym_ok env x" "adr = 0 \<or> adr = 8"
  shows "finsh_type_check env (Node (sym_node x) NULL_node sib) adr err =
    (finsh_type_check env sib 0 err \<bind> (\<lambda>(sib', err'). Some (Node (sym_mark env x adr) NULL_node sib', err')))"
proof -
  have "idtype (sym_node x) \<noteq> FINSH_IDTYPE_SYSCALL" by (cases x) simp_all
  then show ?thesis using sym_leaf[OF assms] by (auto split: Option.bind_splits)
qed

lemma sym_compile:
  assumes "sym_ok env x" "adr = 0 \<or> adr = 8"
  shows "compile_node env (sym_mark env x adr) ch =
    Some (Bytes ((if adr = 8 then 36 else 36 + sym_width env x) # FINSH_SET32 (sym_addr env x)))"
  using assms
  by (cases x)
    (auto simp: sym_ok_def sym_width_def compile_node_def compile_id_def mk_def sym_mark_def compile_sysvar_id_def
      compile_var_id_def load_var_code is_address_def split: option.splits if_splits)

subsubsection \<open>Every expression\<close>

lemma bop_compile:
  "is_width (data_type n) \<Longrightarrow> node_type n = bop_node b \<Longrightarrow> compile_node env n ch = Some (Bytes [bop_code b + data_type n])"
  by (cases b) (auto simp: compile_node_def by_width_def is_width_def)

lemma store_code_width: "is_width w \<Longrightarrow> store_code w = Bytes [39 + w, 44 + w]"
  by (auto simp: store_code_def is_width_def)

lemma bump_compile:
  assumes "sym_ok env (Var p)" "node_type n = t" "data_type n = sym_width env (Var p)"
  shows "t = FINSH_NODE_SYS_PREINC \<Longrightarrow> compile_node env n (Node (sym_mark env (Var p) adr) NULL_node NULL_node) =
      Some (Bytes (bump_code 0 (data_type n) (value_addr p) @ [47]))"
    "t = FINSH_NODE_SYS_PREDEC \<Longrightarrow> compile_node env n (Node (sym_mark env (Var p) adr) NULL_node NULL_node) =
      Some (Bytes (bump_code 3 (data_type n) (value_addr p) @ [47]))"
    "t = FINSH_NODE_SYS_INC \<Longrightarrow> compile_node env n (Node (sym_mark env (Var p) adr) NULL_node NULL_node) =
      Some (Bytes (36 # FINSH_SET32 (value_addr p) @ bump_code 0 (data_type n) (value_addr p) @ [43]))"
    "t = FINSH_NODE_SYS_DEC \<Longrightarrow> compile_node env n (Node (sym_mark env (Var p) adr) NULL_node NULL_node) =
      Some (Bytes (36 # FINSH_SET32 (value_addr p) @ bump_code 3 (data_type n) (value_addr p) @ [43]))"
  using assms unfolding sym_ok_def
  by (cases rule: is_width_cases;
      simp add: compile_node_def compile_preinc_def compile_predec_def compile_inc_def compile_dec_def
        id_child_def by_width_def bump_code_def)+

lemma child_addr_simps [simp]:
  "child_addr (bop_node b) 0 = 0" "child_addr FINSH_NODE_SYS_BITWISE 0 = 0" "child_addr FINSH_NODE_SYS_ASSIGN a = 8"
  "child_addr FINSH_NODE_SYS_GETADDR a = 8" "child_addr FINSH_NODE_SYS_GETVALUE a = 0"
  "child_addr FINSH_NODE_SYS_PREINC a = 8" "child_addr FINSH_NODE_SYS_PREDEC a = 8"
  "child_addr FINSH_NODE_SYS_INC 0 = 0" "child_addr FINSH_NODE_SYS_DEC 0 = 0" "child_addr FINSH_NODE_SYS_FUNC 0 = 0"
  by (cases b; simp add: child_addr_def) (auto simp: child_addr_def)

lemma two_check:
  assumes "becomes env e (n, ch)" "becomes env f (k, c)"
  shows "finsh_type_check env (tree e (tree f NULL_node)) 0 err = Some (Node n ch (Node k c NULL_node), err)"
    "finsh_compile env (Node n ch (Node k c NULL_node)) = code_bytes (code env e @ code env f)"
  using assms by (auto simp: becomes_def code_bytes_append intro!: ext)

lemma one_check:
  assumes "becomes env e (n, ch)"
  shows "finsh_type_check env (tree e NULL_node) 0 err = Some (Node n ch NULL_node, err)"
    "finsh_compile env (Node n ch NULL_node) = code_bytes (code env e)"
  using assms by (auto simp: becomes_def)

lemma becomes_type: "becomes env e (n, ch) \<Longrightarrow> data_type n = ety env e"
  by (simp add: becomes_def)

lemma sym_compile_node:
  assumes "sym_ok env x" "adr = 0 \<or> adr = 8"
  shows "finsh_compile env (Node (sym_mark env x adr) NULL_node X) =
     (\<lambda>s. code_bytes ((if adr = 8 then 36 else 36 + sym_width env x) # FINSH_SET32 (sym_addr env x)) s \<bind> finsh_compile env X)"
  using sym_compile[OF assms, of NULL_node] by (auto simp: emit_def finsh_compile.simps(2))

lemma ident_becomes: "sym_ok env x \<Longrightarrow> becomes env (Ident x) (sym_mark env x 0, NULL_node)"
  using sym_check[of env x 0] sym_compile_node[of env x 0]
  by (auto simp: becomes_def simp del: finsh_type_check.simps(2) code_bytes.simps)

lemma bin_becomes:
  assumes "becomes env e (n, ch)" "becomes env f (k, c)" "is_width (ety env e)"
  shows "becomes env (Bin b e f) (mk (bop_node b) (ety env e) 0 0 0, Node n ch (Node k c NULL_node))"
  using node_becomes[of "Bin b e f" "mk (bop_node b) 0 0 0 0" "tree e (tree f NULL_node)" env n ch "Node k c NULL_node",
      OF _ _ _ two_check(2)[OF assms(1,2)] bop_compile] two_check(1)[OF assms(1,2)]
    becomes_type[OF assms(1)] assms(3) by simp

lemma bnot_becomes:
  assumes "becomes env e (n, ch)" "is_width (ety env e)"
  shows "becomes env (Bnot e) (mk FINSH_NODE_SYS_BITWISE (ety env e) 0 0 0, Node n ch NULL_node)"
  using node_becomes[of "Bnot e" "mk FINSH_NODE_SYS_BITWISE 0 0 0 0" "tree e NULL_node" env n ch NULL_node "code env e" "[24 + ety env e]"]
    one_check[OF assms(1)] becomes_type[OF assms(1)] assms(2)
  by (auto simp: compile_node_def by_width_def is_width_def)

lemma deref_becomes:
  assumes "becomes env e (n, ch)" "is_width (ety env e)"
  shows "becomes env (Deref e) (mk FINSH_NODE_SYS_GETVALUE (ety env e) 0 0 0, Node n ch NULL_node)"
  using node_becomes[of "Deref e" "mk FINSH_NODE_SYS_GETVALUE 0 0 0 0" "tree e NULL_node" env n ch NULL_node "code env e" "[44 + ety env e]"]
    one_check[OF assms(1)] becomes_type[OF assms(1)] assms(2)
  by (auto simp: compile_node_def compile_getvalue_def is_address_def by_width_def is_width_def)

lemma addr_becomes:
  assumes "sym_ok env x"
  shows "becomes env (AddrOf x) (mk FINSH_NODE_SYS_GETADDR (sym_width env x) 0 0 0, Node (sym_mark env x 8) NULL_node NULL_node)"
  using node_becomes[of "AddrOf x" "mk FINSH_NODE_SYS_GETADDR 0 0 0 0" "Node (sym_node x) NULL_node NULL_node" env
      "sym_mark env x 8" NULL_node NULL_node "36 # FINSH_SET32 (sym_addr env x)" "[]"]
    sym_check[of env x 8 NULL_node] sym_compile_node[of env x 8] assms
  by (auto simp: compile_node_def simp del: finsh_type_check.simps(2) code_bytes.simps)

lemma assign_code:
  assumes "sym_ok env x" "becomes env e (n, ch)"
  shows "finsh_compile env (Node (sym_mark env x 8) NULL_node (Node n ch NULL_node)) =
      code_bytes (36 # FINSH_SET32 (sym_addr env x) @ code env e)"
proof
  fix s
  show "finsh_compile env (Node (sym_mark env x 8) NULL_node (Node n ch NULL_node)) s =
      code_bytes (36 # FINSH_SET32 (sym_addr env x) @ code env e) s"
    using sym_compile_node[OF assms(1), of 8 "Node n ch NULL_node"] one_check(2)[OF assms(2)]
      code_bytes_append[of "36 # FINSH_SET32 (sym_addr env x)" "code env e" s]
    by (simp del: code_bytes.simps)
qed

lemma assign_becomes:
  assumes "sym_ok env x" "becomes env e (n, ch)"
  shows "becomes env (Assign x e)
    (mk FINSH_NODE_SYS_ASSIGN (sym_width env x) 0 0 0, Node (sym_mark env x 8) NULL_node (Node n ch NULL_node))"
proof -
  have "compile_assign (Node (sym_mark env x 8) NULL_node (Node n ch NULL_node)) =
      Some (Bytes [39 + sym_width env x, 44 + sym_width env x])"
    using assms(1) by (simp add: compile_assign_def store_code_width sym_ok_def)
  then show ?thesis
    using node_becomes[of "Assign x e" "mk FINSH_NODE_SYS_ASSIGN 0 0 0 0" "Node (sym_node x) NULL_node (tree e NULL_node)" env
        "sym_mark env x 8" NULL_node "Node n ch NULL_node" "36 # FINSH_SET32 (sym_addr env x) @ code env e"
        "[39 + sym_width env x, 44 + sym_width env x]"] assms one_check(1)[OF assms(2)]
      sym_check[OF assms(1), of 8 "tree e NULL_node"] assign_code[OF assms]
    by (simp add: compile_node_def del: finsh_type_check.simps(2) code_bytes.simps)
qed

lemma assign_at_becomes:
  assumes p: "becomes env p (n, ch)" and e: "becomes env e (k, c)" and w: "is_width (ety env p)"
  shows "becomes env (AssignAt p e)
    (mk FINSH_NODE_SYS_ASSIGN (ety env p) 0 0 0,
     Node (mk FINSH_NODE_SYS_GETVALUE (ety env p) 8 0 0) (Node n ch NULL_node) (Node k c NULL_node))"
proof -
  let ?g = "mk FINSH_NODE_SYS_GETVALUE (ety env p) 8 0 0"
  have "ety env p AND 0x0f = ety env p" using w by (auto simp: is_width_def)
  then have a: "compile_assign (Node ?g (Node n ch NULL_node) (Node k c NULL_node)) =
      Some (Bytes [39 + ety env p, 44 + ety env p])"
    using w by (simp add: compile_assign_def store_code_width)
  have g: "compile_node env ?g (Node n ch NULL_node) = Some (Bytes [])"
    by (simp add: compile_node_def compile_getvalue_def is_address_def)
  have x: "finsh_compile env (Node ?g (Node n ch NULL_node) (Node k c NULL_node)) = code_bytes (code env p @ code env e)"
    using g one_check(2)[OF p] one_check(2)[OF e]
    by (auto simp: finsh_compile.simps(2)[of _ ?g] emit_def code_bytes_append intro!: ext)
  have c: "finsh_type_check env (Node (mk FINSH_NODE_SYS_GETVALUE 0 0 0 0) (tree p NULL_node) (tree e NULL_node)) 8 err =
      Some (Node ?g (Node n ch NULL_node) (Node k c NULL_node), err)" for err
    using one_check(1)[OF p] one_check(1)[OF e] becomes_type[OF p] by simp
  show ?thesis
    using node_becomes[of "AssignAt p e" "mk FINSH_NODE_SYS_ASSIGN 0 0 0 0" _ env ?g "Node n ch NULL_node" "Node k c NULL_node",
        OF tree.simps(11) _ _ x, of "[39 + ety env p, 44 + ety env p]"] c a
    by (simp add: compile_node_def del: finsh_type_check.simps(2))
qed

lemma step_becomes:
  assumes p: "sym_ok env (Var p)" and t: "\<And>sib. tree e sib = Node (mk t 0 0 0 0) (Node (sym_node (Var p)) NULL_node NULL_node) sib"
    and a: "child_addr t 0 = adr" "adr = 0 \<or> adr = 8" and d: "ety env e = sym_width env (Var p)"
    and y: "compile_node env (mk t (sym_width env (Var p)) 0 0 0) (Node (sym_mark env (Var p) adr) NULL_node NULL_node) = Some (Bytes ys)"
    and e: "code env e = (if adr = 8 then 36 else 36 + sym_width env (Var p)) # FINSH_SET32 (value_addr p) @ ys"
  shows "becomes env e (mk t (sym_width env (Var p)) 0 0 0, Node (sym_mark env (Var p) adr) NULL_node NULL_node)"
  using node_becomes[OF t, of env "sym_mark env (Var p) adr" NULL_node NULL_node
      "(if adr = 8 then 36 else 36 + sym_width env (Var p)) # FINSH_SET32 (value_addr p)" ys]
    sym_check[OF p a(2), of NULL_node] sym_compile_node[OF p a(2), of NULL_node] a(1) d y e
  by (simp del: finsh_type_check.simps(2) code_bytes.simps sym_node.simps)

lemma bump_becomes:
  assumes p: "sym_ok env (Var p)"
  shows "\<exists>q. becomes env (PreInc p) q" "\<exists>q. becomes env (PreDec p) q" "\<exists>q. becomes env (Inc p) q"
    "\<exists>q. becomes env (Dec p) q"
proof -
  let ?w = "sym_width env (Var p)"
  note b = bump_compile[OF p, of "mk t ?w 0 0 0" t for t, simplified]
  show "\<exists>q. becomes env (PreInc p) q"
    using step_becomes[OF p tree.simps(13) _ _ _ b(1), of 8] by fastforce
  show "\<exists>q. becomes env (PreDec p) q"
    using step_becomes[OF p tree.simps(14) _ _ _ b(2), of 8] by fastforce
  show "\<exists>q. becomes env (Inc p) q"
    using step_becomes[OF p tree.simps(15) _ _ _ b(3), of 0] by fastforce
  show "\<exists>q. becomes env (Dec p) q"
    using step_becomes[OF p tree.simps(16) _ _ _ b(4), of 0] by fastforce
qed

lemma call_becomes:
  assumes f: "syscall_at env f = Some c" and as: "list_all2 (becomes env) as ps"
  shows "\<exists>q. becomes env (Call f as) q"
proof -
  let ?i = "mk FINSH_NODE_ID 0 FINSH_IDTYPE_SYSCALL 0 f" and ?k = "mk FINSH_NODE_SYS_FUNC 0 0 0 0"
  let ?a = "36 # FINSH_SET32 (sc_func c)"
  have l: "compile_node env ?i NULL_node = Some (Bytes ?a)"
    using f by (simp add: compile_node_def compile_id_def compile_syscall_id_def)
  have x: "finsh_compile env (Node ?i NULL_node (chain ps)) = code_bytes (?a @ codes env as)"
  proof
    fix s show "finsh_compile env (Node ?i NULL_node (chain ps)) s = code_bytes (?a @ codes env as) s"
      using l becomes_chain(2)[OF as] code_bytes_append[of ?a "codes env as" s]
      by (simp add: finsh_compile.simps(2) emit_def del: code_bytes.simps)
  qed
  have c: "finsh_type_check env (Node ?i NULL_node (trees as)) 0 err = Some (Node ?i NULL_node (chain ps), err)" for err
    using becomes_chain(1)[OF as] by (simp add: leaf_type_def)
  have "becomes env (Call f as) (?k\<lparr>data_type := data_type ?i\<rparr>, Node ?i NULL_node (chain ps))"
  proof (rule node_becomes[OF tree.simps(17) _ _ x])
    show "compile_node env (?k\<lparr>data_type := data_type ?i\<rparr>) (Node ?i NULL_node (chain ps)) =
        Some (Bytes [44, of_nat (length as)])"
      using list_all2_lengthD[OF as] by (simp add: compile_node_def compile_func_def)
    show "code env (Call f as) = (?a @ codes env as) @ [44, of_nat (length as)]" using f by simp
  qed (use c in \<open>simp_all del: finsh_type_check.simps(2)\<close>)
  then show ?thesis by blast
qed

lemma list_all2_choice: "\<forall>a \<in> set as. \<exists>q. P a q \<Longrightarrow> \<exists>ps. list_all2 P as ps"
proof (induction as)
  case (Cons a as)
  then obtain q ps where "P a q" "list_all2 P as ps" by auto
  then show ?case by (intro exI[of _ "q # ps"]) simp
qed (auto intro: exI[of _ "[]"])

lemma char_value_ucast [simp]: "char_value (ucast c) = c"
  by (rule bit_word_eqI) (simp add: char_value_def bit_simps)

lemma wt_becomes: "wt env e \<Longrightarrow> \<exists>q. becomes env e q"
proof (induction env e rule: wt.induct)
  case (17 env f as)
  then obtain c where c: "syscall_at env f = Some c" by auto
  from 17 have "\<forall>a \<in> set as. \<exists>q. becomes env a q" by simp
  then obtain ps where "list_all2 (becomes env) as ps" using list_all2_choice by blast
  with c call_becomes show ?case by blast
next
  case (1 env c)
  have "becomes env (Char c) (mk FINSH_NODE_VALUE_CHAR 1 0 (ucast c) 0, NULL_node)"
    by (rule leaf_becomes[OF tree.simps(1)]) (simp_all add: leaf_type_def compile_node_def)
  then show ?case by blast
next
  case (2 env v)
  have "becomes env (Num v) (mk FINSH_NODE_VALUE_INT 3 0 v 0, NULL_node)"
    by (rule leaf_becomes[OF tree.simps(2)]) (simp_all add: leaf_type_def compile_node_def)
  then show ?case by blast
next
  case (3 env v)
  have "becomes env (Long v) (mk FINSH_NODE_VALUE_LONG 3 0 v 0, NULL_node)"
    by (rule leaf_becomes[OF tree.simps(3)]) (simp_all add: leaf_type_def compile_node_def)
  then show ?case by blast
next
  case (4 env v)
  have "becomes env (Str v) (mk FINSH_NODE_VALUE_STRING 3 0 v 0, NULL_node)"
    by (rule leaf_becomes[OF tree.simps(4)]) (simp_all add: leaf_type_def compile_node_def)
  then show ?case by blast
next
  case (5 env v)
  have "becomes env (Null v) (mk FINSH_NODE_VALUE_NULL 3 0 v 0, NULL_node)"
    by (rule leaf_becomes[OF tree.simps(5)]) (simp_all add: leaf_type_def compile_node_def)
  then show ?case by blast
next
  case (6 env x) then show ?case using ident_becomes[of env x] by auto
next
  case (7 env x) then show ?case using addr_becomes[of env x] by auto
next
  case (8 env b e f) then show ?case using bin_becomes[of env e _ _ f _ _ b] by (metis surj_pair wt.simps(8))
next
  case (9 env e) then show ?case using bnot_becomes[of env e] by (metis surj_pair wt.simps(9))
next
  case (10 env x e) then show ?case using assign_becomes[of env x e] by (metis surj_pair wt.simps(10))
next
  case (11 env p e) then show ?case using assign_at_becomes[of env p _ _ e] by (metis surj_pair wt.simps(11))
next
  case (12 env e) then show ?case using deref_becomes[of env e] by (metis surj_pair wt.simps(12))
qed (simp_all only: wt.simps bump_becomes)

lemma wt_chain: "\<forall>e \<in> set es. wt env e \<Longrightarrow> \<exists>ps. list_all2 (becomes env) es ps"
  using list_all2_choice[of es "becomes env"] wt_becomes by blast

text \<open>What the writes do: they fill the segment from the position on, or overrun it.\<close>

lemma code_bytes_effect:
  "finsh_compile_pc s \<le> length (code_seg s) \<Longrightarrow> code_bytes xs s =
    (if finsh_compile_pc s + length xs \<le> length (code_seg s)
     then Some (s\<lparr>code_seg := take (finsh_compile_pc s) (code_seg s) @ xs @
                    drop (finsh_compile_pc s + length xs) (code_seg s),
                  finsh_compile_pc := finsh_compile_pc s + length xs\<rparr>)
     else None)"
proof (induction xs arbitrary: s)
  case (Cons x xs)
  let ?s = "s\<lparr>code_seg := (code_seg s)[finsh_compile_pc s := x], finsh_compile_pc := finsh_compile_pc s + 1\<rparr>"
  show ?case
  proof (cases "finsh_compile_pc s < length (code_seg s)")
    case True
    then have "code_bytes (x # xs) s = code_bytes xs ?s" by (simp add: finsh_code_byte_def)
    with Cons.IH[of ?s] True show ?thesis
      by (auto simp: take_Suc_conv_app_nth add.commute)
  qed (simp add: finsh_code_byte_def)
qed simp

fun stmts_code :: "fenv \<Rightarrow> fexpr list \<Rightarrow> u8 list" where
  "stmts_code env [] = []"
| "stmts_code env [e] = code env e"
| "stmts_code env (e # f # es) = code env e @ 43 # stmts_code env (f # es)"

lemma code_bytes_Cons: "code_bytes (x # xs) = (\<lambda>s. finsh_code_byte x s \<bind> code_bytes xs)"
  by (rule ext) simp

lemma stmts_compile:
  "list_all2 (becomes env) es ps \<Longrightarrow> compile_statements env (chain ps) s = code_bytes (stmts_code env es) s"
proof (induction env es arbitrary: ps s rule: stmts_code.induct)
  case (2 env e)
  then show ?case by (cases ps) (auto simp: becomes_def split: prod.splits)
next
  case (3 env e f es)
  then obtain p q qs where ps: "ps = p # q # qs" by (auto simp: list_all2_Cons1)
  with "3.prems" have "list_all2 (becomes env) (f # es) (q # qs)" by simp
  from "3.IH"[OF this] have "compile_statements env (chain (q # qs)) = code_bytes (stmts_code env (f # es))" by (rule ext)
  moreover have "finsh_compile env (Node (fst p) (snd p) NULL_node) = code_bytes (code env e)"
    using "3.prems" ps by (auto simp: becomes_def)
  ultimately show ?case
    using ps by (simp add: code_bytes_append del: chain_simps(2)) (simp only: chain_simps(2) compile_statements.simps, simp add: code_bytes_Cons)
qed simp

text \<open>The whole compiler on a list of statements.\<close>

lemma compiler_run_becomes:
  assumes ps: "list_all2 (becomes env) es ps"
  shows "finsh_compiler_run env (trees es) s err =
    (if length (stmts_code env es) \<le> FINSH_TEXT_MAX
     then Some (s\<lparr>text_segment := stmts_code env es @ replicate (FINSH_TEXT_MAX - length (stmts_code env es)) 0,
                  finsh_vm_stack := (finsh_vm_stack s)[0 := 0]\<rparr>, err)
     else None)"
  using becomes_chain(1)[OF ps, of err] stmts_compile[OF ps]
  by (simp add: finsh_compiler_run_def code_bytes_effect)

lemmas compiler_run_code = compiler_run_becomes[OF someI_ex[OF wt_chain]]

end
