(* ===== verification/RT_Finsh_Correct.thy ===== *)
theory RT_Finsh_Correct
  imports RT_Finsh_Lang
begin

text \<open>
  The proof that compiling and running computes the meaning (the expressions, their trees and their
  meaning are in \<^verbatim>\<open>RT_Finsh_Lang\<close>), and two commands for which the compiler is not safe.
\<close>

subsection \<open>Running the code\<close>

text \<open>How many slots the code of an expression uses.\<close>

fun need :: "fexpr \<Rightarrow> nat" and needs :: "fexpr list \<Rightarrow> nat" where
  "need (Char c) = 1" | "need (Num v) = 1" | "need (Long v) = 1" | "need (Str v) = 1" | "need (Null v) = 1"
| "need (Ident x) = 1" | "need (AddrOf x) = 1"
| "need (Bin b e f) = max (need e) (Suc (need f))"
| "need (Bnot e) = need e"
| "need (Assign x e) = Suc (need e)"
| "need (AssignAt p e) = max (need p) (Suc (need e))"
| "need (Deref e) = need e"
| "need (PreInc p) = 3" | "need (PreDec p) = 3" | "need (Inc p) = 4" | "need (Dec p) = 4"
| "need (Call f as) = Suc (needs as)"
| "needs [] = 0"
| "needs (e # es) = max (need e) (Suc (needs es))"

lemma need_pos: "0 < need e"
  by (induction e) auto

lemma vbits_width: "is_width (ety env e) \<Longrightarrow> nbits (ety env e) \<le> vbits env e"
  by (cases e) (auto simp: vbits_def nbits_def)

lemma length_SET [simp]: "length (FINSH_SET32 p) = 4" "length (FINSH_SET16 h) = 2"
  by (simp_all add: FINSH_SET32_def FINSH_SET16_def)

lemma pushes_32E:
  assumes "pushes sysc t s pc st m 32 x"
  obtains s' where "goes sysc s s'" "conf t s' pc (st @ [x]) m"
  using assms by (auto simp: pushes_def)

lemma exec_one:
  assumes c: "conf t s pc st m" and w: "is_width w"
    and k: "code_at t pc (by_width w [34, 1] (35 # FINSH_SET16 1) (36 # FINSH_SET32 1))"
    and l: "length st < FINSH_STACK_MAX"
  shows "pushes sysc t s (pc + length (by_width w [34, 1] (35 # FINSH_SET16 1) (36 # FINSH_SET32 1))) st m (nbits w) 1"
  using w
proof (cases rule: is_width_cases)
  case byte
  with k exec_ld_byte[OF c _ l, of 1 "[]"] show ?thesis by (simp add: by_width_def nbits_def)
next
  case word
  with k exec_ld_word[OF c _ l, of 1 0 "[]"] show ?thesis
    by (simp add: by_width_def nbits_def FINSH_SET16_def eval_nat_numeral)
next
  case dword
  with k exec_ld_dword[OF c _ l, of 1 "[]"] show ?thesis by (simp add: by_width_def nbits_def)
qed

lemma exec_bump:
  assumes c: "conf t s pc (st @ [p]) m" and k: "code_at t pc (bump_code (bop_code b) w p)" and w: "is_width w"
    and l: "length st + 3 \<le> FINSH_STACK_MAX" and e: "bump b w p m = Some (x, y, m')"
  shows "\<exists>s'. goes sysc s s' \<and> conf t s' (pc + length (bump_code (bop_code b) w p)) (st @ [p]) m'"
proof -
  let ?one = "by_width w [34, 1] (35 # FINSH_SET16 1) (36 # FINSH_SET32 1)"
  obtain q where q: "q = pc + 5 + length ?one" by simp
  from k have k1: "code_at t pc ((36 + w) # FINSH_SET32 p @ [])" and k2: "code_at t (pc + 5) ?one"
    and k3: "code_at t q ((bop_code b + w) # [39 + w])" and k4: "code_at t (q + 1) ((39 + w) # [])"
    by (auto simp: bump_code_def ac_simps q)
  from e obtain r where x: "x = loadw w m p" and r: "bop_fun b (cval w x) (cval w 1) = Some r" and y: "y = cres w r"
    and m': "m' = storew w p y m" by (auto simp: bump_def bop_val_def Let_def split: Option.bind_splits)
  from exec_ld_value[OF c k1 _ w, of sysc] l obtain s1 v where 1: "goes sysc s s1" "conf t s1 (pc + 5) ((st @ [p]) @ [v]) m"
    "take_bit (nbits w) v = x" by (auto simp: pushes_def x)
  from exec_one[OF 1(2) w k2, of sysc] l obtain s2 o' where 2: "goes sysc s1 s2"
    "conf t s2 q ((st @ [p]) @ [v, o']) m" "take_bit (nbits w) o' = 1" by (auto simp: pushes_def q)
  have cv: "cval w v = cval w x" "cval w o' = cval w 1"
    using 1(3) 2(3) cval_take_bit[OF order_refl w] by metis+
  from exec_bop[OF 2(2) k3 w r[folded cv], of sysc]
  obtain s3 z where 3: "goes sysc s2 s3" "conf t s3 (q + 1) (st @ [p, z]) m" "take_bit (nbits w) z = y"
    by (auto simp: y)
  from exec_st[OF 3(2) k4 w, of sysc] obtain s4 where 4: "goes sysc s3 s4"
    "conf t s4 (q + 2) (st @ [p]) (storew w p z m)" by auto
  have "storew w p z m = m'" using 3(3) m' storew_take_bit[OF order_refl w] by metis
  moreover have "pc + length (bump_code (bop_code b) w p) = q + 2" by (simp add: bump_code_def q)
  ultimately show ?thesis using 1(1) 2(1) 3(1) 4 goes_trans by metis
qed

text \<open>The parts of the main proof, one per way an expression is put together.\<close>

definition runs :: "fenv \<Rightarrow> syscalls \<Rightarrow> fexpr \<Rightarrow> bool" where
  "runs env sysc e \<longleftrightarrow> (\<forall>t s pc st m x m'. eval env sysc e m = Some (x, m') \<longrightarrow> conf t s pc st m \<longrightarrow>
     code_at t pc (code env e) \<longrightarrow> length st + need e \<le> FINSH_STACK_MAX \<longrightarrow>
     pushes sysc t s (pc + length (code env e)) st m' (vbits env e) x)"

lemma runsD:
  "runs env sysc e \<Longrightarrow> eval env sysc e m = Some (x, m') \<Longrightarrow> conf t s pc st m \<Longrightarrow> code_at t pc (code env e) \<Longrightarrow>
     length st + need e \<le> FINSH_STACK_MAX \<Longrightarrow>
     \<exists>s' v. goes sysc s s' \<and> conf t s' (pc + length (code env e)) (st @ [v]) m' \<and> take_bit (vbits env e) v = x"
  unfolding runs_def pushes_def by blast

lemma runs_load:
  assumes "\<And>m. eval env sysc e m = Some (x, m)" "code env e = 36 # FINSH_SET32 x" "need e = 1" "vbits env e = 32"
  shows "runs env sysc e"
  using assms exec_ld_dword[where cs = "[]" and x = x] by (fastforce simp: runs_def)

lemma runs_char: "runs env sysc (Char c)"
  using exec_ld_byte[where cs = "[]"] by (fastforce simp: runs_def vbits_def nbits_def)

lemma runs_ident: "sym_ok env x \<Longrightarrow> runs env sysc (Ident x)"
  using exec_ld_value[where cs = "[]"] by (fastforce simp: runs_def vbits_def sym_ok_def)

lemma runs_bin:
  assumes e: "runs env sysc e" and f: "runs env sysc f" and w: "is_width (ety env e)" "nbits (ety env e) \<le> vbits env f"
  shows "runs env sysc (Bin b e f)"
  unfolding runs_def
proof (intro allI impI)
  fix t s pc st m z m'
  assume ev: "eval env sysc (Bin b e f) m = Some (z, m')" and c: "conf t s pc st m"
    and k: "code_at t pc (code env (Bin b e f))" and l: "length st + need (Bin b e f) \<le> FINSH_STACK_MAX"
  from ev obtain x m1 y r where 1: "eval env sysc e m = Some (x, m1)" "eval env sysc f m1 = Some (y, m')"
    "bop_fun b (cval (ety env e) x) (cval (ety env e) y) = Some r" "z = cres (ety env e) r"
    by (auto simp: bop_val_def split: Option.bind_splits)
  from runsD[OF e 1(1) c] k l obtain s1 v where 2: "goes sysc s s1" "conf t s1 (pc + length (code env e)) (st @ [v]) m1"
    "take_bit (vbits env e) v = x" by (auto simp: max_add_distrib_right)
  from runsD[OF f 1(2) 2(2)] k l obtain s2 u where 3: "goes sysc s1 s2"
    "conf t s2 (pc + length (code env e) + length (code env f)) ((st @ [v]) @ [u]) m'" "take_bit (vbits env f) u = y"
    by (auto simp: max_add_distrib_right)
  have "cval (ety env e) x = cval (ety env e) v" "cval (ety env e) y = cval (ety env e) u"
    using 2(3) 3(3) cval_take_bit[OF vbits_width[OF w(1)] w(1)] cval_take_bit[OF w(2,1)] by auto
  with exec_bop[of t s2 "pc + length (code env e) + length (code env f)" st v u m' b "ety env e" "[]" r sysc] 3(2) k w(1) 1(3)
  obtain s3 q where 4: "goes sysc s2 s3" "conf t s3 (pc + length (code env (Bin b e f))) (st @ [q]) m'"
    "take_bit (nbits (ety env e)) q = z" using 1(4) by (auto simp: add.assoc)
  show "pushes sysc t s (pc + length (code env (Bin b e f))) st m' (vbits env (Bin b e f)) z"
    using pushesI[OF goes_trans[OF goes_trans[OF 2(1) 3(1)] 4(1)] 4(2,3)] by (simp add: vbits_def)
qed

lemma runs_bnot:
  assumes e: "runs env sysc e" and w: "is_width (ety env e)"
  shows "runs env sysc (Bnot e)"
  unfolding runs_def
proof (intro allI impI)
  fix t s pc st m z m'
  assume ev: "eval env sysc (Bnot e) m = Some (z, m')" and c: "conf t s pc st m"
    and k: "code_at t pc (code env (Bnot e))" and l: "length st + need (Bnot e) \<le> FINSH_STACK_MAX"
  from ev obtain x where 1: "eval env sysc e m = Some (x, m')" "z = take_bit (nbits (ety env e)) (NOT x)"
    by (auto split: Option.bind_splits)
  from runsD[OF e 1(1) c] k l obtain s1 v where 2: "goes sysc s s1" "conf t s1 (pc + length (code env e)) (st @ [v]) m'"
    "take_bit (vbits env e) v = x" by auto
  have "take_bit (nbits (ety env e)) (NOT v) = z"
    using 1(2) 2(3) vbits_width[OF w] by (auto simp: bit_eq_iff bit_simps)
  with exec_bw[OF 2(2), of "ety env e" "[]" sysc] k w pushes_goes[OF 2(1)]
  show "pushes sysc t s (pc + length (code env (Bnot e))) st m' (vbits env (Bnot e)) z"
    by (simp add: vbits_def)
qed

text \<open>A store and the load that follows it.\<close>

lemma exec_store_load:
  assumes c: "conf t s pc (st @ [p, u]) m" and k: "code_at t pc [39 + w, 44 + w]" and w: "is_width w" "nbits w \<le> n"
    and x: "take_bit n u = x"
  shows "pushes sysc t s (pc + 2) st (storew w p x m) (nbits w) (take_bit (nbits w) x)"
proof -
  from exec_st[OF c k w(1), of sysc] x storew_take_bit[OF w(2,1), of p u m]
  obtain s1 where 1: "goes sysc s s1" "conf t s1 (pc + 1) (st @ [p]) (storew w p x m)" by auto
  have "code_at t (pc + 1) ((44 + w) # [])" using k by simp
  from exec_ld_stack[OF 1(2) this w(1), of sysc] pushes_goes[OF 1(1)] show ?thesis
    by (simp add: loadw_storew[OF w(1)])
qed

lemma runs_assign:
  assumes x: "sym_ok env x" and e: "runs env sysc e" and w: "nbits (sym_width env x) \<le> vbits env e"
  shows "runs env sysc (Assign x e)"
  unfolding runs_def
proof (intro allI impI)
  fix t s pc st m z m'
  assume ev: "eval env sysc (Assign x e) m = Some (z, m')" and c: "conf t s pc st m"
    and k: "code_at t pc (code env (Assign x e))" and l: "length st + need (Assign x e) \<le> FINSH_STACK_MAX"
  let ?p = "sym_addr env x" and ?w = "sym_width env x"
  from ev obtain v m1 where 1: "eval env sysc e m = Some (v, m1)" "z = take_bit (nbits ?w) v" "m' = storew ?w ?p v m1"
    by (auto simp: Let_def split: Option.bind_splits)
  from k have ks: "code_at t pc (36 # FINSH_SET32 ?p @ [])" "code_at t (pc + 5) (code env e)"
    "code_at t (pc + 5 + length (code env e)) [39 + ?w, 44 + ?w]" by (auto simp: ac_simps)
  from exec_ld_dword[OF c ks(1), of sysc] l obtain s1 where 2: "goes sysc s s1" "conf t s1 (pc + 5) (st @ [?p]) m"
    by (auto elim: pushes_32E)
  from runsD[OF e 1(1) 2(2) ks(2)] l obtain s2 u where 3: "goes sysc s1 s2"
    "conf t s2 (pc + 5 + length (code env e)) (st @ [?p, u]) m1" "take_bit (vbits env e) u = v" by auto
  from exec_store_load[OF 3(2) ks(3) _ w 3(3)] x
  have "pushes sysc t s2 (pc + length (code env (Assign x e))) st m' (vbits env (Assign x e)) z"
    by (simp add: sym_ok_def vbits_def 1 ac_simps)
  then show "pushes sysc t s (pc + length (code env (Assign x e))) st m' (vbits env (Assign x e)) z"
    using pushes_goes[OF goes_trans[OF 2(1) 3(1)]] by blast
qed

lemma runs_assign_at:
  assumes p: "runs env sysc p" and e: "runs env sysc e" and w: "is_width (ety env p)" "vbits env p = 32"
    "nbits (ety env p) \<le> vbits env e"
  shows "runs env sysc (AssignAt p e)"
  unfolding runs_def
proof (intro allI impI)
  fix t s pc st m z m'
  assume ev: "eval env sysc (AssignAt p e) m = Some (z, m')" and c: "conf t s pc st m"
    and k: "code_at t pc (code env (AssignAt p e))" and l: "length st + need (AssignAt p e) \<le> FINSH_STACK_MAX"
  let ?w = "ety env p" and ?q = "pc + length (code env p)"
  from ev obtain a m1 v m2 where 1: "eval env sysc p m = Some (a, m1)" "eval env sysc e m1 = Some (v, m2)"
    "z = take_bit (nbits ?w) v" "m' = storew ?w a v m2" by (auto split: Option.bind_splits)
  from runsD[OF p 1(1) c] k l w(2) obtain s1 where 2: "goes sysc s s1" "conf t s1 ?q (st @ [a]) m1"
    by (auto simp: max_add_distrib_right)
  from runsD[OF e 1(2) 2(2)] k l obtain s2 u where 3: "goes sysc s1 s2"
    "conf t s2 (?q + length (code env e)) (st @ [a, u]) m2" "take_bit (vbits env e) u = v"
    by (auto simp: max_add_distrib_right)
  from k have "code_at t (?q + length (code env e)) [39 + ?w, 44 + ?w]" by simp
  from exec_store_load[OF 3(2) this w(1,3) 3(3)]
  have "pushes sysc t s2 (pc + length (code env (AssignAt p e))) st m' (vbits env (AssignAt p e)) z"
    by (simp add: vbits_def 1 ac_simps)
  then show "pushes sysc t s (pc + length (code env (AssignAt p e))) st m' (vbits env (AssignAt p e)) z"
    using pushes_goes[OF goes_trans[OF 2(1) 3(1)]] by blast
qed

lemma runs_deref:
  assumes e: "runs env sysc e" and w: "is_width (ety env e)" "vbits env e = 32"
  shows "runs env sysc (Deref e)"
  unfolding runs_def
proof (intro allI impI)
  fix t s pc st m z m'
  assume ev: "eval env sysc (Deref e) m = Some (z, m')" and c: "conf t s pc st m"
    and k: "code_at t pc (code env (Deref e))" and l: "length st + need (Deref e) \<le> FINSH_STACK_MAX"
  from ev obtain a where 1: "eval env sysc e m = Some (a, m')" "z = loadw (ety env e) m' a"
    by (auto split: Option.bind_splits)
  from runsD[OF e 1(1) c] k l w(2) obtain s1 where 2: "goes sysc s s1" "conf t s1 (pc + length (code env e)) (st @ [a]) m'"
    by auto
  from exec_ld_stack[OF 2(2), of "ety env e" "[]" sysc] k w(1) pushes_goes[OF 2(1)]
  show "pushes sysc t s (pc + length (code env (Deref e))) st m' (vbits env (Deref e)) z"
    by (simp add: vbits_def 1)
qed

lemma take_bit_load32:
  assumes "is_width w"
  shows "take_bit (nbits w) (load32 m p) = loadw w m p"
proof -
  have "take_bit 8 (load32 m p) = ucast (m p)"
    by (rule bit_word_eqI) (auto simp: load32_def bit_simps dest: bit_u8_bound)
  moreover have "take_bit 16 (load32 m p) = ucast (load16 m p)"
    by (rule bit_word_eqI) (auto simp: load32_def load16_def bit_simps dest: bit_u8_bound)
  ultimately show ?thesis using assms by (auto simp: is_width_def nbits_def loadw_def)
qed

lemma pushes_narrow: "pushes sysc t s pc st m 32 x \<Longrightarrow> take_bit n x = y \<Longrightarrow> pushes sysc t s pc st m n y"
  by (auto simp: pushes_def)

lemma bump_value:
  assumes "is_width w" "bump b w p m = Some (x, y, m')"
  shows "loadw w m' p = y" "x = loadw w m p"
  using assms by (auto simp: bump_def bop_val_def Let_def loadw_storew take_bit_cres split: Option.bind_splits)

lemma runs_pre:
  assumes p: "sym_ok env (Var p)" and w: "w = sym_width env (Var p)"
    and k: "code env e = 36 # FINSH_SET32 (value_addr p) @ bump_code (bop_code b) w (value_addr p) @ [47]"
    and ev: "\<And>m. eval env sysc e m = map_option (\<lambda>(x, y, m'). (y, m')) (bump b w (value_addr p) m)"
    and n: "need e = 3" and v: "vbits env e = nbits w"
  shows "runs env sysc e"
  unfolding runs_def
proof (intro allI impI)
  fix t s pc st m y m'
  let ?a = "value_addr p"
  let ?q = "pc + 5 + length (bump_code (bop_code b) w ?a)"
  assume "eval env sysc e m = Some (y, m')" and c: "conf t s pc st m"
    and kt: "code_at t pc (code env e)" and l: "length st + need e \<le> FINSH_STACK_MAX"
  then obtain x where e: "bump b w ?a m = Some (x, y, m')" by (auto simp: ev)
  have iw: "is_width w" using p w by (simp add: sym_ok_def)
  from kt have ks: "code_at t pc (36 # FINSH_SET32 ?a @ [])" "code_at t (pc + 5) (bump_code (bop_code b) w ?a)"
    "code_at t ?q ((44 + 3) # [])" by (auto simp: k ac_simps)
  from exec_ld_dword[OF c ks(1), of sysc] l n obtain s1 where 1: "goes sysc s s1" "conf t s1 (pc + 5) (st @ [?a]) m"
    by (auto elim: pushes_32E)
  from exec_bump[OF 1(2) ks(2) iw _ e, of sysc] l n obtain s2 where 2: "goes sysc s1 s2" "conf t s2 ?q (st @ [?a]) m'"
    by auto
  from exec_ld_stack[OF 2(2) ks(3), of sysc] have "pushes sysc t s2 (?q + 1) st m' 32 (load32 m' ?a)"
    by (simp add: nbits_def loadw_def)
  then have "pushes sysc t s2 (?q + 1) st m' (nbits w) y"
    using take_bit_load32[OF iw] bump_value(1)[OF iw e] by (auto intro: pushes_narrow)
  then show "pushes sysc t s (pc + length (code env e)) st m' (vbits env e) y"
    using pushes_goes[OF goes_trans[OF 1(1) 2(1)]] by (simp add: k v ac_simps)
qed

lemma runs_post:
  assumes p: "sym_ok env (Var p)" and w: "w = sym_width env (Var p)"
    and k: "code env e = (36 + w) # FINSH_SET32 (value_addr p) @ 36 # FINSH_SET32 (value_addr p) @
      bump_code (bop_code b) w (value_addr p) @ [43]"
    and ev: "\<And>m. eval env sysc e m = map_option (\<lambda>(x, y, m'). (x, m')) (bump b w (value_addr p) m)"
    and n: "need e = 4" and v: "vbits env e = nbits w"
  shows "runs env sysc e"
  unfolding runs_def
proof (intro allI impI)
  fix t s pc st m x m'
  let ?a = "value_addr p"
  let ?q = "pc + 10 + length (bump_code (bop_code b) w ?a)"
  assume "eval env sysc e m = Some (x, m')" and c: "conf t s pc st m"
    and kt: "code_at t pc (code env e)" and l: "length st + need e \<le> FINSH_STACK_MAX"
  then obtain y where e: "bump b w ?a m = Some (x, y, m')" by (auto simp: ev)
  have iw: "is_width w" using p w by (simp add: sym_ok_def)
  from kt have ks: "code_at t pc ((36 + w) # FINSH_SET32 ?a @ [])" "code_at t (pc + 5) (36 # FINSH_SET32 ?a @ [])"
    "code_at t (pc + 10) (bump_code (bop_code b) w ?a)" "code_at t ?q (43 # [])" by (auto simp: k ac_simps)
  from exec_ld_value[OF c ks(1) _ iw, of sysc] l n obtain s1 u where 1: "goes sysc s s1" "conf t s1 (pc + 5) (st @ [u]) m"
    "take_bit (nbits w) u = loadw w m ?a" by (auto simp: pushes_def)
  from exec_ld_dword[OF 1(2) ks(2), of sysc] l n obtain s2 where 2: "goes sysc s1 s2"
    "conf t s2 (pc + 10) ((st @ [u]) @ [?a]) m" by (auto elim: pushes_32E simp: ac_simps)
  from exec_bump[OF 2(2) ks(3) iw _ e, of sysc] l n obtain s3 where 3: "goes sysc s2 s3" "conf t s3 ?q ((st @ [u]) @ [?a]) m'"
    by auto
  from exec_pop[OF 3(2) ks(4), of sysc] obtain s4 where 4: "goes sysc s3 s4" "conf t s4 (?q + 1) (st @ [u]) m'" by blast
  have "goes sysc s s4" using 1(1) 2(1) 3(1) 4(1) goes_trans by metis
  moreover have "pc + length (code env e) = ?q + 1" by (simp add: k)
  ultimately show "pushes sysc t s (pc + length (code env e)) st m' (vbits env e) x"
    using pushesI[of sysc s s4 t "?q + 1" st u m' "nbits w" x] 4(2) 1(3) bump_value(2)[OF iw e] by (simp only: v)
qed

definition runs_all :: "fenv \<Rightarrow> syscalls \<Rightarrow> fexpr list \<Rightarrow> bool" where
  "runs_all env sysc es \<longleftrightarrow> (\<forall>e \<in> set es. runs env sysc e \<and> vbits env e = 32)"

lemma exec_args:
  "runs_all env sysc es \<Longrightarrow> evals env sysc es m = Some (vs, m') \<Longrightarrow> conf t s pc st m \<Longrightarrow>
     code_at t pc (codes env es) \<Longrightarrow> length st + needs es \<le> FINSH_STACK_MAX \<Longrightarrow>
     \<exists>s'. goes sysc s s' \<and> conf t s' (pc + length (codes env es)) (st @ vs) m'"
proof (induction es arbitrary: m vs s pc st)
  case (Cons e es)
  from Cons.prems(2) obtain v m1 us where 1: "eval env sysc e m = Some (v, m1)" "evals env sysc es m1 = Some (us, m')"
    "vs = v # us" by (auto split: Option.bind_splits)
  from runsD[OF _ 1(1) Cons.prems(3)] Cons.prems obtain s1 where 2: "goes sysc s s1"
    "conf t s1 (pc + length (code env e)) (st @ [v]) m1" by (auto simp: runs_all_def max_add_distrib_right)
  from Cons.IH[OF _ 1(2) 2(2)] Cons.prems obtain s2 where "goes sysc s1 s2"
    "conf t s2 (pc + length (code env e) + length (codes env es)) ((st @ [v]) @ us) m'"
    by (auto simp: runs_all_def max_add_distrib_right)
  with 2(1) 1(3) show ?case by (auto simp: add.assoc intro: goes_trans)
qed (auto intro: goes_refl)

lemma length_evals: "evals env sysc es m = Some (vs, m') \<Longrightarrow> length vs = length es"
  by (induction es arbitrary: m vs) (auto split: Option.bind_splits)

lemma runs_call:
  assumes f: "syscall_at env f = Some c" and as: "runs_all env sysc as" "length as \<le> 16"
  shows "runs env sysc (Call f as)"
  unfolding runs_def
proof (intro allI impI)
  fix t s pc st m x m'
  assume ev: "eval env sysc (Call f as) m = Some (x, m')" and c: "conf t s pc st m"
    and k: "code_at t pc (code env (Call f as))" and l: "length st + need (Call f as) \<le> FINSH_STACK_MAX"
  from ev f obtain vs m1 where 1: "evals env sysc as m = Some (vs, m1)" "sysc (sc_func c) vs m1 = Some (x, m')"
    by (auto split: Option.bind_splits)
  let ?q = "pc + 5 + length (codes env as)"
  from k f have ks: "code_at t pc (36 # FINSH_SET32 (sc_func c) @ [])" "code_at t (pc + 5) (codes env as)"
    "code_at t ?q (44 # of_nat (length vs) # [])" by (auto simp: ac_simps length_evals[OF 1(1)])
  from exec_ld_dword[OF c ks(1), of sysc] l obtain s1 where 2: "goes sysc s s1" "conf t s1 (pc + 5) (st @ [sc_func c]) m"
    by (auto elim: pushes_32E)
  from exec_args[OF as(1) 1(1) 2(2) ks(2)] l obtain s2 where 3: "goes sysc s1 s2" "conf t s2 ?q (st @ sc_func c # vs) m1"
    by auto
  from exec_call[where f = "sc_func c" and as = vs and st = st and sysc = sysc, OF 3(2) ks(3) _ 1(2)] as(2) length_evals[OF 1(1)] have "pushes sysc t s2 (?q + 2) st m' 32 x" by simp
  then show "pushes sysc t s (pc + length (code env (Call f as))) st m' (vbits env (Call f as)) x"
    using pushes_goes[OF goes_trans[OF 2(1) 3(1)]] by (simp add: vbits_def ac_simps)
qed

text \<open>The code of a well-typed expression pushes its value.\<close>

lemma wt_runs: "wt env e \<Longrightarrow> runs env sysc e"
proof (induction env e rule: wt.induct)
  case (17 env f as)
  then obtain c where "syscall_at env f = Some c" by auto
  with 17 show ?case by (auto simp: runs_all_def intro!: runs_call)
next
  case (7 env x)
  then show ?case by (intro runs_load[of env sysc _ "sym_addr env x"]) (simp_all add: vbits_def)
next
  case (13 env p) then show ?case by (intro runs_pre[of env p _ _ Add]) (auto simp: vbits_def split: option.splits prod.splits Option.bind_splits)
next
  case (14 env p) then show ?case by (intro runs_pre[of env p _ _ Sub]) (auto simp: vbits_def split: Option.bind_splits)
next
  case (15 env p) then show ?case by (intro runs_post[of env p _ _ Add]) (auto simp: vbits_def split: Option.bind_splits)
next
  case (16 env p) then show ?case by (intro runs_post[of env p _ _ Sub]) (auto simp: vbits_def split: Option.bind_splits)
qed (auto intro: runs_load runs_char runs_ident runs_bin runs_bnot runs_assign runs_assign_at runs_deref
  simp: vbits_def nbits_def)

text \<open>Statements: all but the value of the last are popped.\<close>

fun eval_stmts :: "fenv \<Rightarrow> syscalls \<Rightarrow> fexpr list \<Rightarrow> mem \<Rightarrow> (u32 \<times> mem) option" where
  "eval_stmts env sysc [] m = None"
| "eval_stmts env sysc [e] m = eval env sysc e m"
| "eval_stmts env sysc (e # f # es) m = do { (_, m) \<leftarrow> eval env sysc e m; eval_stmts env sysc (f # es) m }"

lemma exec_stmts:
  "\<forall>e \<in> set es. wt env e \<and> need e \<le> FINSH_STACK_MAX \<Longrightarrow> eval_stmts env sysc es m = Some (x, m') \<Longrightarrow>
     conf t s pc [] m \<Longrightarrow> code_at t pc (stmts_code env es) \<Longrightarrow>
     pushes sysc t s (pc + length (stmts_code env es)) [] m' (vbits env (last es)) x"
proof (induction env sysc es m arbitrary: s pc rule: eval_stmts.induct)
  case (2 env sysc e m)
  then show ?case using wt_runs[of env e sysc] by (auto simp: runs_def)
next
  case (3 env sysc e f es m)
  from "3.prems"(2) obtain v m1 where 1: "eval env sysc e m = Some (v, m1)" "eval_stmts env sysc (f # es) m1 = Some (x, m')"
    by (auto split: Option.bind_splits)
  from runsD[OF wt_runs 1(1) "3.prems"(3)] "3.prems"(1,4) obtain s1 u where 2: "goes sysc s s1"
    "conf t s1 (pc + length (code env e)) ([] @ [u]) m1" by auto
  from exec_pop[OF 2(2), of "stmts_code env (f # es)" sysc] "3.prems"(4) obtain s2 where 3: "goes sysc s1 s2"
    "conf t s2 (pc + length (code env e) + 1) [] m1" by auto
  from "3.IH"[OF 1(1) refl _ 1(2) 3(2)] "3.prems"(1,4) pushes_goes[OF goes_trans[OF 2(1) 3(1)]] show ?case
    by (simp add: ac_simps)
qed simp

subsection \<open>Compiler and machine together\<close>

text \<open>\<^verbatim>\<open>finsh_stack_bottom\<close> of \<^verbatim>\<open>Finsh/finsh_init.c\<close>: what the shell prints.\<close>

definition finsh_stack_bottom :: "vm \<Rightarrow> u32" where
  "finsh_stack_bottom s = finsh_vm_stack s ! 0"

text \<open>The nodes of a tree; the table of nodes has 16 entries.\<close>

fun node_count :: "finsh_node \<Rightarrow> nat" where
  "node_count NULL_node = 0"
| "node_count (Node n ch sib) = Suc (node_count ch + node_count sib)"

lemma node_count_tree: "node_count (tree e sib) = node_count (tree e NULL_node) + node_count sib"
  by (cases e) auto

lemma need_nodes:
  "need e + node_count sib \<le> node_count (tree e sib) + 2"
  "needs es \<le> node_count (trees es) + 2"
proof (induction e sib and es rule: tree_trees.induct)
  case (19 e es)
  have "0 < node_count (tree e NULL_node)" by (cases e) auto
  with 19 node_count_tree[of e "trees es"] show ?case by auto
qed (auto simp: node_count_tree[of _ "tree _ _"])

lemma stmt_need:
  "e \<in> set es \<Longrightarrow> need e \<le> node_count (trees es) + 2"
proof (induction es)
  case (Cons f es)
  then show ?case using need_nodes(1)[of f "trees es"] node_count_tree[of f "trees es"] by auto
qed simp

lemma code_at_segment: "length xs \<le> n \<Longrightarrow> code_at (xs @ replicate (n - length xs) 0) 0 xs"
  by (auto simp: code_at_def nth_append)

lemma finsh_run_correct:
  assumes wt: "\<forall>e \<in> set es. wt env e" and n: "node_count (trees es) \<le> 16"
    and fits: "length (stmts_code env es) \<le> FINSH_TEXT_MAX" and st: "length (finsh_vm_stack s) = FINSH_STACK_MAX"
    and ev: "eval_stmts env sysc es (data_mem s) = Some (x, m)"
  shows "\<exists>s1 s2. finsh_compiler_run env (trees es) s err = Some (s1, err) \<and> finsh_vm_run sysc s1 = Some s2 \<and>
    data_mem s2 = m \<and> take_bit (vbits env (last es)) (finsh_stack_bottom s2) = x"
proof -
  let ?c = "stmts_code env es"
  let ?t = "?c @ replicate (FINSH_TEXT_MAX - length ?c) 0"
  let ?s1 = "s\<lparr>text_segment := ?t, finsh_vm_stack := (finsh_vm_stack s)[0 := 0]\<rparr>"
  have 1: "finsh_compiler_run env (trees es) s err = Some (?s1, err)" using compiler_run_code[OF wt] fits by simp
  let ?s = "?s1\<lparr>finsh_sp := 0, finsh_pc := 0\<rparr>"
  have "conf ?t ?s 0 [] (data_mem s)" using st fits by (simp add: conf_def)
  moreover have "\<forall>e \<in> set es. wt env e \<and> need e \<le> FINSH_STACK_MAX" using wt stmt_need[of _ es] n by fastforce
  ultimately have "pushes sysc ?t ?s (length ?c) [] m (vbits env (last es)) x"
    using exec_stmts[OF _ ev, of ?t ?s 0] code_at_segment[OF fits] by simp
  then obtain s' v where 2: "goes sysc ?s s'" "conf ?t s' (length ?c) [v] m" "take_bit (vbits env (last es)) v = x"
    by (auto simp: pushes_def)
  have "\<forall>i < FINSH_TEXT_MAX. length ?c \<le> i \<longrightarrow> ?t ! i = 0" by (simp add: nth_append)
  from exec_tail[OF 2(2) this, of sysc] obtain s2 where 3: "vm_loop sysc s' = Some s2"
    "conf ?t s2 (max (length ?c) FINSH_TEXT_MAX) [v] m" by blast
  have "finsh_vm_run sysc ?s1 = Some s2" using 2(1) 3(1) by (simp add: finsh_vm_run_def goes_def)
  moreover have "finsh_stack_bottom s2 = v"
    using conf_stack(1)[OF 3(2), of 0] by (simp add: finsh_stack_bottom_def)
  ultimately show ?thesis using 1 2(3) conf_data[OF 3(2)] by blast
qed

subsection \<open>Where the compiler is unsafe\<close>

text \<open>Eight increments of an \<^verbatim>\<open>int\<close> variable fill the table of nodes and overrun the text segment.\<close>

lemma inc_overruns:
  assumes "sym_width env (Var p) = 3"
  shows "node_count (trees (replicate 8 (Inc p))) = 16"
    "finsh_compiler_run env (trees (replicate 8 (Inc p))) s err = None"
proof -
  have "\<forall>e \<in> set (replicate 8 (Inc p)). wt env e" using assms by (simp add: sym_ok_def)
  moreover have "length (stmts_code env (replicate 8 (Inc p))) = 191"
    using assms by (simp add: eval_nat_numeral bump_code_def by_width_def)
  ultimately show "finsh_compiler_run env (trees (replicate 8 (Inc p))) s err = None"
    by (subst compiler_run_code) (simp_all del: sym_node.simps)
qed (simp add: eval_nat_numeral)

text \<open>
  A byte as the right operand of a word: the upper bytes of its slot are those an earlier command
  left there, and they enter the result.
\<close>

lemma mixed_widths_code: "stmts_code env [Bin Add (Num 1) (Char c)] = [36, 1, 0, 0, 0, 34, c, 3]"
  by (simp add: FINSH_SET32_def)

lemma mixed_widths_compile:
  "finsh_compiler_run env (trees [Bin Add (Num 1) (Char c)]) s err =
     Some (s\<lparr>text_segment := [36, 1, 0, 0, 0, 34, c, 3] @ replicate 120 0, finsh_vm_stack := (finsh_vm_stack s)[0 := 0]\<rparr>, err)"
proof -
  obtain p q where "becomes env (Num 1) p" "becomes env (Char c) q" using wt_becomes[of env "Num 1"] wt_becomes[of env "Char c"] by auto
  then have "becomes env (Bin Add (Num 1) (Char c)) (mk (bop_node Add) 3 0 0 0, Node (fst p) (snd p) (Node (fst q) (snd q) NULL_node))"
    using bin_becomes[of env "Num 1" "fst p" "snd p" "Char c" "fst q" "snd q" Add] by simp
  then have "list_all2 (becomes env) [Bin Add (Num 1) (Char c)]
      [(mk (bop_node Add) 3 0 0 0, Node (fst p) (snd p) (Node (fst q) (snd q) NULL_node))]" by simp
  from compiler_run_becomes[OF this, of s err] mixed_widths_code[of env c] show ?thesis by (simp only:) simp
qed

lemma mixed_widths_run:
  assumes st: "length (finsh_vm_stack s) = FINSH_STACK_MAX" and t: "text_segment s = [36, 1, 0, 0, 0, 34, c, 3] @ replicate 120 0"
  shows "\<exists>s'. finsh_vm_run sysc s = Some s' \<and> finsh_stack_bottom s' = 1 + set_char_value c (finsh_vm_stack s ! 1)"
proof -
  let ?t = "text_segment s"
  obtain a b rest where ab: "finsh_vm_stack s = a # b # rest" using st by (cases "finsh_vm_stack s"; cases "tl (finsh_vm_stack s)") auto
  let ?s = "s\<lparr>finsh_sp := 0, finsh_pc := 0\<rparr>"
  let ?s1 = "s\<lparr>finsh_sp := 1, finsh_pc := 5, finsh_vm_stack := 1 # b # rest\<rparr>"
  let ?s2 = "s\<lparr>finsh_sp := 2, finsh_pc := 7, finsh_vm_stack := 1 # set_char_value c b # rest\<rparr>"
  let ?s3 = "s\<lparr>finsh_sp := 1, finsh_pc := 8, finsh_vm_stack := (1 + set_char_value c b) # set_char_value c b # rest\<rparr>"
  have "vm_step sysc ?s = Some ?s1"
    using ab st by (simp add: vm_step_def vm_prim_defs t op_table_def OP_ld_dword_def FINSH_GET32_def)
  moreover have "vm_step sysc ?s1 = Some ?s2"
    using ab st by (simp add: vm_step_def vm_prim_defs t op_table_def OP_ld_byte_def)
  moreover have "vm_step sysc ?s2 = Some ?s3"
    using ab st by (simp add: vm_step_def vm_prim_defs t op_table_def OP_add_dword_def OP_BIN_DWORD_def c_add_def)
  ultimately have "goes sysc ?s ?s3" by (simp add: goes_def vm_loop_step)
  moreover have "conf ?t ?s3 8 [1 + set_char_value c b] (data_mem s)" using st ab t by (simp add: conf_def)
  moreover have "\<forall>i < FINSH_TEXT_MAX. 8 \<le> i \<longrightarrow> ?t ! i = 0" by (simp add: t nth_append nth_Cons' )
  ultimately show ?thesis
    using exec_tail[of ?t ?s3 8 "[1 + set_char_value c b]" "data_mem s" sysc] ab
    by (auto simp: finsh_vm_run_def goes_def finsh_stack_bottom_def dest: conf_stack(1)[where i = 0])
qed

end
