(* ===== verification/RT_Finsh_Example.thy ===== *)
theory RT_Finsh_Example
  imports RT_Finsh_Correct
begin

text \<open>
  A script for the finsh shell, \<^verbatim>\<open>x = 2 + 3; y = x + dbl(x);\<close>, over an \<^verbatim>\<open>int\<close> and a \<^verbatim>\<open>long\<close> variable, with
  one exported function that doubles its argument.
\<close>

definition ex_env :: fenv where
  "ex_env = \<lparr>global_variable = [\<lparr>fv_name = ''x'', fv_type = finsh_type_int\<rparr>, \<lparr>fv_name = ''y'', fv_type = finsh_type_long\<rparr>],
     gv_addr = 0x20000100, sysvar_table = [], global_sysvar_list = [],
     syscall_table = [(0x08001000, \<lparr>sc_name = ''dbl'', sc_func = 0x08000401\<rparr>)], global_syscall_list = []\<rparr>"

definition ex_sysc :: syscalls where
  "ex_sysc f as m = (if f = 0x08000401 then (case as of [a] \<Rightarrow> Some (a + a, m) | _ \<Rightarrow> None) else None)"

definition ex_vm :: vm where
  "ex_vm = \<lparr>finsh_vm_stack = replicate 64 0x12345678, text_segment = replicate 128 0, finsh_sp = 3, finsh_pc = 9,
     data_mem = (\<lambda>_. 0)\<rparr>"

abbreviation (input) ex_x :: u32 where "ex_x \<equiv> 0x20000100"
abbreviation (input) ex_y :: u32 where "ex_y \<equiv> 0x20000118"

definition ex_script :: "fexpr list" where
  "ex_script = [Assign (Var ex_x) (Bin Add (Num 2) (Num 3)),
     Assign (Var ex_y) (Bin Add (Ident (Var ex_x)) (Call 0x08001000 [Ident (Var ex_x)]))]"

definition ex_script_mem :: mem where
  "ex_script_mem = storew 3 (ex_y + 20) 15 (storew 3 (ex_x + 20) 5 (\<lambda>_. 0))"

lemma ex_env_var: "var_at ex_env ex_x = Some \<lparr>fv_name = ''x'', fv_type = finsh_type_int\<rparr>"
    "var_at ex_env ex_y = Some \<lparr>fv_name = ''y'', fv_type = finsh_type_long\<rparr>"
  by (simp_all add: var_at_def ex_env_def var_addr_def)

lemma ex_env_width: "sym_width ex_env (Var ex_x) = 3" "sym_width ex_env (Var ex_y) = 3"
  by (simp_all add: sym_width_def ex_env_var)

lemma ex_env_call: "syscall_at ex_env 0x08001000 = Some \<lparr>sc_name = ''dbl'', sc_func = 0x08000401\<rparr>"
  by (simp add: syscall_at_def ex_env_def)

lemma ex_script_ok:
  "\<forall>e \<in> set ex_script. wt ex_env e" "node_count (trees ex_script) \<le> 16" "length (stmts_code ex_env ex_script) \<le> 128"
  "length (finsh_vm_stack ex_vm) = 64"
  "eval_stmts ex_env ex_sysc ex_script (data_mem ex_vm) = Some (15, ex_script_mem)"
  "vbits ex_env (last ex_script) = 32"
  by (simp_all add: ex_script_def ex_env_width ex_env_call ex_vm_def sym_ok_def vbits_def nbits_def value_addr_def
      bop_val_def c_add_def cval_def cres_def loadw_def storew_def ex_sysc_def ex_script_mem_def)

end
