(* ===== verification/RT_Path.thy ===== *)
theory RT_Path
  imports RT_Kservice
begin

text \<open>
  Paths of the device file system, \<^verbatim>\<open>Filesystems/dfs.c\<close>: \<^verbatim>\<open>dfs_normalize_path\<close>, which rewrites a path in
  place, and \<^verbatim>\<open>dfs_subdir\<close>. A buffer is the list of its bytes, the terminating zero included; reading or
  writing outside it is \<^term>\<open>None\<close>. Whether \<^verbatim>\<open>rt_malloc\<close> finds memory for the copy is an argument.
\<close>

abbreviation (input) SLASH :: u8 where "SLASH \<equiv> 0x2f"
abbreviation (input) DOT :: u8 where "DOT \<equiv> 0x2e"

subsection \<open>The code\<close>

text \<open>\<^verbatim>\<open>while (*src == '/') src++\<close>\<close>

function skip_slashes :: "u8 list \<Rightarrow> nat \<Rightarrow> nat" where
  "skip_slashes b src = (if src < length b \<and> b ! src = SLASH then skip_slashes b (src + 1) else src)"
  by auto
termination by (relation "measure (\<lambda>(b, src). length b - src)") auto

text \<open>\<^verbatim>\<open>while ((c = *src++) != '\0' && c != '/') *dst++ = c\<close>\<close>

function copy_component :: "u8 list \<Rightarrow> nat \<Rightarrow> nat \<Rightarrow> (u8 \<times> u8 list \<times> nat \<times> nat) option" where
  "copy_component b src dst =
    (if src < length b \<and> dst < length b then
       let c = b ! src in
       if c \<noteq> 0 \<and> c \<noteq> SLASH then copy_component (b[dst := c]) (src + 1) (dst + 1)
       else Some (c, b, src + 1, dst)
     else None)"
  by auto
termination by (relation "measure (\<lambda>(b, src, dst). length b - src)") auto

text \<open>\<^verbatim>\<open>while (dst0 < dst && dst[-1] != '/') dst--\<close>\<close>

fun back_to_slash :: "u8 list \<Rightarrow> nat \<Rightarrow> nat" where
  "back_to_slash b 0 = 0"
| "back_to_slash b (Suc dst) = (if b ! dst \<noteq> SLASH then back_to_slash b dst else Suc dst)"

declare skip_slashes.simps [simp del] copy_component.simps [simp del]

text \<open>What stands at \<open>src\<close>: the branches of the code on a leading dot, with the place it goes on from.\<close>

datatype dots = Plain nat | Same nat | Up nat

definition dot_case :: "u8 list \<Rightarrow> nat \<Rightarrow> dots option" where
  "dot_case b src =
    (if \<not> src < length b then None
     else if b ! src \<noteq> DOT then Some (Plain src)
     else if \<not> src + 1 < length b then None
     else if b ! (src + 1) = 0 then Some (Plain (src + 1))
     else if b ! (src + 1) = SLASH then Some (Same (skip_slashes b (src + 2)))
     else if b ! (src + 1) = DOT then
       (if \<not> src + 2 < length b then None
        else if b ! (src + 2) = 0 then Some (Up (src + 2))
        else if b ! (src + 2) = SLASH then Some (Up (skip_slashes b (src + 3)))
        else Some (Plain src))
     else Some (Plain src))"

lemma skip_slashes_ge: "src \<le> skip_slashes b src"
proof (induction b src rule: skip_slashes.induct)
  case (1 b src)
  then show ?case by (subst skip_slashes.simps) auto
qed

lemma copy_component_src: "copy_component b src dst = Some (c, b', src', dst') \<Longrightarrow> src < src' \<and> length b' = length b"
proof (induction b src dst rule: copy_component.induct)
  case (1 b src dst)
  from "1.prems" show ?case using 1(1) by (subst (asm) copy_component.simps) (force simp: Let_def split: if_splits)
qed

lemma dot_case_src:
  "dot_case b src = Some (Plain q) \<Longrightarrow> src \<le> q"
  "dot_case b src = Some (Same q) \<Longrightarrow> length b - q < length b - src"
  "dot_case b src = Some (Up q) \<Longrightarrow> length b - q < length b - src"
  using skip_slashes_ge[of "src + 2" b] skip_slashes_ge[of "src + 3" b]
  by (auto simp: dot_case_def split: if_splits)

lemma copy_progress:
  assumes "dot_case b src = Some (Plain q)" "copy_component b q dst = Some (c, b', src', dst')"
  shows "length b' - skip_slashes (b'[dst' := x]) src' < length b - src"
proof -
  have "q < length b" using assms(2) by (subst (asm) copy_component.simps) (auto split: if_splits)
  then show ?thesis
    using dot_case_src(1)[OF assms(1)] copy_component_src[OF assms(2)] skip_slashes_ge[of src' "b'[dst' := x]"] by auto
qed

text \<open>
  The endless loop of \<^verbatim>\<open>dfs_normalize_path\<close>: \<^term>\<open>Some None\<close> is the return of \<^verbatim>\<open>RT_NULL\<close>, otherwise the
  buffer and \<open>dst\<close> after the loop.
\<close>

function normalize_loop :: "u8 list \<Rightarrow> nat \<Rightarrow> nat \<Rightarrow> (u8 list \<times> nat) option option" where
  "normalize_loop b src dst =
    (case dot_case b src of
       None \<Rightarrow> None
     | Some (Same q) \<Rightarrow> normalize_loop b q dst
     | Some (Up q) \<Rightarrow> if dst = 0 then Some None else normalize_loop b q (back_to_slash b (dst - 1))
     | Some (Plain q) \<Rightarrow>
         (case copy_component b q dst of
            None \<Rightarrow> None
          | Some (c, b, src, dst) \<Rightarrow>
              if c = SLASH then
                (if dst < length b then normalize_loop (b[dst := SLASH]) (skip_slashes (b[dst := SLASH]) src) (dst + 1) else None)
              else Some (Some (b, dst))))"
  by auto
termination
  by (relation "measure (\<lambda>(b, src, dst). length b - src)") (auto simp: copy_progress dest: dot_case_src)

declare normalize_loop.simps [simp del]

definition normalize_in_place :: "u8 list \<Rightarrow> u8 list option option" where
  "normalize_in_place b =
    (case normalize_loop b 0 0 of
       None \<Rightarrow> None
     | Some None \<Rightarrow> Some None
     | Some (Some (b, dst)) \<Rightarrow>
         if dst = 0 \<or> \<not> dst < length b then None
         else let b = b[dst := 0] in
           Some (Some (if dst - 1 \<noteq> 0 \<and> b ! (dst - 1) = SLASH then b[dst - 1 := 0] else b)))"

text \<open>\<open>directory\<close> is \<^term>\<open>None\<close> for \<^verbatim>\<open>RT_NULL\<close>, which stands for the working directory.\<close>

definition dfs_normalize_path :: "u8 list \<Rightarrow> bool \<Rightarrow> u8 list option \<Rightarrow> u8 list \<Rightarrow> u8 list option option" where
  "dfs_normalize_path working_directory malloc_ok directory filename =
    (if \<not> malloc_ok then Some None
     else let directory = (case directory of None \<Rightarrow> working_directory | Some d \<Rightarrow> d) in
       normalize_in_place
         (if filename \<noteq> [] \<and> hd filename = SLASH then filename @ [0] else directory @ SLASH # filename @ [0]))"


subsection \<open>The reference\<close>

text \<open>
  A path is a list of components; an empty one and a single dot stand for nothing, two dots take
  back the one before. \<open>resolve\<close> keeps the result on a stack and fails above the root.
\<close>

fun split_path :: "u8 list \<Rightarrow> u8 list list" where
  "split_path [] = [[]]"
| "split_path (x # xs) = (if x = SLASH then [] # split_path xs else (x # hd (split_path xs)) # tl (split_path xs))"

fun resolve :: "u8 list list \<Rightarrow> u8 list list \<Rightarrow> u8 list list option" where
  "resolve st [] = Some st"
| "resolve st (c # cs) =
    (if c = [] \<or> c = [DOT] then resolve st cs
     else if c = [DOT, DOT] then (case st of [] \<Rightarrow> None | _ # st \<Rightarrow> resolve st cs)
     else resolve (c # st) cs)"

definition render :: "u8 list list \<Rightarrow> u8 list" where
  "render st = (if st = [] then [SLASH] else concat (map (\<lambda>c. SLASH # c) (rev st)))"

subsection \<open>The loop implements the reference\<close>

text \<open>The part of the buffer that is done: every component with the slash after it.\<close>

definition done_part :: "u8 list list \<Rightarrow> u8 list" where
  "done_part st = SLASH # concat (map (\<lambda>c. c @ [SLASH]) (rev st))"

definition proper :: "u8 list \<Rightarrow> bool" where
  "proper c \<longleftrightarrow> c \<noteq> [] \<and> SLASH \<notin> set c \<and> 0 \<notin> set c"

lemma split_path_ne [simp]: "split_path p \<noteq> []"
  by (cases p) auto

lemma split_path_component: "SLASH \<notin> set c \<Longrightarrow> split_path (c @ SLASH # r) = c # split_path r"
  by (induction c) auto

lemma split_path_last: "SLASH \<notin> set c \<Longrightarrow> split_path c = [c]"
  by (induction c) auto

lemma resolve_slashes: "resolve st (split_path (dropWhile (\<lambda>a. a = SLASH) r)) = resolve st (split_path r)"
  by (induction r) auto

lemma done_part_simps [simp]: "done_part [] = [SLASH]" "done_part (c # st) = done_part st @ c @ [SLASH]"
  by (simp_all add: done_part_def)

lemma done_part_last: "\<exists>p. done_part st = p @ [SLASH]"
  by (cases st) auto

lemma render_done: "done_part st @ c = render (c # st)"
proof -
  have "SLASH # concat (map (\<lambda>c. c @ [SLASH]) xs) = concat (map (\<lambda>c. SLASH # c) xs) @ [SLASH]" for xs :: "u8 list list"
    by (induction xs) auto
  then show ?thesis by (simp add: done_part_def render_def)
qed

lemma done_render: "st \<noteq> [] \<Longrightarrow> done_part st = render st @ [SLASH]"
  using render_done by (cases st) (auto simp flip: append_assoc)

lemma skip_slashes_drop:
  "drop src b = r @ [0] \<Longrightarrow> drop (skip_slashes b src) b = dropWhile (\<lambda>a. a = SLASH) r @ [0]"
proof (induction r arbitrary: src)
  case Nil
  then have "src < length b" "b ! src = 0" by (metis drop_all list.distinct(1) not_le append_Nil, metis Nil append_Nil hd_drop_conv_nth list.sel(1) drop_all list.distinct(1) not_le)
  then show ?case using Nil by (subst skip_slashes.simps) simp
next
  case (Cons x r)
  then have l: "src < length b" by (metis append_Cons drop_all list.distinct(1) not_le)
  with Cons.prems have "b ! src = x" "drop (src + 1) b = r @ [0]" by (auto simp: Cons_nth_drop_Suc[symmetric])
  then show ?case using Cons.IH[of "src + 1"] Cons.prems l by (subst skip_slashes.simps) auto
qed

lemma copy_component_run:
  assumes "drop src b = c @ x # t" "SLASH \<notin> set c" "0 \<notin> set c" "x = 0 \<or> x = SLASH" "dst \<le> src"
  shows "\<exists>b'. copy_component b src dst = Some (x, b', src + length c + 1, dst + length c) \<and> length b' = length b \<and>
    take (dst + length c) b' = take dst b @ c \<and> drop (src + length c) b' = x # t"
  using assms
proof (induction c arbitrary: b src dst)
  case Nil
  then have l: "src < length b" by (metis append_Nil drop_all list.distinct(1) not_le)
  with Nil have "b ! src = x" by (simp add: Cons_nth_drop_Suc[symmetric])
  then show ?case using Nil l by (subst copy_component.simps) auto
next
  case (Cons y c)
  from Cons.prems have l: "src < length b" by (metis append_Cons drop_all list.distinct(1) not_le)
  with Cons.prems have y: "b ! src = y" "drop (src + 1) b = c @ x # t" by (auto simp: Cons_nth_drop_Suc[symmetric])
  let ?b = "b[dst := y]"
  have d: "dst < length b" using l Cons.prems(5) by simp
  have "drop (src + 1) ?b = c @ x # t" using y(2) Cons.prems(5) by simp
  from Cons.IH[OF this, of "dst + 1"] Cons.prems obtain b' where
    b': "copy_component ?b (src + 1) (dst + 1) = Some (x, b', src + 1 + length c + 1, dst + 1 + length c)"
      "length b' = length b" "take (dst + 1 + length c) b' = take (dst + 1) ?b @ c" "drop (src + 1 + length c) b' = x # t"
    by auto
  have "copy_component b src dst = copy_component ?b (src + 1) (dst + 1)"
    using l d y(1) Cons.prems by (subst copy_component.simps) auto
  with b' d show ?case by (auto simp: take_Suc_conv_app_nth)
qed

lemma back_to_slash_run:
  "SLASH \<notin> set x \<Longrightarrow> b = p @ SLASH # x @ r \<Longrightarrow> back_to_slash b (Suc (length p + length x)) = Suc (length p)"
proof (induction x arbitrary: r rule: rev_induct)
  case (snoc y x)
  then have "b ! (Suc (length p + length x)) = y" by (simp add: nth_append)
  with snoc show ?case by simp
qed simp

lemma nth_of_drop: "drop s b = xs \<Longrightarrow> i < length xs \<Longrightarrow> s + i < length b \<and> b ! (s + i) = xs ! i"
  by (auto simp: nth_drop)

lemma dot_case_plain:
  assumes d: "drop src b = c @ x # t" and x: "x = 0 \<or> x = SLASH" and c: "SLASH \<notin> set c" "0 \<notin> set c"
    "c \<noteq> [DOT]" "c \<noteq> [DOT, DOT]"
  shows "dot_case b src = Some (Plain src)"
proof -
  note n = nth_of_drop[OF d]
  consider "c = []" | y where "c = [y]" "y \<noteq> DOT" | y z c' where "c = y # z # c'" using c(3) by (metis neq_Nil_conv)
  then show ?thesis
  proof cases
    case 1 then show ?thesis using n[of 0] x by (auto simp: dot_case_def)
  next
    case 2 then show ?thesis using n[of 0] by (auto simp: dot_case_def)
  next
    case 3
    then show ?thesis using n[of 0] n[of 1] n[of 2] c x by (cases c') (auto simp: dot_case_def)
  qed
qed

lemma dot_case_one:
  assumes d: "drop src b = DOT # x # t"
  shows "x = 0 \<Longrightarrow> dot_case b src = Some (Plain (src + 1))"
    and "x = SLASH \<Longrightarrow> dot_case b src = Some (Same (skip_slashes b (src + 2)))"
  using nth_of_drop[OF d, of 0] nth_of_drop[OF d, of 1] by (auto simp: dot_case_def)

lemma dot_case_two:
  assumes d: "drop src b = DOT # DOT # x # t"
  shows "x = 0 \<Longrightarrow> dot_case b src = Some (Up (src + 2))"
    and "x = SLASH \<Longrightarrow> dot_case b src = Some (Up (skip_slashes b (src + 3)))"
  using nth_of_drop[OF d, of 0] nth_of_drop[OF d, of 1] nth_of_drop[OF d, of 2] by (auto simp: dot_case_def)

lemma drop_tail: "drop src b = c @ t \<Longrightarrow> drop (src + length c) b = t"
  by (metis append_eq_conv_conj drop_drop add.commute)

lemma skip_to:
  assumes "drop (src + k) b = r @ [0]"
  obtains r' where "drop (skip_slashes b (src + k)) b = r' @ [0]" "r' = dropWhile (\<lambda>a. a = SLASH) r"
    "r' = [] \<or> hd r' \<noteq> SLASH" "length r' \<le> length r" "src + k \<le> skip_slashes b (src + k)" "set r' \<subseteq> set r"
  using skip_slashes_drop[OF assms] skip_slashes_ge[of "src + k" b] hd_dropWhile[of "\<lambda>a. a = SLASH" r]
    length_dropWhile_le set_dropWhileD that by (metis subsetI)

lemma back_one_component:
  assumes "take dst b = done_part (x # st)" "dst = length (done_part (x # st))" "proper x"
  shows "dst \<noteq> 0" "back_to_slash b (dst - 1) = length (done_part st)"
    "take (length (done_part st)) b = done_part st"
proof -
  obtain p where p: "done_part st = p @ [SLASH]" using done_part_last by blast
  have b: "b = p @ SLASH # x @ SLASH # drop dst b"
    using append_take_drop_id[of dst b] assms(1) p by (metis append.assoc append_Cons append_Nil done_part_simps(2))
  show "dst \<noteq> 0" using assms(2) by simp
  have "dst - 1 = Suc (length p + length x)" using assms(2) p by simp
  with back_to_slash_run[OF _ b] assms(3) p show "back_to_slash b (dst - 1) = length (done_part st)"
    by (simp add: proper_def)
  show "take (length (done_part st)) b = done_part st" using b p by (metis append.assoc append_Cons append_Nil append_eq_conv_conj)
qed


text \<open>
  Where the loop stands between two turns: the components taken so far, \<open>st\<close>, are written before
  \<open>dst\<close>, and the rest of the path is still to be read at \<open>src\<close>.
\<close>

definition scanning :: "u8 list \<Rightarrow> nat \<Rightarrow> nat \<Rightarrow> u8 list \<Rightarrow> u8 list list \<Rightarrow> bool" where
  "scanning b src dst rest st \<longleftrightarrow> take dst b = done_part st \<and> dst = length (done_part st) \<and> dst \<le> src \<and>
     drop src b = rest @ [0] \<and> 0 \<notin> set rest \<and> (rest = [] \<or> hd rest \<noteq> SLASH) \<and> (\<forall>c\<in>set st. proper c)"

definition finished :: "(u8 list \<times> nat) option option \<Rightarrow> u8 list list \<Rightarrow> bool" where
  "finished res st \<longleftrightarrow> (\<exists>b dst. res = Some (Some (b, dst)) \<and> dst < length b \<and>
     (take dst b = done_part st \<or> st \<noteq> [] \<and> take dst b = render st) \<and> (\<forall>c\<in>set st. proper c))"

definition turned :: "u8 list \<Rightarrow> nat \<Rightarrow> nat \<Rightarrow> u8 list \<Rightarrow> u8 list list \<Rightarrow> bool" where
  "turned b src dst r st \<longleftrightarrow> (\<exists>b' src' dst' r'. normalize_loop b src dst = normalize_loop b' src' dst' \<and>
     scanning b' src' dst' r' st \<and> length r' \<le> length r \<and> (\<forall>u. resolve u (split_path r') = resolve u (split_path r)))"

lemma scanning_room: "scanning b src dst rest st \<Longrightarrow> dst + length rest < length b"
  using drop_all[of b src] by (auto simp: scanning_def dest: arg_cong[of _ _ length])

lemma back_scanning:
  assumes "scanning b src dst rest (x # st)"
  shows "dst \<noteq> 0" "back_to_slash b (dst - 1) = length (done_part st)" "take (length (done_part st)) b = done_part st"
proof -
  have h: "take dst b = done_part (x # st)" "dst = length (done_part (x # st))" "proper x"
    using assms by (auto simp: scanning_def)
  from back_one_component[OF h] show "dst \<noteq> 0" "back_to_slash b (dst - 1) = length (done_part st)"
    "take (length (done_part st)) b = done_part st" by auto
qed

lemma turnedI:
  assumes "drop (s + k) b' = r @ [0]" "0 \<notin> set r" "take dst' b' = done_part st" "dst' = length (done_part st)" "dst' \<le> s + k"
    "\<forall>c\<in>set st. proper c" "normalize_loop b src dst = normalize_loop b' (skip_slashes b' (s + k)) dst'"
  shows "turned b src dst r st"
proof -
  from skip_to[OF assms(1)] obtain r' where r': "drop (skip_slashes b' (s + k)) b' = r' @ [0]" "r' = dropWhile (\<lambda>a. a = SLASH) r"
    "r' = [] \<or> hd r' \<noteq> SLASH" "length r' \<le> length r" "s + k \<le> skip_slashes b' (s + k)" "set r' \<subseteq> set r" by metis
  with assms(2-6) have "scanning b' (skip_slashes b' (s + k)) dst' r' st" by (auto simp: scanning_def)
  with assms(7) r' show ?thesis unfolding turned_def by (metis resolve_slashes)
qed

lemma turn_same:
  assumes s: "scanning b src dst ([DOT] @ SLASH # r) st"
  shows "turned b src dst r st"
proof -
  have d: "drop src b = DOT # SLASH # r @ [0]" using s by (simp add: scanning_def)
  have "normalize_loop b src dst = normalize_loop b (skip_slashes b (src + 2)) dst"
    using dot_case_one(2)[OF d] by (subst normalize_loop.simps) simp
  with s d drop_tail[of src b "[DOT, SLASH]"] show ?thesis by (intro turnedI[of src 2 b]) (auto simp: scanning_def)
qed

lemma turn_up:
  assumes s: "scanning b src dst ([DOT, DOT] @ SLASH # r) (x # st)"
  shows "turned b src dst r st"
proof -
  have d: "drop src b = DOT # DOT # SLASH # r @ [0]" using s by (simp add: scanning_def)
  note bk = back_scanning[OF s]
  have "normalize_loop b src dst = normalize_loop b (skip_slashes b (src + 3)) (length (done_part st))"
    using dot_case_two(2)[OF d] bk by (subst normalize_loop.simps) simp
  with s d drop_tail[of src b "[DOT, DOT, SLASH]"] bk show ?thesis
    by (intro turnedI[of src 3 b]) (auto simp: scanning_def eval_nat_numeral)
qed

lemma turn_copy:
  assumes s: "scanning b src dst (c @ SLASH # r) st" and c: "SLASH \<notin> set c" "c \<noteq> [DOT]" "c \<noteq> [DOT, DOT]"
  shows "turned b src dst r (c # st)"
proof -
  have d: "drop src b = c @ SLASH # r @ [0]" and c0: "0 \<notin> set c" "0 \<notin> set r" and le: "dst \<le> src"
    and tk: "take dst b = done_part st" and p: "\<forall>c\<in>set (c # st). proper c"
    using s c(1) by (cases c; auto simp: scanning_def proper_def)+
  from copy_component_run[OF d c(1) c0(1) _ le] obtain b' where b':
    "copy_component b src dst = Some (SLASH, b', src + length c + 1, dst + length c)" "length b' = length b"
    "take (dst + length c) b' = take dst b @ c" "drop (src + length c) b' = SLASH # r @ [0]" by auto
  let ?b = "b'[dst + length c := SLASH]" and ?d = "dst + length c + 1"
  have l: "dst + length c < length b" using scanning_room[OF s] by simp
  have "drop (src + length c + 1) ?b = r @ [0]"
    using drop_tail[of "src + length c" b' "[SLASH]"] b'(4) le by simp
  moreover have "take ?d ?b = done_part (c # st)" using b' l tk by (simp add: take_Suc_conv_app_nth)
  moreover have "normalize_loop b src dst = normalize_loop ?b (skip_slashes ?b (src + length c + 1)) ?d"
    using dot_case_plain[OF d _ c(1) c0(1) c(2,3)] b' l by (subst normalize_loop.simps) simp
  ultimately show ?thesis using c0 p s by (intro turnedI[of "src + length c" 1 ?b]) (auto simp: scanning_def)
qed

lemma end_here:
  assumes s: "scanning b src dst rest st" and "dot_case b src = Some (Plain q)" "drop q b = [0]"
  shows "finished (normalize_loop b src dst) st"
proof -
  have "copy_component b q dst = Some (0, b, q + 1, dst)"
    using nth_of_drop[OF assms(3), of 0] scanning_room[OF s] by (subst copy_component.simps) auto
  with assms(2) scanning_room[OF s] s show ?thesis
    by (subst normalize_loop.simps) (auto simp: finished_def scanning_def)
qed

lemma end_up:
  assumes s: "scanning b src dst [DOT, DOT] (x # st)"
  shows "finished (normalize_loop b src dst) st"
proof -
  note bk = back_scanning[OF s]
  have d: "drop src b = [DOT, DOT, 0]" "drop (src + 2) b = [0]"
    using s drop_tail[of src b "[DOT, DOT]"] by (simp_all add: scanning_def)
  have "scanning b (src + 2) (length (done_part st)) [] st" using s d bk by (auto simp: scanning_def)
  then have "finished (normalize_loop b (src + 2) (length (done_part st))) st"
    using d(2) dot_case_plain[of "src + 2" b "[]" 0 "[]"] by (auto intro: end_here)
  with dot_case_two(1)[OF d(1)] bk show ?thesis by (subst normalize_loop.simps) simp
qed

lemma end_copy:
  assumes s: "scanning b src dst c st" and c: "c \<noteq> []" "SLASH \<notin> set c" "c \<noteq> [DOT]" "c \<noteq> [DOT, DOT]"
  shows "finished (normalize_loop b src dst) (c # st)"
proof -
  have d: "drop src b = c @ [0]" and c0: "0 \<notin> set c" and le: "dst \<le> src" using s by (simp_all add: scanning_def)
  from copy_component_run[OF d c(2) c0 _ le] obtain b' where
    "copy_component b src dst = Some (0, b', src + length c + 1, dst + length c)" "length b' = length b"
    "take (dst + length c) b' = take dst b @ c" by auto
  with dot_case_plain[OF d _ c(2) c0 c(3,4)] scanning_room[OF s] s c show ?thesis
    by (subst normalize_loop.simps) (auto simp: finished_def scanning_def render_done proper_def)
qed

lemma first_component:
  obtains c t where "rest = c @ t" "SLASH \<notin> set c" "t = [] \<or> (\<exists>r. t = SLASH # r)"
proof
  let ?P = "\<lambda>a. a \<noteq> SLASH"
  show "rest = takeWhile ?P rest @ dropWhile ?P rest" by simp
  show "SLASH \<notin> set (takeWhile ?P rest)" by (auto dest: set_takeWhileD)
  show "dropWhile ?P rest = [] \<or> (\<exists>r. dropWhile ?P rest = SLASH # r)"
    using hd_dropWhile[of ?P rest] by (cases "dropWhile ?P rest") auto
qed

lemma last_turn:
  assumes s: "scanning b src dst c st" "SLASH \<notin> set c" "resolve st [c] = Some st'"
  shows "finished (normalize_loop b src dst) st'"
proof -
  have d: "drop src b = c @ [0]" using s by (simp add: scanning_def)
  consider "c = []" | "c = [DOT]" | "c = [DOT, DOT]" | "c \<noteq> []" "c \<noteq> [DOT]" "c \<noteq> [DOT, DOT]" by blast
  then show ?thesis
  proof cases
    case 1
    then show ?thesis using end_here[OF s(1), of src] dot_case_plain[of src b "[]" 0 "[]"] d s(3) by simp
  next
    case 2
    then show ?thesis
      using end_here[OF s(1), of "src + 1"] dot_case_one(1)[of src b 0 "[]"] drop_tail[of src b "[DOT]" "[0]"] d s(3) by simp
  next
    case 3
    then show ?thesis using s end_up by (auto split: list.splits)
  next
    case 4
    then show ?thesis using s end_copy by auto
  qed
qed

lemma next_turn:
  assumes s: "scanning b src dst (c @ SLASH # r) st" "SLASH \<notin> set c" "resolve st (c # split_path r) = Some st'"
  shows "\<exists>st1. turned b src dst r st1 \<and> resolve st1 (split_path r) = Some st'"
proof -
  have "c \<noteq> []" using s(1) by (auto simp: scanning_def)
  with s turn_same turn_up turn_copy show ?thesis by (fastforce split: if_splits list.splits)
qed

lemma normalize_loop_run:
  "scanning b src dst rest st \<Longrightarrow> resolve st (split_path rest) = Some st' \<Longrightarrow> finished (normalize_loop b src dst) st'"
proof (induction "length rest" arbitrary: rest b src dst st rule: less_induct)
  case less
  obtain c t where ct: "rest = c @ t" "SLASH \<notin> set c" and t: "t = [] \<or> (\<exists>r. t = SLASH # r)" by (rule first_component)
  from t consider "t = []" | r where "t = SLASH # r" by blast
  then show ?case
  proof cases
    case 1
    then show ?thesis using less.prems ct by (auto simp: split_path_last intro: last_turn)
  next
    case 2
    with less.prems ct next_turn[of b src dst c r st st'] obtain st1 where
      "turned b src dst r st1" "resolve st1 (split_path r) = Some st'" by (auto simp: split_path_component)
    then obtain b' src' dst' r' where n: "normalize_loop b src dst = normalize_loop b' src' dst'" "scanning b' src' dst' r' st1"
      "length r' \<le> length r" "resolve st1 (split_path r') = Some st'" unfolding turned_def by metis
    then show ?thesis using less.hyps[of r' b' src' dst' st1] ct 2 by simp
  qed
qed

subsection \<open>The whole function\<close>

lemma proper_bytes: "\<forall>c\<in>set st. proper c \<Longrightarrow> 0 \<notin> set (render st)"
  by (auto simp: render_def proper_def)

lemma render_end: "\<forall>c\<in>set st. proper c \<Longrightarrow> st \<noteq> [] \<Longrightarrow> render st \<noteq> [] \<and> length (render st) \<noteq> 1 \<and> last (render st) \<noteq> SLASH"
  by (cases st) (auto simp: render_def proper_def, metis last_in_set)

lemma takeWhile_take: "take n b = xs \<Longrightarrow> 0 \<notin> set xs \<Longrightarrow> n < length b \<Longrightarrow> takeWhile (\<lambda>a. a \<noteq> 0) (b[n := 0]) = xs"
  for b :: "u8 list"
proof -
  assume a: "take n b = xs" "0 \<notin> set xs" "n < length b"
  then have "b[n := 0] = xs @ 0 # drop (Suc n) b" by (simp add: upd_conv_take_nth_drop)
  with a(2) show ?thesis by (simp add: takeWhile_append)
qed

lemma normalize_in_place_finished:
  assumes "finished (normalize_loop b 0 0) st"
  shows "\<exists>b'. normalize_in_place b = Some (Some b') \<and> takeWhile (\<lambda>a. a \<noteq> 0) b' = render st"
proof -
  from assms obtain b1 dst where f: "normalize_loop b 0 0 = Some (Some (b1, dst))" "dst < length b1"
    "take dst b1 = done_part st \<or> st \<noteq> [] \<and> take dst b1 = render st" "\<forall>c\<in>set st. proper c"
    unfolding finished_def by blast
  note p = proper_bytes[OF f(4)] render_end[OF f(4)]
  have d: "dst = length (take dst b1)" using f(2) by simp
  consider (root) "st = []" "take dst b1 = [SLASH]" | (slash) "st \<noteq> []" "take dst b1 = render st @ [SLASH]"
    | (plain) "st \<noteq> []" "take dst b1 = render st"
    using f(3) done_render by (cases "st = []") auto
  then show ?thesis
  proof cases
    case root
    then have "dst = 1" using d by simp
    with root f(1,2) takeWhile_take[of 1 b1 "[SLASH]"] show ?thesis
      by (simp add: normalize_in_place_def render_def)
  next
    case slash
    then have "dst = length (render st) + 1" using d by simp
    moreover have "take (length (render st)) b1 = render st" "b1 ! length (render st) = SLASH"
      using slash calculation f(2) by (auto simp: take_Suc_conv_app_nth)
    ultimately show ?thesis using f(1,2) p slash takeWhile_take[of "length (render st)" "b1[dst := 0]" "render st"]
      by (simp add: normalize_in_place_def Let_def)
  next
    case plain
    then have "dst = length (render st)" using d by simp
    moreover have "b1 ! (length (render st) - 1) \<noteq> SLASH"
      using plain p calculation f(2) by (metis last_conv_nth diff_less length_greater_0_conv nth_take zero_less_one)
    then have "b1[dst := 0] ! (length (render st) - 1) \<noteq> SLASH"
      using plain p calculation by (cases "render st") auto
    ultimately show ?thesis using f(1,2) p plain takeWhile_take[of dst b1 "render st"]
      by (simp add: normalize_in_place_def Let_def)
  qed
qed

text \<open>The slash an absolute path begins with is copied by a turn of its own.\<close>

lemma first_turn:
  assumes "0 \<notin> set r"
  shows "turned (SLASH # r @ [0]) 0 0 r []"
proof -
  let ?b = "SLASH # r @ [0]"
  have "copy_component ?b 0 0 = Some (SLASH, ?b, 1, 0)" by (subst copy_component.simps) simp
  then have "normalize_loop ?b 0 0 = normalize_loop ?b (skip_slashes ?b (0 + 1)) 1"
    using dot_case_plain[of 0 ?b "[]" SLASH] by (subst normalize_loop.simps) simp
  with assms show ?thesis by (intro turnedI[of 0 1 ?b]) auto
qed

lemma normalize_in_place_resolves:
  assumes "0 \<notin> set r" "resolve [] (split_path (SLASH # r)) = Some st"
  shows "\<exists>b'. normalize_in_place ((SLASH # r) @ [0]) = Some (Some b') \<and> takeWhile (\<lambda>a. a \<noteq> 0) b' = render st"
proof -
  from first_turn[OF assms(1)] assms(2) obtain b' src' dst' r' where
    "normalize_loop (SLASH # r @ [0]) 0 0 = normalize_loop b' src' dst'" "scanning b' src' dst' r' []"
    "resolve [] (split_path r') = Some st"
    unfolding turned_def by auto
  then show ?thesis using normalize_loop_run normalize_in_place_finished by simp
qed

text \<open>What the file name names: itself when it is absolute, otherwise a path below the directory.\<close>

definition full_path :: "u8 list \<Rightarrow> u8 list option \<Rightarrow> u8 list \<Rightarrow> u8 list" where
  "full_path working_directory directory filename =
    (if filename \<noteq> [] \<and> hd filename = SLASH then filename
     else (case directory of None \<Rightarrow> working_directory | Some d \<Rightarrow> d) @ SLASH # filename)"

lemma dfs_normalize_path_full:
  "dfs_normalize_path wd True dir fn = normalize_in_place (full_path wd dir fn @ [0])"
  by (simp add: dfs_normalize_path_def full_path_def split: option.splits)

text \<open>The components of a resolved path are proper and none of them is a dot or two, so a normal path is a fixed point.\<close>

definition plain_component :: "u8 list \<Rightarrow> bool" where
  "plain_component c \<longleftrightarrow> SLASH \<notin> set c \<and> c \<noteq> [] \<and> c \<noteq> [DOT] \<and> c \<noteq> [DOT, DOT]"

lemma split_path_components: "c \<in> set (split_path p) \<Longrightarrow> SLASH \<notin> set c"
proof (induction p arbitrary: c)
  case (Cons x p)
  then show ?case by (cases "split_path p") (auto split: if_splits)
qed simp

lemma resolve_plain:
  "resolve st cs = Some st' \<Longrightarrow> \<forall>c\<in>set st. plain_component c \<Longrightarrow> \<forall>c\<in>set cs. SLASH \<notin> set c \<Longrightarrow> \<forall>c\<in>set st'. plain_component c"
proof (induction cs arbitrary: st)
  case (Cons c cs)
  consider "c = [] \<or> c = [DOT]" | "c = [DOT, DOT]" | "plain_component c" using Cons.prems(3) by (auto simp: plain_component_def)
  then show ?case
  proof cases
    case 1
    then show ?thesis using Cons.prems by (intro Cons.IH[of st]) auto
  next
    case 2
    then obtain x st1 where "st = x # st1" "resolve st1 cs = Some st'" using Cons.prems(1) by (auto split: list.splits)
    then show ?thesis using Cons.prems by (intro Cons.IH[of st1]) auto
  next
    case 3
    then have "resolve (c # st) cs = Some st'" using Cons.prems(1) by (simp add: plain_component_def)
    then show ?thesis using Cons.prems 3 by (intro Cons.IH[of "c # st"]) auto
  qed
qed simp

lemma resolve_plain_all: "\<forall>c\<in>set cs. plain_component c \<Longrightarrow> resolve st cs = Some (rev cs @ st)"
  by (induction cs arbitrary: st) (auto simp: plain_component_def)

lemma split_path_render:
  assumes "\<forall>c\<in>set cs. plain_component c" "cs \<noteq> []"
  shows "split_path (concat (map (\<lambda>c. SLASH # c) cs)) = [] # cs"
proof -
  have "SLASH \<notin> set x \<Longrightarrow> \<forall>c\<in>set cs. plain_component c \<Longrightarrow> split_path (x @ concat (map (\<lambda>c. SLASH # c) cs)) = x # cs" for x
    by (induction cs arbitrary: x) (auto simp: split_path_last split_path_component plain_component_def)
  from this[of "[]"] assms show ?thesis by simp
qed

lemma resolve_render: "\<forall>c\<in>set st. plain_component c \<Longrightarrow> resolve [] (split_path (render st)) = Some st"
  using resolve_plain_all[of "rev st" "[]"] split_path_render[of "rev st"] by (auto simp: render_def)

subsection \<open>Two dots at the root\<close>

text \<open>
  Two dots take back the slash of the root as well: what follows is no longer an absolute path; with
  nothing after them the byte before the buffer is looked at. Going up twice is the error it should be.
\<close>

lemma up_from_root:
  "map_option (map_option (takeWhile (\<lambda>a. a \<noteq> 0))) (dfs_normalize_path [SLASH] True None [SLASH, DOT, DOT, SLASH, 0x61]) = Some (Some [0x61])"
  "dfs_normalize_path [SLASH] True None [SLASH, DOT, DOT] = None"
  "dfs_normalize_path [SLASH] True None [SLASH, DOT, DOT, SLASH, DOT, DOT] = Some None"
  by code_simp+
end
