(* ===== verification/RT_Device.thy ===== *)
theory RT_Device
  imports RT_Object
begin

text \<open>
  \<^verbatim>\<open>Kernel/device.c\<close>: registration of device drivers, and the calls that go through the function
  pointers of \<^verbatim>\<open>struct rt_device\<close> with activation, open flags and reference counts around them.

  What a driver does is not the business of this file: \<open>drv\<close> gives for every device the handlers
  it has (a null pointer is \<^term>\<open>None\<close>), and a handler may change anything, the device structures
  and the kernel included. The lemmas name what they expect of a handler.
\<close>

abbreviation (input) RT_DEVICE_FLAG_STANDALONE :: u16 where "RT_DEVICE_FLAG_STANDALONE \<equiv> 0x008"
abbreviation (input) RT_DEVICE_FLAG_ACTIVATED :: u16 where "RT_DEVICE_FLAG_ACTIVATED \<equiv> 0x010"
abbreviation (input) RT_DEVICE_OFLAG_CLOSE :: u16 where "RT_DEVICE_OFLAG_CLOSE \<equiv> 0"
abbreviation (input) RT_DEVICE_OFLAG_RDWR :: u16 where "RT_DEVICE_OFLAG_RDWR \<equiv> 0x003"
abbreviation (input) RT_DEVICE_OFLAG_OPEN :: u16 where "RT_DEVICE_OFLAG_OPEN \<equiv> 0x008"

subsection \<open>State\<close>

record rt_device =
  dev_flag :: u16
  dev_open_flag :: u16
  dev_ref_count :: u8
  dev_rx_indicate :: u32
  dev_tx_complete :: u32

text \<open>The kernel, the device structures and whatever the drivers work on.\<close>

record 'w devs =
  dv_kernel :: kstate
  dv_dev :: "objid \<Rightarrow> rt_device"
  dv_hw :: 'w

type_synonym ('r, 'w) handler = "'w devs \<Rightarrow> ('r \<times> 'w devs) option"

record 'w driver =
  drv_init :: "(rt_err_t, 'w) handler option"
  drv_open :: "(u16 \<Rightarrow> (rt_err_t, 'w) handler) option"
  drv_close :: "(rt_err_t, 'w) handler option"
  drv_read :: "(u32 \<Rightarrow> u32 \<Rightarrow> (u32 \<times> u8 list, 'w) handler) option"
  drv_write :: "(u32 \<Rightarrow> u8 list \<Rightarrow> (u32, 'w) handler) option"
  drv_control :: "(u8 \<Rightarrow> u32 \<Rightarrow> (rt_err_t, 'w) handler) option"

definition upd_dev :: "objid \<Rightarrow> (rt_device \<Rightarrow> rt_device) \<Rightarrow> 'w devs \<Rightarrow> 'w devs" where
  "upd_dev x f s = s\<lparr>dv_dev := (dv_dev s)(x := f (dv_dev s x))\<rparr>"

definition dev_errno :: "rt_err_t \<Rightarrow> 'w devs \<Rightarrow> 'w devs" where
  "dev_errno e s = s\<lparr>dv_kernel := rt_set_errno e (dv_kernel s)\<rparr>"

lemmas dev_defs [simp] = upd_dev_def dev_errno_def

subsection \<open>Registration\<close>

definition rt_device_find :: "u8 list \<Rightarrow> kstate \<Rightarrow> (objid option \<times> kstate) option" where
  "rt_device_find nm s = do {
     let s = (if rt_thread_self s \<noteq> None then rt_enter_critical s else s);
     r \<leftarrow> find_by_name (\<lambda>x. obj_name (objects s x)) nm (rt_object_container s RT_Object_Class_Device);
     s \<leftarrow> (if rt_thread_self s \<noteq> None then rt_exit_critical s else Some s);
     Some (r, s)
   }"

definition rt_device_register :: "objid option \<Rightarrow> u8 list \<Rightarrow> u16 \<Rightarrow> 'w devs \<Rightarrow> (rt_err_t \<times> 'w devs) option" where
  "rt_device_register dev nm flags s =
    (case dev of
       None \<Rightarrow> Some (- RT_ERROR, s)
     | Some x \<Rightarrow> do {
         (r, k) \<leftarrow> rt_device_find nm (dv_kernel s);
         if r \<noteq> None then Some (- RT_ERROR, s\<lparr>dv_kernel := k\<rparr>)
         else do {
           k \<leftarrow> rt_object_init x RT_Object_Class_Device nm k;
           Some (RT_EOK, upd_dev x (\<lambda>d. d\<lparr>dev_flag := flags, dev_ref_count := 0, dev_open_flag := 0\<rparr>) (s\<lparr>dv_kernel := k\<rparr>))
         }
       })"

definition rt_device_unregister :: "objid \<Rightarrow> 'w devs \<Rightarrow> rt_err_t \<times> 'w devs" where
  "rt_device_unregister x s = (RT_EOK, s\<lparr>dv_kernel := rt_object_detach x (dv_kernel s)\<rparr>)"

subsection \<open>Activation, opening and closing\<close>

definition rt_device_init :: "(objid \<Rightarrow> 'w driver) \<Rightarrow> objid \<Rightarrow> (rt_err_t, 'w) handler" where
  "rt_device_init drv x s =
    (case drv_init (drv x) of
       None \<Rightarrow> Some (RT_EOK, s)
     | Some f \<Rightarrow>
         if dev_flag (dv_dev s x) AND RT_DEVICE_FLAG_ACTIVATED = 0 then do {
           (result, s) \<leftarrow> f s;
           if result \<noteq> RT_EOK then Some (result, s)
           else Some (result, upd_dev x (\<lambda>d. d\<lparr>dev_flag := dev_flag d OR RT_DEVICE_FLAG_ACTIVATED\<rparr>) s)
         } else Some (RT_EOK, s))"

text \<open>The first half of \<^verbatim>\<open>rt_device_open\<close>: a device that is not activated is initialised first.\<close>

definition activate :: "(objid \<Rightarrow> 'w driver) \<Rightarrow> objid \<Rightarrow> (rt_err_t, 'w) handler" where
  "activate drv x s =
    (if dev_flag (dv_dev s x) AND RT_DEVICE_FLAG_ACTIVATED = 0 then do {
       (result, s) \<leftarrow> (case drv_init (drv x) of None \<Rightarrow> Some (RT_EOK, s) | Some f \<Rightarrow> f s);
       if result \<noteq> RT_EOK then Some (result, s)
       else Some (RT_EOK, upd_dev x (\<lambda>d. d\<lparr>dev_flag := dev_flag d OR RT_DEVICE_FLAG_ACTIVATED\<rparr>) s)
     } else Some (RT_EOK, s))"

definition rt_device_open :: "(objid \<Rightarrow> 'w driver) \<Rightarrow> objid \<Rightarrow> u16 \<Rightarrow> (rt_err_t, 'w) handler" where
  "rt_device_open drv x oflag s = do {
     (result, s) \<leftarrow> activate drv x s;
     if result \<noteq> RT_EOK then Some (result, s)
     else if dev_flag (dv_dev s x) AND RT_DEVICE_FLAG_STANDALONE \<noteq> 0 \<and> dev_open_flag (dv_dev s x) AND RT_DEVICE_OFLAG_OPEN \<noteq> 0
     then Some (- RT_EBUSY, s)
     else do {
       (result, s) \<leftarrow> (case drv_open (drv x) of None \<Rightarrow> Some (result, s) | Some f \<Rightarrow> f oflag s);
       if result = RT_EOK \<or> result = - RT_ENOSYS then do {
         let s = upd_dev x (\<lambda>d. d\<lparr>dev_open_flag := oflag OR RT_DEVICE_OFLAG_OPEN, dev_ref_count := dev_ref_count d + 1\<rparr>) s;
         rt_assert (dev_ref_count (dv_dev s x) \<noteq> 0);
         Some (result, s)
       } else Some (result, s)
     }
   }"

definition rt_device_close :: "(objid \<Rightarrow> 'w driver) \<Rightarrow> objid \<Rightarrow> (rt_err_t, 'w) handler" where
  "rt_device_close drv x s =
    (if dev_ref_count (dv_dev s x) = 0 then Some (- RT_ERROR, s)
     else let s = upd_dev x (\<lambda>d. d\<lparr>dev_ref_count := dev_ref_count d - 1\<rparr>) s in
       if dev_ref_count (dv_dev s x) \<noteq> 0 then Some (RT_EOK, s)
       else do {
         (result, s) \<leftarrow> (case drv_close (drv x) of None \<Rightarrow> Some (RT_EOK, s) | Some f \<Rightarrow> f s);
         if result = RT_EOK \<or> result = - RT_ENOSYS
         then Some (result, upd_dev x (\<lambda>d. d\<lparr>dev_open_flag := RT_DEVICE_OFLAG_CLOSE\<rparr>) s)
         else Some (result, s)
       })"

subsection \<open>Transfer and control\<close>

definition rt_device_read :: "(objid \<Rightarrow> 'w driver) \<Rightarrow> objid \<Rightarrow> u32 \<Rightarrow> u32 \<Rightarrow> (u32 \<times> u8 list, 'w) handler" where
  "rt_device_read drv x pos n s =
    (if dev_ref_count (dv_dev s x) = 0 then Some ((0, []), dev_errno (- RT_ERROR) s)
     else case drv_read (drv x) of
       Some f \<Rightarrow> f pos n s
     | None \<Rightarrow> Some ((0, []), dev_errno (- RT_ENOSYS) s))"

definition rt_device_write :: "(objid \<Rightarrow> 'w driver) \<Rightarrow> objid \<Rightarrow> u32 \<Rightarrow> u8 list \<Rightarrow> (u32, 'w) handler" where
  "rt_device_write drv x pos buffer s =
    (if dev_ref_count (dv_dev s x) = 0 then Some (0, dev_errno (- RT_ERROR) s)
     else case drv_write (drv x) of
       Some f \<Rightarrow> f pos buffer s
     | None \<Rightarrow> Some (0, dev_errno (- RT_ENOSYS) s))"

definition rt_device_control :: "(objid \<Rightarrow> 'w driver) \<Rightarrow> objid \<Rightarrow> u8 \<Rightarrow> u32 \<Rightarrow> (rt_err_t, 'w) handler" where
  "rt_device_control drv x cmd arg s =
    (case drv_control (drv x) of Some f \<Rightarrow> f cmd arg s | None \<Rightarrow> Some (RT_EOK, s))"

definition rt_device_set_rx_indicate :: "objid \<Rightarrow> u32 \<Rightarrow> 'w devs \<Rightarrow> rt_err_t \<times> 'w devs" where
  "rt_device_set_rx_indicate x rx_ind s = (RT_EOK, upd_dev x (\<lambda>d. d\<lparr>dev_rx_indicate := rx_ind\<rparr>) s)"

definition rt_device_set_tx_complete :: "objid \<Rightarrow> u32 \<Rightarrow> 'w devs \<Rightarrow> rt_err_t \<times> 'w devs" where
  "rt_device_set_tx_complete x tx_done s = (RT_EOK, upd_dev x (\<lambda>d. d\<lparr>dev_tx_complete := tx_done\<rparr>) s)"

subsection \<open>What is expected of a driver\<close>

text \<open>
  A handler leaves the structure of its device to \<^verbatim>\<open>device.c\<close>; initialisation does not answer
  \<^verbatim>\<open>-RT_ENOSYS\<close>, which a caller could not tell from a device that was opened.
\<close>

definition leaves :: "objid \<Rightarrow> (rt_err_t, 'w) handler option \<Rightarrow> bool" where
  "leaves x h \<longleftrightarrow> (\<forall>f s r s'. h = Some f \<longrightarrow> f s = Some (r, s') \<longrightarrow> dv_dev s' x = dv_dev s x)"

definition quiet :: "(objid \<Rightarrow> 'w driver) \<Rightarrow> objid \<Rightarrow> bool" where
  "quiet drv x \<longleftrightarrow> leaves x (drv_init (drv x)) \<and> leaves x (drv_close (drv x)) \<and>
     (\<forall>oflag. leaves x (map_option (\<lambda>f. f oflag) (drv_open (drv x)))) \<and>
     (\<forall>f s s'. drv_init (drv x) = Some f \<longrightarrow> f s \<noteq> Some (- RT_ENOSYS, s'))"

definition closes :: "(objid \<Rightarrow> 'w driver) \<Rightarrow> objid \<Rightarrow> bool" where
  "closes drv x \<longleftrightarrow> (\<forall>f s r s'. drv_close (drv x) = Some f \<longrightarrow> f s = Some (r, s') \<longrightarrow> r = RT_EOK \<or> r = - RT_ENOSYS)"

subsection \<open>One call\<close>

definition opened :: "rt_err_t \<Rightarrow> bool" where
  "opened r \<longleftrightarrow> r = RT_EOK \<or> r = - RT_ENOSYS"

lemma activate_leaves:
  assumes q: "quiet drv x" and a: "activate drv x s = Some (r, s')"
  shows "\<exists>fl. dv_dev s' x = (dv_dev s x)\<lparr>dev_flag := fl\<rparr> \<and>
    fl AND RT_DEVICE_FLAG_STANDALONE = dev_flag (dv_dev s x) AND RT_DEVICE_FLAG_STANDALONE \<and> (r \<noteq> RT_EOK \<longrightarrow> \<not> opened r)"
proof (cases "dev_flag (dv_dev s x) AND RT_DEVICE_FLAG_ACTIVATED = 0")
  case False
  with a show ?thesis by (intro exI[of _ "dev_flag (dv_dev s x)"]) (auto simp: activate_def)
next
  case True
  with a obtain r1 s1 where 1: "(case drv_init (drv x) of None \<Rightarrow> Some (RT_EOK, s) | Some f \<Rightarrow> f s) = Some (r1, s1)"
    "r = r1" "s' = (if r1 \<noteq> RT_EOK then s1 else upd_dev x (\<lambda>d. d\<lparr>dev_flag := dev_flag d OR RT_DEVICE_FLAG_ACTIVATED\<rparr>) s1)"
    by (auto simp: activate_def bind_eq_Some_conv split: if_splits)
  have "dv_dev s1 x = dv_dev s x" "r1 \<noteq> - RT_ENOSYS"
    using 1(1) q by (auto simp: quiet_def leaves_def split: option.splits)
  with 1 show ?thesis
    by (cases "r1 = RT_EOK") (auto simp: opened_def bit.conj_disj_distrib2 intro: exI[of _ "dev_flag (dv_dev s x)"])
qed

text \<open>An open that succeeds counts, and one of a standalone device needs it to be closed; any other call leaves the count.\<close>

lemma open_counts:
  assumes q: "quiet drv x" and o: "rt_device_open drv x oflag s = Some (r, s')"
  shows "\<exists>fl. fl AND RT_DEVICE_FLAG_STANDALONE = dev_flag (dv_dev s x) AND RT_DEVICE_FLAG_STANDALONE \<and>
    dv_dev s' x = (if opened r
      then (dv_dev s x)\<lparr>dev_flag := fl, dev_open_flag := oflag OR RT_DEVICE_OFLAG_OPEN, dev_ref_count := dev_ref_count (dv_dev s x) + 1\<rparr>
      else (dv_dev s x)\<lparr>dev_flag := fl\<rparr>) \<and>
    (opened r \<longrightarrow> dev_ref_count (dv_dev s x) + 1 \<noteq> 0 \<and>
      (fl AND RT_DEVICE_FLAG_STANDALONE \<noteq> 0 \<longrightarrow> dev_open_flag (dv_dev s x) AND RT_DEVICE_OFLAG_OPEN = 0))"
proof -
  from o obtain r1 s1 where 1: "activate drv x s = Some (r1, s1)" by (auto simp: rt_device_open_def bind_eq_Some_conv)
  from activate_leaves[OF q this] obtain fl where fl: "dv_dev s1 x = (dv_dev s x)\<lparr>dev_flag := fl\<rparr>"
    "fl AND RT_DEVICE_FLAG_STANDALONE = dev_flag (dv_dev s x) AND RT_DEVICE_FLAG_STANDALONE" "r1 \<noteq> RT_EOK \<longrightarrow> \<not> opened r1" by blast
  consider (init) "r1 \<noteq> RT_EOK" | (busy) "r1 = RT_EOK" "fl AND RT_DEVICE_FLAG_STANDALONE \<noteq> 0" "dev_open_flag (dv_dev s x) AND RT_DEVICE_OFLAG_OPEN \<noteq> 0"
    | (go) "r1 = RT_EOK" "\<not> (fl AND RT_DEVICE_FLAG_STANDALONE \<noteq> 0 \<and> dev_open_flag (dv_dev s x) AND RT_DEVICE_OFLAG_OPEN \<noteq> 0)" by blast
  then show ?thesis
  proof cases
    case init
    with o 1 fl show ?thesis by (intro exI[of _ fl]) (auto simp: rt_device_open_def)
  next
    case busy
    with o 1 fl show ?thesis by (intro exI[of _ fl]) (auto simp: rt_device_open_def opened_def)
  next
    case go
    with o 1 fl obtain s2 where 2: "(case drv_open (drv x) of None \<Rightarrow> Some (RT_EOK, s1) | Some f \<Rightarrow> f oflag s1) = Some (r, s2)"
      "opened r \<longrightarrow> dev_ref_count (dv_dev s2 x) + 1 \<noteq> 0"
      "s' = (if opened r then upd_dev x (\<lambda>d. d\<lparr>dev_open_flag := oflag OR RT_DEVICE_OFLAG_OPEN, dev_ref_count := dev_ref_count d + 1\<rparr>) s2 else s2)"
      by (auto simp: rt_device_open_def opened_def bind_eq_Some_conv split: if_splits)
    have "dv_dev s2 x = dv_dev s1 x" using 2(1) q by (auto simp: quiet_def leaves_def split: option.splits)
    with 2 fl go show ?thesis by (intro exI[of _ fl]) auto
  qed
qed

lemma close_counts:
  assumes q: "quiet drv x" and c: "rt_device_close drv x s = Some (r, s')"
  shows "\<exists>g. dv_dev s' x = (if dev_ref_count (dv_dev s x) = 0 then dv_dev s x
      else (dv_dev s x)\<lparr>dev_ref_count := dev_ref_count (dv_dev s x) - 1, dev_open_flag := g\<rparr>) \<and>
    (dev_ref_count (dv_dev s x) \<noteq> 1 \<longrightarrow> g = dev_open_flag (dv_dev s x)) \<and>
    (dev_ref_count (dv_dev s x) = 1 \<longrightarrow> g = (if opened r then RT_DEVICE_OFLAG_CLOSE else dev_open_flag (dv_dev s x)))"
proof -
  let ?d = "dv_dev s x" and ?s = "s\<lparr>dv_dev := (dv_dev s)(x := (dv_dev s x)\<lparr>dev_ref_count := 0\<rparr>)\<rparr>"
  consider "dev_ref_count ?d = 0" | "dev_ref_count ?d \<noteq> 0" "dev_ref_count ?d \<noteq> 1" | "dev_ref_count ?d = 1" by blast
  then show ?thesis
  proof cases
    case 1 with c show ?thesis by (auto simp: rt_device_close_def)
  next
    case 2 with c show ?thesis by (auto simp: rt_device_close_def Let_def)
  next
    case 3
    with c obtain s2 where 2: "(case drv_close (drv x) of None \<Rightarrow> Some (RT_EOK, ?s) | Some f \<Rightarrow> f ?s) = Some (r, s2)"
      "s' = (if opened r then upd_dev x (\<lambda>d. d\<lparr>dev_open_flag := RT_DEVICE_OFLAG_CLOSE\<rparr>) s2 else s2)"
      by (auto simp: rt_device_close_def opened_def bind_eq_Some_conv Let_def split: if_splits)
    have "dv_dev s2 x = dv_dev ?s x" using 2(1) q by (fastforce simp: quiet_def leaves_def split: option.splits)
    with 2(2) 3 show ?thesis by simp
  qed
qed

subsection \<open>Sequences of calls\<close>

datatype dev_call = Open_Device u16 | Close_Device

fun dev_calls :: "(objid \<Rightarrow> 'w driver) \<Rightarrow> objid \<Rightarrow> dev_call list \<Rightarrow> (rt_err_t list, 'w) handler" where
  "dev_calls drv x [] s = Some ([], s)"
| "dev_calls drv x (c # cs) s = do {
     (r, s) \<leftarrow> (case c of Open_Device oflag \<Rightarrow> rt_device_open drv x oflag s | Close_Device \<Rightarrow> rt_device_close drv x s);
     (rs, s) \<leftarrow> dev_calls drv x cs s;
     Some (r # rs, s)
   }"

text \<open>How many opens are not closed yet, from what the calls returned.\<close>

fun users_held :: "nat \<Rightarrow> dev_call list \<Rightarrow> rt_err_t list \<Rightarrow> nat" where
  "users_held n (Open_Device oflag # cs) (r # rs) = users_held (if opened r then n + 1 else n) cs rs"
| "users_held n (Close_Device # cs) (r # rs) = users_held (n - 1) cs rs"
| "users_held n _ _ = n"

definition dev_ok :: "objid \<Rightarrow> 'w devs \<Rightarrow> bool" where
  "dev_ok x s \<longleftrightarrow> (dev_open_flag (dv_dev s x) AND RT_DEVICE_OFLAG_OPEN = 0 \<longleftrightarrow> dev_ref_count (dv_dev s x) = 0)"

definition standalone :: "objid \<Rightarrow> 'w devs \<Rightarrow> bool" where
  "standalone x s \<longleftrightarrow> dev_flag (dv_dev s x) AND RT_DEVICE_FLAG_STANDALONE \<noteq> 0"

lemma users_held_count:
  assumes q: "quiet drv x" and c: "(case c of Open_Device oflag \<Rightarrow> rt_device_open drv x oflag s | Close_Device \<Rightarrow> rt_device_close drv x s) = Some (r, s')"
  shows "unat (dev_ref_count (dv_dev s' x)) = users_held (unat (dev_ref_count (dv_dev s x))) [c] [r]"
proof (cases c)
  case (Open_Device oflag)
  have "y + 1 \<noteq> 0 \<Longrightarrow> unat (y + 1) = unat y + 1" for y :: u8 by (metis Suc_eq_plus1 add.commute unatSuc)
  with c open_counts[OF q, of oflag s r s'] Open_Device show ?thesis by auto
next
  case Close_Device
  with c close_counts[OF q, of s r s'] show ?thesis
    by (auto simp: unat_minus_one)
qed

lemma dev_call_step:
  assumes q: "quiet drv x" "closes drv x" and i: "dev_ok x s"
    and c: "(case c of Open_Device oflag \<Rightarrow> rt_device_open drv x oflag s | Close_Device \<Rightarrow> rt_device_close drv x s) = Some (r, s')"
  shows "dev_ok x s' \<and> standalone x s' = standalone x s \<and> (standalone x s \<and> dev_ref_count (dv_dev s x) \<le> 1 \<longrightarrow> dev_ref_count (dv_dev s' x) \<le> 1)"
proof (cases c)
  case (Open_Device oflag)
  have o: "(oflag OR RT_DEVICE_OFLAG_OPEN) AND RT_DEVICE_OFLAG_OPEN = RT_DEVICE_OFLAG_OPEN" by (simp add: bit.conj_disj_distrib2)
  from open_counts[OF q(1), of oflag s r s'] c Open_Device i o show ?thesis
    by (auto simp: dev_ok_def standalone_def split: if_splits)
next
  case Close_Device
  then have cl: "rt_device_close drv x s = Some (r, s')" using c by simp
  have r: "dev_ref_count (dv_dev s x) = 1 \<Longrightarrow> opened r"
    using cl q(2) by (auto simp: rt_device_close_def closes_def opened_def bind_eq_Some_conv Let_def split: option.splits if_splits)
  from close_counts[OF q(1) cl] obtain g where g: "dv_dev s' x = (if dev_ref_count (dv_dev s x) = 0 then dv_dev s x
      else (dv_dev s x)\<lparr>dev_ref_count := dev_ref_count (dv_dev s x) - 1, dev_open_flag := g\<rparr>)"
    "dev_ref_count (dv_dev s x) \<noteq> 1 \<longrightarrow> g = dev_open_flag (dv_dev s x)" "dev_ref_count (dv_dev s x) = 1 \<longrightarrow> g = 0" using r by auto
  have "y \<noteq> 0 \<Longrightarrow> y \<le> 1 \<Longrightarrow> y - 1 \<le> 1" for y :: u8 by (simp add: word_le_nat_alt unat_minus_one)
  with g i show ?thesis by (cases "dev_ref_count (dv_dev s x) = 1") (auto simp: dev_ok_def standalone_def)
qed

lemma users_held_start: "users_held n (c # cs) (r # rs) = users_held (users_held n [c] [r]) cs rs"
  by (cases c) auto

lemma dev_calls_counts:
  assumes q: "quiet drv x"
  shows "dev_calls drv x cs s = Some (rs, s') \<Longrightarrow>
    unat (dev_ref_count (dv_dev s' x)) = users_held (unat (dev_ref_count (dv_dev s x))) cs rs"
proof (induction cs arbitrary: s rs)
  case (Cons c cs)
  from Cons.prems obtain r s1 rs' where
    "(case c of Open_Device oflag \<Rightarrow> rt_device_open drv x oflag s | Close_Device \<Rightarrow> rt_device_close drv x s) = Some (r, s1)"
    "dev_calls drv x cs s1 = Some (rs', s')" "rs = r # rs'" by (auto simp: bind_eq_Some_conv)
  from Cons.IH[OF this(2)] users_held_count[OF q this(1)] this(3) show ?case by (metis users_held_start)
qed simp

lemma dev_calls_ok:
  assumes q: "quiet drv x" "closes drv x"
  shows "dev_calls drv x cs s = Some (rs, s') \<Longrightarrow> dev_ok x s \<Longrightarrow> dev_ok x s' \<and>
    (standalone x s \<and> dev_ref_count (dv_dev s x) \<le> 1 \<longrightarrow> dev_ref_count (dv_dev s' x) \<le> 1)"
proof (induction cs arbitrary: s rs)
  case (Cons c cs)
  from Cons.prems obtain r s1 rs' where
    "(case c of Open_Device oflag \<Rightarrow> rt_device_open drv x oflag s | Close_Device \<Rightarrow> rt_device_close drv x s) = Some (r, s1)"
    "dev_calls drv x cs s1 = Some (rs', s')" by (auto simp: bind_eq_Some_conv)
  with dev_call_step[OF q Cons.prems(2), of c r s1] Cons.IH[of s1 rs'] show ?case by auto
qed auto

text \<open>
  When the driver's close fails, the count is gone and the open flag is not: a standalone device
  can be opened no more, and closing it again is refused too.
\<close>

lemma failed_close_locks_device:
  assumes c: "rt_device_close drv x s = Some (r, s1)" "\<not> opened r" "dev_ref_count (dv_dev s x) = 1" and q: "quiet drv x"
    and s: "standalone x s" "dev_flag (dv_dev s x) AND RT_DEVICE_FLAG_ACTIVATED \<noteq> 0"
    "dev_open_flag (dv_dev s x) AND RT_DEVICE_OFLAG_OPEN \<noteq> 0"
  shows "rt_device_open drv x oflag s1 = Some (- RT_EBUSY, s1)" "rt_device_close drv x s1 = Some (- RT_ERROR, s1)"
  using close_counts[OF q c(1)] c(2,3) s by (auto simp: rt_device_open_def rt_device_close_def activate_def standalone_def)

end
