(* ===== verification/RT_Dfs.thy ===== *)
theory RT_Dfs
  imports RT_Path RT_Device
begin

text \<open>
  The device file system, \<^verbatim>\<open>Filesystems/dfs.c\<close>, \<^verbatim>\<open>dfs_fs.c\<close>, \<^verbatim>\<open>dfs_file.c\<close> and \<^verbatim>\<open>dfs_posix.c\<close>: the table of file
  system types, the mount table, the file descriptors with their reference counts, and the calls
  that go from a descriptor through the mount to the operations of the file system.

  Strings are byte lists without the terminator. The operations of a file system are the functions
  of \<open>lib\<close>, by the number of its operation structure; a null pointer is \<^term>\<open>None\<close>. The bracket of
  \<^verbatim>\<open>dfs_lock\<close> and \<^verbatim>\<open>dfs_unlock\<close> makes each call of this file one step. Which allocations succeed is
  a list in the state. A use of a null pointer has the result \<^term>\<open>None\<close>.
\<close>

abbreviation (input) DFS_FD_MAGIC :: u16 where "DFS_FD_MAGIC \<equiv> 0xfdfd"
abbreviation (input) DFS_FS_FLAG_FULLPATH :: u32 where "DFS_FS_FLAG_FULLPATH \<equiv> 0x01"
abbreviation (input) FT_REGULAR :: u16 where "FT_REGULAR \<equiv> 0"
abbreviation (input) FT_DIRECTORY :: u16 where "FT_DIRECTORY \<equiv> 2"
abbreviation (input) DFS_O_RDONLY :: u32 where "DFS_O_RDONLY \<equiv> 0"
abbreviation (input) DFS_O_DIRECTORY :: u32 where "DFS_O_DIRECTORY \<equiv> 0x200000"
abbreviation (input) DFS_F_OPEN :: u32 where "DFS_F_OPEN \<equiv> 0x01000000"
abbreviation (input) DFS_F_DIRECTORY :: u32 where "DFS_F_DIRECTORY \<equiv> 0x02000000"
abbreviation (input) DFS_F_EOF :: u32 where "DFS_F_EOF \<equiv> 0x04000000"
abbreviation (input) DFS_STATUS_ENOENT :: int where "DFS_STATUS_ENOENT \<equiv> 2"
abbreviation (input) DFS_STATUS_EBADF :: int where "DFS_STATUS_EBADF \<equiv> 9"
abbreviation (input) DFS_STATUS_ENOMEM :: int where "DFS_STATUS_ENOMEM \<equiv> 12"
abbreviation (input) DFS_STATUS_EBUSY :: int where "DFS_STATUS_EBUSY \<equiv> 16"
abbreviation (input) DFS_STATUS_EXDEV :: int where "DFS_STATUS_EXDEV \<equiv> 18"
abbreviation (input) DFS_STATUS_ENODEV :: int where "DFS_STATUS_ENODEV \<equiv> 19"
abbreviation (input) DFS_STATUS_ENOTDIR :: int where "DFS_STATUS_ENOTDIR \<equiv> 20"
abbreviation (input) DFS_STATUS_EINVAL :: int where "DFS_STATUS_EINVAL \<equiv> 22"
abbreviation (input) DFS_STATUS_ENOSPC :: int where "DFS_STATUS_ENOSPC \<equiv> 28"
abbreviation (input) DFS_STATUS_ENOSYS :: int where "DFS_STATUS_ENOSYS \<equiv> 38"

subsection \<open>State\<close>

record dfs_filesystem =
  fs_dev_id :: "objid option"
  fs_path :: "u8 list option"
  fs_ops :: "nat option"
  fs_data :: u32

record dfs_fd =
  fd_magic :: u16
  fd_type :: u16
  fd_path :: "u8 list option"
  fd_ref_count :: u32
  fd_fs :: "nat option"
  fd_flags :: u32
  fd_size :: u32
  fd_pos :: u32
  fd_data :: u32

type_synonym 'w fs_io = "dfs_filesystem \<Rightarrow> dfs_fd \<Rightarrow> 'w devs \<Rightarrow> (int \<times> dfs_fd \<times> 'w devs) option"

record 'w fs_operation =
  op_name :: "u8 list"
  op_flags :: u32
  op_mount :: "(dfs_filesystem \<Rightarrow> u32 \<Rightarrow> u32 \<Rightarrow> 'w devs \<Rightarrow> (int \<times> dfs_filesystem \<times> 'w devs) option) option"
  op_unmount :: "(dfs_filesystem \<Rightarrow> 'w devs \<Rightarrow> (int \<times> dfs_filesystem \<times> 'w devs) option) option"
  op_open :: "'w fs_io option"
  op_close :: "'w fs_io option"
  op_read :: "(u32 \<Rightarrow> dfs_filesystem \<Rightarrow> dfs_fd \<Rightarrow> 'w devs \<Rightarrow> (int \<times> u8 list \<times> dfs_fd \<times> 'w devs) option) option"
  op_write :: "(u8 list \<Rightarrow> 'w fs_io) option"
  op_flush :: "'w fs_io option"
  op_lseek :: "(u32 \<Rightarrow> 'w fs_io) option"
  op_unlink :: "(dfs_filesystem \<Rightarrow> u8 list \<Rightarrow> 'w devs \<Rightarrow> (int \<times> 'w devs) option) option"
  op_rename :: "(dfs_filesystem \<Rightarrow> u8 list option \<Rightarrow> u8 list option \<Rightarrow> 'w devs \<Rightarrow> (int \<times> 'w devs) option) option"

record 'w dfs =
  filesystem_operation_table :: "nat option list"
  filesystem_table :: "dfs_filesystem list"
  fd_table :: "dfs_fd list"
  working_directory :: "u8 list"
  mallocs :: "bool list"
  dfs_devs :: "'w devs"

text \<open>What \<^verbatim>\<open>rt_memset\<close> with zero leaves.\<close>

definition no_filesystem :: dfs_filesystem where
  "no_filesystem = \<lparr>fs_dev_id = None, fs_path = None, fs_ops = None, fs_data = 0\<rparr>"

definition no_fd :: dfs_fd where
  "no_fd = \<lparr>fd_magic = 0, fd_type = 0, fd_path = None, fd_ref_count = 0, fd_fs = None, fd_flags = 0, fd_size = 0, fd_pos = 0, fd_data = 0\<rparr>"

text \<open>Four file system types (\<^verbatim>\<open>DFS_FILESYSTEM_TYPES_MAX\<close>); \<^verbatim>\<open>rtconfig.h\<close> has two mounts and four descriptors.\<close>

definition dfs_init :: "'w dfs \<Rightarrow> 'w dfs" where
  "dfs_init s = s\<lparr>filesystem_operation_table := replicate 4 None, filesystem_table := replicate 2 no_filesystem,
     fd_table := replicate 4 no_fd, working_directory := [SLASH]\<rparr>"

definition set_fd :: "nat \<Rightarrow> dfs_fd \<Rightarrow> 'w dfs \<Rightarrow> 'w dfs" where
  "set_fd i fd s = s\<lparr>fd_table := (fd_table s)[i := fd]\<rparr>"

definition set_fs :: "nat \<Rightarrow> dfs_filesystem \<Rightarrow> 'w dfs \<Rightarrow> 'w dfs" where
  "set_fs i fs s = s\<lparr>filesystem_table := (filesystem_table s)[i := fs]\<rparr>"

definition dfs_errno :: "int \<Rightarrow> 'w dfs \<Rightarrow> 'w dfs" where
  "dfs_errno e s = s\<lparr>dfs_devs := dev_errno e (dfs_devs s)\<rparr>"

definition malloc_result :: "'w dfs \<Rightarrow> bool \<times> 'w dfs" where
  "malloc_result s = (case mallocs s of [] \<Rightarrow> (True, s) | b # bs \<Rightarrow> (b, s\<lparr>mallocs := bs\<rparr>))"

definition strdup :: "u8 list \<Rightarrow> 'w dfs \<Rightarrow> u8 list option \<times> 'w dfs" where
  "strdup p s = (let (ok, s) = malloc_result s in (if ok then Some p else None, s))"

text \<open>\<^verbatim>\<open>dfs_normalize_path(RT_NULL, path)\<close>, the result read as a string.\<close>

definition normalize :: "u8 list \<Rightarrow> 'w dfs \<Rightarrow> (u8 list option \<times> 'w dfs) option" where
  "normalize path s = do {
     let (ok, s) = malloc_result s;
     r \<leftarrow> dfs_normalize_path (working_directory s) ok None path;
     Some (map_option (takeWhile (\<lambda>a. a \<noteq> 0)) r, s)
   }"

subsection \<open>File descriptors\<close>

text \<open>\<^verbatim>\<open>ref_count\<close> is an \<^verbatim>\<open>int\<close>: the test is a signed one.\<close>

fun free_fd :: "dfs_fd list \<Rightarrow> nat" where
  "free_fd [] = 0"
| "free_fd (d # ds) = (if sint (fd_ref_count d) > 0 then Suc (free_fd ds) else 0)"

definition fd_new :: "'w dfs \<Rightarrow> nat option \<times> 'w dfs" where
  "fd_new s =
    (let idx = free_fd (fd_table s) in
     if idx = length (fd_table s) then (None, s)
     else (Some idx, set_fd idx ((fd_table s ! idx)\<lparr>fd_ref_count := 1, fd_magic := DFS_FD_MAGIC\<rparr>) s))"

definition fd_get :: "int \<Rightarrow> 'w dfs \<Rightarrow> nat option \<times> 'w dfs" where
  "fd_get fd s =
    (if fd < 0 \<or> fd \<ge> int (length (fd_table s)) then (None, s)
     else let i = nat fd; d = fd_table s ! i in
       if fd_magic d \<noteq> DFS_FD_MAGIC then (None, s)
       else (Some i, set_fd i (d\<lparr>fd_ref_count := fd_ref_count d + 1\<rparr>) s))"

definition fd_put :: "nat \<Rightarrow> 'w dfs \<Rightarrow> 'w dfs" where
  "fd_put i s =
    (let d = (fd_table s ! i)\<lparr>fd_ref_count := fd_ref_count (fd_table s ! i) - 1\<rparr> in
     set_fd i (if fd_ref_count d = 0 then no_fd else d) s)"

subsection \<open>Mounted file systems\<close>

text \<open>The test of \<^verbatim>\<open>dfs_filesystem_lookup\<close> on one entry, without the length.\<close>

definition covers :: "u8 list \<Rightarrow> u8 list \<Rightarrow> bool" where
  "covers p path \<longleftrightarrow> take (length p) path = p \<and> \<not> (length p > 1 \<and> length path > length p \<and> path ! length p \<noteq> SLASH)"

fun lookup_loop :: "u8 list \<Rightarrow> nat \<Rightarrow> dfs_filesystem list \<Rightarrow> nat option \<Rightarrow> nat \<Rightarrow> nat option" where
  "lookup_loop path i [] fs prefixlen = fs"
| "lookup_loop path i (e # es) fs prefixlen =
    (case fs_path e of
       None \<Rightarrow> lookup_loop path (i + 1) es fs prefixlen
     | Some p \<Rightarrow>
         if fs_ops e = None \<or> length p < prefixlen \<or> \<not> covers p path then lookup_loop path (i + 1) es fs prefixlen
         else lookup_loop path (i + 1) es (Some i) (length p))"

definition dfs_filesystem_lookup :: "u8 list \<Rightarrow> 'w dfs \<Rightarrow> nat option" where
  "dfs_filesystem_lookup path s = lookup_loop path 0 (filesystem_table s) None 0"

fun mounted_path_loop :: "objid option \<Rightarrow> dfs_filesystem list \<Rightarrow> u8 list option" where
  "mounted_path_loop device [] = None"
| "mounted_path_loop device (e # es) =
    (if fs_ops e \<noteq> None \<and> fs_dev_id e = device then fs_path e else mounted_path_loop device es)"

definition dfs_filesystem_get_mounted_path :: "objid option \<Rightarrow> 'w dfs \<Rightarrow> u8 list option" where
  "dfs_filesystem_get_mounted_path device s = mounted_path_loop device (filesystem_table s)"

text \<open>A directory longer than the file name sends the pointer past the end of it.\<close>

definition dfs_subdir :: "u8 list \<Rightarrow> u8 list \<Rightarrow> u8 list option option" where
  "dfs_subdir directory filename =
    (let n = length directory in
     if n = length filename then Some None
     else if n > length filename then None
     else Some (Some (drop (if filename ! n \<noteq> SLASH \<and> n \<noteq> 0 then n - 1 else n) filename)))"

text \<open>The search of \<^verbatim>\<open>dfs_register\<close>: stop at a type of the same name, remember the first empty entry.\<close>

fun register_loop :: "(nat \<Rightarrow> 'w fs_operation) \<Rightarrow> u8 list \<Rightarrow> nat \<Rightarrow> nat option list \<Rightarrow> nat option \<Rightarrow> int \<times> nat option" where
  "register_loop lib nm i [] slot = (RT_EOK, slot)"
| "register_loop lib nm i (None # es) slot = register_loop lib nm (i + 1) es (if slot = None then Some i else slot)"
| "register_loop lib nm i (Some ops # es) slot =
    (if op_name (lib ops) = nm then (- 1, slot) else register_loop lib nm (i + 1) es slot)"

definition dfs_register :: "(nat \<Rightarrow> 'w fs_operation) \<Rightarrow> nat \<Rightarrow> 'w dfs \<Rightarrow> int \<times> 'w dfs" where
  "dfs_register lib ops s =
    (let (ret, slot) = register_loop lib (op_name (lib ops)) 0 (filesystem_operation_table s) None in
     (ret, case slot of
        Some i \<Rightarrow> if ret = RT_EOK then s\<lparr>filesystem_operation_table := (filesystem_operation_table s)[i := Some ops]\<rparr> else s
      | None \<Rightarrow> s))"

subsection \<open>Files\<close>

text \<open>The mount of an open descriptor and its operations; both pointers are used without a test.\<close>

definition fd_filesystem :: "dfs_fd \<Rightarrow> 'w dfs \<Rightarrow> (dfs_filesystem \<times> nat) option" where
  "fd_filesystem fd s = do {
     i \<leftarrow> fd_fs fd;
     ops \<leftarrow> fs_ops (filesystem_table s ! i);
     Some (filesystem_table s ! i, ops)
   }"

text \<open>What the file system is told of a path: all of it, or what is below the mount point.\<close>

definition sub_path :: "dfs_filesystem \<Rightarrow> u8 list \<Rightarrow> u8 list option option" where
  "sub_path fs fullpath = do { p \<leftarrow> fs_path fs; dfs_subdir p fullpath }"

text \<open>The steps of \<^verbatim>\<open>dfs_file_open\<close> after the mount is known: the path the file system sees, and its open operation.\<close>

definition open_path :: "'w fs_operation \<Rightarrow> dfs_filesystem \<Rightarrow> u8 list \<Rightarrow> 'w dfs \<Rightarrow> (u8 list option \<times> 'w dfs) option" where
  "open_path ops fs fullpath s =
    (if op_flags ops AND DFS_FS_FLAG_FULLPATH = 0 then do {
       sub \<leftarrow> sub_path fs fullpath;
       Some (strdup (case sub of None \<Rightarrow> [SLASH] | Some p \<Rightarrow> p) s)
     } else Some (Some fullpath, s))"

definition call_open :: "'w fs_operation \<Rightarrow> dfs_filesystem \<Rightarrow> dfs_fd \<Rightarrow> u32 \<Rightarrow> 'w dfs \<Rightarrow> (int \<times> dfs_fd \<times> 'w dfs) option" where
  "call_open ops fs fd flags s =
    (case op_open ops of
       None \<Rightarrow> Some (- DFS_STATUS_ENOSYS, fd\<lparr>fd_path := None\<rparr>, s)
     | Some f \<Rightarrow> do {
         (result, fd, d) \<leftarrow> f fs fd (dfs_devs s);
         let s = s\<lparr>dfs_devs := d\<rparr>;
         if result < 0 then Some (result, fd\<lparr>fd_path := None\<rparr>, s)
         else do {
           let fd = fd\<lparr>fd_flags := fd_flags fd OR DFS_F_OPEN\<rparr>;
           Some (0, if flags AND DFS_O_DIRECTORY \<noteq> 0
                    then fd\<lparr>fd_type := FT_DIRECTORY, fd_flags := fd_flags fd OR DFS_F_DIRECTORY\<rparr> else fd, s)
         }
       })"

definition dfs_file_open :: "(nat \<Rightarrow> 'w fs_operation) \<Rightarrow> dfs_fd \<Rightarrow> u8 list \<Rightarrow> u32 \<Rightarrow> 'w dfs \<Rightarrow> (int \<times> dfs_fd \<times> 'w dfs) option" where
  "dfs_file_open lib fd path flags s = do {
     (fullpath, s) \<leftarrow> normalize path s;
     case fullpath of
       None \<Rightarrow> Some (- 1, fd, s)
     | Some fullpath \<Rightarrow>
         (case dfs_filesystem_lookup fullpath s of
            None \<Rightarrow> Some (- DFS_STATUS_ENOENT, fd, s)
          | Some i \<Rightarrow> do {
              let fd = fd\<lparr>fd_fs := Some i, fd_type := FT_REGULAR, fd_flags := flags, fd_size := 0, fd_pos := 0\<rparr>;
              (fs, ops) \<leftarrow> fd_filesystem fd s;
              (p, s) \<leftarrow> open_path (lib ops) fs fullpath s;
              call_open (lib ops) fs (fd\<lparr>fd_path := p\<rparr>) flags s
            })
   }"

definition dfs_file_close :: "(nat \<Rightarrow> 'w fs_operation) \<Rightarrow> dfs_fd \<Rightarrow> 'w dfs \<Rightarrow> (int \<times> dfs_fd \<times> 'w dfs) option" where
  "dfs_file_close lib fd s = do {
     (fs, ops) \<leftarrow> fd_filesystem fd s;
     (result, fd, d) \<leftarrow> (case op_close (lib ops) of None \<Rightarrow> Some (0, fd, dfs_devs s) | Some f \<Rightarrow> f fs fd (dfs_devs s));
     let s = s\<lparr>dfs_devs := d\<rparr>;
     if result < 0 then Some (result, fd, s) else Some (result, fd\<lparr>fd_path := None\<rparr>, s)
   }"

definition dfs_file_read :: "(nat \<Rightarrow> 'w fs_operation) \<Rightarrow> dfs_fd \<Rightarrow> u32 \<Rightarrow> 'w dfs \<Rightarrow> (int \<times> u8 list \<times> dfs_fd \<times> 'w dfs) option" where
  "dfs_file_read lib fd len s = do {
     (fs, ops) \<leftarrow> fd_filesystem fd s;
     case op_read (lib ops) of
       None \<Rightarrow> Some (- DFS_STATUS_ENOSYS, [], fd, s)
     | Some f \<Rightarrow> do {
         (result, buf, fd, d) \<leftarrow> f len fs fd (dfs_devs s);
         Some (result, buf, if result < 0 then fd\<lparr>fd_flags := fd_flags fd OR DFS_F_EOF\<rparr> else fd, s\<lparr>dfs_devs := d\<rparr>)
       }
   }"

definition dfs_file_write :: "(nat \<Rightarrow> 'w fs_operation) \<Rightarrow> dfs_fd \<Rightarrow> u8 list \<Rightarrow> 'w dfs \<Rightarrow> (int \<times> dfs_fd \<times> 'w dfs) option" where
  "dfs_file_write lib fd buf s = do {
     (fs, ops) \<leftarrow> fd_filesystem fd s;
     case op_write (lib ops) of
       None \<Rightarrow> Some (- DFS_STATUS_ENOSYS, fd, s)
     | Some f \<Rightarrow> do { (result, fd, d) \<leftarrow> f buf fs fd (dfs_devs s); Some (result, fd, s\<lparr>dfs_devs := d\<rparr>) }
   }"

definition dfs_file_flush :: "(nat \<Rightarrow> 'w fs_operation) \<Rightarrow> dfs_fd \<Rightarrow> 'w dfs \<Rightarrow> (int \<times> dfs_fd \<times> 'w dfs) option" where
  "dfs_file_flush lib fd s = do {
     (fs, ops) \<leftarrow> fd_filesystem fd s;
     case op_flush (lib ops) of
       None \<Rightarrow> Some (- DFS_STATUS_ENOSYS, fd, s)
     | Some f \<Rightarrow> do { (result, fd, d) \<leftarrow> f fs fd (dfs_devs s); Some (result, fd, s\<lparr>dfs_devs := d\<rparr>) }
   }"

definition dfs_file_lseek :: "(nat \<Rightarrow> 'w fs_operation) \<Rightarrow> dfs_fd \<Rightarrow> u32 \<Rightarrow> 'w dfs \<Rightarrow> (int \<times> dfs_fd \<times> 'w dfs) option" where
  "dfs_file_lseek lib fd offset s =
    (if fd_fs fd = None then Some (- DFS_STATUS_EINVAL, fd, s)
     else do {
       (fs, ops) \<leftarrow> fd_filesystem fd s;
       case op_lseek (lib ops) of
         None \<Rightarrow> Some (- DFS_STATUS_ENOSYS, fd, s)
       | Some f \<Rightarrow> do {
           (result, fd, d) \<leftarrow> f offset fs fd (dfs_devs s);
           Some (result, if result \<ge> 0 then fd\<lparr>fd_pos := word_of_int result\<rparr> else fd, s\<lparr>dfs_devs := d\<rparr>)
         }
     })"

text \<open>
  \<^verbatim>\<open>fd_is_open\<close> answers 0 when a descriptor of the mount has the path; the path compared is what
  follows the mount point.
\<close>

fun open_loop :: "nat \<Rightarrow> u8 list \<Rightarrow> dfs_fd list \<Rightarrow> bool option" where
  "open_loop i mountpath [] = Some False"
| "open_loop i mountpath (d # ds) =
    (if fd_fs d = Some i then do {
       p \<leftarrow> fd_path d;
       if p = mountpath then Some True else open_loop i mountpath ds
     } else open_loop i mountpath ds)"

definition fd_is_open :: "u8 list \<Rightarrow> 'w dfs \<Rightarrow> (int \<times> 'w dfs) option" where
  "fd_is_open pathname s = do {
     (fullpath, s) \<leftarrow> normalize pathname s;
     case fullpath of
       None \<Rightarrow> Some (- 1, s)
     | Some fullpath \<Rightarrow>
         (case dfs_filesystem_lookup fullpath s of
            None \<Rightarrow> Some (- 1, s)
          | Some i \<Rightarrow> do {
              p \<leftarrow> fs_path (filesystem_table s ! i);
              let mountpath = (if p = [SLASH] then fullpath else drop (length p) fullpath);
              found \<leftarrow> open_loop i mountpath (fd_table s);
              Some (if found then 0 else - 1, s)
            })
   }"

definition dfs_file_unlink :: "(nat \<Rightarrow> 'w fs_operation) \<Rightarrow> u8 list \<Rightarrow> 'w dfs \<Rightarrow> (int \<times> 'w dfs) option" where
  "dfs_file_unlink lib path s = do {
     (fullpath, s) \<leftarrow> normalize path s;
     case fullpath of
       None \<Rightarrow> Some (- DFS_STATUS_EINVAL, s)
     | Some fullpath \<Rightarrow>
         (case dfs_filesystem_lookup fullpath s of
            None \<Rightarrow> Some (- DFS_STATUS_ENOENT, s)
          | Some i \<Rightarrow> do {
              (r, s) \<leftarrow> fd_is_open fullpath s;
              if r = 0 then Some (- DFS_STATUS_EBUSY, s)
              else do {
                let fs = filesystem_table s ! i;
                ops \<leftarrow> fs_ops fs;
                (case op_unlink (lib ops) of
                   None \<Rightarrow> Some (- DFS_STATUS_ENOSYS, s)
                 | Some f \<Rightarrow> do {
                     p \<leftarrow> (if op_flags (lib ops) AND DFS_FS_FLAG_FULLPATH = 0
                           then map_option (\<lambda>sub. case sub of None \<Rightarrow> [SLASH] | Some p \<Rightarrow> p) (sub_path fs fullpath)
                           else Some fullpath);
                     (result, d) \<leftarrow> f fs p (dfs_devs s);
                     Some (result, s\<lparr>dfs_devs := d\<rparr>)
                   })
              }
            })
   }"

definition dfs_file_rename :: "(nat \<Rightarrow> 'w fs_operation) \<Rightarrow> u8 list \<Rightarrow> u8 list \<Rightarrow> 'w dfs \<Rightarrow> (int \<times> 'w dfs) option" where
  "dfs_file_rename lib oldpath newpath s = do {
     (oldfull, s) \<leftarrow> normalize oldpath s;
     case oldfull of
       None \<Rightarrow> Some (- DFS_STATUS_ENOENT, s)
     | Some oldfull \<Rightarrow> do {
         (newfull, s) \<leftarrow> normalize newpath s;
         case newfull of
           None \<Rightarrow> Some (- DFS_STATUS_ENOENT, s)
         | Some newfull \<Rightarrow>
             if dfs_filesystem_lookup oldfull s = dfs_filesystem_lookup newfull s then do {
               i \<leftarrow> dfs_filesystem_lookup oldfull s;
               let fs = filesystem_table s ! i;
               ops \<leftarrow> fs_ops fs;
               (case op_rename (lib ops) of
                  None \<Rightarrow> Some (- DFS_STATUS_ENOSYS, s)
                | Some f \<Rightarrow> do {
                    (old, new) \<leftarrow> (if op_flags (lib ops) AND DFS_FS_FLAG_FULLPATH \<noteq> 0 then Some (Some oldfull, Some newfull)
                      else do { old \<leftarrow> sub_path fs oldfull; new \<leftarrow> sub_path fs newfull; Some (old, new) });
                    (result, d) \<leftarrow> f fs old new (dfs_devs s);
                    Some (result, s\<lparr>dfs_devs := d\<rparr>)
                  })
             } else Some (- DFS_STATUS_EXDEV, s)
       }
   }"

subsection \<open>The calls of the application\<close>

definition posix_open :: "(nat \<Rightarrow> 'w fs_operation) \<Rightarrow> u8 list \<Rightarrow> u32 \<Rightarrow> 'w dfs \<Rightarrow> (int \<times> 'w dfs) option" where
  "posix_open lib file flags s =
    (case fd_new s of
       (None, s) \<Rightarrow> Some (- 1, dfs_errno (- DFS_STATUS_ENOMEM) s)
     | (Some fd, s) \<Rightarrow> do {
         let (d, s) = fd_get (int fd) s;
         i \<leftarrow> d;
         (result, f, s) \<leftarrow> dfs_file_open lib (fd_table s ! i) file flags s;
         let s = set_fd i f s;
         if result < 0 then Some (- 1, dfs_errno result (fd_put i (fd_put i s)))
         else Some (int fd, fd_put i s)
       })"

definition posix_close :: "(nat \<Rightarrow> 'w fs_operation) \<Rightarrow> int \<Rightarrow> 'w dfs \<Rightarrow> (int \<times> 'w dfs) option" where
  "posix_close lib fd s =
    (case fd_get fd s of
       (None, s) \<Rightarrow> Some (- 1, dfs_errno (- DFS_STATUS_EBADF) s)
     | (Some i, s) \<Rightarrow> do {
         (result, f, s) \<leftarrow> dfs_file_close lib (fd_table s ! i) s;
         let s = fd_put i (set_fd i f s);
         if result < 0 then Some (- 1, dfs_errno result s) else Some (0, fd_put i s)
       })"

definition posix_read :: "(nat \<Rightarrow> 'w fs_operation) \<Rightarrow> int \<Rightarrow> u32 \<Rightarrow> 'w dfs \<Rightarrow> (int \<times> u8 list \<times> 'w dfs) option" where
  "posix_read lib fd len s =
    (case fd_get fd s of
       (None, s) \<Rightarrow> Some (- 1, [], dfs_errno (- DFS_STATUS_EBADF) s)
     | (Some i, s) \<Rightarrow> do {
         (result, buf, f, s) \<leftarrow> dfs_file_read lib (fd_table s ! i) len s;
         let s = fd_put i (set_fd i f s);
         if result < 0 then Some (- 1, buf, dfs_errno result s) else Some (result, buf, s)
       })"

definition posix_write :: "(nat \<Rightarrow> 'w fs_operation) \<Rightarrow> int \<Rightarrow> u8 list \<Rightarrow> 'w dfs \<Rightarrow> (int \<times> 'w dfs) option" where
  "posix_write lib fd buf s =
    (case fd_get fd s of
       (None, s) \<Rightarrow> Some (- 1, dfs_errno (- DFS_STATUS_EBADF) s)
     | (Some i, s) \<Rightarrow> do {
         (result, f, s) \<leftarrow> dfs_file_write lib (fd_table s ! i) buf s;
         let s = fd_put i (set_fd i f s);
         if result < 0 then Some (- 1, dfs_errno result s) else Some (result, s)
       })"

datatype whence = DFS_SEEK_SET | DFS_SEEK_CUR | DFS_SEEK_END | Other_Whence

text \<open>\<^verbatim>\<open>off_t\<close> is a signed word; the sum with the position or the size wraps.\<close>

definition posix_lseek :: "(nat \<Rightarrow> 'w fs_operation) \<Rightarrow> int \<Rightarrow> u32 \<Rightarrow> whence \<Rightarrow> 'w dfs \<Rightarrow> (int \<times> 'w dfs) option" where
  "posix_lseek lib fd offset wh s =
    (case fd_get fd s of
       (None, s) \<Rightarrow> Some (- 1, dfs_errno (- DFS_STATUS_EBADF) s)
     | (Some i, s) \<Rightarrow>
         (let d = fd_table s ! i;
              target = (case wh of DFS_SEEK_SET \<Rightarrow> Some offset | DFS_SEEK_CUR \<Rightarrow> Some (offset + fd_pos d)
                        | DFS_SEEK_END \<Rightarrow> Some (offset + fd_size d) | Other_Whence \<Rightarrow> None) in
          case target of
            None \<Rightarrow> Some (- 1, dfs_errno (- DFS_STATUS_EINVAL) (fd_put i s))
          | Some offset \<Rightarrow>
              if sint offset < 0 then Some (- 1, dfs_errno (- DFS_STATUS_EINVAL) (fd_put i s))
              else do {
                (result, f, s) \<leftarrow> dfs_file_lseek lib d offset s;
                let s = fd_put i (set_fd i f s);
                if result < 0 then Some (- 1, dfs_errno result s) else Some (sint offset, s)
              }))"

definition posix_fsync :: "(nat \<Rightarrow> 'w fs_operation) \<Rightarrow> int \<Rightarrow> 'w dfs \<Rightarrow> (int \<times> 'w dfs) option" where
  "posix_fsync lib fd s =
    (case fd_get fd s of
       (None, s) \<Rightarrow> Some (- 1, dfs_errno (- DFS_STATUS_EBADF) s)
     | (Some i, s) \<Rightarrow> do {
         (result, f, s) \<leftarrow> dfs_file_flush lib (fd_table s ! i) s;
         Some (result, fd_put i (set_fd i f s))
       })"

definition posix_unlink :: "(nat \<Rightarrow> 'w fs_operation) \<Rightarrow> u8 list \<Rightarrow> 'w dfs \<Rightarrow> (int \<times> 'w dfs) option" where
  "posix_unlink lib path s = do {
     (result, s) \<leftarrow> dfs_file_unlink lib path s;
     if result < 0 then Some (- 1, dfs_errno result s) else Some (0, s)
   }"

definition posix_rename :: "(nat \<Rightarrow> 'w fs_operation) \<Rightarrow> u8 list \<Rightarrow> u8 list \<Rightarrow> 'w dfs \<Rightarrow> (int \<times> 'w dfs) option" where
  "posix_rename lib old new s = do {
     (result, s) \<leftarrow> dfs_file_rename lib old new s;
     if result < 0 then Some (- 1, dfs_errno result s) else Some (0, s)
   }"

subsection \<open>Mounting\<close>

text \<open>
  The search for the file system type tests the pointer into the table where it means the entry:
  an empty entry before the one wanted is a use of the null pointer.
\<close>

fun find_type :: "(nat \<Rightarrow> 'w fs_operation) \<Rightarrow> u8 list \<Rightarrow> nat option list \<Rightarrow> nat option option" where
  "find_type lib nm [] = Some None"
| "find_type lib nm (None # es) = None"
| "find_type lib nm (Some ops # es) = (if op_name (lib ops) = nm then Some (Some ops) else find_type lib nm es)"

text \<open>The mount table is searched for the path as it was given, not for the normalised one.\<close>

fun mount_slot :: "u8 list \<Rightarrow> nat \<Rightarrow> dfs_filesystem list \<Rightarrow> nat option \<Rightarrow> (int + nat option) option" where
  "mount_slot path i [] fs = Some (Inr fs)"
| "mount_slot path i (e # es) fs =
    (if fs_ops e = None then mount_slot path (i + 1) es (if fs = None then Some i else fs)
     else do {
       p \<leftarrow> fs_path e;
       if p = path then Some (Inl (- DFS_STATUS_EINVAL)) else mount_slot path (i + 1) es fs
     })"

text \<open>The directory to mount on must open, unless it is the root or \<^verbatim>\<open>/dev\<close>; \<open>junk\<close> is the uninitialised local descriptor.\<close>

definition mount_point_ok :: "(nat \<Rightarrow> 'w fs_operation) \<Rightarrow> dfs_fd \<Rightarrow> u8 list \<Rightarrow> 'w dfs \<Rightarrow> (bool \<times> 'w dfs) option" where
  "mount_point_ok lib junk fullpath s =
    (if fullpath \<noteq> [SLASH] \<and> fullpath \<noteq> [0x2f, 0x64, 0x65, 0x76] then do {
       (r, fd, s) \<leftarrow> dfs_file_open lib junk fullpath (DFS_O_RDONLY OR DFS_O_DIRECTORY) s;
       if r < 0 then Some (False, s)
       else do { (r, fd, s) \<leftarrow> dfs_file_close lib fd s; Some (True, s) }
     } else Some (True, s))"

text \<open>From the entry of the mount table on: open the device, call the mount operation, clear the entry when one of them fails.\<close>

definition mount_at ::
  "(nat \<Rightarrow> 'w fs_operation) \<Rightarrow> (objid \<Rightarrow> 'w driver) \<Rightarrow> nat \<Rightarrow> dfs_filesystem \<Rightarrow>
   (dfs_filesystem \<Rightarrow> u32 \<Rightarrow> u32 \<Rightarrow> 'w devs \<Rightarrow> (int \<times> dfs_filesystem \<times> 'w devs) option) \<Rightarrow> u32 \<Rightarrow> u32 \<Rightarrow> 'w dfs \<Rightarrow> (int \<times> 'w dfs) option" where
  "mount_at lib drv i fs mnt rwflag data s = do {
     let s = set_fs i fs s;
     (r, d) \<leftarrow> (case fs_dev_id fs of None \<Rightarrow> Some (RT_EOK, dfs_devs s) | Some x \<Rightarrow> rt_device_open drv x RT_DEVICE_OFLAG_RDWR (dfs_devs s));
     let s = s\<lparr>dfs_devs := d\<rparr>;
     if r \<noteq> RT_EOK then Some (- 1, set_fs i no_filesystem s)
     else do {
       (r, fs', d) \<leftarrow> mnt fs rwflag data (dfs_devs s);
       let s = set_fs i fs' (s\<lparr>dfs_devs := d\<rparr>);
       if r < 0 then do {
         d \<leftarrow> (case fs_dev_id fs of None \<Rightarrow> Some (dfs_devs s)
               | Some x \<Rightarrow> do { x' \<leftarrow> fs_dev_id fs'; map_option snd (rt_device_close drv x' (dfs_devs s)) });
         Some (- 1, set_fs i no_filesystem (s\<lparr>dfs_devs := d\<rparr>))
       } else Some (0, s)
     }
   }"

definition find_device :: "u8 list option \<Rightarrow> 'w dfs \<Rightarrow> (objid option \<times> 'w dfs) option" where
  "find_device device_name s =
    (case device_name of
       None \<Rightarrow> Some (None, s)
     | Some nm \<Rightarrow> do {
         (x, k) \<leftarrow> rt_device_find (nm @ [0]) (dv_kernel (dfs_devs s));
         Some (x, s\<lparr>dfs_devs := (dfs_devs s)\<lparr>dv_kernel := k\<rparr>\<rparr>)
       })"

definition dfs_mount ::
  "(nat \<Rightarrow> 'w fs_operation) \<Rightarrow> (objid \<Rightarrow> 'w driver) \<Rightarrow> dfs_fd \<Rightarrow> u8 list option \<Rightarrow> u8 list \<Rightarrow> u8 list \<Rightarrow> u32 \<Rightarrow> u32 \<Rightarrow> 'w dfs \<Rightarrow> (int \<times> 'w dfs) option" where
  "dfs_mount lib drv junk device_name path filesystemtype rwflag data s = do {
     (dev_id, s) \<leftarrow> find_device device_name s;
     if device_name \<noteq> None \<and> dev_id = None then Some (- 1, dfs_errno (- DFS_STATUS_ENODEV) s)
     else do {
       ty \<leftarrow> find_type lib filesystemtype (filesystem_operation_table s);
       (case ty of
          None \<Rightarrow> Some (- 1, dfs_errno (- DFS_STATUS_ENODEV) s)
        | Some ops \<Rightarrow>
            (case op_mount (lib ops) of
               None \<Rightarrow> Some (- 1, dfs_errno (- DFS_STATUS_ENOSYS) s)
             | Some mnt \<Rightarrow> do {
                 (fullpath, s) \<leftarrow> normalize path s;
                 (case fullpath of
                    None \<Rightarrow> Some (- 1, dfs_errno (- DFS_STATUS_ENOTDIR) s)
                  | Some fullpath \<Rightarrow> do {
                      (ok, s) \<leftarrow> mount_point_ok lib junk fullpath s;
                      if \<not> ok then Some (- 1, dfs_errno (- DFS_STATUS_ENOTDIR) s)
                      else do {
                        slot \<leftarrow> mount_slot path 0 (filesystem_table s) None;
                        (case slot of
                           Inl e \<Rightarrow> Some (- 1, dfs_errno e s)
                         | Inr None \<Rightarrow> Some (- 1, dfs_errno (- DFS_STATUS_ENOSPC) s)
                         | Inr (Some i) \<Rightarrow>
                             mount_at lib drv i ((filesystem_table s ! i)\<lparr>fs_path := Some fullpath, fs_ops := Some ops, fs_dev_id := dev_id\<rparr>)
                               mnt rwflag data s)
                      }
                    })
               }))
     }
   }"

fun unmount_entry :: "u8 list \<Rightarrow> nat \<Rightarrow> dfs_filesystem list \<Rightarrow> nat option" where
  "unmount_entry fullpath i [] = None"
| "unmount_entry fullpath i (e # es) = (if fs_path e = Some fullpath then Some i else unmount_entry fullpath (i + 1) es)"

definition dfs_unmount :: "(nat \<Rightarrow> 'w fs_operation) \<Rightarrow> (objid \<Rightarrow> 'w driver) \<Rightarrow> u8 list \<Rightarrow> 'w dfs \<Rightarrow> (int \<times> 'w dfs) option" where
  "dfs_unmount lib drv specialfile s = do {
     (fullpath, s) \<leftarrow> normalize specialfile s;
     case fullpath of
       None \<Rightarrow> Some (- 1, dfs_errno (- DFS_STATUS_ENOTDIR) s)
     | Some fullpath \<Rightarrow>
         (case unmount_entry fullpath 0 (filesystem_table s) of
            None \<Rightarrow> Some (- 1, s)
          | Some i \<Rightarrow> do {
              ops \<leftarrow> fs_ops (filesystem_table s ! i);
              (case op_unmount (lib ops) of
                 None \<Rightarrow> Some (- 1, s)
               | Some f \<Rightarrow> do {
                   (r, fs, d) \<leftarrow> f (filesystem_table s ! i) (dfs_devs s);
                   let s = set_fs i fs (s\<lparr>dfs_devs := d\<rparr>);
                   if r < 0 then Some (- 1, s)
                   else do {
                     d \<leftarrow> (case fs_dev_id fs of None \<Rightarrow> Some (dfs_devs s) | Some x \<Rightarrow> map_option snd (rt_device_close drv x (dfs_devs s)));
                     Some (0, set_fs i no_filesystem (s\<lparr>dfs_devs := d\<rparr>))
                   }
                 })
            })
   }"

subsection \<open>The mount that owns a path\<close>

text \<open>On normal paths the test on characters is the prefix relation on components.\<close>

definition joined :: "u8 list list \<Rightarrow> u8 list" where
  "joined cs = concat (map (\<lambda>c. SLASH # c) cs)"

lemma joined_simps [simp]: "joined [] = []" "joined (c # cs) = SLASH # c @ joined cs"
  by (simp_all add: joined_def)

lemma joined_start: "joined cs = [] \<or> hd (joined cs) = SLASH"
  by (cases cs) auto

lemma first_part:
  assumes "c @ x = d @ y" "SLASH \<notin> set c" "SLASH \<notin> set d" "x = [] \<or> hd x = SLASH" "y = [] \<or> hd y = SLASH"
  shows "c = d \<and> x = y"
proof -
  have *: "takeWhile (\<lambda>a. a \<noteq> SLASH) (u @ v) = u" if "SLASH \<notin> set u" "v = [] \<or> hd v = SLASH" for u v :: "u8 list"
    using that by (cases v) (auto simp: takeWhile_append takeWhile_eq_all_conv)
  from *[of c x] *[of d y] assms have "c = d" by metis
  with assms(1) show ?thesis by simp
qed

lemma joined_prefix:
  assumes "\<forall>c\<in>set a. SLASH \<notin> set c" "\<forall>c\<in>set b. SLASH \<notin> set c"
  shows "(\<exists>r. joined b = joined a @ r \<and> (r = [] \<or> hd r = SLASH)) \<longleftrightarrow> (\<exists>cs. b = a @ cs)"
  using assms
proof (induction a arbitrary: b)
  case Nil
  then show ?case using joined_start by auto
next
  case (Cons c a)
  show ?case
  proof (cases b)
    case (Cons d b')
    have "(\<exists>r. joined b = joined (c # a) @ r \<and> (r = [] \<or> hd r = SLASH)) \<longleftrightarrow>
        d = c \<and> (\<exists>r. joined b' = joined a @ r \<and> (r = [] \<or> hd r = SLASH))" (is "?L \<longleftrightarrow> ?R")
    proof
      assume ?L
      then obtain r where r: "d @ joined b' = c @ joined a @ r" "r = [] \<or> hd r = SLASH" using Cons by auto
      have y: "joined a @ r = [] \<or> hd (joined a @ r) = SLASH" using joined_start[of a] r(2) by (cases "joined a") auto
      have "SLASH \<notin> set d" "SLASH \<notin> set c" using Cons Cons.prems by simp_all
      with first_part[OF r(1) _ _ joined_start y] r(2) show ?R by blast
    qed (use Cons in auto)
    with Cons Cons.IH[of b'] Cons.prems show ?thesis by auto
  qed simp
qed

lemma covers_joined:
  assumes "\<forall>c\<in>set a. plain_component c" "\<forall>c\<in>set b. plain_component c" "a \<noteq> []"
  shows "covers (joined a) (joined b) \<longleftrightarrow> (\<exists>cs. b = a @ cs)"
proof -
  have l: "length (joined a) > 1" using assms(1,3) by (cases a) (auto simp: plain_component_def)
  have "covers p w \<longleftrightarrow> (\<exists>r. w = p @ r \<and> (r = [] \<or> hd r = SLASH))" if "length p > 1" for p w
  proof
    assume "covers p w"
    then show "\<exists>r. w = p @ r \<and> (r = [] \<or> hd r = SLASH)"
      using that append_take_drop_id[of "length p" w] hd_drop_conv_nth[of "length p" w]
      by (intro exI[of _ "drop (length p) w"], cases "length p < length w") (auto simp: covers_def)
  next
    assume "\<exists>r. w = p @ r \<and> (r = [] \<or> hd r = SLASH)"
    then obtain r where "w = p @ r" "r = [] \<or> hd r = SLASH" by blast
    then show "covers p w" by (cases r) (auto simp: covers_def)
  qed
  with l joined_prefix[of a b] assms show ?thesis by (simp add: plain_component_def)
qed

lemma covers_render:
  assumes "\<forall>c\<in>set q. plain_component c" "\<forall>c\<in>set st. plain_component c"
  shows "covers (render q) (render st) \<longleftrightarrow> (\<exists>cs. rev st = rev q @ cs)"
proof (cases "q = []")
  case True
  have "\<exists>w. render st = SLASH # w" by (cases "rev st") (auto simp: render_def)
  with True show ?thesis by (auto simp: covers_def render_def)
next
  case False
  have r: "render u = joined (rev u)" if "u \<noteq> []" for u using that by (simp add: render_def joined_def)
  show ?thesis
  proof (cases "st = []")
    case True
    have "set (rev q) = set q" by simp
    then obtain c w where "rev q = c # w" "c \<noteq> []"
      using False assms(1) by (cases "rev q") (auto simp: plain_component_def simp del: set_rev)
    then show ?thesis using True False by (cases c) (auto simp: covers_def r render_def)
  next
    case st: False
    with False r covers_joined[of "rev q" "rev st"] assms show ?thesis by simp
  qed
qed

text \<open>What the search returns: the last of the longest entries that cover the path.\<close>

definition mounted_over :: "u8 list \<Rightarrow> dfs_filesystem \<Rightarrow> nat \<Rightarrow> bool" where
  "mounted_over path e n \<longleftrightarrow> fs_ops e \<noteq> None \<and> (\<exists>p. fs_path e = Some p \<and> covers p path \<and> length p = n)"

lemma lookup_loop_spec:
  assumes "case fs of None \<Rightarrow> k = 0 | Some j \<Rightarrow> j < i"
  shows "case lookup_loop path i es fs k of
      None \<Rightarrow> fs = None \<and> (\<forall>e\<in>set es. \<forall>n. \<not> mounted_over path e n)
    | Some j \<Rightarrow> (if j < i then fs = Some j \<and> (\<forall>e\<in>set es. \<forall>n. mounted_over path e n \<longrightarrow> n < k)
        else \<exists>n. j - i < length es \<and> mounted_over path (es ! (j - i)) n \<and> k \<le> n \<and>
          (\<forall>e\<in>set es. \<forall>m. mounted_over path e m \<longrightarrow> m \<le> n))"
  using assms
proof (induction es arbitrary: i fs k)
  case (Cons e es)
  show ?case
  proof (cases "\<exists>n. mounted_over path e n \<and> k \<le> n")
    case True
    then obtain p where p: "fs_path e = Some p" "fs_ops e \<noteq> None" "covers p path" "k \<le> length p" by (auto simp: mounted_over_def)
    then have "lookup_loop path i (e # es) fs k = lookup_loop path (i + 1) es (Some i) (length p)" by auto
    with Cons.IH[where fs = "Some i" and k = "length p" and i = "i + 1"] p show ?thesis
      by (auto simp: mounted_over_def less_Suc_eq nth_Cons' split: option.splits if_splits)
  next
    case False
    then have small: "\<forall>n. mounted_over path e n \<longrightarrow> n < k" by (auto simp: not_le)
    then have key: "lookup_loop path i (e # es) fs k = lookup_loop path (i + 1) es fs k"
      by (fastforce simp: mounted_over_def split: option.splits)
    from Cons.IH[where fs = fs and k = k and i = "i + 1"] Cons.prems small show ?thesis
      unfolding key by (auto simp: less_Suc_eq nth_Cons' split: option.splits if_splits) (meson less_le_trans less_imp_le)+
  qed
qed (auto split: option.splits)

lemma dfs_filesystem_lookup_spec:
  "case dfs_filesystem_lookup path s of
     None \<Rightarrow> \<forall>e\<in>set (filesystem_table s). \<forall>n. \<not> mounted_over path e n
   | Some j \<Rightarrow> j < length (filesystem_table s) \<and> (\<exists>n. mounted_over path (filesystem_table s ! j) n \<and>
       (\<forall>e\<in>set (filesystem_table s). \<forall>m. mounted_over path e m \<longrightarrow> m \<le> n))"
  using lookup_loop_spec[where fs = None and k = 0 and i = 0 and path = path and es = "filesystem_table s"]
  by (auto simp: dfs_filesystem_lookup_def split: option.splits)

lemma render_length:
  assumes "\<forall>c\<in>set q. plain_component c" "\<forall>c\<in>set q'. plain_component c" "w = rev q @ x" "w = rev q' @ x'"
    "length (render q') \<le> length (render q)"
  shows "length q' \<le> length q"
proof (rule ccontr)
  assume l: "\<not> length q' \<le> length q"
  have "take (length q) w = rev q" "take (length q') w = rev q'" using assms(3) by simp (simp add: assms(4))
  then have "rev q' = rev q @ drop (length q) (rev q')" using l by (metis append_take_drop_id min.absorb1 nat_le_linear take_take)
  then obtain cs where cs: "rev q' = rev q @ cs" "cs \<noteq> []" using l by fastforce
  obtain c cs' where c: "cs = c # cs'" using cs(2) by (cases cs) auto
  have "c \<in> set q'" using cs(1) c by (metis in_set_conv_decomp set_rev)
  then have "c \<noteq> []" using assms(2) by (auto simp: plain_component_def)
  moreover have "q' \<noteq> []" using l by auto
  ultimately show False using assms(5) cs(1) c by (cases "q = []") (auto simp: render_def)
qed

text \<open>Mounts at normal paths: the mount found has the longest mount point whose components begin the path.\<close>

definition mount_at_components :: "dfs_filesystem \<Rightarrow> u8 list list \<Rightarrow> bool" where
  "mount_at_components e q \<longleftrightarrow> fs_ops e \<noteq> None \<and> fs_path e = Some (render (rev q)) \<and> (\<forall>c\<in>set q. plain_component c)"

definition mounts_ok :: "'w dfs \<Rightarrow> bool" where
  "mounts_ok s \<longleftrightarrow> (\<forall>e\<in>set (filesystem_table s). fs_ops e \<noteq> None \<longrightarrow> (\<exists>q. mount_at_components e q))"

lemma mounted_over_components:
  assumes "mount_at_components e q" "\<forall>c\<in>set p. plain_component c"
  shows "mounted_over (render (rev p)) e n \<longleftrightarrow> n = length (render (rev q)) \<and> (\<exists>cs. p = q @ cs)"
  using assms covers_render[of "rev q" "rev p"] by (auto simp: mounted_over_def mount_at_components_def)

lemma lookup_longest_components:
  assumes m: "mounts_ok s" and p: "\<forall>c\<in>set p. plain_component c"
  shows "case dfs_filesystem_lookup (render (rev p)) s of
     None \<Rightarrow> \<forall>e\<in>set (filesystem_table s). \<forall>q cs. mount_at_components e q \<longrightarrow> p \<noteq> q @ cs
   | Some j \<Rightarrow> j < length (filesystem_table s) \<and> (\<exists>q cs. mount_at_components (filesystem_table s ! j) q \<and> p = q @ cs \<and>
       (\<forall>e\<in>set (filesystem_table s). \<forall>q' cs'. mount_at_components e q' \<longrightarrow> p = q' @ cs' \<longrightarrow> length q' \<le> length q))"
proof (cases "dfs_filesystem_lookup (render (rev p)) s")
  case None
  with dfs_filesystem_lookup_spec[where path = "render (rev p)" and s = s] mounted_over_components[OF _ p] show ?thesis by fastforce
next
  case (Some j)
  with dfs_filesystem_lookup_spec[where path = "render (rev p)" and s = s] obtain n where j: "j < length (filesystem_table s)"
    "mounted_over (render (rev p)) (filesystem_table s ! j) n"
    "\<And>e m. e \<in> set (filesystem_table s) \<Longrightarrow> mounted_over (render (rev p)) e m \<Longrightarrow> m \<le> n" by auto
  then obtain q where q: "mount_at_components (filesystem_table s ! j) q"
    using m by (auto simp: mounts_ok_def mounted_over_def)
  from j(2) mounted_over_components[OF q p] obtain cs where cs: "n = length (render (rev q))" "p = q @ cs" by blast
  have "length q' \<le> length q" if "e \<in> set (filesystem_table s)" "mount_at_components e q'" "p = q' @ cs'" for e q' cs'
  proof -
    have "length (render (rev q')) \<le> length (render (rev q))"
      using j(3)[OF that(1)] mounted_over_components[OF that(2) p] that(3) cs(1) by blast
    with render_length[of "rev q" "rev q'" p cs cs'] q that(2,3) cs(2) show ?thesis
      by (simp add: mount_at_components_def)
  qed
  with Some j(1) q cs(2) show ?thesis by auto
qed

subsection \<open>What the calls do to the descriptor table\<close>

text \<open>
  A file system may move the position, the size, the flags and its own data of a descriptor; the
  reference count, the magic number and the mount are not its business.
\<close>

definition same_identity :: "dfs_fd \<Rightarrow> dfs_fd \<Rightarrow> bool" where
  "same_identity d d' \<longleftrightarrow> fd_magic d' = fd_magic d \<and> fd_ref_count d' = fd_ref_count d"

definition polite :: "'w fs_io \<Rightarrow> bool" where
  "polite f \<longleftrightarrow> (\<forall>fs fd d r fd' d'. f fs fd d = Some (r, fd', d') \<longrightarrow> same_identity fd fd')"

definition polite_ops :: "'w fs_operation \<Rightarrow> bool" where
  "polite_ops ops \<longleftrightarrow> (\<forall>f. op_open ops = Some f \<longrightarrow> polite f) \<and> (\<forall>f. op_close ops = Some f \<longrightarrow> polite f) \<and>
     (\<forall>f len fs fd d r buf fd' d'. op_read ops = Some f \<longrightarrow> f len fs fd d = Some (r, buf, fd', d') \<longrightarrow> same_identity fd fd') \<and>
     (\<forall>f buf. op_write ops = Some f \<longrightarrow> polite (f buf)) \<and> (\<forall>f. op_flush ops = Some f \<longrightarrow> polite f) \<and>
     (\<forall>f off. op_lseek ops = Some f \<longrightarrow> polite (f off))"

lemma same_identity_refl [simp]: "same_identity d d"
  by (simp add: same_identity_def)

lemma same_identity_upd [simp]:
  "same_identity d (d'\<lparr>fd_path := p\<rparr>) = same_identity d d'" "same_identity d (d'\<lparr>fd_flags := n\<rparr>) = same_identity d d'"
  "same_identity d (d'\<lparr>fd_type := ft\<rparr>) = same_identity d d'" "same_identity d (d'\<lparr>fd_fs := i\<rparr>) = same_identity d d'"
  "same_identity d (d'\<lparr>fd_pos := n\<rparr>) = same_identity d d'" "same_identity d (d'\<lparr>fd_size := n\<rparr>) = same_identity d d'"
  by (simp_all add: same_identity_def)

lemma politeD: "polite f \<Longrightarrow> f fs fd d = Some (r, fd', d') \<Longrightarrow> same_identity fd fd'"
  unfolding polite_def by blast

lemma polite_opsD:
  assumes "polite_ops ops"
  shows "op_open ops = Some f \<Longrightarrow> polite f" and "op_close ops = Some f \<Longrightarrow> polite f"
    and "op_read ops = Some g \<Longrightarrow> g len fs fd d = Some (r, buf, fd', d') \<Longrightarrow> same_identity fd fd'"
    and "op_write ops = Some h \<Longrightarrow> polite (h w)" and "op_flush ops = Some f \<Longrightarrow> polite f"
    and "op_lseek ops = Some l \<Longrightarrow> polite (l off)"
  using assms by (simp_all add: polite_ops_def) blast

lemma same_identity_upd_left [simp]:
  "same_identity (d\<lparr>fd_path := p\<rparr>) d' = same_identity d d'" "same_identity (d\<lparr>fd_flags := n\<rparr>) d' = same_identity d d'"
  "same_identity (d\<lparr>fd_type := ft\<rparr>) d' = same_identity d d'" "same_identity (d\<lparr>fd_fs := i\<rparr>) d' = same_identity d d'"
  "same_identity (d\<lparr>fd_pos := n\<rparr>) d' = same_identity d d'" "same_identity (d\<lparr>fd_size := n\<rparr>) d' = same_identity d d'"
  by (simp_all add: same_identity_def)

lemma malloc_result_table: "malloc_result s = (ok, s') \<Longrightarrow> fd_table s' = fd_table s"
  by (auto simp: malloc_result_def split: list.splits)

lemma normalize_table: "normalize path s = Some (r, s') \<Longrightarrow> fd_table s' = fd_table s"
  by (auto simp: normalize_def bind_eq_Some_conv Let_def malloc_result_table split: prod.splits)

lemma strdup_table: "strdup p s = (r, s') \<Longrightarrow> fd_table s' = fd_table s"
  by (auto simp: strdup_def malloc_result_table split: prod.splits)

lemma dfs_errno_table [simp]: "fd_table (dfs_errno e s) = fd_table s"
  by (simp add: dfs_errno_def)

text \<open>Every operation on an open file leaves the table and the identity of the descriptor.\<close>

definition keeps :: "dfs_fd \<Rightarrow> 'w dfs \<Rightarrow> dfs_fd \<Rightarrow> 'w dfs \<Rightarrow> bool" where
  "keeps fd s fd' s' \<longleftrightarrow> fd_table s' = fd_table s \<and> same_identity fd fd'"

lemma open_path_table: "open_path ops fs p s = Some (r, s') \<Longrightarrow> fd_table s' = fd_table s"
  by (auto simp: open_path_def bind_eq_Some_conv dest: strdup_table split: if_splits)

lemma call_open_keeps:
  assumes p: "polite_ops ops" and e: "call_open ops fs fd flags s = Some (r, fd', s')"
  shows "keeps fd s fd' s'"
  using e by (auto simp: call_open_def keeps_def bind_eq_Some_conv Let_def split: option.splits if_splits)
    (drule polite_opsD(1)[OF p], drule (1) politeD, assumption)+

lemma keeps_trans: "keeps fd s fd' s' \<Longrightarrow> keeps fd' s' fd'' s'' \<Longrightarrow> keeps fd s fd'' s''"
  by (auto simp: keeps_def same_identity_def)

lemma dfs_file_open_keeps:
  assumes p: "\<And>k. polite_ops (lib k)" and e: "dfs_file_open lib fd path flags s = Some (r, fd', s')"
  shows "keeps fd s fd' s'"
proof -
  from e obtain full s1 where n: "normalize path s = Some (full, s1)" by (auto simp: dfs_file_open_def bind_eq_Some_conv)
  have t1: "fd_table s1 = fd_table s" by (rule normalize_table[OF n])
  show ?thesis
  proof (cases "\<exists>f i. full = Some f \<and> dfs_filesystem_lookup f s1 = Some i")
    case False
    with e n t1 show ?thesis by (auto simp: dfs_file_open_def keeps_def split: option.splits)
  next
    case True
    then obtain f i where fi: "full = Some f" "dfs_filesystem_lookup f s1 = Some i" by blast
    let ?fd = "fd\<lparr>fd_fs := Some i, fd_type := FT_REGULAR, fd_flags := flags, fd_size := 0, fd_pos := 0\<rparr>"
    from e n fi obtain fs ops q s2 where o: "open_path (lib ops) fs f s1 = Some (q, s2)"
      "call_open (lib ops) fs (?fd\<lparr>fd_path := q\<rparr>) flags s2 = Some (r, fd', s')"
      by (auto simp: dfs_file_open_def bind_eq_Some_conv Let_def)
    have "keeps fd s (?fd\<lparr>fd_path := q\<rparr>) s2" using open_path_table[OF o(1)] t1 by (simp add: keeps_def)
    then show ?thesis using call_open_keeps[OF p o(2)] by (rule keeps_trans)
  qed
qed

lemma dfs_file_close_keeps:
  assumes p: "\<And>k. polite_ops (lib k)" and e: "dfs_file_close lib fd s = Some (r, fd', s')"
  shows "keeps fd s fd' s'"
  using e
  by (auto simp: dfs_file_close_def keeps_def bind_eq_Some_conv Let_def split: option.splits if_splits)
    (drule polite_opsD(2)[OF p], drule (1) politeD, assumption)+

lemma dfs_file_read_keeps:
  assumes p: "\<And>k. polite_ops (lib k)" and e: "dfs_file_read lib fd len s = Some (r, buf, fd', s')"
  shows "keeps fd s fd' s'"
  using e
  by (auto simp: dfs_file_read_def keeps_def bind_eq_Some_conv Let_def split: option.splits if_splits)
    (drule (1) polite_opsD(3)[OF p], assumption)+

lemma dfs_file_write_keeps:
  assumes p: "\<And>k. polite_ops (lib k)" and e: "dfs_file_write lib fd w s = Some (r, fd', s')"
  shows "keeps fd s fd' s'"
  using e
  by (auto simp: dfs_file_write_def keeps_def bind_eq_Some_conv Let_def split: option.splits if_splits)
    (drule polite_opsD(4)[OF p], drule (1) politeD, assumption)+

lemma dfs_file_flush_keeps:
  assumes p: "\<And>k. polite_ops (lib k)" and e: "dfs_file_flush lib fd s = Some (r, fd', s')"
  shows "keeps fd s fd' s'"
  using e
  by (auto simp: dfs_file_flush_def keeps_def bind_eq_Some_conv Let_def split: option.splits if_splits)
    (drule polite_opsD(5)[OF p], drule (1) politeD, assumption)+

lemma dfs_file_lseek_keeps:
  assumes p: "\<And>k. polite_ops (lib k)" and e: "dfs_file_lseek lib fd off s = Some (r, fd', s')"
  shows "keeps fd s fd' s'"
  using e
  by (auto simp: dfs_file_lseek_def keeps_def bind_eq_Some_conv Let_def split: option.splits if_splits)
    (drule polite_opsD(6)[OF p], drule (1) politeD, assumption)+


text \<open>Between two calls a descriptor is either all zero or open with one reference.\<close>

definition fd_inv :: "'w dfs \<Rightarrow> bool" where
  "fd_inv s \<longleftrightarrow> (\<forall>d\<in>set (fd_table s). d = no_fd \<or> fd_magic d = DFS_FD_MAGIC \<and> fd_ref_count d = 1)"

definition open_fds :: "'w dfs \<Rightarrow> nat set" where
  "open_fds s = {i. i < length (fd_table s) \<and> fd_table s ! i \<noteq> no_fd}"

lemma magic_not_no_fd: "fd_magic d = DFS_FD_MAGIC \<Longrightarrow> d \<noteq> no_fd"
  by (auto simp: no_fd_def)

lemma fd_inv_nth: "fd_inv s \<Longrightarrow> i < length (fd_table s) \<Longrightarrow>
    fd_table s ! i = no_fd \<or> fd_magic (fd_table s ! i) = DFS_FD_MAGIC \<and> fd_ref_count (fd_table s ! i) = 1"
  by (simp add: fd_inv_def)

lemma fd_inv_same_table: "fd_table s' = fd_table s \<Longrightarrow> fd_inv s' = fd_inv s \<and> open_fds s' = open_fds s"
  by (simp add: fd_inv_def open_fds_def)

lemma fd_inv_set:
  assumes "fd_inv s" "fd_table s' = (fd_table s)[i := d]" "fd_magic d = DFS_FD_MAGIC" "fd_ref_count d = 1" "i < length (fd_table s)"
  shows "fd_inv s' \<and> open_fds s' = insert i (open_fds s)"
proof
  show "fd_inv s'" using assms(1-4) by (auto simp: fd_inv_def dest!: set_update_subset_insert[THEN subsetD])
  show "open_fds s' = insert i (open_fds s)"
    using assms(2,5) magic_not_no_fd[OF assms(3)] by (auto simp: open_fds_def nth_list_update)
qed

lemma fd_inv_clear:
  assumes "fd_inv s" "fd_table s' = (fd_table s)[i := no_fd]"
  shows "fd_inv s' \<and> open_fds s' = open_fds s - {i}"
proof
  show "fd_inv s'" using assms by (auto simp: fd_inv_def dest!: set_update_subset_insert[THEN subsetD])
  have "(fd_table s)[i := no_fd] ! x \<noteq> no_fd \<longleftrightarrow> x \<noteq> i \<and> fd_table s ! x \<noteq> no_fd" if "x < length (fd_table s)" for x
    using that by (cases "x = i") auto
  then show "open_fds s' = open_fds s - {i}" using assms(2) by (auto simp: open_fds_def)
qed

lemma fd_get_None: "fd_get fd s = (None, s') \<Longrightarrow> s' = s"
  by (auto simp: fd_get_def Let_def split: if_splits)

lemma fd_get_Some:
  assumes "fd_inv s" "fd_get fd s = (Some i, s')"
  shows "0 \<le> fd \<and> i = nat fd \<and> i \<in> open_fds s \<and>
    s' = set_fd i ((fd_table s ! i)\<lparr>fd_ref_count := 2\<rparr>) s \<and> fd_magic (fd_table s ! i) = DFS_FD_MAGIC"
proof -
  from assms(2) have 1: "0 \<le> fd" "i = nat fd" "i < length (fd_table s)" "fd_magic (fd_table s ! i) = DFS_FD_MAGIC"
    "s' = set_fd i ((fd_table s ! i)\<lparr>fd_ref_count := fd_ref_count (fd_table s ! i) + 1\<rparr>) s"
    by (auto simp: fd_get_def Let_def split: if_splits)
  with fd_inv_nth[OF assms(1) 1(3)] magic_not_no_fd show ?thesis by (auto simp: open_fds_def)
qed

text \<open>A call on a descriptor: the reference taken by \<^verbatim>\<open>fd_get\<close> is given back.\<close>

lemma use_fd:
  assumes i: "fd_inv s" and g: "fd_get fd s = (Some i, s1)" and k: "keeps (fd_table s1 ! i) s1 f s2"
  shows "fd_table (fd_put i (set_fd i f s2)) = (fd_table s)[i := f\<lparr>fd_ref_count := 1\<rparr>]" "fd_magic f = DFS_FD_MAGIC"
    "fd_inv (fd_put i (set_fd i f s2))" "open_fds (fd_put i (set_fd i f s2)) = open_fds s"
proof -
  from fd_get_Some[OF i g] have o: "i \<in> open_fds s" "i < length (fd_table s)" "fd_table s1 = (fd_table s)[i := (fd_table s ! i)\<lparr>fd_ref_count := 2\<rparr>]"
    "fd_magic (fd_table s ! i) = DFS_FD_MAGIC" by (auto simp: open_fds_def set_fd_def)
  with k have f: "fd_magic f = DFS_FD_MAGIC" "fd_ref_count f = 2" "fd_table s2 = fd_table s1"
    by (auto simp: keeps_def same_identity_def)
  then show t: "fd_table (fd_put i (set_fd i f s2)) = (fd_table s)[i := f\<lparr>fd_ref_count := 1\<rparr>]" and "fd_magic f = DFS_FD_MAGIC"
    using o by (auto simp: fd_put_def set_fd_def Let_def)
  show "fd_inv (fd_put i (set_fd i f s2))" "open_fds (fd_put i (set_fd i f s2)) = open_fds s"
    using fd_inv_set[OF i t] f o by auto
qed

lemma drop_fd:
  assumes "fd_inv s" "i \<in> open_fds s"
  shows "fd_inv (fd_put i s)" "open_fds (fd_put i s) = open_fds s - {i}" "fd_table (fd_put i s) = (fd_table s)[i := no_fd]"
proof -
  show t: "fd_table (fd_put i s) = (fd_table s)[i := no_fd]"
    using assms fd_inv_nth[of s i] by (auto simp: fd_put_def set_fd_def open_fds_def Let_def)
  from fd_inv_clear[OF assms(1) t] show "fd_inv (fd_put i s)" "open_fds (fd_put i s) = open_fds s - {i}" by auto
qed

lemma free_fd_spec:
  assumes "\<forall>d\<in>set ds. d = no_fd \<or> fd_magic d = DFS_FD_MAGIC \<and> fd_ref_count d = 1"
  shows "free_fd ds \<le> length ds \<and> (\<forall>i<free_fd ds. ds ! i \<noteq> no_fd) \<and> (free_fd ds < length ds \<longrightarrow> ds ! free_fd ds = no_fd)"
  using assms
proof (induction ds)
  case (Cons d ds)
  have "sint (1 :: u32) = 1" "sint (0 :: u32) = 0" by simp_all
  with Cons magic_not_no_fd[of d] show ?case by (auto simp: no_fd_def nth_Cons' less_Suc_eq_0_disj)
qed simp

lemma fd_new_spec:
  assumes "fd_inv s"
  shows "case fd_new s of
      (None, s') \<Rightarrow> s' = s \<and> open_fds s = {..<length (fd_table s)}
    | (Some i, s') \<Rightarrow> i < length (fd_table s) \<and> i \<notin> open_fds s \<and> {..<i} \<subseteq> open_fds s \<and> fd_inv s' \<and>
        open_fds s' = insert i (open_fds s) \<and> fd_table s' = (fd_table s)[i := no_fd\<lparr>fd_ref_count := 1, fd_magic := DFS_FD_MAGIC\<rparr>] \<and>
        fd_table s ! i = no_fd"
proof -
  let ?i = "free_fd (fd_table s)"
  note f = free_fd_spec[OF assms[unfolded fd_inv_def]]
  show ?thesis
  proof (cases "?i = length (fd_table s)")
    case True
    with f show ?thesis by (auto simp: fd_new_def open_fds_def)
  next
    case False
    with f have l: "?i < length (fd_table s)" "fd_table s ! ?i = no_fd" by auto
    let ?s = "set_fd ?i (no_fd\<lparr>fd_ref_count := 1, fd_magic := DFS_FD_MAGIC\<rparr>) s"
    have "fd_new s = (Some ?i, ?s)" using False l by (simp add: fd_new_def Let_def)
    moreover have "fd_inv ?s \<and> open_fds ?s = insert ?i (open_fds s)"
      by (rule fd_inv_set[OF assms]) (use l in \<open>auto simp: set_fd_def\<close>)
    ultimately show ?thesis using f l by (auto simp: open_fds_def set_fd_def)
  qed
qed

datatype file_call = Open "u8 list" u32 | Close int | Read int u32 | Write int "u8 list" | Seek int u32 whence
  | Sync int | Unlink "u8 list" | Rename "u8 list" "u8 list"

fun do_file_call :: "(nat \<Rightarrow> 'w fs_operation) \<Rightarrow> file_call \<Rightarrow> 'w dfs \<Rightarrow> (int \<times> 'w dfs) option" where
  "do_file_call lib (Open p flags) s = posix_open lib p flags s"
| "do_file_call lib (Close fd) s = posix_close lib fd s"
| "do_file_call lib (Read fd n) s = map_option (\<lambda>(r, buf, s). (r, s)) (posix_read lib fd n s)"
| "do_file_call lib (Write fd w) s = posix_write lib fd w s"
| "do_file_call lib (Seek fd off wh) s = posix_lseek lib fd off wh s"
| "do_file_call lib (Sync fd) s = posix_fsync lib fd s"
| "do_file_call lib (Unlink p) s = posix_unlink lib p s"
| "do_file_call lib (Rename p q) s = posix_rename lib p q s"

definition same_fds :: "'w dfs \<Rightarrow> 'w dfs \<Rightarrow> bool" where
  "same_fds s s' \<longleftrightarrow> fd_inv s' \<and> open_fds s' = open_fds s \<and> length (fd_table s') = length (fd_table s)"

lemma fds_errno [simp]: "fd_inv (dfs_errno e s) = fd_inv s" "open_fds (dfs_errno e s) = open_fds s"
  by (simp_all add: fd_inv_def open_fds_def)

lemma same_fds_errno [simp]: "same_fds s (dfs_errno e s') = same_fds s s'"
  by (simp add: same_fds_def fd_inv_def open_fds_def)

lemma same_fds_table: "fd_inv s \<Longrightarrow> fd_table s' = fd_table s \<Longrightarrow> same_fds s s'"
  using fd_inv_same_table by (auto simp: same_fds_def)

lemma use_fd_same:
  assumes "fd_inv s" "fd_get fd s = (Some i, s1)" "keeps (fd_table s1 ! i) s1 f s2"
  shows "same_fds s (fd_put i (set_fd i f s2))"
  using use_fd[OF assms] by (simp add: same_fds_def)

lemma put_fd_same:
  assumes "fd_inv s" "fd_get fd s = (Some i, s1)"
  shows "same_fds s (fd_put i s1)"
proof -
  from fd_get_Some[OF assms] have "i < length (fd_table s1)" by (auto simp: open_fds_def set_fd_def)
  then have "set_fd i (fd_table s1 ! i) s1 = s1" by (simp add: set_fd_def)
  with use_fd_same[OF assms, of "fd_table s1 ! i" s1] show ?thesis by (simp add: keeps_def)
qed

lemma fd_is_open_table: "fd_is_open p s = Some (r, s') \<Longrightarrow> fd_table s' = fd_table s"
proof -
  assume e: "fd_is_open p s = Some (r, s')"
  then obtain full s1 where n: "normalize p s = Some (full, s1)" by (auto simp: fd_is_open_def bind_eq_Some_conv)
  with e have "s' = s1"
    by (cases full; cases "dfs_filesystem_lookup (the full) s1") (auto simp: fd_is_open_def bind_eq_Some_conv Let_def)
  with normalize_table[OF n] show ?thesis by simp
qed

lemma unlink_table:
  assumes "dfs_file_unlink lib p s = Some (r, s')"
  shows "fd_table s' = fd_table s"
proof -
  from assms obtain full s1 where n: "normalize p s = Some (full, s1)" by (auto simp: dfs_file_unlink_def bind_eq_Some_conv)
  note t1 = normalize_table[OF n]
  show ?thesis
  proof (cases "\<exists>f i. full = Some f \<and> dfs_filesystem_lookup f s1 = Some i")
    case False
    with assms n t1 show ?thesis by (auto simp: dfs_file_unlink_def split: option.splits)
  next
    case True
    then obtain f i where fi: "full = Some f" "dfs_filesystem_lookup f s1 = Some i" by blast
    with assms n obtain q s2 where o: "fd_is_open f s1 = Some (q, s2)" by (auto simp: dfs_file_unlink_def bind_eq_Some_conv)
    with assms n fi have "fd_table s' = fd_table s2"
      by (cases "q = 0") (auto simp: dfs_file_unlink_def bind_eq_Some_conv Let_def split: option.splits)
    with fd_is_open_table[OF o] t1 show ?thesis by simp
  qed
qed

lemma rename_table:
  assumes "dfs_file_rename lib p q s = Some (r, s')"
  shows "fd_table s' = fd_table s"
proof -
  from assms obtain full s1 where n: "normalize p s = Some (full, s1)" by (auto simp: dfs_file_rename_def bind_eq_Some_conv)
  note t1 = normalize_table[OF n]
  show ?thesis
  proof (cases full)
    case None
    with assms n t1 show ?thesis by (auto simp: dfs_file_rename_def)
  next
    case (Some f)
    with assms n obtain full' s2 where n': "normalize q s1 = Some (full', s2)" by (auto simp: dfs_file_rename_def bind_eq_Some_conv)
    with assms n Some have "fd_table s' = fd_table s2"
      by (cases full') (auto simp: dfs_file_rename_def bind_eq_Some_conv Let_def split: option.splits if_splits)
    with normalize_table[OF n'] t1 show ?thesis by simp
  qed
qed

lemma posix_close_fds:
  assumes p: "\<And>k. polite_ops (lib k)" and i: "fd_inv s" and c: "posix_close lib fd s = Some (r, s')"
  shows "if r = 0 then 0 \<le> fd \<and> nat fd \<in> open_fds s \<and> fd_inv s' \<and> open_fds s' = open_fds s - {nat fd} \<and>
      fd_table s' = (fd_table s)[nat fd := no_fd] else same_fds s s'"
proof (cases "fd_get fd s")
  case (Pair g s1)
  show ?thesis
  proof (cases g)
    case None
    with Pair c fd_get_None[of fd s s1] i show ?thesis by (auto simp: posix_close_def same_fds_def)
  next
    case (Some j)
    with Pair have g: "fd_get fd s = (Some j, s1)" by simp
    note gs = fd_get_Some[OF i g]
    from c g obtain e f s2 where e: "dfs_file_close lib (fd_table s1 ! j) s1 = Some (e, f, s2)"
      "(r, s') = (if e < 0 then (- 1, dfs_errno e (fd_put j (set_fd j f s2))) else (0, fd_put j (fd_put j (set_fd j f s2))))"
      by (auto simp: posix_close_def bind_eq_Some_conv Let_def split: if_splits)
    from dfs_file_close_keeps[OF p e(1)] have k: "keeps (fd_table s1 ! j) s1 f s2" by simp
    from use_fd[OF i g k] gs drop_fd[of "fd_put j (set_fd j f s2)" j] use_fd_same[OF i g k] e(2) show ?thesis
      by (cases "e < 0") auto
  qed
qed

lemma posix_open_fds:
  assumes p: "\<And>k. polite_ops (lib k)" and i: "fd_inv s" and c: "posix_open lib path flags s = Some (r, s')"
  shows "if r < 0 then same_fds s s' else nat r < length (fd_table s) \<and> nat r \<notin> open_fds s \<and> {..<nat r} \<subseteq> open_fds s \<and>
      fd_inv s' \<and> open_fds s' = insert (nat r) (open_fds s) \<and> (\<exists>f. fd_table s' = (fd_table s)[nat r := f]) \<and> fd_table s ! nat r = no_fd"
proof (cases "fd_new s")
  case (Pair n s0)
  show ?thesis
  proof (cases n)
    case None
    with Pair c have "r = - 1" "s' = dfs_errno (- DFS_STATUS_ENOMEM) s0" by (simp_all add: posix_open_def)
    moreover have "s0 = s" using fd_new_spec[OF i] Pair None by simp
    ultimately show ?thesis using i by (simp add: same_fds_def)
  next
    case (Some j)
    with Pair fd_new_spec[OF i] have n: "fd_new s = (Some j, s0)" "j < length (fd_table s)" "j \<notin> open_fds s" "{..<j} \<subseteq> open_fds s" "fd_inv s0"
      "open_fds s0 = insert j (open_fds s)" "fd_table s0 = (fd_table s)[j := no_fd\<lparr>fd_ref_count := 1, fd_magic := DFS_FD_MAGIC\<rparr>]"
      "fd_table s ! j = no_fd" by auto
    obtain s1 where g: "fd_get (int j) s0 = (Some j, s1)" using n(2,7) by (simp add: fd_get_def Let_def)
    from c n(1) g obtain e f s2 where e: "dfs_file_open lib (fd_table s1 ! j) path flags s1 = Some (e, f, s2)"
      "(r, s') = (if e < 0 then (- 1, dfs_errno e (fd_put j (fd_put j (set_fd j f s2)))) else (int j, fd_put j (set_fd j f s2)))"
      by (auto simp: posix_open_def bind_eq_Some_conv Let_def split: if_splits)
    from dfs_file_open_keeps[OF p e(1)] have k: "keeps (fd_table s1 ! j) s1 f s2" by simp
    note u = use_fd[OF n(5) g k]
    show ?thesis
    proof (cases "e < 0")
      case False
      with e(2) u n show ?thesis by auto
    next
      case True
      let ?s = "fd_put j (fd_put j (set_fd j f s2))"
      note d = drop_fd[of "fd_put j (set_fd j f s2)" j]
      have "fd_table ?s = fd_table s" using d u n by (simp add: list_update_same_conv)
      then show ?thesis using True e(2) same_fds_table[OF i] by simp
    qed
  qed
qed

text \<open>The calls that use a descriptor, one lemma: \<open>g\<close> is the file operation, \<open>fin\<close> what is done with its result.\<close>

lemma fd_call_same:
  assumes i: "fd_inv s" and g: "fd_get fd s = (Some j, s1)" and k: "keeps (fd_table s1 ! j) s1 f s2"
    and s': "s' = fd_put j (set_fd j f s2) \<or> s' = dfs_errno e (fd_put j (set_fd j f s2))"
  shows "same_fds s s'"
  using use_fd_same[OF i g k] s' by auto

lemma fd_call_bad:
  assumes "fd_inv s" "fd_get fd s = (None, s1)"
  shows "same_fds s (dfs_errno e s1)"
  using fd_get_None[OF assms(2)] assms(1) by (simp add: same_fds_def)

lemma posix_read_fds:
  assumes p: "\<And>k. polite_ops (lib k)" and i: "fd_inv s" and c: "posix_read lib fd n s = Some (r, buf, s')"
  shows "same_fds s s'"
proof (cases "fd_get fd s")
  case (Pair g s1)
  show ?thesis
  proof (cases g)
    case None
    with Pair c fd_call_bad[OF i] show ?thesis by (auto simp: posix_read_def)
  next
    case (Some j)
    with Pair c obtain e b f s2 where e: "dfs_file_read lib (fd_table s1 ! j) n s1 = Some (e, b, f, s2)"
      "s' = fd_put j (set_fd j f s2) \<or> s' = dfs_errno e (fd_put j (set_fd j f s2))"
      by (auto simp: posix_read_def bind_eq_Some_conv Let_def split: if_splits)
    with fd_call_same[OF i _ dfs_file_read_keeps[OF p e(1)]] Pair Some show ?thesis by blast
  qed
qed

lemma posix_write_fds:
  assumes p: "\<And>k. polite_ops (lib k)" and i: "fd_inv s" and c: "posix_write lib fd w s = Some (r, s')"
  shows "same_fds s s'"
proof (cases "fd_get fd s")
  case (Pair g s1)
  show ?thesis
  proof (cases g)
    case None
    with Pair c fd_call_bad[OF i] show ?thesis by (auto simp: posix_write_def)
  next
    case (Some j)
    with Pair c obtain e f s2 where e: "dfs_file_write lib (fd_table s1 ! j) w s1 = Some (e, f, s2)"
      "s' = fd_put j (set_fd j f s2) \<or> s' = dfs_errno e (fd_put j (set_fd j f s2))"
      by (auto simp: posix_write_def bind_eq_Some_conv Let_def split: if_splits)
    with fd_call_same[OF i _ dfs_file_write_keeps[OF p e(1)]] Pair Some show ?thesis by blast
  qed
qed

lemma posix_fsync_fds:
  assumes p: "\<And>k. polite_ops (lib k)" and i: "fd_inv s" and c: "posix_fsync lib fd s = Some (r, s')"
  shows "same_fds s s'"
proof (cases "fd_get fd s")
  case (Pair g s1)
  show ?thesis
  proof (cases g)
    case None
    with Pair c fd_call_bad[OF i] show ?thesis by (auto simp: posix_fsync_def)
  next
    case (Some j)
    with Pair c obtain e f s2 where e: "dfs_file_flush lib (fd_table s1 ! j) s1 = Some (e, f, s2)" "s' = fd_put j (set_fd j f s2)"
      by (auto simp: posix_fsync_def bind_eq_Some_conv Let_def)
    with fd_call_same[OF i _ dfs_file_flush_keeps[OF p e(1)]] Pair Some show ?thesis by blast
  qed
qed

lemma posix_lseek_fds:
  assumes p: "\<And>k. polite_ops (lib k)" and i: "fd_inv s" and c: "posix_lseek lib fd off wh s = Some (r, s')"
  shows "same_fds s s'"
proof (cases "fd_get fd s")
  case (Pair g s1)
  show ?thesis
  proof (cases g)
    case None
    with Pair c fd_call_bad[OF i] show ?thesis by (auto simp: posix_lseek_def)
  next
    case (Some j)
    with Pair have g: "fd_get fd s = (Some j, s1)" by simp
    let ?d = "fd_table s1 ! j"
    let ?t = "case wh of DFS_SEEK_SET \<Rightarrow> Some off | DFS_SEEK_CUR \<Rightarrow> Some (off + fd_pos ?d) | DFS_SEEK_END \<Rightarrow> Some (off + fd_size ?d) | Other_Whence \<Rightarrow> None"
    show ?thesis
    proof (cases "\<exists>t. ?t = Some t \<and> \<not> sint t < 0")
      case False
      with c g have "s' = dfs_errno (- DFS_STATUS_EINVAL) (fd_put j s1)"
        by (cases ?t) (auto simp: posix_lseek_def Let_def)
      with put_fd_same[OF i g] show ?thesis by simp
    next
      case True
      then obtain t where t: "?t = Some t" "\<not> sint t < 0" by blast
      with c g obtain e f s2 where e: "dfs_file_lseek lib ?d t s1 = Some (e, f, s2)"
        "s' = fd_put j (set_fd j f s2) \<or> s' = dfs_errno e (fd_put j (set_fd j f s2))"
        by (auto simp: posix_lseek_def bind_eq_Some_conv Let_def split: if_splits)
      with fd_call_same[OF i g dfs_file_lseek_keeps[OF p e(1)]] show ?thesis by blast
    qed
  qed
qed

lemma unlink_rename_fds:
  assumes i: "fd_inv s"
  shows "posix_unlink lib a s = Some (r, s') \<Longrightarrow> same_fds s s'" "posix_rename lib a b s = Some (r, s') \<Longrightarrow> same_fds s s'"
  using same_fds_table[OF i]
  by (auto simp: posix_unlink_def posix_rename_def bind_eq_Some_conv dest!: unlink_table rename_table split: if_splits)

text \<open>What a call does to the set of open descriptors, read off its result.\<close>

fun fds_after :: "file_call \<Rightarrow> int \<Rightarrow> nat set \<Rightarrow> nat set" where
  "fds_after (Open p flags) r fds = (if r < 0 then fds else insert (nat r) fds)"
| "fds_after (Close fd) r fds = (if r = 0 then fds - {nat fd} else fds)"
| "fds_after _ r fds = fds"

text \<open>What the answers of the calls promise.\<close>

fun answer_ok :: "file_call \<Rightarrow> int \<Rightarrow> nat set \<Rightarrow> nat \<Rightarrow> bool" where
  "answer_ok (Open p flags) r fds n \<longleftrightarrow> (0 \<le> r \<longrightarrow> nat r < n \<and> nat r \<notin> fds \<and> {..<nat r} \<subseteq> fds)"
| "answer_ok (Close fd) r fds n \<longleftrightarrow> (r = 0 \<longrightarrow> 0 \<le> fd \<and> nat fd \<in> fds)"
| "answer_ok _ r fds n \<longleftrightarrow> True"

lemma file_call_tracks:
  assumes p: "\<And>k. polite_ops (lib k)" and i: "fd_inv s" and c: "do_file_call lib c s = Some (r, s')"
  shows "fd_inv s' \<and> open_fds s' = fds_after c r (open_fds s) \<and> length (fd_table s') = length (fd_table s) \<and>
    answer_ok c r (open_fds s) (length (fd_table s))"
proof (cases c)
  case (Open a fl)
  with c have o: "posix_open lib a fl s = Some (r, s')" by simp
  from posix_open_fds[OF p i o] Open show ?thesis by (auto simp: same_fds_def split: if_splits)
next
  case (Close fd)
  with c have o: "posix_close lib fd s = Some (r, s')" by simp
  from posix_close_fds[OF p i o] Close show ?thesis by (auto simp: same_fds_def split: if_splits)
next
  case (Read fd n)
  with posix_read_fds[OF p i] c show ?thesis by (auto simp: same_fds_def)
next
  case (Write fd w)
  with posix_write_fds[OF p i] c show ?thesis by (auto simp: same_fds_def)
next
  case (Seek fd off wh)
  with posix_lseek_fds[OF p i] c show ?thesis by (auto simp: same_fds_def)
next
  case (Sync fd)
  with posix_fsync_fds[OF p i] c show ?thesis by (auto simp: same_fds_def)
next
  case (Unlink a)
  with unlink_rename_fds(1)[OF i] c show ?thesis by (auto simp: same_fds_def)
next
  case (Rename a b)
  with unlink_rename_fds(2)[OF i] c show ?thesis by (auto simp: same_fds_def)
qed

lemma dfs_init_fds: "fd_inv (dfs_init s)" "open_fds (dfs_init s) = {}"
  by (auto simp: dfs_init_def fd_inv_def open_fds_def)

fun do_file_calls :: "(nat \<Rightarrow> 'w fs_operation) \<Rightarrow> file_call list \<Rightarrow> 'w dfs \<Rightarrow> (int list \<times> 'w dfs) option" where
  "do_file_calls lib [] s = Some ([], s)"
| "do_file_calls lib (c # cs) s = do {
     (r, s) \<leftarrow> do_file_call lib c s;
     (rs, s) \<leftarrow> do_file_calls lib cs s;
     Some (r # rs, s)
   }"

text \<open>The open descriptors after a sequence of calls, and the promises on the way, both from the answers alone.\<close>

fun track :: "file_call list \<Rightarrow> int list \<Rightarrow> nat set \<Rightarrow> nat set" where
  "track (c # cs) (r # rs) fds = track cs rs (fds_after c r fds)"
| "track _ _ fds = fds"

fun answers_ok :: "file_call list \<Rightarrow> int list \<Rightarrow> nat set \<Rightarrow> nat \<Rightarrow> bool" where
  "answers_ok (c # cs) (r # rs) fds n \<longleftrightarrow> answer_ok c r fds n \<and> answers_ok cs rs (fds_after c r fds) n"
| "answers_ok _ _ fds n \<longleftrightarrow> True"

lemma file_calls_track:
  assumes p: "\<And>k. polite_ops (lib k)"
  shows "fd_inv s \<Longrightarrow> do_file_calls lib cs s = Some (rs, s') \<Longrightarrow>
    fd_inv s' \<and> open_fds s' = track cs rs (open_fds s) \<and> answers_ok cs rs (open_fds s) (length (fd_table s))"
proof (induction cs arbitrary: s rs)
  case (Cons c cs)
  from Cons.prems(2) obtain r s1 rs' where c: "do_file_call lib c s = Some (r, s1)" "do_file_calls lib cs s1 = Some (rs', s')" "rs = r # rs'"
    by (auto simp: bind_eq_Some_conv)
  from file_call_tracks[OF p Cons.prems(1) c(1)] Cons.IH[OF _ c(2)] c(3) show ?case by auto
qed simp

text \<open>Opening a file and closing it leaves the descriptor table as it was.\<close>

lemma open_close_restores:
  assumes p: "\<And>k. polite_ops (lib k)" and i: "fd_inv s" and o: "posix_open lib path flags s = Some (r, s1)" "0 \<le> r"
    and c: "posix_close lib r s1 = Some (0, s2)"
  shows "fd_table s2 = fd_table s"
proof -
  from posix_open_fds[OF p i o(1)] o(2) obtain f where f: "fd_inv s1" "fd_table s1 = (fd_table s)[nat r := f]" "fd_table s ! nat r = no_fd" by auto
  from posix_close_fds[OF p f(1) c] have "fd_table s2 = (fd_table s1)[nat r := no_fd]" by simp
  with f(2,3) show ?thesis by (metis list_update_id list_update_overwrite)
qed

subsection \<open>Null pointers\<close>

text \<open>Two paths under no mount are on the same file system: the null one, which is then used.\<close>

lemma rename_outside_mounts:
  assumes "normalize p s = Some (Some p', s1)" "normalize q s1 = Some (Some q', s2)"
    "dfs_filesystem_lookup p' s2 = None" "dfs_filesystem_lookup q' s2 = None"
  shows "dfs_file_rename lib p q s = None"
  using assms by (simp add: dfs_file_rename_def)

text \<open>Unmounting asks for no open file; a descriptor left open uses the cleared entry at its next call.\<close>

lemma unmount_leaves_descriptors:
  assumes "fd_fs fd = Some i" "i < length (filesystem_table s)"
  shows "dfs_file_read lib fd n (set_fs i no_filesystem s) = None" "dfs_file_close lib fd (set_fs i no_filesystem s) = None"
  using assms by (simp_all add: dfs_file_read_def dfs_file_close_def fd_filesystem_def set_fs_def no_filesystem_def)

text \<open>A file system type that is not registered is looked for through the empty entries of the table.\<close>

lemma find_type_gap: "\<forall>t\<in>set ts. op_name (lib t) \<noteq> nm \<Longrightarrow> find_type lib nm (map Some ts @ None # es) = None"
  by (induction ts) auto

text \<open>A file system that wants full paths never has an open file of its own mount found, the root mount apart.\<close>

lemma full_path_not_found_open:
  assumes "covers p f" "p \<noteq> []" "\<forall>d\<in>set ds. fd_fs d = Some i \<longrightarrow> fd_path d = Some f"
  shows "open_loop i (drop (length p) f) ds = Some False"
proof -
  have "drop (length p) f \<noteq> f" using assms(1,2) by (metis append_self_conv2 append_take_drop_id covers_def self_append_conv2)
  with assms(3) show ?thesis by (induction ds) auto
qed

end
