(* ===== verification/RT_Fs_Example.thy ===== *)
theory RT_Fs_Example
  imports RT_Dfs RT_Example
begin

text \<open>Concrete devices, drivers and file systems for the witnesses.\<close>

definition ex_driver :: "objid \<Rightarrow> unit driver" where
  "ex_driver x = \<lparr>drv_init = Some (\<lambda>s. Some (RT_EOK, s)), drv_open = Some (\<lambda>oflag s. Some (RT_EOK, s)), drv_close = None,
     drv_read = None, drv_write = None, drv_control = None\<rparr>"

definition ex_devs :: "unit devs" where
  "ex_devs = \<lparr>dv_kernel = ex_state, dv_dev = (\<lambda>x. \<lparr>dev_flag = RT_DEVICE_FLAG_STANDALONE, dev_open_flag = 0, dev_ref_count = 0,
     dev_rx_indicate = 0, dev_tx_complete = 0\<rparr>), dv_hw = ()\<rparr>"

lemma ex_driver_ok: "quiet ex_driver x" "closes ex_driver x"
  by (auto simp: quiet_def closes_def leaves_def ex_driver_def)

lemma ex_dev_calls:
  "\<exists>s'. dev_calls ex_driver (Obj 5) [Open_Device 3, Open_Device 3, Close_Device, Open_Device 1] ex_devs = Some ([0, - RT_EBUSY, 0, 0], s')"
  by (simp add: rt_device_open_def rt_device_close_def activate_def ex_driver_def ex_devs_def)

text \<open>A file system that does nothing but keep its descriptors, mounted on the root and on \<^verbatim>\<open>/sd\<close>.\<close>

definition ex_lib :: "nat \<Rightarrow> unit fs_operation" where
  "ex_lib k = \<lparr>op_name = [0x72, 0x61, 0x6d], op_flags = 0, op_mount = None, op_unmount = None,
     op_open = Some (\<lambda>fs fd d. Some (0, fd\<lparr>fd_size := 5\<rparr>, d)), op_close = None, op_read = None, op_write = None, op_flush = None,
     op_lseek = None, op_unlink = None, op_rename = None\<rparr>"

definition ex_dfs :: "unit dfs" where
  "ex_dfs = \<lparr>filesystem_operation_table = [Some 0],
     filesystem_table = [\<lparr>fs_dev_id = None, fs_path = Some [0x2f], fs_ops = Some 0, fs_data = 0\<rparr>,
       \<lparr>fs_dev_id = None, fs_path = Some [0x2f, 0x73, 0x64], fs_ops = Some 0, fs_data = 0\<rparr>],
     fd_table = replicate 4 no_fd, working_directory = [0x2f], mallocs = [], dfs_devs = ex_devs\<rparr>"

lemma ex_lib_polite: "polite_ops (ex_lib k)"
  by (auto simp: polite_ops_def polite_def ex_lib_def same_identity_def)

lemma ex_dfs_fds: "fd_inv ex_dfs" "open_fds ex_dfs = {}" "length (fd_table ex_dfs) = 4"
  by (auto simp: ex_dfs_def fd_inv_def open_fds_def)

lemma ex_dfs_mounts: "mounts_ok ex_dfs"
proof -
  have "mount_at_components (filesystem_table ex_dfs ! 0) []" "mount_at_components (filesystem_table ex_dfs ! 1) [[0x73, 0x64]]"
    by (auto simp: mount_at_components_def ex_dfs_def render_def plain_component_def)
  then show ?thesis by (auto simp: mounts_ok_def ex_dfs_def)
qed

lemma ex_file_calls:
  "map_option fst (do_file_calls ex_lib [Open [0x2f, 0x61] 0, Open [0x73, 0x64, 0x2f, 0x62] 0, Close 0, Close 0] ex_dfs) = Some [0, 1, 0, - 1]"
  by code_simp

end
