(* ===== verification/Spec2Isabelle.thy ===== *)
theory Spec2Isabelle
  imports RT_Example RT_Finsh_Example RT_Fs_Example
begin

text \<open>
  Verification of the RT-Thread kernel as configured for the STM32F103
  (\<^verbatim>\<open>rtconfig.h\<close>: 32 priorities, debug assertions on, overflow check on, small-memory heap, no
  software timers, no modules). The program is a preemptive real-time kernel in C: threads with
  priorities, a tick interrupt with timers, inter-process communication (semaphores, mutexes,
  events, mailboxes, message queues), memory pools, a heap, kernel objects found by name, library
  routines (memory, strings, formatted output) and a ring buffer used by the device drivers. Above
  the kernel it has a device framework, a file system layer with mounts and descriptors, and a shell
  that compiles C expressions for a small virtual machine.

  \<^bold>\<open>Theories and the code they model.\<close>
    \<^item> \<^verbatim>\<open>RT_Prelude\<close>: machine types, alignment macros, \<^verbatim>\<open>RT_ASSERT\<close>, shared lemmas.
    \<^item> \<^verbatim>\<open>RT_List\<close>: \<^verbatim>\<open>Kernel/include/rtservice.h\<close>, the doubly linked lists, on an explicit store of
      next and prev pointers; a locale states what a family of lists promises, and the pointer
      code refines the abstract lists (C17) that the rest of the kernel uses.
    \<^item> \<^verbatim>\<open>RT_Kservice\<close>, \<^verbatim>\<open>RT_Memory\<close>, \<^verbatim>\<open>RT_Printf\<close>: \<^verbatim>\<open>Kernel/kservice.c\<close>: bit search and string routines;
      memset, memcpy, memmove and memcmp on a byte memory; formatted output (flags, width,
      precision) into a bounded buffer.
    \<^item> \<^verbatim>\<open>RT_State\<close>: the kernel state \<^typ>\<open>kstate\<close>, one record for the global variables and the objects
      (thread control blocks, timers, IPC objects, the lists), with \<^verbatim>\<open>Kernel/irq.c\<close> and the tick
      counter of \<^verbatim>\<open>Kernel/clock.c\<close>.
    \<^item> \<^verbatim>\<open>RT_Scheduler\<close>: \<^verbatim>\<open>Kernel/scheduler.c\<close>; ready lists, priority bitmap, lock nesting.
    \<^item> \<^verbatim>\<open>RT_Object\<close>, \<^verbatim>\<open>RT_Timer\<close>, \<^verbatim>\<open>RT_Thread\<close>, \<^verbatim>\<open>RT_Lifecycle\<close>, \<^verbatim>\<open>RT_Clock\<close>: \<^verbatim>\<open>Kernel/object.c\<close>, \<^verbatim>\<open>timer.c\<close>,
      \<^verbatim>\<open>thread.c\<close> (with the initial stack of \<^verbatim>\<open>CORTEX-M3/cpuport.c\<close>) and the tick interrupt.
    \<^item> \<^verbatim>\<open>RT_Ipc\<close>, \<^verbatim>\<open>RT_Sem\<close>, \<^verbatim>\<open>RT_Mutex\<close>, \<^verbatim>\<open>RT_Event\<close>, \<^verbatim>\<open>RT_Mailbox\<close>, \<^verbatim>\<open>RT_Mq\<close>: \<^verbatim>\<open>Kernel/ipc.c\<close>.
    \<^item> \<^verbatim>\<open>RT_Fifo\<close>: the locale of a bounded queue and circular buffers; interpreted by the mailbox, the
      message queue and the ring buffer. \<^verbatim>\<open>RT_Alloc\<close>: the locale of an allocator of equal blocks;
      interpreted by the memory pool.
    \<^item> \<^verbatim>\<open>RT_Mempool\<close>: \<^verbatim>\<open>Kernel/mempool.c\<close>. \<^verbatim>\<open>RT_Heap\<close>, \<^verbatim>\<open>RT_Heap_Run\<close>: \<^verbatim>\<open>Kernel/mem.c\<close>, single calls and
      arbitrary sequences of calls. \<^verbatim>\<open>RT_Ringbuffer\<close>: \<^verbatim>\<open>DeviceDrivers/ringbuffer.c\<close>.
    \<^item> \<^verbatim>\<open>RT_System\<close>: the kernel as a step relation: the running thread calls the kernel or the tick
      interrupt arrives, in any order, for any number of steps.
    \<^item> \<^verbatim>\<open>RT_Create\<close>, \<^verbatim>\<open>RT_Dynamic\<close>, \<^verbatim>\<open>RT_Dyn_All\<close>: objects on the heap, \<^verbatim>\<open>rt_object_allocate\<close>, \<^verbatim>\<open>rt_object_delete\<close> and
      the create and delete functions of every kind of object. The locale \<open>dyn_kind\<close> states what a kind
      promises (its memory and its container), \<open>dyn_frame\<close> that its calls leave all other objects alone.
      They are interpreted for timers, semaphores, mutexes, events, mailboxes, message queues and memory
      pools, and for all of these together, mixed on one heap. \<^verbatim>\<open>RT_Reap\<close>: \<^verbatim>\<open>Kernel/idle.c\<close>, the
      idle thread giving back the memory of closed threads.
    \<^item> \<^verbatim>\<open>RT_Device\<close>: \<^verbatim>\<open>Kernel/device.c\<close>, registration, activation, reference counts and dispatch; the
      handlers of the drivers are an argument.
    \<^item> \<^verbatim>\<open>RT_Path\<close>: \<^verbatim>\<open>dfs_normalize_path\<close> of \<^verbatim>\<open>Filesystems/dfs.c\<close>, in place on its buffer, and the reference
      that resolves a list of components. \<^verbatim>\<open>RT_Dfs\<close>: the rest of \<^verbatim>\<open>dfs.c\<close>, \<^verbatim>\<open>dfs_fs.c\<close>, \<^verbatim>\<open>dfs_file.c\<close> and
      \<^verbatim>\<open>dfs_posix.c\<close>: mounts, descriptors, files, and the calls of the application. It uses the paths
      and, to mount a device, the devices; the operations of a file system are an argument.
    \<^item> \<^verbatim>\<open>RT_Finsh_Vm\<close>, \<^verbatim>\<open>RT_Finsh_Compiler\<close>: \<^verbatim>\<open>Finsh/finsh_ops.c\<close> and \<^verbatim>\<open>finsh_vm.c\<close>, the 48 operations of
      the stack machine; \<^verbatim>\<open>finsh_compiler.c\<close>, type check and code generation over syntax trees. Text and
      stack of the machine are kept apart from the byte memory its variables live in; the functions a
      script may call are an argument. \<^verbatim>\<open>RT_Finsh_Exec\<close> has the effect of each operation,
      \<^verbatim>\<open>RT_Finsh_Lang\<close> the expressions with their types and their meaning, and \<^verbatim>\<open>RT_Finsh_Correct\<close> the
      proof that compiled code computes that meaning.
    \<^item> \<^verbatim>\<open>RT_Example\<close>, \<^verbatim>\<open>RT_Finsh_Example\<close>, \<^verbatim>\<open>RT_Fs_Example\<close>: concrete states, programs, drivers and file
      systems at which the theorems are applied.

  \<^bold>\<open>Conventions.\<close> An operation is a function from the state to an \<^typ>\<open>'a option\<close> of result and state. The
  value \<^term>\<open>None\<close> means a failed \<^verbatim>\<open>RT_ASSERT\<close> (which halts the system) or an access the C standard
  leaves undefined; a theorem that a call returns states that the value is \<^term>\<open>Some\<close>. Interrupts are
  disabled in every section that changes shared state, so an operation is one atomic step up to
  its call of the scheduler. An operation that blocks is split there: \<open>rt_x\<close> runs up to and including
  \<^verbatim>\<open>rt_schedule\<close>, and returns no result if the thread now waits, and \<open>rt_x_resume\<close> is the code from
  there on, run when the scheduler returns to the thread. Integers keep their width (\<^typ>\<open>32 word\<close> and
  so on) and wrap. Error numbers are the signed values of the code.

  \<^bold>\<open>What is shown.\<close> C1 to C3: in every run of the system the most urgent ready thread runs, semaphore
  tokens are neither lost nor invented, and no call fails an assertion or gets stuck. C4 to C16 and
  C28, C29: each operation of the scheduler, the tick and the IPC objects does what it promises on
  each of its branches, with the kernel invariant \<open>sys\<close> preserved; queues refine lists. C17 to C19: the
  pointer lists, the bit search, and objects found by name. C20 to C22: memory pools and the ring
  buffer, with a defect of the pools as a theorem. C23 to C27: the heap. C30, C31: formatted output.
  C32 to C34: objects on the heap are never lost and keep their class, and the idle thread gives
  back the memory of closed threads. C35, C36: compiled shell expressions compute their meaning, and
  the text segment can be overrun. C37 to C39: paths, mounts, descriptors. C40: devices. The \<open>_ok\<close>,
  \<open>_keeps\<close> and \<open>_fds\<close> lemmas of the component theories carry these proofs.

  \<^bold>\<open>Bounds and fuel.\<close> No operation of the kernel uses fuel. Loops over lists are structural; the scan
  of the heap terminates since block addresses increase (a chain that does not increase is
  \<^term>\<open>None\<close>); the loop of the tick over due timers is a partial function, proved to return when no
  periodic timer has period 0; a wait loop that is entered again after a wake-up is entered by the
  \<open>_resume\<close> function. The loop of \<^verbatim>\<open>dfs_normalize_path\<close> ends since every turn reads on in the buffer;
  the machine of the shell ends since its program counter only grows.

  \<^bold>\<open>Not modelled.\<close> Context switching in assembly (the scheduler's choice is the model), hooks, debug
  logs, and code that the configuration does not compile (software timers, modules, the slab and
  memheap allocators). The HAL, CMSIS and the FAT file system are vendored; the board drivers are
  register accesses, and the serial and SPI frameworks are built on them. Of the shell, the tokens,
  the parser and the command line are left out: they are character input and a linked symbol table,
  and the compiler is modelled from the tree on. Of the file system layer, status and directory
  calls, partition tables and formatting are left out. Completions, data queues, work queues and
  pipes of the device drivers are left out; they use the wait lists as the IPC objects do.
\<close>

text \<open>
  C1: In every state reached by any interleaving of semaphore calls, sleeping, yielding,
  resumed calls, releases from interrupts and tick interrupts, the running thread is ready,
  no ready thread has a smaller priority number, and it stands first in the ready list of
  its priority.
\<close>

theorem kernel_always_runs_most_urgent:
  assumes w: "system_start idle w" and cb: "callbacks_ok cb" and run: "sys_run cb idle w w'"
  shows "\<exists>t. rt_current_thread (kern w') = Some t \<and> stat (threads (kern w') t) = RT_THREAD_READY \<and>
    (\<forall>u. stat (threads (kern w') u) = RT_THREAD_READY \<longrightarrow>
       current_priority (threads (kern w') t) \<le> current_priority (threads (kern w') u)) \<and>
    hd (tlists (kern w') (Ready (unat (current_priority (threads (kern w') t))))) = t"
proof -
  have k: "kernel_ok idle (kern w')" using run_keeps[OF run cb start_ok[OF w]] by (simp add: system_ok_def)
  then have s: "sys 0 {} (kern w')" "rt_current_thread (kern w') = top_thread (kern w')" by (auto simp: kernel_ok_def)
  have "stat (threads (kern w') idle) = RT_THREAD_READY" using k by (simp add: kernel_ok_def)
  then have "some_ready (kern w')"
    using kinvxD(6)[OF sysD(1)[OF s(1)], of idle] unfolding some_ready_def by (metis empty_iff empty_set)
  from top_thread_urgent[OF s(1) this] s(2) show ?thesis by metis
qed

theorem kernel_always_runs_most_urgent_witness:
  "\<exists>w' t. sys_run (\<lambda>_. Some) 0 ex_system w' \<and> gives w' 7 = 1 \<and> rt_current_thread (kern w') = Some t \<and>
    current_priority (threads (kern w') t) \<le> current_priority (threads (kern w') 0)"
proof -
  obtain w' where w': "sys_run (\<lambda>_. Some) 0 ex_system w'" "gives w' 7 = 1" "system_ok 0 (\<lambda>_. 0) w'" using ex_release by blast
  have "stat (threads (kern w') 0) = RT_THREAD_READY" using w'(3) by (simp add: system_ok_def kernel_ok_def)
  then show ?thesis using kernel_always_runs_most_urgent[OF ex_system_start ex_callbacks w'(1)] w'(1,2) by blast
qed

text \<open>
  C2: In every such state and for every semaphore, its counter plus the calls of rt_sem_take
  that returned RT_EOK plus the threads that were handed a token and have not returned yet
  equals its initial counter plus the calls of rt_sem_release, modulo 65536; and no thread
  waits while the counter is positive.
\<close>

theorem semaphores_conserve_tokens:
  assumes w: "system_start idle w" and cb: "callbacks_ok cb" and run: "sys_run cb idle w w'"
  shows "sem_value (sems (kern w') x) + of_nat (takes w' x) + of_nat (card (granted (kern w') (pend w') x)) =
      sem_value (sems (kern w) x) + of_nat (gives w' x) \<and>
    (sem_value (sems (kern w') x) > 0 \<longrightarrow> tlists (kern w') (Wait x) = [])"
proof -
  have i: "system_ok idle (\<lambda>x. sem_value (sems (kern w) x)) w'" by (rule run_keeps[OF run cb start_ok[OF w]])
  then have "balance w' x = sem_value (sems (kern w) x)" "sem_inv (kern w')" by (auto simp: system_ok_def kernel_ok_def)
  then show ?thesis by (auto simp: balance_def sem_inv_def algebra_simps)
qed

theorem semaphores_conserve_tokens_witness:
  "\<exists>w'. sys_run (\<lambda>_. Some) 0 ex_system w' \<and>
    sem_value (sems (kern w') 7) + of_nat (takes w' 7) + of_nat (card (granted (kern w') (pend w') 7)) = 1"
proof -
  obtain w' where w': "sys_run (\<lambda>_. Some) 0 ex_system w'" "gives w' 7 = 1" using ex_release by blast
  from semaphores_conserve_tokens[OF ex_system_start ex_callbacks w'(1), of 7] w' show ?thesis
    by (auto simp: ex_system_def)
qed

text \<open>
  C3: In every such state some thread runs, and whatever happens next returns without a
  failed assertion: a yield by the running thread, a release of any semaphore, and the next
  tick interrupt, which advances the tick by one; and, by a running thread that is not the
  idle thread and is not inside a call (it may block), a sleep of any number of ticks below
  0x7fffffff, 0 included, and a take of any semaphore with any time, RT_WAITING_NO (0) and
  RT_WAITING_FOREVER (-1) included, except the one value 0x7fffffff, for which the assertion
  of rt_timer_start fails.
\<close>

theorem kernel_calls_always_return:
  assumes w: "system_start idle w" and cb: "callbacks_ok cb" and run: "sys_run cb idle w w'"
  shows "\<exists>t. rt_current_thread (kern w') = Some t \<and> (\<exists>s'. rt_thread_yield (kern w') = Some s') \<and>
    (\<exists>s'. rt_tick_increase cb (kern w') = Some s' \<and> rt_tick s' = rt_tick (kern w') + 1) \<and>
    (\<forall>x. \<exists>s'. rt_sem_release x (kern w') = Some s') \<and>
    (t \<noteq> idle \<longrightarrow> pend w' t = None \<longrightarrow> 
       (\<forall>time. time < 0x7fffffff \<longrightarrow> (\<exists>s'. rt_thread_sleep time (kern w') = Some s')) \<and>
       (\<forall>time x. time \<noteq> 0x7fffffff \<longrightarrow> (\<exists>s'. rt_sem_take x time (kern w') = Some s')))"
proof -
  have i: "system_ok idle (\<lambda>x. sem_value (sems (kern w) x)) w'" by (rule run_keeps[OF run cb start_ok[OF w]])
  then have "kernel_ok idle (kern w')" by (simp add: system_ok_def)
  then obtain t where t: "rt_current_thread (kern w') = Some t" by (rule running_ready)
  have "sint time > 0 \<longrightarrow> time < 0x7fffffff" if "time \<noteq> 0x7fffffff" for time :: u32 using positive_time[OF that] by blast
  then show ?thesis
    using t yield_keeps[OF i t] tick_keeps[OF i cb] release_keeps[OF i] sleep_keeps[OF i t] take_keeps[OF i t] by metis
qed

theorem kernel_calls_always_return_witness:
  "(\<exists>s'. rt_tick_increase (\<lambda>_. Some) ex_state = Some s' \<and> rt_tick s' = 101) \<and>
   (\<exists>s'. rt_thread_sleep 0 ex_state = Some s') \<and> (\<exists>s'. rt_sem_take 7 0 ex_state = Some s') \<and>
   (\<exists>s'. rt_sem_take 7 (- 1) ex_state = Some s')"
proof -
  have "sys_run (\<lambda>_. Some) 0 ex_system ex_system" by (simp add: sys_run_def)
  from kernel_calls_always_return[OF ex_system_start ex_callbacks this] show ?thesis by (auto simp: ex_system_def)
qed

text \<open>
  C4: In every state that satisfies the kernel invariant and in which some thread is ready
  and the scheduler is not locked, rt_schedule returns, and the thread it runs is ready, has
  the smallest priority number of all ready threads, and is the first in the ready list of
  its priority; only the current thread and the current priority change.
\<close>

theorem schedule_runs_most_urgent:
  assumes "sys d {} s" "some_ready s" "rt_scheduler_lock_nest s = 0"
  shows "\<exists>s' t. rt_schedule s = Some s' \<and> rt_current_thread s' = Some t \<and>
    stat (threads s t) = RT_THREAD_READY \<and>
    (\<forall>u. stat (threads s u) = RT_THREAD_READY \<longrightarrow>
       current_priority (threads s t) \<le> current_priority (threads s u)) \<and>
    hd (tlists s (Ready (unat (current_priority (threads s t))))) = t \<and>
    (\<exists>x. s' = s\<lparr>rt_current_priority := x, rt_current_thread := Some t\<rparr>)"
proof -
  obtain t where t: "top_thread s = Some t" "stat (threads s t) = RT_THREAD_READY"
    "\<And>u. stat (threads s u) = RT_THREAD_READY \<Longrightarrow> current_priority (threads s t) \<le> current_priority (threads s u)"
    "hd (tlists s (Ready (unat (current_priority (threads s t))))) = t"
    using top_thread_urgent[OF assms(1,2)] by metis
  obtain x where "rt_schedule s = Some (s\<lparr>rt_current_priority := x, rt_current_thread := Some t\<rparr>)"
    using rt_schedule_ok[OF assms(1,2)] assms(3) t(1) by auto
  then show ?thesis using t by auto
qed

theorem schedule_runs_most_urgent_witness:
  "\<exists>s'. rt_schedule ex_state = Some s' \<and> rt_current_thread s' = Some 1"
proof -
  have "some_ready ex_state" by (auto simp: some_ready_def intro: exI[of _ 5])
  from schedule_runs_most_urgent[OF ex_sys this] obtain s' t where
    *: "rt_schedule ex_state = Some s'" "rt_current_thread s' = Some t" "stat (threads ex_state t) = RT_THREAD_READY"
    "\<forall>u. stat (threads ex_state u) = RT_THREAD_READY \<longrightarrow>
       current_priority (threads ex_state t) \<le> current_priority (threads ex_state u)"
    unfolding ex_state_sel by blast
  from *(4)[rule_format, of 1] ex_ready_cases[OF *(3)] have "t = 1" by auto
  with * show ?thesis by auto
qed

text \<open>
  C5: From every state that satisfies the kernel invariant, with a ready current thread and
  timeout functions that respect their contract, the tick interrupt returns: it terminates,
  no assertion fails (in particular not the one in rt_thread_timeout), the tick has advanced
  by one, no timer that is due is left on the timer list, and the invariant holds again.
\<close>

theorem tick_wakes_everything_due:
  assumes "callbacks_ok cb" "sys 0 {} s" "periods_ok s"
    and "rt_current_thread s = Some t" "stat (threads s t) = RT_THREAD_READY"
  shows "\<exists>s'. rt_tick_increase cb s = Some s' \<and> sys 0 {} s' \<and> periods_ok s' \<and>
    rt_tick s' = rt_tick s + 1 \<and>
    (\<forall>tm \<in> set (rt_timer_list s'). 0 < remaining s' tm)"
proof -
  obtain s' where "rt_tick_increase cb s = Some s'" "sys 0 {} s'" "periods_ok s'"
    "rt_tick s' = rt_tick s + 1" "due s' = {}"
    using tick_ok[OF assms] by blast
  then show ?thesis by (force simp: due_def)
qed

theorem tick_wakes_everything_due_witness:
  "\<exists>s'. rt_tick_increase (\<lambda>_. Some) ex_state = Some s' \<and> rt_tick s' = 101"
proof -
  have "callbacks_ok (\<lambda>_. Some)" by (simp add: callbacks_ok_def)
  from tick_wakes_everything_due[OF this ex_sys ex_periods, of 1] show ?thesis
    by auto
qed

text \<open>
  C6: rt_mutex_take by the running thread returns or blocks in every state that satisfies
  the invariants and in which a caller that already owns the mutex holds it fewer than 255
  times (the 256th nested take wraps the 8-bit hold count to 0, see the findings). It
  returns success exactly when the mutex was free or already owned by the caller, the caller
  is then the owner, and the hold count has grown by one. Otherwise the mutex is unchanged,
  and if the call blocks, the caller is in the wait list and the owner has a priority at
  least as urgent as the caller.
\<close>

theorem mutex_take_excludes:
  assumes s: "sys d {} s" "mutex_inv M s" "x \<in> M" and b: "may_block t time s" and v: "valid_flag s x"
    and h: "owner (mutexes s x) = Some t \<Longrightarrow> hold (mutexes s x) < 255"
  shows "\<exists>r s'. rt_mutex_take x time s = Some (r, s') \<and> sys d {} s' \<and> mutex_inv M s' \<and>
    (r = Some RT_EOK \<longleftrightarrow> owner (mutexes s x) \<in> {None, Some t}) \<and>
    (r = Some RT_EOK \<longrightarrow> owner (mutexes s' x) = Some t \<and> hold (mutexes s' x) = hold (mutexes s x) + 1) \<and>
    (r \<noteq> Some RT_EOK \<longrightarrow> mutexes s' = mutexes s) \<and>
    (r = None \<longrightarrow> t \<in> set (tlists s' (Wait x)) \<and>
       current_priority (threads s' (the (owner (mutexes s x)))) \<le> current_priority (threads s' t))"
proof (cases "owner (mutexes s x)")
  case None
  have "hold (mutexes s x) = 0" using s(2,3) None by (auto simp: mutex_inv_def mutex_ok_def)
  then show ?thesis using take_free[OF s b None] None by (force simp del: not_None_eq)
next
  case (Some ow)
  show ?thesis
  proof (cases "ow = t")
    case True
    then show ?thesis using take_again[OF s b _ h] Some by force
  next
    case ne: False
    show ?thesis
    proof (cases "time = 0")
      case True
      have b0: "may_block t 0 s" using b True by simp
      show ?thesis using take_no_wait[OF s b0 Some ne] True Some ne by fastforce
    next
      case False
      obtain s1 s' where w: "rt_mutex_take x time s = Some (None, s')" "sys d {} s'" "mutex_inv M s'"
        "mutexes s' = mutexes s"
        "threads s1 = (threads s)(t := (threads s t)\<lparr>error := RT_EOK\<rparr>, ow := inherited ow t s)"
        "blocked_on (Wait x) (obj_flag (objects s (Obj x))) t time s1 s'"
        using take_waits[OF s b v Some ne False] by blast
      have "t \<in> set (tlists s' (Wait x))"
        using w(6) v by (auto simp: blocked_on_def wait_insert_def valid_flag_def)
      moreover have "current_priority (threads s' ow) \<le> current_priority (threads s' t)"
        using w(5,6) ne by (auto simp: blocked_on_def inherited_def set_priority_def)
      ultimately show ?thesis using w Some ne by simp
    qed
  qed
qed

theorem mutex_take_excludes_witness:
  "\<exists>s'. rt_mutex_take 8 20 ex_state = Some (Some RT_EOK, s') \<and> owner (mutexes s' 8) = Some 1"
proof -
  have "owner (mutexes ex_state 8) = None" by simp
  then show ?thesis
    using mutex_take_excludes[OF ex_sys ex_mutex_inv _ ex_may_block ex_valid_flag, of 8 20] by auto
qed

text \<open>
  C7: rt_mutex_release fails exactly when the caller does not own the mutex, and then
  changes no mutex. A nested release changes nothing but the hold count of this mutex, which
  it lowers by one: owner, saved priority, threads, wait lists and scheduler stay as they
  are. The last release gives the owner its original priority back and either frees the
  mutex or makes the first waiting thread the owner and ready and, if the scheduler is not
  locked, runs the most urgent thread.
\<close>

theorem mutex_release_hands_over:
  assumes s: "sys d {} s" "mutex_inv M s" "x \<in> M" and b: "may_block t 0 s"
  shows "\<exists>r s'. rt_mutex_release x s = Some (r, s') \<and> sys d {} s' \<and> mutex_inv M s' \<and>
    (r = RT_EOK \<longleftrightarrow> owner (mutexes s x) = Some t) \<and>
    (r \<noteq> RT_EOK \<longrightarrow> mutexes s' = mutexes s) \<and>
    (r = RT_EOK \<and> hold (mutexes s x) > 1 \<longrightarrow>
       s' = s\<lparr>mutexes := (mutexes s)(x := (mutexes s x)\<lparr>hold := hold (mutexes s x) - 1\<rparr>)\<rparr>) \<and>
    (r = RT_EOK \<and> hold (mutexes s x) = 1 \<longrightarrow>
       current_priority (threads s' t) = original_priority (mutexes s x) \<and>
       (case tlists s (Wait x) of
          [] \<Rightarrow> owner (mutexes s' x) = None \<and> mutex_value (mutexes s' x) = 1
        | u # us \<Rightarrow> owner (mutexes s' x) = Some u \<and> hold (mutexes s' x) = 1 \<and>
            tlists s' (Wait x) = us \<and> stat (threads s' u) = RT_THREAD_READY \<and>
            (rt_scheduler_lock_nest s = 0 \<longrightarrow> rt_current_thread s' = top_thread s')))"
proof -
  have c: "RT_DEBUG_IN_THREAD_CONTEXT s = Some ()" "rt_current_thread s = Some t" "stat (threads s t) = RT_THREAD_READY"
    using may_block_context[OF b] b by (auto simp: may_block_def)
  consider (other) "owner (mutexes s x) \<noteq> Some t" | (nested) "owner (mutexes s x) = Some t" "hold (mutexes s x) > 1"
    | (last) "owner (mutexes s x) = Some t" "hold (mutexes s x) = 1"
  proof (cases "owner (mutexes s x) = Some t")
    case True
    then have "hold (mutexes s x) > 0" using s(2,3) by (auto simp: mutex_inv_def mutex_ok_def)
    then have "hold (mutexes s x) = 1 \<or> hold (mutexes s x) > 1" by (auto simp: word_less_nat_alt word_unat_eq_iff)
    with True that show thesis by blast
  qed (use that in blast)
  then show ?thesis
  proof cases
    case other
    then show ?thesis using release_not_owner_ok[OF c(1,2) other s(1,2)] by fastforce
  next
    case nested
    then show ?thesis using release_nested[OF c(1,2) nested s] by (auto simp: upd_mutex_def)
  next
    case last
    obtain s' where s': "rt_mutex_release x s = Some (RT_EOK, s')" "sys d {} s'" "mutex_inv M s'"
      "current_priority (threads s' t) = original_priority (mutexes s x)"
      "case tlists s (Wait x) of
         [] \<Rightarrow> owner (mutexes s' x) = None \<and> mutex_value (mutexes s' x) = 1
       | u # us \<Rightarrow> owner (mutexes s' x) = Some u \<and> hold (mutexes s' x) = 1 \<and> tlists s' (Wait x) = us \<and>
           stat (threads s' u) = RT_THREAD_READY \<and>
           (rt_scheduler_lock_nest s = 0 \<longrightarrow> rt_current_thread s' = top_thread s')"
      using release_last[OF c last s] by blast
    then show ?thesis using last by (intro exI[of _ RT_EOK] exI[of _ s']) (auto split: list.splits)
  qed
qed

theorem mutex_release_hands_over_witness:
  "\<exists>s'. rt_mutex_release 7 ex_state = Some (RT_EOK, s') \<and> owner (mutexes s' 7) = Some 2"
proof -
  have "owner (mutexes ex_state 7) = Some 1" "hold (mutexes ex_state 7) = 1" "tlists ex_state (Wait 7) = [2]"
    by simp_all
  then show ?thesis
    using mutex_release_hands_over[OF ex_sys ex_mutex_inv _ ex_may_block, of 7] by auto
qed

text \<open>
  C8: rt_sem_take on every branch: an available semaphore is decremented; an unavailable one
  gives a timeout at once when no waiting is allowed; otherwise the caller is suspended on
  the semaphore with its timer running exactly when the time limit is positive, and another
  ready thread runs. No thread waits on an available semaphore before or after.
\<close>

theorem sem_take_behaviour:
  assumes s: "sys d {} s" "sem_inv s" and b: "may_block t time s" and v: "valid_flag s x"
  shows "\<exists>r s'. rt_sem_take x time s = Some (r, s') \<and> sys d {} s' \<and> sem_inv s' \<and>
    (sem_value (sems s x) > 0 \<longrightarrow> r = Some RT_EOK \<and> sem_value (sems s' x) = sem_value (sems s x) - 1) \<and>
    (sem_value (sems s x) = 0 \<and> time = 0 \<longrightarrow> r = Some (- RT_ETIMEOUT) \<and> s' = s) \<and>
    (sem_value (sems s x) = 0 \<and> time \<noteq> 0 \<longrightarrow>
       r = None \<and> sems s' = sems s \<and> t \<in> set (tlists s' (Wait x)) \<and>
       stat (threads s' t) = RT_THREAD_SUSPEND \<and>
       (Thread_Timer t \<in> set (rt_timer_list s') \<longleftrightarrow> sint time > 0) \<and>
       (rt_scheduler_lock_nest s = 0 \<longrightarrow>
          (\<exists>u. rt_current_thread s' = Some u \<and> u \<noteq> t \<and> stat (threads s' u) = RT_THREAD_READY)))"
proof -
  consider (avail) "sem_value (sems s x) > 0" | (now) "sem_value (sems s x) = 0" "time = 0"
    | (wait) "sem_value (sems s x) = 0" "time \<noteq> 0" by (auto simp: word_gt_0)
  then show ?thesis
  proof cases
    case avail
    let ?s = "upd_sem x (\<lambda>sm. sm\<lparr>sem_value := sem_value sm - 1\<rparr>) s"
    have "sem_inv ?s" using s(2) avail by (auto simp: sem_inv_def upd_sem_def)
    then show ?thesis
      using rt_sem_take_available[OF avail, of time] avail s(1) by (simp add: word_gt_0)
  next
    case now
    then show ?thesis using s by (simp add: rt_sem_take_def)
  next
    case wait
    obtain s' where s': "rt_sem_take x time s = Some (None, s')" "sys d {} s'" "sem_inv s'"
      "blocked_on (Wait x) (obj_flag (objects s (Obj x))) t time (upd_thread t (\<lambda>th. th\<lparr>error := RT_EOK\<rparr>) s) s'"
      using rt_sem_take_blocks[OF s b v wait] by blast
    note d = blocked_onD[OF s'(4)]
    have "t \<in> set (tlists s' (Wait x))" "sems s' = sems s" "rt_scheduler_lock_nest s = 0 \<longrightarrow>
        (\<exists>u. rt_current_thread s' = Some u \<and> u \<noteq> t \<and> stat (threads s' u) = RT_THREAD_READY)"
      using d(3,4,5) v by (simp_all add: valid_flag_def same_ipc_def)
    then show ?thesis
      using s'(1-3) wait d(1,2) by (intro exI[of _ None] exI[of _ s']) simp
  qed
qed

theorem sem_take_behaviour_witness:
  "\<exists>s'. rt_sem_take 9 50 ex_state = Some (None, s') \<and> 1 \<in> set (tlists s' (Wait 9)) \<and>
    stat (threads s' 1) = RT_THREAD_SUSPEND"
  using sem_take_behaviour[OF ex_sys ex_sem_inv ex_may_block ex_valid_flag, of 50 9] by auto

text \<open>
  C9: rt_sem_release wakes the first waiting thread, which becomes ready and leaves the wait
  list, without changing the value; with nobody waiting it increments the 16-bit value,
  which is the successor unless the value is 65535. No thread waits on an available
  semaphore afterwards.
\<close>

theorem sem_release_behaviour:
  assumes s: "sys d {} s" "sem_inv s"
  shows "\<exists>s'. rt_sem_release x s = Some (RT_EOK, s') \<and> sys d {} s' \<and> sem_inv s' \<and>
    (case tlists s (Wait x) of
       [] \<Rightarrow> unat (sem_value (sems s' x)) = (if sem_value (sems s x) = 65535 then 0 else unat (sem_value (sems s x)) + 1)
     | t # ts \<Rightarrow> sems s' = sems s \<and> tlists s' (Wait x) = ts \<and> stat (threads s' t) = RT_THREAD_READY \<and>
         (rt_scheduler_lock_nest s = 0 \<longrightarrow> rt_current_thread s' = top_thread s'))"
proof (cases "tlists s (Wait x)")
  case Nil
  let ?s = "upd_sem x (\<lambda>sm. sm\<lparr>sem_value := sem_value sm + 1\<rparr>) s"
  have "sem_inv ?s" using s(2) Nil by (auto simp: sem_inv_def upd_sem_def)
  moreover have "unat (w + 1) = (if w = 65535 then 0 else unat w + 1)" for w :: u16
  proof (cases "w = 65535")
    case False
    have "unat w < 65536" "unat w \<noteq> 65535" using unat_u16_less[of w] False by (auto simp: word_unat_eq_iff)
    with False show ?thesis by (simp add: unat_word_ariths)
  qed simp
  ultimately show ?thesis
    using rt_sem_release_free[OF Nil] s(1) Nil by simp
next
  case (Cons t ts)
  obtain s' where "rt_sem_release x s = Some (RT_EOK, s')" "sys d {} s'" "sem_inv s'" "woke_first (Wait x) t s s'"
    using rt_sem_release_waiting[OF s Cons] by blast
  then show ?thesis using Cons by (auto simp: woke_first_def same_ipc_def)
qed

theorem sem_release_behaviour_witness:
  "\<exists>s'. rt_sem_release 7 ex_state = Some (RT_EOK, s') \<and> stat (threads s' 2) = RT_THREAD_READY \<and>
    tlists s' (Wait 7) = []"
  using sem_release_behaviour[OF ex_sys ex_sem_inv, of 7] by auto

text \<open>
  C10: rt_event_send with a non-empty set of flags (with an empty one it returns an error
  and does nothing). Every flag that was set before or is sent is set afterwards, unless a
  thread that waited with the option CLEAR was woken and received it: the event set is
  exactly the old set with the sent flags, less the flags received by the woken threads that
  asked to clear them. A thread taken off the wait list is ready, and the flags it received
  are flags it waited for that were set before or sent, and satisfy its condition (all of
  its flags, or one of them). No thread is left waiting whose condition the event set
  satisfies. The threads left on the wait list and the threads that did not wait are
  unchanged, and so are all other events.
\<close>

theorem event_send_misses_no_one:
  assumes s: "sys d {} s"
  shows "rt_event_send x 0 s = Some (- RT_ERROR, s) \<and>
    (st \<noteq> 0 \<longrightarrow> (\<exists>s' W. rt_event_send x st s = Some (RT_EOK, s') \<and> sys d {} s' \<and>
      W = set (tlists s (Wait x)) - set (tlists s' (Wait x)) \<and> set (tlists s' (Wait x)) \<subseteq> set (tlists s (Wait x)) \<and>
      (\<forall>i. bit (ev_set (events s' x)) i \<longleftrightarrow> bit (ev_set (events s x) OR st) i \<and>
         \<not> (\<exists>t \<in> W. event_info (threads s t) AND RT_EVENT_FLAG_CLEAR \<noteq> 0 \<and> bit (event_set (threads s' t)) i)) \<and>
      (\<forall>t \<in> W. stat (threads s' t) = RT_THREAD_READY \<and>
         event_satisfied (event_info (threads s t)) (event_set (threads s t)) (event_set (threads s' t)) \<and>
         (\<forall>i. bit (event_set (threads s' t)) i \<longrightarrow> bit (event_set (threads s t)) i \<and> bit (ev_set (events s x) OR st) i)) \<and>
      (\<forall>t \<in> set (tlists s' (Wait x)).
         \<not> event_satisfied (event_info (threads s' t)) (event_set (threads s' t)) (ev_set (events s' x))) \<and>
      (\<forall>t. t \<notin> W \<longrightarrow> threads s' t = threads s t) \<and> (\<forall>y. y \<noteq> x \<longrightarrow> events s' y = events s y)))"
proof (cases "st = 0")
  case True
  then show ?thesis by (simp add: rt_event_send_def)
next
  case st: False
  obtain s1 s' where r: "rt_event_send x st s = Some (RT_EOK, s')" "sys d {} s'" "event_inv x s'"
    "scanned x (tlists s (Wait x)) (upd_event x (\<lambda>e. e\<lparr>ev_set := ev_set e OR st\<rparr>) s) s1"
    "handed x (tlists s (Wait x)) (upd_event x (\<lambda>e. e\<lparr>ev_set := ev_set e OR st\<rparr>) s) s1"
    "\<exists>a b. s' = s1\<lparr>rt_current_priority := a, rt_current_thread := b\<rparr>"
    using rt_event_send_ok[OF s st] by blast
  from r(6) have eq: "threads s' = threads s1" "tlists s' = tlists s1" "events s' = events s1" by auto
  define W where "W = set (tlists s (Wait x)) - set (tlists s1 (Wait x))"
  have W: "ev_woken x (tlists s (Wait x)) s1 = W" by (simp add: ev_woken_def W_def)
  have sub: "set (tlists s1 (Wait x)) \<subseteq> set (tlists s (Wait x))"
  proof
    fix t assume "t \<in> set (tlists s1 (Wait x))"
    then show "t \<in> set (tlists s (Wait x))" using r(4) by (cases "t \<in> set (tlists s (Wait x))") (auto simp: scanned_def)
  qed
  have sc: "threads s1 t = threads s t" if "t \<notin> W" for t
    using r(4) that by (cases "t \<in> set (tlists s (Wait x))") (auto simp: scanned_def W_def)
  have ready: "stat (threads s1 t) = RT_THREAD_READY" if "t \<in> W" for t using r(4) that by (auto simp: scanned_def W_def)
  have other: "events s1 y = events s y" if "y \<noteq> x" for y using r(4) that by (auto simp: scanned_def)
  have no: "\<not> event_satisfied (event_info (threads s1 t)) (event_set (threads s1 t)) (ev_set (events s1 x))"
    if "t \<in> set (tlists s1 (Wait x))" for t
    using r(3) that eq by (simp add: event_inv_def thread_satisfied_def)
  note H = r(5)[unfolded handed_def W, simplified]
  have "rt_event_send x 0 s = Some (- RT_ERROR, s)" by (simp add: rt_event_send_def)
  then show ?thesis
    using H r(1,2) sub sc ready other no by (intro conjI impI exI[of _ s'] exI[of _ W]) (simp_all add: eq W_def)
qed

theorem event_send_misses_no_one_witness:
  "\<exists>s'. rt_event_send 7 3 ex_state = Some (RT_EOK, s') \<and> threads s' 0 = threads ex_state 0"
proof -
  have "0 \<notin> set (tlists ex_state (Wait 7))" by simp
  then show ?thesis using event_send_misses_no_one[OF ex_sys, of 7 3] by auto
qed

text \<open>
  C11: rt_event_recv on every branch with a non-empty flag set and a valid option: when the
  flags are there it returns them and clears them if asked; without waiting it returns a
  timeout; otherwise the caller is suspended on the event. The invariant that no thread
  waits for an event that has happened is kept.
\<close>

theorem event_recv_behaviour:
  assumes s: "sys d {} s" "event_inv x s" and b: "may_block t timeout s" and v: "valid_flag s x"
    and st: "st \<noteq> 0" "opt AND RT_EVENT_FLAG_AND \<noteq> 0 \<or> opt AND RT_EVENT_FLAG_OR \<noteq> 0"
  shows "\<exists>r rec s'. rt_event_recv x st opt timeout s = Some (r, rec, s') \<and> sys d {} s' \<and> event_inv x s' \<and>
    (if event_satisfied opt st (ev_set (events s x))
     then r = Some RT_EOK \<and> rec = Some (ev_set (events s x) AND st) \<and>
       ev_set (events s' x) = (if opt AND RT_EVENT_FLAG_CLEAR \<noteq> 0 then ev_set (events s x) AND NOT st else ev_set (events s x))
     else if timeout = 0 then r = Some (- RT_ETIMEOUT) \<and> events s' = events s
     else r = None \<and> t \<in> set (tlists s' (Wait x)) \<and> stat (threads s' t) = RT_THREAD_SUSPEND \<and> events s' = events s)"
proof -
  consider (sat) "event_satisfied opt st (ev_set (events s x))"
    | (now) "\<not> event_satisfied opt st (ev_set (events s x))" "timeout = 0"
    | (wait) "\<not> event_satisfied opt st (ev_set (events s x))" "timeout \<noteq> 0" by blast
  then show ?thesis
  proof cases
    case sat
    let ?s1 = "cleared t s"
    let ?s = "if opt AND RT_EVENT_FLAG_CLEAR \<noteq> 0 then upd_event x (\<lambda>e. e\<lparr>ev_set := ev_set e AND NOT st\<rparr>) ?s1 else ?s1"
    have s1: "sys d {} ?s1" using s(1) by (simp only: cleared_sys)
    have "event_inv x ?s"
      by (rule event_inv_shrink[OF s(2)]) (auto simp: and.assoc and.left_commute and.commute)
    moreover have "sys d {} ?s" using s1 by simp
    moreover have "rt_event_recv x st opt timeout s = Some (Some RT_EOK, Some (ev_set (events s x) AND st), ?s)"
      using sat by (simp add: recv_eq[OF b st] Let_def)
    ultimately show ?thesis
      using sat by (intro exI[of _ "Some RT_EOK"] exI[of _ "Some (ev_set (events s x) AND st)"] exI[of _ ?s]) simp
  next
    case now
    let ?s = "upd_thread t (\<lambda>th. th\<lparr>error := - RT_ETIMEOUT\<rparr>) (cleared t s)"
    have "sys d {} ?s" using s(1) by (simp only: cleared_sys)
    moreover have "event_inv x ?s" by (rule event_inv_shrink[OF s(2)]) auto
    moreover have "rt_event_recv x st opt timeout s = Some (Some (- RT_ETIMEOUT), None, ?s)"
      using now recv_eq[OF b st, of x] by (simp add: Let_def)
    ultimately show ?thesis
      using now by (intro exI[of _ "Some (- RT_ETIMEOUT)"] exI[of _ None] exI[of _ ?s]) simp
  next
    case wait
    then show ?thesis using recv_waits[OF s b v st wait] by auto
  qed
qed

theorem event_recv_behaviour_witness:
  "\<exists>s'. rt_event_recv 9 1 2 0 ex_state = Some (Some (- RT_ETIMEOUT), None, s')"
proof -
  have "event_inv 9 ex_state" by (simp add: event_inv_def)
  moreover have "ev_set (events ex_state 9) = 0" by (simp add: ex_state_def)
  ultimately show ?thesis
    using event_recv_behaviour[OF ex_sys _ ex_may_block ex_valid_flag, of 9 0 1 2]
    by (auto simp: event_satisfied_def recv_eq[OF ex_may_block] Let_def)
qed

text \<open>
  C12: rt_mb_send_wait on every branch: with room the message is appended to the messages of
  the mailbox and the first waiting receiver becomes ready; a full mailbox gives -RT_EFULL
  and changes nothing when no waiting is allowed; otherwise the sender is suspended on the
  list of senders and the mailbox is unchanged.
\<close>

theorem mailbox_send_behaviour:
  assumes s: "sys d {} s" and inv: "mb_inv (mailboxes s x)" and b: "may_block t timeout s" and v: "valid_flag s x"
  shows "\<exists>r s'. rt_mb_send_wait x m timeout s = Some (r, s') \<and> sys d {} s' \<and> mb_inv (mailboxes s' x) \<and>
    (if length (mb_contents (mailboxes s x)) < mb_cap (mailboxes s x)
     then r = Inl RT_EOK \<and> mb_contents (mailboxes s' x) = mb_contents (mailboxes s x) @ [m] \<and>
       (\<forall>u us. tlists s (Wait x) = u # us \<longrightarrow> stat (threads s' u) = RT_THREAD_READY \<and> tlists s' (Wait x) = us)
     else if timeout = 0 then r = Inl (- RT_EFULL) \<and> s' = s
     else (\<exists>loc. r = Inr loc) \<and> mailboxes s' = mailboxes s \<and> t \<in> set (tlists s' (Wait_Sender x)) \<and>
       stat (threads s' t) = RT_THREAD_SUSPEND)"
proof (cases "mb_entry (mailboxes s x) = mb_size (mailboxes s x)")
  case False
  obtain s' where "mb_send_loop (rt_thread_self s) x m timeout 0 s = Some (Inl RT_EOK, s')" "sys d {} s'"
    "mb_inv (mailboxes s' x)" "mb_contents (mailboxes s' x) = mb_contents (mailboxes s x) @ [m]"
    "\<forall>u us. tlists s (Wait x) = u # us \<longrightarrow> stat (threads s' u) = RT_THREAD_READY \<and> tlists s' (Wait x) = us"
    using mb_send_delivers[OF s inv False, of "rt_thread_self s" m timeout 0] by blast
  then show ?thesis
    using False mb_not_full[OF inv False] by (intro exI[of _ "Inl RT_EOK"] exI[of _ s']) (simp add: rt_mb_send_wait_def)
next
  case full: True
  then have nr: "\<not> length (mb_contents (mailboxes s x)) < mb_cap (mailboxes s x)"
    using entry_full_iff[OF inv] by simp
  show ?thesis
  proof (cases "timeout = 0")
    case True
    then show ?thesis using full nr s inv by (simp add: rt_mb_send_wait_def)
  next
    case False
    obtain s' loc where s': "mb_send_loop (Some t) x m timeout 0 s = Some (Inr loc, s')" "sys d {} s'"
      "blocked_on (Wait_Sender x) (obj_flag (objects s (Obj x))) t timeout (cleared t s) s'"
      using mb_send_blocks[OF s b v full False] by blast
    note d = blocked_onD[OF s'(3)]
    have "mailboxes s' = mailboxes s" "t \<in> set (tlists s' (Wait_Sender x))"
      using d(3,4) v by (simp_all add: same_ipc_def valid_flag_def)
    then show ?thesis
      using s'(1,2) d(1) nr False b inv
      by (intro exI[of _ "Inr loc"] exI[of _ s']) (simp add: rt_mb_send_wait_def rt_thread_self_def may_block_def)
  qed
qed

theorem mailbox_send_behaviour_witness:
  "\<exists>s'. rt_mb_send_wait 7 42 0 ex_state = Some (Inl RT_EOK, s') \<and> mb_contents (mailboxes s' 7) = [42] \<and>
    stat (threads s' 2) = RT_THREAD_READY"
  using mailbox_send_behaviour[OF ex_sys ex_mailbox(1) ex_may_block ex_valid_flag, of 0 7 42]
  by (auto simp: ex_mailbox)

text \<open>
  C13: The message buffer of a mailbox refines a bounded queue: every sequence of insertions
  and removals that a queue of that capacity allows succeeds on the circular buffer, returns
  the same messages in the same order and leaves the same contents.
\<close>

theorem mailbox_is_fifo:
  assumes "mb_inv mb" "queue_run (mb_cap mb) ops (mb_contents mb) = Some (out, q)"
  shows "\<exists>mb'. fifo_run mb_put mb_get ops mb = Some (out, mb') \<and> mb_inv mb' \<and> mb_contents mb' = q"
  using mbq.run_refines[OF assms] by blast

theorem mailbox_is_fifo_witness:
  "\<exists>mb'. fifo_run mb_put mb_get [Put 1, Put 2, Get, Put 3, Get, Put 4] (mailboxes ex_state 7) = Some ([1, 2], mb') \<and>
    mb_contents mb' = [3, 4]"
  using mailbox_is_fifo[OF ex_mailbox(1), where ops = "[Put 1, Put 2, Get, Put 3, Get, Put 4]" and out = "[1, 2]" and q = "[3, 4]"]
  by (auto simp: ex_mailbox)

text \<open>
  C14: rt_mq_send on every branch for a non-empty message: too long gives -RT_ERROR, a full
  queue -RT_EFULL, both without effect; otherwise a block whose first bytes are the message
  is appended at the tail, the blocks of the pool stay partitioned into queued and free
  ones, and the first waiting receiver becomes ready.
\<close>

theorem mq_send_behaviour:
  assumes s: "sys d {} s" and inv: "mq_inv (mqs s x)" and buf: "0 < length buf"
  shows "\<exists>r s'. rt_mq_send x buf s = Some (r, s') \<and> sys d {} s' \<and> mq_inv (mqs s' x) \<and>
    (if length buf > unat (msg_size (mqs s x)) then r = - RT_ERROR \<and> s' = s
     else if length (mq_contents (mqs s x)) = mq_cap (mqs s x) then r = - RT_EFULL \<and> s' = s
     else r = RT_EOK \<and>
       (\<exists>m. mq_contents (mqs s' x) = mq_contents (mqs s x) @ [m] \<and> take (length buf) m = buf) \<and>
       (\<forall>u us. tlists s (Wait x) = u # us \<longrightarrow> stat (threads s' u) = RT_THREAD_READY \<and> tlists s' (Wait x) = us))"
proof -
  consider (long) "length buf > unat (msg_size (mqs s x))"
    | (full) "length buf \<le> unat (msg_size (mqs s x))" "length (mq_contents (mqs s x)) = mq_cap (mqs s x)"
    | (ok) "length buf \<le> unat (msg_size (mqs s x))" "length (mq_contents (mqs s x)) < mq_cap (mqs s x)"
    using mq_full_iff(2)[OF inv] by linarith
  then show ?thesis
  proof cases
    case long
    then show ?thesis using s inv buf by (simp add: rt_mq_send_def)
  next
    case full
    then show ?thesis using s inv buf mq_full_iff(1)[OF inv] by (simp add: rt_mq_send_def)
  next
    case ok
    obtain mq m where mq: "mq_put buf (mqs s x) = Some mq" "mq_inv mq" "mq_contents mq = mq_contents (mqs s x) @ [m]"
      "take (length buf) m = buf"
      using mq_put_ok[OF inv ok(2,1)] by blast
    obtain s' where "wake_one (Wait x) (set_mq x mq s) = Some s'" "sys d {} s'" "mqs s' x = mq"
      "\<forall>u us. tlists s (Wait x) = u # us \<longrightarrow> stat (threads s' u) = RT_THREAD_READY \<and> tlists s' (Wait x) = us"
      using mq_deliver_ok[OF s mq(2)] by blast
    then show ?thesis
      using rt_mq_send_put[OF buf ok(1) mq(1)] mq(2-4) ok by (intro exI[of _ RT_EOK] exI[of _ s']) auto
  qed
qed

theorem mq_send_behaviour_witness:
  "\<exists>s' m. rt_mq_send 7 [1, 2] ex_state = Some (RT_EOK, s') \<and> mq_contents (mqs s' 7) = [m] \<and> take 2 m = [1, 2]"
  using mq_send_behaviour[OF ex_sys ex_mq(1), of "[1, 2]" 7] by (auto simp: ex_mq simp flip: numeral_2_eq_2)

text \<open>
  C15: A message sent with rt_mq_urgent to a queue with room is put before all messages that
  are queued, and the next rt_mq_recv gets it, whatever its size n > 0 and timeout: asked
  for at most its length, it delivers its first n bytes; asked for more, it delivers the
  message followed by what else the block holds. The queue is then as before the urgent
  send.
\<close>

theorem mq_urgent_goes_first:
  assumes s: "sys d {} s" and inv: "mq_inv (mqs s x)"
    and buf: "0 < length buf" "length buf \<le> unat (msg_size (mqs s x))"
    and room: "length (mq_contents (mqs s x)) < mq_cap (mqs s x)"
  shows "\<exists>s1. rt_mq_urgent x buf s = Some (RT_EOK, s1) \<and> sys d {} s1 \<and> mq_inv (mqs s1 x) \<and>
    (\<forall>n timeout. 0 < n \<longrightarrow> (\<exists>r s2. rt_mq_recv x n timeout s1 = Some (Inl RT_EOK, Some r, s2) \<and>
       (if n \<le> length buf then r = take n buf else take (length buf) r = buf) \<and>
       sys d {} s2 \<and> mq_inv (mqs s2 x) \<and> mq_contents (mqs s2 x) = mq_contents (mqs s x)))"
proof -
  obtain mq m where mq: "mq_put_front buf (mqs s x) = Some mq" "mq_inv mq" "mq_contents mq = m # mq_contents (mqs s x)"
    "take (length buf) m = buf"
    using mq_put_front_ok[OF inv room buf(2)] by blast
  obtain s1 where s1: "wake_one (Wait x) (set_mq x mq s) = Some s1" "sys d {} s1" "mqs s1 x = mq"
    using mq_deliver_ok[OF s mq(2)] by blast
  have c: "mq_inv (mqs s1 x)" "mq_contents (mqs s1 x) = m # mq_contents (mqs s x)" using mq s1 by simp_all
  have ne: "mq_entry (mqs s1 x) \<noteq> 0" using mq_empty_iff[OF c(1)] c(2) by simp
  have "\<exists>r s2. rt_mq_recv x n timeout s1 = Some (Inl RT_EOK, Some r, s2) \<and>
      (if n \<le> length buf then r = take n buf else take (length buf) r = buf) \<and>
      sys d {} s2 \<and> mq_inv (mqs s2 x) \<and> mq_contents (mqs s2 x) = mq_contents (mqs s x)" if n: "0 < n" for n timeout
  proof -
    obtain s2 where s2: "mq_recv_loop (rt_thread_self s1) x n timeout 0 s1 = Some (Inl RT_EOK, Some (take n m), s2)"
      "sys d {} s2" "mq_inv (mqs s2 x)" "mq_contents (mqs s2 x) = mq_contents (mqs s x)"
      using mq_recv_delivers[OF s1(2) c, of "rt_thread_self s1" n timeout 0] by auto
    have "if n \<le> length buf then take n m = take n buf else take (length buf) (take n m) = buf"
      using mq(4) by (metis min.absorb1 min.absorb2 nat_le_linear take_take)
    then show ?thesis using s2 n ne by (intro exI[of _ "take n m"] exI[of _ s2]) (simp add: rt_mq_recv_def)
  qed
  then show ?thesis using rt_mq_urgent_put[OF buf mq(1)] s1 c by auto
qed

theorem mq_urgent_goes_first_witness:
  "\<exists>s1. rt_mq_urgent 7 [9, 8] ex_state = Some (RT_EOK, s1) \<and>
    (\<exists>s2. rt_mq_recv 7 2 0 s1 = Some (Inl RT_EOK, Some [9, 8], s2)) \<and>
    (\<exists>s2. rt_mq_recv 7 1 0 s1 = Some (Inl RT_EOK, Some [9], s2))"
proof -
  have h: "0 < length [9 :: u8, 8]" "length [9 :: u8, 8] \<le> unat (msg_size (mqs ex_state 7))"
    "length (mq_contents (mqs ex_state 7)) < mq_cap (mqs ex_state 7)" by (simp_all add: ex_mq)
  obtain s1 where s1: "rt_mq_urgent 7 [9, 8] ex_state = Some (RT_EOK, s1)"
    and r: "\<And>n timeout. 0 < n \<Longrightarrow> \<exists>r s2. rt_mq_recv 7 n timeout s1 = Some (Inl RT_EOK, Some r, s2) \<and>
       (if n \<le> length [9 :: u8, 8] then r = take n [9, 8] else take (length [9 :: u8, 8]) r = [9, 8])"
    using mq_urgent_goes_first[OF ex_sys ex_mq(1) h] by meson
  show ?thesis using s1 r[of 1 0] r[of 2 0] by (simp add: numeral_2_eq_2)
qed

text \<open>
  C16: The linked blocks of a message queue refine a bounded queue of messages: every
  sequence of sends of full-size messages and receives that a queue of that capacity allows
  succeeds and returns the same messages in the same order.
\<close>

theorem mq_is_fifo:
  assumes "mq_inv mq" "queue_run (mq_cap mq) ops (mq_contents mq) = Some (out, q)"
    and "\<And>v. Put v \<in> set ops \<Longrightarrow> mq_fits mq v"
  shows "\<exists>mq'. fifo_run mq_put mq_get ops mq = Some (out, mq') \<and> mq_inv mq' \<and> mq_contents mq' = q"
  using mqq.run_refines[OF assms] by blast

theorem mq_is_fifo_witness:
  "\<exists>mq'. fifo_run mq_put mq_get [Put [1, 2, 3, 4], Put [5, 6, 7, 8], Get] (mqs ex_state 7) = Some ([[1, 2, 3, 4]], mq') \<and>
    mq_contents mq' = [[5, 6, 7, 8]]"
proof -
  let ?ops = "[Put [1, 2, 3, 4], Put [5, 6, 7, 8], Get]"
  have f: "mq_fits (mqs ex_state 7) v" if "Put v \<in> set ?ops" for v
    using that by (auto simp: mq_fits_def ex_mq)
  have "queue_run (mq_cap (mqs ex_state 7)) ?ops (mq_contents (mqs ex_state 7)) = Some ([[1, 2, 3, 4]], [[5, 6, 7, 8]])"
    by (simp add: ex_mq)
  from mq_is_fifo[OF ex_mq(1) this f] show ?thesis by blast
qed

text \<open>
  C17: The pointer operations of the intrusive lists implement the list operations the
  kernel model uses: every sequence of insertions and removals in which a node is inserted
  only while it is unlinked keeps the rings well formed and yields the lists that the same
  sequence of list operations yields; the emptiness test and the first entry read off these
  lists.
\<close>

theorem list_pointers_refine:
  assumes "reps s Q" "ops_ok xs Q"
  shows "reps (fold p_op xs s) (fold q_op xs Q) \<and>
    (rt_list_isempty (Head h) (fold p_op xs s) \<longleftrightarrow> fold q_op xs Q h = []) \<and>
    entry_of (nxt (fold p_op xs s) (Head h)) = (case fold q_op xs Q h of [] \<Rightarrow> None | n # _ \<Rightarrow> Some n)"
  using dl.rep_run[OF assms] dl.rep_empty[OF dl.rep_run[OF assms]] dl.rep_first[OF dl.rep_run[OF assms]] by blast

theorem list_pointers_refine_witness:
  "entry_of (nxt (fold p_op [Insert_Before 0 1, Insert_After 0 2, Insert_Before_Node 1 3, Remove 2] \<lparr>nxt = id, prv = id\<rparr>)
     (Head (0 :: nat))) = Some (3 :: nat)"
  using list_pointers_refine[OF reps_initial, of "[Insert_Before 0 1, Insert_After 0 2, Insert_Before_Node 1 3, Remove (2 :: nat)]" "0 :: nat"]
  by (simp add: q_defs unlinked_def)

text \<open>
  C18: The table-driven bit search returns, for every 32-bit word, 0 for the word 0 and
  otherwise one more than the position of the least significant set bit.
\<close>

theorem ffs_is_lowest_bit: "rt_ffs v = (if v = 0 then 0 else Suc (LEAST k. bit v k))"
proof (cases "v = 0")
  case False
  have "lowest_set_bit v (rt_ffs v - 1)" using rt_ffs_lowest[OF False] .
  then have "(LEAST k. bit v k) = rt_ffs v - 1"
    unfolding lowest_set_bit_def by (intro Least_equality) (auto simp: not_le[symmetric])
  then show ?thesis using False rt_ffs_zero[of v] by simp
qed (simp add: rt_ffs_zero)

text \<open>
  C19: A kernel object initialised under a name is found under that name by rt_object_find:
  the search returns the object itself, since it is inserted at the head of its container,
  and its name is compared as the kernel stores it, cut at eight characters.
\<close>

theorem object_found_after_init:
  assumes inv: "obj_inv s" and k: "kinv s" "some_ready s" "rt_scheduler_lock_nest s < 0x7fff" "rt_interrupt_nest s = 0"
    and x: "\<not> attached x s" and nm: "terminated nm" and ty: "ty < RT_Object_Class_Unknown"
  shows "\<exists>s' s''. rt_object_init x ty nm s = Some s' \<and> obj_inv s' \<and> rt_object_find (Some nm) ty s' = Some (Some x, s'') \<and>
    (\<exists>p c. s'' = s'\<lparr>rt_current_priority := p, rt_current_thread := c\<rparr>)"
proof -
  obtain nm8 where s': "rt_object_init x ty nm s = Some (s\<lparr>
       objects := (objects s)(x := (objects s x)\<lparr>obj_type := ty OR RT_Object_Class_Static, obj_name := nm8\<rparr>),
       rt_object_container := q_insert_after ty x (rt_object_container s)\<rparr>)" (is "_ = Some ?s")
    and n8: "length nm8 = 8" "cstr 8 nm8 = cstr 8 nm"
    using rt_object_init_spec[OF nm] by blast
  have i: "obj_inv ?s" by (rule rt_object_init_obj_inv[OF inv x nm s'])
  have "kinv ?s" by (rule kinvx_eqI[OF k(1)]) simp_all
  moreover have "some_ready ?s" using k(2) by (simp add: some_ready_def)
  ultimately obtain p c where ex: "rt_exit_critical (rt_enter_critical ?s) =
      Some (?s\<lparr>rt_current_priority := p, rt_current_thread := c\<rparr>)"
    using critical_bracket[of ?s] k(3) by auto
  have "find_by_name (\<lambda>x. obj_name (objects (rt_enter_critical ?s) x)) nm (rt_object_container (rt_enter_critical ?s) ty) =
      Some (find (\<lambda>x. cstr 8 (obj_name (objects ?s x)) = cstr 8 nm) (rt_object_container ?s ty))"
    by (subst find_by_name_spec) (use i nm in \<open>auto simp: obj_inv_def rt_enter_critical_def\<close>)
  also have "\<dots> = Some (Some x)" using n8 by (simp add: q_insert_after_def)
  finally have "rt_object_find (Some nm) ty ?s = Some (Some x, ?s\<lparr>rt_current_priority := p, rt_current_thread := c\<rparr>)"
    using ex ty k(4) by (simp add: rt_object_find_def RT_DEBUG_NOT_IN_INTERRUPT_def rt_interrupt_get_nest_def Let_def)
  with s' i show ?thesis by blast
qed

theorem object_found_after_init_witness:
  "\<exists>s' s''. rt_object_init (Obj 8) 2 [115, 101, 109, 0] ex_state = Some s' \<and>
    rt_object_find (Some [115, 101, 109, 0]) 2 s' = Some (Some (Obj 8), s'')"
  using object_found_after_init[OF ex_obj_inv ex_kinv ex_some_ready, of "Obj 8" "[115, 101, 109, 0]" 2]
  by (auto simp: ex_unattached terminated_def)

text \<open>
  C20: From a freshly initialised memory pool, in every sequence of allocations and releases
  by clients that free only blocks they hold, no block is handed out twice: the held blocks
  are distinct blocks of the pool, and the free list holds exactly the others.
\<close>

theorem mempool_exclusive:
  assumes "mp_init_blocks sz bs = Some mp" "alloc_run (mp_take x) mp_put ops [] mp = Some (held, mp')"
  shows "distinct held \<and> set held \<subseteq> mp_blocks mp \<and> mp_free_set x mp' (mp_blocks mp - set held)"
proof -
  have "mp_free_set x mp (mp_blocks mp)"
    using mp_init_blocks_ok[OF assms(1), of x] unfolding mp_free_set_def mp_blocks_def
    by (intro exI[of _ "[0..<unat (block_total_count mp)]"]) auto
  from mpa.run_exclusive[OF this _ _ assms(2)] show ?thesis by simp
qed

theorem mempool_exclusive_witness:
  "\<exists>mp mp'. mp_init_blocks 26 5 = Some mp \<and>
    alloc_run (mp_take 7) mp_put [Alloc, Alloc, Free 0, Alloc] [] mp = Some ([0, 1], mp') \<and>
    mp_free_set 7 mp' (mp_blocks mp - {0, 1})"
proof -
  have "\<exists>mp mp'. mp_init_blocks 26 5 = Some mp \<and>
      alloc_run (mp_take 7) mp_put [Alloc, Alloc, Free 0, Alloc] [] mp = Some ([0, 1], mp')"
    by (simp add: mp_init_blocks_def mp_take_def mp_put_def RT_ALIGN_def RT_ALIGN_DOWN_def Let_def fold_header)
  then obtain mp mp' where *: "mp_init_blocks 26 5 = Some mp"
    "alloc_run (mp_take 7) mp_put [Alloc, Alloc, Free 0, Alloc] [] mp = Some ([0, 1], mp')" by blast
  have "mp_free_set 7 mp' (mp_blocks mp - {0, 1})" using mempool_exclusive[OF *] by simp
  with * show ?thesis by blast
qed

text \<open>
  C21: A thread that times out while it waits for a block leaves the list of the pool, but
  suspend_thread_count still counts it; every later rt_mp_free of that pool, its list being
  empty, takes the list head for a thread, so no release of a block returns in a defined
  state.
\<close>

theorem mempool_timeout_corrupts:
  assumes "sys d {} s" "mp_waiters_ok x s" "tlists s (Wait x) = [t]" "Thread_Timer t \<notin> set (rt_timer_list s)"
  shows "\<exists>s'. rt_thread_timeout t s = Some s' \<and> sys d {} s' \<and> rt_mp_alloc_resume t x loc s' = Some (Inl None, s') \<and>
    tlists s' (Wait x) = [] \<and> suspend_thread_count (mempools s' x) = 1 \<and> (\<forall>b. rt_mp_free x b s' = None)"
  by (rule mp_timeout_count[OF assms])

theorem mempool_timeout_corrupts_witness:
  "\<exists>s'. rt_thread_timeout 2 ex_pool_state = Some s' \<and> rt_mp_free 7 1 s' = None"
  using mempool_timeout_corrupts[OF ex_pool(1,3), of 2 "(0, 0)"] by (auto simp: ex_pool_sel)

text \<open>
  C22: The character interface of the ring buffer is a bounded first-in first-out queue:
  every run of writes and reads that a queue of the size of the buffer allows returns the
  same characters in the same order, through any number of wrap-arounds of the 15-bit
  indices and their mirror bits.
\<close>

theorem ringbuffer_is_fifo:
  assumes "rb_inv rb" "queue_run (rb_cap rb) ops (rb_contents rb) = Some (out, q)"
  shows "\<exists>rb'. fifo_run rb_put1 rb_get1 ops rb = Some (out, rb') \<and> rb_inv rb' \<and> rb_contents rb' = q"
  using rbq.run_refines[OF assms] by auto

theorem ringbuffer_is_fifo_witness:
  "\<exists>rb'. fifo_run rb_put1 rb_get1 [Put 1, Put 2, Get, Put 3, Put 4, Put 5, Get, Get] ex_ring = Some ([1, 2, 3], rb') \<and>
    rb_contents rb' = [4, 5]"
  using ringbuffer_is_fifo[OF ex_ring(1), of "[Put 1, Put 2, Get, Put 3, Put 4, Put 5, Get, Get]" "[1, 2, 3]" "[4, 5]"]
  unfolding ex_ring(2,3) by (auto simp del: fifo_run.simps)

text \<open>
  C23: In every sequence of rt_malloc, rt_realloc and rt_free calls from an initialised heap
  in which clients give back only what they own, the memory of each client is aligned, lies
  between heap_ptr and heap_end, holds the bytes asked for, and overlaps the memory of no
  other client (for requests below 0xfffffffd bytes).
\<close>

theorem heap_memory_is_exclusive:
  assumes h: "heap_reach h own" and r: "own r = Some sz" "unat sz + 3 < 2 ^ 32"
  shows "r \<noteq> 0 \<and> r AND 3 = 0 \<and> region r sz \<subseteq> {unat (heap_ptr h) ..< unat (addr h (heap_end h))} \<and>
    (\<forall>q n. own q = Some n \<longrightarrow> unat n + 3 < 2 ^ 32 \<longrightarrow> q \<noteq> r \<longrightarrow> region r sz \<inter> region q n = {})"
proof -
  obtain ps where i: "heap_run_inv h ps own" using heap_reach_inv[OF h] by blast
  then have ok: "heap_ok h ps" by (simp add: heap_run_inv_def)
  obtain p e where p: "live (hdr h) ps p = Some e" "r \<noteq> 0" "r AND 3 = 0" "unat e \<le> unat (heap_end h)"
    "region r sz \<subseteq> {unat (heap_ptr h) + unat p + 12 ..< unat (heap_ptr h) + unat e}" using owned_region[OF i r] by blast
  have "region r sz \<subseteq> {unat (heap_ptr h) ..< unat (addr h (heap_end h))}"
    using p(4,5) live_block(6)[OF ok p(1)] by fastforce
  then show ?thesis using p(2,3) owned_disjoint[OF i r] by blast
qed

theorem heap_memory_is_exclusive_witness:
  "\<exists>h own. heap_reach h own \<and> own 0x2000000c = Some 10 \<and>
    region 0x2000000c 10 \<subseteq> {unat (heap_ptr h) ..< unat (addr h (heap_end h))}"
proof -
  obtain h where h: "heap_reach h (Map.empty(0x2000000c \<mapsto> 10))" using ex_heap_reach ex_malloc_first by blast
  show ?thesis
    using heap_memory_is_exclusive[OF h, of "0x2000000c" 10] h by (intro exI[of _ h] exI[of _ "Map.empty(0x2000000c \<mapsto> 10)"]) simp
qed

text \<open>
  C24: In every state reached by such calls the search of rt_malloc and the loop that moves
  lfree end, no assertion of the allocator fails and the semaphore is free: rt_malloc, and
  rt_realloc and rt_free of owned memory, return.
\<close>

theorem heap_calls_return:
  assumes h: "heap_reach h own"
  shows "(\<exists>res. rt_malloc 0 sz h = Some res) \<and>
    (own r \<noteq> None \<longrightarrow> (\<exists>res. rt_realloc 0 r sz h m = Some res) \<and> (\<exists>h'. rt_free 0 r h = Some h'))"
proof -
  obtain ps where i: "heap_run_inv h ps own" using heap_reach_inv[OF h] by blast
  show ?thesis using malloc_keeps[OF i, of sz] realloc_keeps[OF i, of r _ sz m] free_keeps[OF i, of r] by blast
qed

theorem heap_calls_return_witness:
  "\<exists>h own res h'. heap_reach h own \<and> rt_realloc 0 0x2000000c 100 h (\<lambda>_. 0) = Some res \<and> rt_free 0 0x2000000c h = Some h'"
proof -
  obtain h where h: "heap_reach h (Map.empty(0x2000000c \<mapsto> 10))" using ex_heap_reach ex_malloc_first by blast
  show ?thesis using heap_calls_return[OF h, of 100 "0x2000000c" "\<lambda>_. 0"] h by auto
qed

text \<open>
  C25: Whatever was allocated and in whatever order it was given back, when no client owns
  memory the heap is again one free block from heap_ptr to heap_end, and rt_memory_info
  reports no memory in use.
\<close>

theorem heap_reunites_when_all_freed:
  assumes h: "heap_reach h Map.empty"
  shows "hm_used (hdr h 0) = 0 \<and> hm_next (hdr h 0) = heap_end h \<and> lfree h \<in> {0, heap_end h} \<and>
    rt_memory_info h = (mem_size_aligned h, 0, max_mem h)"
proof -
  obtain ps where i: "heap_run_inv h ps Map.empty" using heap_reach_inv[OF h] by blast
  note A = all_free_single[OF i]
  have "lfree h \<in> {0, heap_end h}"
    using i A(1) by (auto simp: heap_run_inv_def heap_ok_def heap_inv_def heap_chain_def)
  then show ?thesis using A by (simp add: rt_memory_info_def)
qed

theorem heap_reunites_when_all_freed_witness:
  "\<exists>h h' h''. heap_reach h Map.empty \<and> rt_malloc 0 10 h = Some (0x2000000c, h') \<and> rt_free 0 0x2000000c h' = Some h'' \<and>
    hm_next (hdr h'' 0) = heap_end h''"
proof -
  obtain h h' where h: "heap_reach h Map.empty" "rt_malloc 0 10 h = Some (0x2000000c, h')" "heap_reach h' (Map.empty(0x2000000c \<mapsto> 10))"
    using ex_heap_reach ex_malloc_first by blast
  obtain ps where "heap_run_inv h' ps (Map.empty(0x2000000c \<mapsto> 10))" using heap_reach_inv[OF h(3)] by blast
  then obtain h'' where h'': "rt_free 0 0x2000000c h' = Some h''" using free_keeps[of h' ps _ "0x2000000c"] by fastforce
  have "heap_reach h'' Map.empty" using heap_reach.free[OF h(3) _ h''] by simp
  from heap_reunites_when_all_freed[OF this] h h'' show ?thesis by blast
qed

text \<open>
  C26: In every reachable state the memory in use that rt_memory_info reports is the sum of
  the extents of the blocks in use, headers included.
\<close>

theorem heap_accounts_for_every_block:
  assumes h: "heap_reach h own"
  shows "\<exists>ps. heap_ok h ps \<and> rt_memory_info h =
    (mem_size_aligned h, \<Sum>p \<in> {p \<in> set ps. hm_used (hdr h p) \<noteq> 0}. hm_next (hdr h p) - p, max_mem h)"
proof -
  obtain ps where i: "heap_run_inv h ps own" using heap_reach_inv[OF h] by blast
  have "dom (live (hdr h) ps) = {p \<in> set ps. hm_used (hdr h p) \<noteq> 0}" by (auto simp: live_def split: if_splits)
  then have "extent (live (hdr h) ps) = (\<Sum>p \<in> {p \<in> set ps. hm_used (hdr h p) \<noteq> 0}. hm_next (hdr h p) - p)"
    unfolding extent_def by (intro sum.cong) (auto simp: live_def)
  then show ?thesis using i by (auto simp: heap_run_inv_def rt_memory_info_def)
qed

theorem heap_accounts_for_every_block_witness:
  "\<exists>h ps. heap_reach h Map.empty \<and> heap_ok h ps \<and> rt_memory_info h =
    (232, \<Sum>p \<in> {p \<in> set ps. hm_used (hdr h p) \<noteq> 0}. hm_next (hdr h p) - p, max_mem h)"
proof -
  obtain h where h: "heap_reach h Map.empty" "mem_size_aligned h = 232" using ex_heap_reach by blast
  show ?thesis using heap_accounts_for_every_block[OF h(1)] h by auto
qed

text \<open>
  C27: When rt_realloc of owned memory gives memory back, the bytes common to the old and
  the new size are the same as before, wherever the memory is now, and the memory of every
  other client keeps its contents.
\<close>

theorem heap_realloc_keeps_contents:
  assumes h: "heap_reach h own" and r: "own r = Some old" "unat old + 3 < 2 ^ 32"
    and R: "rt_realloc 0 r sz h m = Some (r', h', m')" "r' \<noteq> 0" and sz: "unat sz + 3 < 2 ^ 32"
  shows "(\<forall>k. k < old \<longrightarrow> k < sz \<longrightarrow> m' (r' + k) = m (r + k)) \<and>
    (\<forall>q n k. own q = Some n \<longrightarrow> q \<noteq> r \<longrightarrow> unat n + 3 < 2 ^ 32 \<longrightarrow> k < n \<longrightarrow> m' (q + k) = m (q + k))"
proof -
  obtain ps where i: "heap_run_inv h ps own" using heap_reach_inv[OF h] by blast
  show ?thesis using realloc_contents[OF i r R sz] by (simp add: word_less_nat_alt)
qed

theorem heap_realloc_keeps_contents_witness:
  "\<exists>h own. heap_reach h own \<and> own 0x2000000c = Some 10 \<and>
    (\<forall>r' h' m'. rt_realloc 0 0x2000000c 100 h (\<lambda>a. ucast a) = Some (r', h', m') \<longrightarrow> r' \<noteq> 0 \<longrightarrow> m' (r' + 5) = 0x11)"
proof -
  obtain h where h: "heap_reach h (Map.empty(0x2000000c \<mapsto> 10))" using ex_heap_reach ex_malloc_first by blast
  have "m' (r' + 5) = 0x11" if "rt_realloc 0 0x2000000c 100 h (\<lambda>a. ucast a) = Some (r', h', m')" "r' \<noteq> 0" for r' h' m'
    using heap_realloc_keeps_contents[OF h _ _ that] by simp
  then show ?thesis using h by (intro exI[of _ h] exI[of _ "Map.empty(0x2000000c \<mapsto> 10)"]) simp
qed

text \<open>
  C28: rt_ipc_list_suspend with RT_IPC_FLAG_PRIO links the thread into the wait list by
  prio_insert, and threads linked one after the other stand in the order of a stable sort of
  their arrivals by priority: the most urgent first, equal priorities in the order of
  arrival.
\<close>

theorem waiters_stand_in_priority_order:
  "foldl (\<lambda>l t. prio_insert (\<lambda>u. current_priority (threads s u)) t l) [] ts = sort_key (\<lambda>u. current_priority (threads s u)) ts \<and>
   (sys d {} s \<and> stat (threads s t) = RT_THREAD_READY \<and> is_wait q \<longrightarrow>
     (\<exists>s'. rt_ipc_list_suspend q t RT_IPC_FLAG_PRIO s = Some s' \<and> stat (threads s' t) = RT_THREAD_SUSPEND \<and>
        tlists s' q = prio_insert (\<lambda>u. current_priority (threads s u)) t (tlists s q)))"
  using prio_insert_sorts[of "\<lambda>u. current_priority (threads s u)" ts]
    rt_ipc_list_suspend_ok[of d s t q RT_IPC_FLAG_PRIO] by (auto simp: wait_insert_def)

theorem waiters_stand_in_priority_order_witness:
  "\<exists>s'. rt_ipc_list_suspend (Wait 7) 1 RT_IPC_FLAG_PRIO ex_state = Some s' \<and> tlists s' (Wait 7) = [2, 1]"
  using waiters_stand_in_priority_order[of ex_state "[]" 0 1 "Wait 7"] ex_sys by auto

text \<open>
  C29: Closing a ready, running or suspended thread: rt_thread_delete and rt_thread_detach
  take it off every ready and wait list, stop its timer and mark it closed; delete always,
  and detach if it has a cleanup function, leave it on the list of defunct threads; the
  kernel invariant holds again and no other thread changes.
\<close>

theorem thread_close_behaviour:
  assumes s: "sys d {} s" and t: "stat (threads s t) = RT_THREAD_READY \<or> stat (threads s t) = RT_THREAD_SUSPEND"
  shows "(\<exists>s'. rt_thread_delete t s = Some (RT_EOK, s') \<and> sys d {} s' \<and> closed t True s s') \<and>
    (\<exists>s'. rt_thread_detach t s = Some (RT_EOK, s') \<and> sys d {} s' \<and> closed t (cleanup (threads s t) \<noteq> None) s s')"
proof -
  have "alive (threads s t)" using t by (simp add: alive_def)
  then show ?thesis using rt_thread_delete_ok[OF s] rt_thread_detach_ok[OF s] by blast
qed

theorem thread_close_behaviour_witness:
  "\<exists>s'. rt_thread_delete 2 ex_state = Some (RT_EOK, s') \<and> 2 \<in> set (tlists s' Defunct) \<and> 2 \<notin> set (tlists s' (Wait 7))"
  using thread_close_behaviour[OF ex_sys, of 2] by (auto simp: closed_def)



text \<open>
  C31: Printing a 32-bit integer with rt_snprintf leaves a text closed by a zero which the
  number scanner of the format (skip_atoi, with an optional minus sign) reads back to the
  same number, and the returned length is the length of the text. With the format %d and a
  buffer of at least 12 bytes the text has at most 11 characters; with the format %.*d and a
  precision p that leaves room for a sign and the zero (p + 2 at most the size of the
  buffer) it has at least p characters, filled with zeros, and at most one more than the
  larger of p and 10.
\<close>

theorem snprintf_decimal_roundtrip:
  assumes "unat buf + unat sz \<le> 2 ^ 32" "12 \<le> unat sz" "sint p + 2 \<le> int (unat sz)"
  shows "(\<exists>xs. rt_snprintf buf sz [37, 100, 0] [Word_Arg n] m = Some (of_nat (length xs), writes buf (xs @ [0]) m) \<and>
      length xs \<le> 11 \<and> read_int (xs @ [0]) = Some (sint n)) \<and>
    (\<exists>xs. rt_snprintf buf sz [37, 46, 42, 100, 0] [Word_Arg p, Word_Arg n] m = Some (of_nat (length xs), writes buf (xs @ [0]) m) \<and>
      sint p \<le> int (length xs) \<and> int (length xs) \<le> max (sint p) 10 + 1 \<and> read_int (xs @ [0]) = Some (sint n))"
proof -
  define q where "q = max 0 (sint p)"
  have l: "length (decimal_text (- 1) n) \<le> 11" "sint p \<le> int (length (decimal_text q n))" "int (length (decimal_text q n)) \<le> max (sint p) 10 + 1"
    using decimal_text_length[of "- 1" n] decimal_text_length[of q n] by (simp_all add: q_def)
  have "length (decimal_text (- 1) n) < unat sz" "length (decimal_text q n) < unat sz"
    using l(1,3) assms(2,3) by linarith+
  then show ?thesis
    using rt_vsnprintf_text[OF format_decimal assms(1)] rt_vsnprintf_text[OF format_decimal_precision[of p n, folded q_def] assms(1)] read_decimal l
    unfolding rt_snprintf_def by blast
qed

theorem snprintf_decimal_roundtrip_witness:
  "(\<exists>xs. rt_snprintf 0x1000 16 [37, 100, 0] [Word_Arg (- 42)] (\<lambda>_. 7) = Some (of_nat (length xs), writes 0x1000 (xs @ [0]) (\<lambda>_. 7)) \<and>
      length xs \<le> 11 \<and> read_int (xs @ [0]) = Some (sint (- 42 :: u32))) \<and>
    (\<exists>xs. rt_snprintf 0x1000 16 [37, 46, 42, 100, 0] [Word_Arg 5, Word_Arg (- 42)] (\<lambda>_. 7) = Some (of_nat (length xs), writes 0x1000 (xs @ [0]) (\<lambda>_. 7)) \<and>
      5 \<le> length xs \<and> length xs \<le> 11 \<and> read_int (xs @ [0]) = Some (sint (- 42 :: u32)))"
  using snprintf_decimal_roundtrip[of "0x1000" 16 5 "- 42" "\<lambda>_. 7"] by simp

text \<open>
  C32: Kernel objects on the heap: any sequence of create and delete calls for semaphores,
  mutexes, events, mailboxes, message queues, memory pools and timers, mixed in any order,
  returns, whatever creations fail for want of memory. At the end the heap memory in use is
  exactly what was in use at the start and the control blocks and pools of the objects that
  are still alive, which do not overlap; when every created object has been deleted it is
  exactly as at the start: nothing leaks, also on the error paths, and the kernel invariant,
  the containers and the heap are well-formed. The conditions: names are closed strings, a
  deleted object is one that was created and is still alive, the callback of a timer is one
  of the application, and the block size with its header times the block count of a memory
  pool does not overflow 32 bits (where it does, rt_mp_create writes beyond the pool, see
  the findings).
\<close>

theorem objects_never_leak:
  assumes "dyn_inv d own s" "list_all (op_valid any_valid) ops"
  shows "\<exists>L s' own'. dyn_run any_create any_delete ops ([], s) = Some (L, s') \<and> dyn_inv d own' s' \<and> own \<subseteq>\<^sub>m own' \<and> distinct L \<and>
    dom own' = dom own \<union> (\<Union>h \<in> set L. any_blocks h s') \<and> (\<forall>h \<in> set L. any_here h s' \<and> any_blocks h s' \<inter> dom own = {}) \<and>
    (\<forall>h \<in> set L. \<forall>g \<in> set L. h \<noteq> g \<longrightarrow> any_blocks h s' \<inter> any_blocks g s' = {}) \<and> (L = [] \<longrightarrow> own' = own)"
  using assms by (rule any_run_owns)

theorem objects_never_leak_witness:
  "\<exists>s L s' own'. krn s = ex_state \<and> dyn_run any_create any_delete [Create (New_Mb [109, 0] 4 0), Create (New_Timer [116, 0] (User_Timeout 1) 5 0),
     Create (New_Sem [110, 0] 1 0), Delete (Dyn_Sem, 7), Create (New_Mp [112, 0] 3 8)] ([], s) = Some (L, s') \<and> dyn_inv 0 own' s' \<and>
     dom own' = (\<Union>h \<in> set L. any_blocks h s')"
proof -
  obtain s where s: "dyn_inv 0 Map.empty s" "krn s = ex_state" using ex_dyn by blast
  have "list_all (op_valid any_valid) [Create (New_Mb [109, 0] 4 0), Create (New_Timer [116, 0] (User_Timeout 1) 5 0),
     Create (New_Sem [110, 0] 1 0), Delete (Dyn_Sem, 7), Create (New_Mp [112, 0] 3 8)]"
    by (simp add: terminated_def mp_valid_def timer_valid_def RT_ALIGN_def)
  then show ?thesis using objects_never_leak[OF s(1)] s(2) by fastforce
qed

text \<open>
  C33: The idle thread: rt_thread_idle_excute returns with no thread left on the defunct
  list, and the control blocks and stacks of the defunct threads, and nothing else, are free
  heap memory again. The threads are threads created on the heap that have no cleanup
  function.
\<close>

theorem thread_memory_is_reclaimed:
  assumes "dyn_inv d own s" "\<forall>t \<in> set (tlists (krn s) Defunct). reapable own t s"
    "\<forall>t \<in> set (tlists (krn s) Defunct). \<forall>u \<in> set (tlists (krn s) Defunct). t \<noteq> u \<longrightarrow> thread_blocks t s \<inter> thread_blocks u s = {}"
  shows "\<exists>s'. rt_thread_idle_excute clean s = Some s' \<and> tlists (krn s') Defunct = [] \<and>
    dyn_inv d (own |` (- (\<Union>t \<in> set (tlists (krn s) Defunct). thread_blocks t s))) s'"
  using assms by (rule rt_thread_idle_excute_ok)

theorem thread_memory_is_reclaimed_witness:
  "\<exists>s s'. tlists (krn s) Defunct = [0x2000000c] \<and> rt_thread_idle_excute (\<lambda>_ _. Some) s = Some s' \<and>
    tlists (krn s') Defunct = [] \<and> dyn_inv 0 Map.empty s'"
proof -
  obtain s own where s: "dyn_inv 0 own s" "krn s = ex_dead_state" "reapable own ex_dead s" "thread_blocks ex_dead s = dom own" using ex_reap by blast
  have l: "tlists (krn s) Defunct = [ex_dead]" by (simp add: s(2))
  have "own |` (- dom own) = Map.empty" by (auto simp: restrict_map_def fun_eq_iff)
  then have "\<exists>s'. rt_thread_idle_excute (\<lambda>_ _. Some) s = Some s' \<and> tlists (krn s') Defunct = [] \<and> dyn_inv 0 Map.empty s'"
    using thread_memory_is_reclaimed[OF s(1), of "\<lambda>_ _. Some"] s(3,4) unfolding l by simp
  then show ?thesis using l by blast
qed

text \<open>
  C34: The object containers are typed: if every object stands in the container of the class
  in its type field, this stays so under rt_object_init, rt_object_detach,
  rt_object_allocate and rt_object_delete, and what rt_object_find returns has the class
  that was asked for.
\<close>

theorem objects_keep_their_class:
  assumes "typed (krn s)" "c AND RT_Object_Class_Static = 0"
  shows "(\<not> attached x (krn s) \<longrightarrow> rt_object_init x c nm (krn s) = Some k' \<longrightarrow> typed k') \<and> typed (rt_object_detach x (krn s)) \<and>
    (dyn_inv d own s \<longrightarrow> terminated nm \<longrightarrow> rt_object_allocate c nm s = Some (r, s1) \<longrightarrow> typed (krn s1)) \<and>
    (rt_object_delete x s = Some s2 \<longrightarrow> typed (krn s2)) \<and>
    (rt_object_find nm' c (krn s) = Some (Some y, k'') \<longrightarrow> obj_type (objects (krn s) y) AND NOT RT_Object_Class_Static = c)"
  using typed_init[OF assms(1) _ assms(2)] typed_detach[OF assms(1)] typed_allocate[OF _ assms(1) _ assms(2)] typed_delete[OF assms(1)]
    typed_find[OF assms(1)] by blast

theorem objects_keep_their_class_witness:
  "\<exists>k'. rt_object_init (Obj 8) 2 [115, 0] ex_state = Some k' \<and> typed k' \<and> rt_object_container k' 2 = [Obj 8]"
proof -
  obtain s :: dstate where s: "krn s = ex_state" using ex_dyn by blast
  have t: "typed (krn s)" unfolding s by (simp add: typed_def ex_state_def)
  obtain k' where k: "rt_object_init (Obj 8) 2 [115, 0] ex_state = Some k'" "rt_object_container k' 2 = [Obj 8]"
    using rt_object_init_spec[of "[115, 0]" "Obj 8" 2 ex_state] by (auto simp: terminated_def ex_state_def q_insert_after_def)
  then show ?thesis using objects_keep_their_class[OF t, of 2 "Obj 8" "[115, 0]" k'] ex_unattached s by auto
qed

text \<open>
  C35: The expression compiler and the virtual machine of the finsh shell: for a list of
  well-typed statements whose trees fit the node table and whose code fits the text segment,
  finsh_compiler_run reports no error, finsh_vm_run stops, the memory is the one that the
  meaning of the statements gives, and the value at the bottom of the stack is the meaning
  of the last statement at its width. Functions called from a script are a parameter.
\<close>

theorem finsh_computes_the_meaning:
  assumes "\<forall>e \<in> set es. wt env e" "node_count (trees es) \<le> 16" "length (stmts_code env es) \<le> FINSH_TEXT_MAX"
    "length (finsh_vm_stack s) = FINSH_STACK_MAX" "eval_stmts env sysc es (data_mem s) = Some (x, m)"
  shows "\<exists>s1 s2. finsh_compiler_run env (trees es) s err = Some (s1, err) \<and> finsh_vm_run sysc s1 = Some s2 \<and>
    data_mem s2 = m \<and> take_bit (vbits env (last es)) (finsh_stack_bottom s2) = x"
  using assms by (rule finsh_run_correct)

theorem finsh_computes_the_meaning_witness:
  "\<exists>s1 s2. finsh_compiler_run ex_env (trees ex_script) ex_vm 0 = Some (s1, 0) \<and> finsh_vm_run ex_sysc s1 = Some s2 \<and>
    data_mem s2 = ex_script_mem \<and> finsh_stack_bottom s2 = 15"
  using finsh_computes_the_meaning[of ex_script ex_env ex_vm ex_sysc 15 ex_script_mem 0] ex_script_ok by simp

text \<open>
  C36: A defect of the expression compiler: eight postfix increments of an int variable are
  well-typed and need exactly the sixteen nodes of the node table, but finsh_compiler_run
  writes past the end of the text segment, since finsh_code_byte does not test the position.
\<close>

theorem finsh_text_segment_overrun:
  assumes "sym_width env (Var p) = 3"
  shows "node_count (trees (replicate 8 (Inc p))) = 16 \<and> (\<forall>e \<in> set (replicate 8 (Inc p)). wt env e) \<and>
    finsh_compiler_run env (trees (replicate 8 (Inc p))) s err = None"
  using inc_overruns[OF assms] assms by (simp add: sym_ok_def)

theorem finsh_text_segment_overrun_witness:
  "sym_width ex_env (Var 0x20000100) = 3 \<and> finsh_compiler_run ex_env (trees (replicate 8 (Inc 0x20000100))) ex_vm 0 = None"
  using finsh_text_segment_overrun[of ex_env "0x20000100"] ex_env_width by blast

text \<open>
  C37: dfs_normalize_path is equivalent to resolving the components of the path: empty
  components and single dots vanish, two dots take back the component before them. For a
  path that is absolute and does not go above the root, the in-place rewriting stays inside
  its buffer and the string it leaves is the path of the resolved components, and
  normalising that again changes nothing.
\<close>

theorem normalize_path_resolves_dots:
  assumes full: "hd (full_path wd dir fn) = 0x2f" "0 \<notin> set (full_path wd dir fn)"
    and res: "resolve [] (split_path (full_path wd dir fn)) = Some st"
  shows "\<exists>b. dfs_normalize_path wd True dir fn = Some (Some b) \<and> takeWhile (\<lambda>a. a \<noteq> 0) b = render st \<and>
    (\<exists>b'. dfs_normalize_path wd' True dir' (takeWhile (\<lambda>a. a \<noteq> 0) b) = Some (Some b') \<and> takeWhile (\<lambda>a. a \<noteq> 0) b' = render st)"
proof -
  have *: "\<exists>b. dfs_normalize_path wd True dir fn = Some (Some b) \<and> takeWhile (\<lambda>a. a \<noteq> 0) b = render st"
    if "hd (full_path wd dir fn) = 0x2f" "0 \<notin> set (full_path wd dir fn)" "resolve [] (split_path (full_path wd dir fn)) = Some st"
    for wd dir fn
  proof -
    obtain x r where "full_path wd dir fn = x # r" by (cases "full_path wd dir fn") (auto simp: full_path_def split: if_splits)
    with that normalize_in_place_resolves[of r st] show ?thesis by (auto simp: dfs_normalize_path_full)
  qed
  obtain b where b: "dfs_normalize_path wd True dir fn = Some (Some b)" "takeWhile (\<lambda>a. a \<noteq> 0) b = render st"
    using *[OF assms] by blast
  have "0 \<notin> set (render st)" using b(2) by (metis set_takeWhileD)
  moreover have "hd (render st) = 0x2f" "render st \<noteq> []" by (cases "rev st"; auto simp: render_def)+
  moreover have "\<forall>c\<in>set st. plain_component c" using resolve_plain[OF res] split_path_components by auto
  ultimately have "\<exists>b'. dfs_normalize_path wd' True dir' (render st) = Some (Some b') \<and> takeWhile (\<lambda>a. a \<noteq> 0) b' = render st"
    using *[of wd' dir' "render st"] resolve_render[of st] by (simp add: full_path_def)
  with b show ?thesis by auto
qed

theorem normalize_path_resolves_dots_witness:
  "\<exists>b. dfs_normalize_path [0x2f] True (Some [0x2f, 0x61]) [0x2e, 0x2e, 0x2f, 0x2f, 0x62, 0x2f, 0x2e] = Some (Some b) \<and>
    takeWhile (\<lambda>a. a \<noteq> 0) b = [0x2f, 0x62]"
  using normalize_path_resolves_dots[of "[0x2f]" "Some [0x2f, 0x61]" "[0x2e, 0x2e, 0x2f, 0x2f, 0x62, 0x2f, 0x2e]" "[[0x62]]" "[]" None]
  by (auto simp: full_path_def render_def)

text \<open>
  C38: dfs_filesystem_lookup on a normal path, with the mounts at normal paths: the mount
  returned is one whose mount point is, component by component, a beginning of the path, and
  no mounted file system has a longer one; no mount is returned exactly when none covers the
  path.
\<close>

theorem lookup_finds_longest_mount:
  assumes "mounts_ok s" "\<forall>c\<in>set p. plain_component c"
  shows "case dfs_filesystem_lookup (render (rev p)) s of
     None \<Rightarrow> \<forall>e\<in>set (filesystem_table s). \<forall>q cs. mount_at_components e q \<longrightarrow> p \<noteq> q @ cs
   | Some j \<Rightarrow> j < length (filesystem_table s) \<and> (\<exists>q cs. mount_at_components (filesystem_table s ! j) q \<and> p = q @ cs \<and>
       (\<forall>e\<in>set (filesystem_table s). \<forall>q' cs'. mount_at_components e q' \<longrightarrow> p = q' @ cs' \<longrightarrow> length q' \<le> length q))"
  using assms by (rule lookup_longest_components)

theorem lookup_finds_longest_mount_witness:
  "mounts_ok ex_dfs \<and> (\<exists>j q. dfs_filesystem_lookup (render (rev [[0x73, 0x64], [0x61]])) ex_dfs = Some j \<and>
     mount_at_components (filesystem_table ex_dfs ! j) q \<and> 1 \<le> length q)"
proof -
  have p: "\<forall>c\<in>set [[0x73, 0x64], [0x61]]. plain_component c" by (simp add: plain_component_def)
  have m: "mount_at_components (filesystem_table ex_dfs ! 1) [[0x73, 0x64]]" "filesystem_table ex_dfs ! 1 \<in> set (filesystem_table ex_dfs)"
    by (simp_all add: mount_at_components_def ex_dfs_def render_def plain_component_def)
  show ?thesis
  proof (cases "dfs_filesystem_lookup (render (rev [[0x73, 0x64], [0x61]])) ex_dfs")
    case None
    with lookup_finds_longest_mount[OF ex_dfs_mounts p] m show ?thesis by fastforce
  next
    case (Some j)
    with lookup_finds_longest_mount[OF ex_dfs_mounts p] obtain q where "mount_at_components (filesystem_table ex_dfs ! j) q"
      "\<And>e q' cs'. e \<in> set (filesystem_table ex_dfs) \<Longrightarrow> mount_at_components e q' \<Longrightarrow> [[0x73, 0x64], [0x61]] = q' @ cs' \<Longrightarrow> length q' \<le> length q"
      by auto
    with this(2)[OF m(2) m(1), of "[[0x61]]"] Some ex_dfs_mounts show ?thesis by auto
  qed
qed

text \<open>
  C39: Any sequence of open, close, read, write, lseek, fsync, unlink and rename, whatever
  the answers, with file systems that leave the reference count and the magic number of a
  descriptor alone: between the calls every descriptor is all zero or open with exactly one
  reference, the set of open descriptors is what the answers say, open answers the lowest
  descriptor that is not open, and close succeeds on open ones only. No call leaks a
  descriptor or a reference.
\<close>

theorem file_descriptors_are_tracked:
  assumes "\<And>k. polite_ops (lib k)" "fd_inv s" "do_file_calls lib cs s = Some (rs, s')"
  shows "fd_inv s' \<and> open_fds s' = track cs rs (open_fds s) \<and> answers_ok cs rs (open_fds s) (length (fd_table s))"
  by (rule file_calls_track[OF assms])

theorem file_descriptors_are_tracked_witness:
  "\<exists>s'. do_file_calls ex_lib [Open [0x2f, 0x61] 0, Open [0x73, 0x64, 0x2f, 0x62] 0, Close 0, Close 0] ex_dfs = Some ([0, 1, 0, - 1], s') \<and>
     fd_inv s' \<and> open_fds s' = {1}"
proof -
  obtain s' where s': "do_file_calls ex_lib [Open [0x2f, 0x61] 0, Open [0x73, 0x64, 0x2f, 0x62] 0, Close 0, Close 0] ex_dfs = Some ([0, 1, 0, - 1], s')"
    using ex_file_calls by (auto simp del: do_file_calls.simps)
  from file_descriptors_are_tracked[OF ex_lib_polite ex_dfs_fds(1) s'] have "fd_inv s' \<and> open_fds s' = {1}"
    by (auto simp: ex_dfs_fds(2))
  with s' show ?thesis by blast
qed

text \<open>
  C40: Reference counting of devices: after any sequence of rt_device_open and
  rt_device_close on a device that started closed, the count is the number of opens that
  succeeded and are not closed yet, the open flag is set exactly while there is one, and a
  standalone device never has two users. The driver leaves the device structure to device.c,
  its close succeeds, and its initialisation does not answer -RT_ENOSYS.
\<close>

theorem device_counts_its_users:
  assumes "quiet drv x" "closes drv x" "dev_ref_count (dv_dev s x) = 0" "dev_open_flag (dv_dev s x) = 0"
    and run: "dev_calls drv x cs s = Some (rs, s')"
  shows "unat (dev_ref_count (dv_dev s' x)) = users_held 0 cs rs \<and>
    (dev_open_flag (dv_dev s' x) AND 8 \<noteq> 0 \<longleftrightarrow> 0 < users_held 0 cs rs) \<and> (standalone x s \<longrightarrow> users_held 0 cs rs \<le> 1)"
proof -
  have "unat (dev_ref_count (dv_dev s' x)) = users_held 0 cs rs" using dev_calls_counts[OF assms(1) run] assms(3) by simp
  moreover from this have "0 < users_held 0 cs rs \<longleftrightarrow> dev_ref_count (dv_dev s' x) \<noteq> 0" by (metis unat_eq_zero neq0_conv)
  moreover have "dev_ok x s' \<and> (standalone x s \<longrightarrow> dev_ref_count (dv_dev s' x) \<le> 1)"
    using dev_calls_ok[OF assms(1,2) run] assms(3,4) by (simp add: dev_ok_def)
  ultimately show ?thesis by (auto simp: dev_ok_def word_le_nat_alt)
qed

theorem device_counts_its_users_witness:
  "\<exists>s'. dev_calls ex_driver (Obj 5) [Open_Device 3, Open_Device 3, Close_Device, Open_Device 1] ex_devs = Some ([0, - RT_EBUSY, 0, 0], s') \<and>
     dev_ref_count (dv_dev s' (Obj 5)) = 1"
proof -
  obtain s' where s': "dev_calls ex_driver (Obj 5) [Open_Device 3, Open_Device 3, Close_Device, Open_Device 1] ex_devs = Some ([0, - RT_EBUSY, 0, 0], s')"
    using ex_dev_calls by blast
  from device_counts_its_users[OF ex_driver_ok _ _ s'] have "unat (dev_ref_count (dv_dev s' (Obj 5))) = unat (1 :: u8)"
    by (simp add: ex_devs_def opened_def)
  with s' show ?thesis by (auto simp only: word_unat_eq_iff)
qed

end
